(* ===== verification/Prelude.thy ===== *)
theory Prelude
  imports Main "HOL-Library.Word" "HOL-Library.Signed_Division" "HOL-Library.Sublist"
begin

section \<open>Shared types, conversions and list-on-the-heap lemmas\<close>

text \<open>
  What every component of the development shares:
  \<^item> addresses and bytes: a pointer is a natural number below \<open>2 ^ 64\<close>, \<open>NULL\<close> is
    \<open>0\<close>; a byte is an \<open>8 word\<close> (plain \<open>char\<close> is unsigned on aarch64);
  \<^item> C's conversions of an integer to a signed 32-bit and 64-bit type;
  \<^item> intrusive linked lists: a C list threaded through the \<open>next\<close> (and \<open>prev\<close>)
    fields of structs is a pair of functions on node names; \<open>sll\<close> and \<open>dll\<close> say
    which HOL list such a chain spells out, and the lemmas describe pushing and unlinking.
\<close>

unbundle bit_operations_syntax

type_synonym addr = nat
type_synonym byte = "8 word"
type_synonym u32 = "32 word"
type_synonym u64 = "64 word"

abbreviation (input) NULL :: addr where "NULL \<equiv> 0"

named_theorems model_defs \<open>definitions of the model that proofs unfold\<close>

subsection \<open>C integer conversions\<close>

text \<open>Conversion to \<open>int\<close> (32 bits) and \<open>long\<close> (64 bits), two's complement.\<close>

definition to_s32 :: "int \<Rightarrow> int" where
  "to_s32 x = signed_take_bit 31 x"

definition to_s64 :: "int \<Rightarrow> int" where
  "to_s64 x = signed_take_bit 63 x"

lemma to_s32_id: "- (2 ^ 31) \<le> x \<Longrightarrow> x < 2 ^ 31 \<Longrightarrow> to_s32 x = x"
  unfolding to_s32_def by (rule signed_take_bit_int_eq_self) auto

lemma to_s64_id: "- (2 ^ 63) \<le> x \<Longrightarrow> x < 2 ^ 63 \<Longrightarrow> to_s64 x = x"
  unfolding to_s64_def by (rule signed_take_bit_int_eq_self) auto

lemma sdiv_nonneg: "0 \<le> (a::int) \<Longrightarrow> 0 \<le> b \<Longrightarrow> a sdiv b = a div b"
  by (cases "a = 0 \<or> b = 0") (auto simp: signed_divide_int_def)

lemma smod_nonneg: "0 \<le> (a::int) \<Longrightarrow> 0 \<le> b \<Longrightarrow> a smod b = a mod b"
  by (cases "a = 0"; cases "b = 0") (auto simp: signed_modulo_int_def)

subsection \<open>Powers of two on the naturals\<close>

lemma unset_bit_nat_eq: "unset_bit k b = b - (if bit b k then 2 ^ k else 0)" for b :: nat
proof -
  have "int (unset_bit k b) = unset_bit k (int b)"
    by (rule of_nat_unset_bit_eq)
  also have "\<dots> = int b - (if bit b k then 2 ^ k else 0)"
    by (simp add: unset_bit_eq bit_of_nat_iff_bit)
  finally have *: "int (unset_bit k b) = int b - (if bit b k then 2 ^ k else 0)" .
  have "unset_bit k b = nat (int (unset_bit k b))" by simp
  also have "\<dots> = b - (if bit b k then 2 ^ k else 0)"
    unfolding * by (simp add: nat_diff_distrib' nat_power_eq)
  finally show ?thesis .
qed

lemma flip_aligned:
  fixes b k :: nat
  assumes "2 ^ k dvd b"
  shows "b XOR 2 ^ k = (if even (b div 2 ^ k) then b + 2 ^ k else b - 2 ^ k)"
proof -
  have "b XOR 2 ^ k = flip_bit k b"
    by (simp add: flip_bit_eq_xor push_bit_eq_mult)
  also have "\<dots> = (if even (b div 2 ^ k) then b + 2 ^ k else b - 2 ^ k)"
    by (simp add: flip_bit_eq_if set_bit_eq unset_bit_nat_eq bit_iff_odd)
  finally show ?thesis .
qed

lemma aligned_add_le:
  fixes a b d :: nat
  assumes "d dvd a" "d dvd b" "a < b"
  shows "a + d \<le> b"
proof -
  from assms obtain x y where "a = d * x" "b = d * y" by (elim dvdE)
  with assms(3) have "x < y" by simp
  then have "d * Suc x \<le> d * y" by (intro mult_le_mono2) simp
  with \<open>a = d * x\<close> \<open>b = d * y\<close> show ?thesis by simp
qed

lemma pow2_dvd_le: "i \<le> j \<Longrightarrow> (2::nat) ^ j dvd b \<Longrightarrow> 2 ^ i dvd b"
  by (rule dvd_trans [OF le_imp_power_dvd])

lemma mask_and_mod: "(n::nat) AND (2 ^ k - 1) = n mod 2 ^ k"
  using take_bit_eq_mask [of k n] by (simp add: mask_eq_exp_minus_1 take_bit_eq_mod)

subsection \<open>Singly linked lists\<close>

fun sll :: "('p \<Rightarrow> 'p option) \<Rightarrow> 'p option \<Rightarrow> 'p list \<Rightarrow> bool" where
  "sll nx h [] \<longleftrightarrow> h = None"
| "sll nx h (x # xs) \<longleftrightarrow> h = Some x \<and> sll nx (nx x) xs"

lemma sll_cong:
  "sll nx h xs \<Longrightarrow> (\<And>x. x \<in> set xs \<Longrightarrow> nx' x = nx x) \<Longrightarrow> sll nx' h xs"
  by (induction xs arbitrary: h) auto

lemma sll_upd_other: "x \<notin> set xs \<Longrightarrow> sll (nx(x := v)) h xs = sll nx h xs"
  by (induction xs arbitrary: h) auto

lemma sll_None: "sll nx None xs \<longleftrightarrow> xs = []"
  by (cases xs) auto

lemma sll_Some: "sll nx (Some x) xs \<longleftrightarrow> (\<exists>ys. xs = x # ys \<and> sll nx (nx x) ys)"
  by (cases xs) auto

lemma sll_unique: "sll nx h xs \<Longrightarrow> sll nx h ys \<Longrightarrow> xs = ys"
proof (induction xs arbitrary: h ys)
  case Nil
  then show ?case by (simp add: sll_None)
next
  case (Cons x xs)
  then show ?case by (auto simp: sll_Some)
qed

lemma sll_append_node:
  assumes "sll nx h xs" "distinct xs" "x \<notin> set xs" "xs \<noteq> []"
  shows "sll (nx(last xs := Some x, x := None)) h (xs @ [x])"
  using assms
proof (induction xs arbitrary: h)
  case Nil
  then show ?case by simp
next
  case (Cons y ys)
  show ?case
  proof (cases "ys = []")
    case True
    with Cons.prems show ?thesis by auto
  next
    case False
    with Cons.prems have "sll (nx(last ys := Some x, x := None)) (nx y) (ys @ [x])"
      by (intro Cons.IH) auto
    moreover from False Cons.prems have "y \<noteq> last ys" "y \<noteq> x" by (auto dest: last_in_set)
    ultimately show ?thesis using Cons.prems False by (simp add: fun_upd_def)
  qed
qed

text \<open>Linking a node behind the last of a prefix.\<close>

lemma sll_unlink:
  assumes "sll nx h (xs @ z # zs)" "xs \<noteq> []" "distinct (xs @ z # zs)"
  shows "sll (nx(last xs := nx z)) h (xs @ zs)"
  using assms
proof (induction xs arbitrary: h)
  case (Cons x xs)
  show ?case
  proof (cases "xs = []")
    case True
    then show ?thesis using Cons.prems by (auto intro!: sll_cong [of nx "nx z"])
  next
    case False
    then have "x \<noteq> last xs" using Cons.prems(3) last_in_set [OF False] by auto
    then show ?thesis using Cons.IH [OF _ False] Cons.prems False by auto
  qed
qed simp

lemma sll_insert_middle:
  assumes "sll nx h (xs @ ys)" "xs \<noteq> []" "distinct (xs @ ys)" "n \<notin> set (xs @ ys)"
    and "\<And>x. x \<in> set (xs @ ys) \<Longrightarrow> nx' x = (if x = last xs then Some n else nx x)"
    and "nx' n = nx (last xs)"
  shows "sll nx' h (xs @ n # ys)"
  using assms
proof (induction xs arbitrary: h)
  case (Cons x xs)
  show ?case
  proof (cases "xs = []")
    case True
    have "sll nx' (nx x) ys"
      by (rule sll_cong [of nx]) (use Cons.prems True in auto)
    then show ?thesis using Cons.prems True by simp
  next
    case False
    have "sll nx' (nx x) (xs @ n # ys)"
      by (rule Cons.IH) (use Cons.prems False in auto)
    moreover have "x \<noteq> last xs" using Cons.prems(3) False by (auto dest: last_in_set)
    ultimately show ?thesis using Cons.prems False by simp
  qed
qed simp

subsection \<open>Doubly linked lists\<close>

text \<open>
  \<open>dll nx pv p h xs\<close>: from the head pointer \<open>h\<close>, the \<open>next\<close> chain visits exactly
  \<open>xs\<close>, and each node's \<open>prev\<close> is the node before it, that of the first one \<open>p\<close>.
\<close>

fun dll :: "('p \<Rightarrow> 'p option) \<Rightarrow> ('p \<Rightarrow> 'p option) \<Rightarrow> 'p option \<Rightarrow> 'p option \<Rightarrow> 'p list \<Rightarrow> bool" where
  "dll nx pv p h [] \<longleftrightarrow> h = None"
| "dll nx pv p h (x # xs) \<longleftrightarrow> h = Some x \<and> pv x = p \<and> dll nx pv (Some x) (nx x) xs"

lemma dll_cong:
  "dll nx pv p h xs \<Longrightarrow> (\<And>x. x \<in> set xs \<Longrightarrow> nx' x = nx x) \<Longrightarrow>
   (\<And>x. x \<in> set xs \<Longrightarrow> pv' x = pv x) \<Longrightarrow> dll nx' pv' p h xs"
  by (induction xs arbitrary: h p) auto

lemma dll_None: "dll nx pv p None xs \<longleftrightarrow> xs = []"
  by (cases xs) auto

lemma dll_Some:
  "dll nx pv p (Some x) xs \<longleftrightarrow> (\<exists>ys. xs = x # ys \<and> pv x = p \<and> dll nx pv (Some x) (nx x) ys)"
  by (cases xs) auto

lemma dll_Nil_iff: "dll nx pv p h xs \<Longrightarrow> h = None \<longleftrightarrow> xs = []"
  by (cases xs) auto

lemma dll_head: "dll nx pv p h (x # xs) \<Longrightarrow> h = Some x"
  by simp

lemma dll_sll: "dll nx pv p h xs \<Longrightarrow> sll nx h xs"
  by (induction xs arbitrary: p h) auto

lemma dll_head_iff: "dll nx pv p h xs \<Longrightarrow> h = Some x \<longleftrightarrow> xs \<noteq> [] \<and> hd xs = x"
  by (cases xs) auto

text \<open>What the \<open>prev\<close> and \<open>next\<close> of a node in the middle of a chain hold.\<close>

lemma dll_middle:
  assumes "dll nx pv p h (xs @ x # ys)"
  shows "pv x = (if xs = [] then p else Some (last xs))"
    and "nx x = (case ys of [] \<Rightarrow> None | y # _ \<Rightarrow> Some y)"
  using assms by (induction xs arbitrary: p h) (auto split: list.split simp: dll_None dll_Some)

text \<open>Unlinking the first node, and unlinking a later one.\<close>

lemma dll_drop_first:
  assumes "dll nx pv p (Some x) (x # xs)" "distinct (x # xs)"
    and that: "\<And>y. y \<in> set xs \<Longrightarrow> nx' y = nx y"
       "\<And>y. y \<in> set xs \<Longrightarrow> pv' y = (if nx x = Some y then p else pv y)"
  shows "dll nx' pv' p (nx x) xs"
proof (cases xs)
  case Nil
  with assms show ?thesis by simp
next
  case (Cons y ys)
  with assms have 1: "nx x = Some y" and 2: "dll nx pv (Some y) (nx y) ys"
    and 3: "y \<notin> set ys" by auto
  from that(1) Cons have "nx' y = nx y" by simp
  moreover from that(2) [of y] Cons 1 have "pv' y = p" by simp
  moreover have "dll nx' pv' (Some y) (nx y) ys"
    using 2 by (rule dll_cong) (use that 1 3 Cons in auto)
  ultimately show ?thesis using Cons 1 by simp
qed

lemma dll_unlink_middle:
  assumes "dll nx pv p h (xs @ x # ys)" "distinct (xs @ x # ys)" "xs \<noteq> []"
    and nx': "\<And>y. y \<in> set (xs @ ys) \<Longrightarrow> nx' y = (if y = last xs then nx x else nx y)"
    and pv': "\<And>y. y \<in> set (xs @ ys) \<Longrightarrow> pv' y = (if nx x = Some y then pv x else pv y)"
  shows "dll nx' pv' p h (xs @ ys)"
  using assms
proof (induction xs arbitrary: p h)
  case Nil
  then show ?case by simp
next
  case (Cons z zs)
  have z: "h = Some z" "pv z = p" "dll nx pv (Some z) (nx z) (zs @ x # ys)"
    using Cons.prems(1) by auto
  have nxx: "nx x = (case ys of [] \<Rightarrow> None | y # _ \<Rightarrow> Some y)"
    using dll_middle(2) [OF Cons.prems(1)] .
  have znot: "nx x \<noteq> Some z"
    using nxx Cons.prems(2) by (auto split: list.splits)
  have pvz: "pv' z = p"
    using Cons.prems(5) [of z] znot z(2) by simp
  show ?case
  proof (cases "zs = []")
    case True
    have zx: "nx z = Some x" "pv x = Some z" using z(3) True by auto
    have d: "dll nx pv (Some x) (nx x) ys" using z(3) True by auto
    have "dll nx' pv' (Some z) (nx x) ys"
    proof (cases ys)
      case Nil
      then show ?thesis using nxx by simp
    next
      case (Cons y ys')
      have "nx' w = nx w" if "w \<in> set ys" for w
        using Cons.prems(4) [of w] that Cons.prems(2) True by auto
      moreover have "pv' w = (if w = y then Some z else pv w)" if "w \<in> set ys" for w
        using Cons.prems(5) [of w] that nxx Cons zx by auto
      moreover have "y \<notin> set ys'" using Cons.prems(2) Cons by simp
      ultimately show ?thesis
        using d Cons nxx
        by (auto intro!: dll_cong [of nx pv "Some y" "nx y" ys' nx' pv'])
    qed
    moreover have "nx' z = nx x" using Cons.prems(4) [of z] True by simp
    ultimately show ?thesis using True z(1) pvz by simp
  next
    case False
    have "dll nx' pv' (Some z) (nx z) (zs @ ys)"
    proof (rule Cons.IH [OF z(3) _ False])
      show "distinct (zs @ x # ys)" using Cons.prems(2) by simp
      show "nx' y = (if y = last zs then nx x else nx y)" if "y \<in> set (zs @ ys)" for y
        using Cons.prems(4) [of y] that False by simp
      show "pv' y = (if nx x = Some y then pv x else pv y)" if "y \<in> set (zs @ ys)" for y
        using Cons.prems(5) [of y] that by simp
    qed
    moreover have "z \<noteq> last zs" using Cons.prems(2) False by (auto dest: last_in_set)
    then have "nx' z = nx z" using Cons.prems(4) [of z] False by simp
    ultimately show ?thesis using z(1) pvz by simp
  qed
qed

lemma dll_push:
  assumes "dll nx pv None h xs" "e \<notin> set xs" "distinct xs"
    and "nx' e = h" "pv' e = None"
    and "\<And>y. y \<in> set xs \<Longrightarrow> nx' y = nx y"
    and "\<And>y. y \<in> set xs \<Longrightarrow> pv' y = (if h = Some y then Some e else pv y)"
  shows "dll nx' pv' None (Some e) (e # xs)"
proof (cases xs)
  case Nil
  with assms show ?thesis by simp
next
  case (Cons y ys)
  with assms(1) have "h = Some y" "dll nx pv (Some y) (nx y) ys" by auto
  moreover have "y \<notin> set ys" using assms(3) Cons by simp
  moreover have "dll nx' pv' (Some y) (nx y) ys"
    using \<open>dll nx pv (Some y) (nx y) ys\<close>
    by (rule dll_cong) (use assms(6,7) Cons \<open>h = Some y\<close> \<open>y \<notin> set ys\<close> in auto)
  ultimately show ?thesis using assms(4-7) Cons by simp
qed

end
