(* ===== verification/Mm.thy ===== *)
theory Mm
  imports Prelude
begin

section \<open>The page allocator: state and operations (src/mm.c)\<close>

text \<open>
  The buddy allocator as the code has it: an array \<open>page_list\<close> of \<open>struct PageInfo\<close>, one per
  4 KiB page, and an array \<open>free_list\<close> of the heads of 14 doubly linked lists, one per order,
  threaded through the \<open>prev\<close>/\<open>next\<close> fields of the pages. A \<open>struct PageInfo *\<close> always
  points into \<open>page_list\<close>, so it is modelled as an index into it, \<open>None\<close> being \<open>NULL\<close>.
  The \<open>uart_puts\<close> messages are not part of this state.
\<close>

subsection \<open>Data (include/mm.h)\<close>

definition MAX_ORDER :: nat where [simp]: "MAX_ORDER = 14"
definition PAGE_SIZE :: nat where [simp]: "PAGE_SIZE = 4096"
definition MEMORY_SIZE :: nat where [simp]: "MEMORY_SIZE = 0x3C000000"
definition PAGE_NUM :: nat where "PAGE_NUM = MEMORY_SIZE div PAGE_SIZE"
definition MAX_BLOCK_SIZE :: nat where [simp]: "MAX_BLOCK_SIZE = 2 ^ (MAX_ORDER - 1)"
definition MAX_ALLOC_SIZE :: nat where [simp]: "MAX_ALLOC_SIZE = PAGE_SIZE * MAX_BLOCK_SIZE"

record PageInfo =
  pi_idx :: nat
  pi_order :: int
  pi_cache_order :: int
  pi_entry_in_list :: "nat option"
  pi_prev :: "nat option"
  pi_next :: "nat option"

definition zero_page :: PageInfo where
  "zero_page = \<lparr>pi_idx = 0, pi_order = 0, pi_cache_order = 0, pi_entry_in_list = None,
                pi_prev = None, pi_next = None\<rparr>"

record mm =
  free_list :: "nat \<Rightarrow> nat option"
  page_list :: "nat \<Rightarrow> PageInfo"
  memory_start :: addr

definition upd_page :: "nat \<Rightarrow> (PageInfo \<Rightarrow> PageInfo) \<Rightarrow> mm \<Rightarrow> mm" where
  "upd_page i f s = s\<lparr>page_list := (page_list s)(i := f (page_list s i))\<rparr>"

definition set_head :: "nat \<Rightarrow> nat option \<Rightarrow> mm \<Rightarrow> mm" where
  "set_head k h s = s\<lparr>free_list := (free_list s)(k := h)\<rparr>"

lemma upd_page_sel [simp]:
  "page_list (upd_page i f s) j = (if j = i then f (page_list s i) else page_list s j)"
  "free_list (upd_page i f s) = free_list s"
  "memory_start (upd_page i f s) = memory_start s"
  by (simp_all add: upd_page_def)

lemma set_head_sel [simp]:
  "page_list (set_head k h s) = page_list s"
  "free_list (set_head k h s) = (free_list s)(k := h)"
  "memory_start (set_head k h s) = memory_start s"
  by (simp_all add: set_head_def)

subsection \<open>Sizes, orders and buddies\<close>

text \<open>\<open>int\<close> arguments; the callers pass at most \<open>MAX_ALLOC_SIZE\<close>, so nothing overflows.\<close>

definition round_up :: "int \<Rightarrow> int" where
  "round_up sz =
     (if sz smod int PAGE_SIZE = 0 then sz
      else (sz sdiv int PAGE_SIZE + 1) * int PAGE_SIZE)"

function order_loop :: "int \<Rightarrow> nat \<Rightarrow> nat" where
  "order_loop sz order = (if 2 ^ order < sz then order_loop sz (order + 1) else order)"
  by pat_completeness auto
termination
proof (relation "measure (\<lambda>(sz, order). nat sz - order)", simp, clarsimp)
  fix sz :: int and order :: nat
  assume "2 ^ order < sz"
  moreover have "int order < int (2 ^ order)" unfolding of_nat_less_iff by (rule less_exp)
  then have "int order < 2 ^ order" by simp
  ultimately show "nat sz - Suc order < nat sz - order" by linarith
qed

declare order_loop.simps [simp del]

definition get_order :: "int \<Rightarrow> nat" where
  "get_order sz = order_loop (sz sdiv int PAGE_SIZE) 0"

definition get_buddy :: "nat \<Rightarrow> nat \<Rightarrow> nat" where
  "get_buddy idx order = idx XOR 2 ^ order"

function lsb_loop :: "int \<Rightarrow> nat \<Rightarrow> nat" where
  "lsb_loop x lsb = (if 1 < x then lsb_loop (drop_bit 1 x) (lsb + 1) else lsb)"
  by pat_completeness auto
termination
  by (relation "measure (\<lambda>(x, _). nat x)") (auto simp: drop_bit_eq_div)

declare lsb_loop.simps [simp del]

definition get_lsb :: "int \<Rightarrow> nat" where
  "get_lsb x = lsb_loop x 0"

subsection \<open>The intrusive free lists\<close>

definition add_to_free_list :: "nat option \<Rightarrow> int \<Rightarrow> mm \<Rightarrow> mm" where
  "add_to_free_list entry order s =
     (case entry of
        None \<Rightarrow> s
      | Some e \<Rightarrow>
          if order < 0 \<or> int MAX_ORDER \<le> order then s
          else (case free_list s (nat order) of
              None \<Rightarrow>
                upd_page e (\<lambda>p. p\<lparr>pi_next := None, pi_prev := None\<rparr>)
                  (set_head (nat order) (Some e) s)
            | Some h \<Rightarrow>
                (let s1 = upd_page h (\<lambda>p. p\<lparr>pi_prev := Some e\<rparr>) s;
                     s2 = upd_page e (\<lambda>p. p\<lparr>pi_prev := None\<rparr>) s1;
                     s3 = upd_page e (\<lambda>p. p\<lparr>pi_next := free_list s2 (nat order)\<rparr>) s2
                 in set_head (nat order) (Some e) s3)))"

definition rm_from_free_list :: "nat option \<Rightarrow> int \<Rightarrow> mm \<Rightarrow> mm" where
  "rm_from_free_list entry order s =
     (case entry of
        None \<Rightarrow> s
      | Some e \<Rightarrow>
          if order < 0 \<or> int MAX_ORDER \<le> order then s
          else
            let s2 =
              (if free_list s (nat order) = Some e then
                 let s1 = set_head (nat order) (pi_next (page_list s e)) s
                 in (case pi_next (page_list s1 e) of
                      None \<Rightarrow> s1
                    | Some n \<Rightarrow> upd_page n (\<lambda>p. p\<lparr>pi_prev := None\<rparr>) s1)
               else
                 let s1 = (case pi_prev (page_list s e) of
                             None \<Rightarrow> s
                           | Some q \<Rightarrow> upd_page q (\<lambda>p. p\<lparr>pi_next := pi_next (page_list s e)\<rparr>) s)
                 in (case pi_next (page_list s1 e) of
                      None \<Rightarrow> s1
                    | Some n \<Rightarrow> upd_page n (\<lambda>p. p\<lparr>pi_prev := pi_prev (page_list s1 e)\<rparr>) s1))
            in upd_page e (\<lambda>p. p\<lparr>pi_next := None, pi_prev := None\<rparr>) s2)"

subsection \<open>Initialisation\<close>

function mm_init_blocks :: "nat \<Rightarrow> mm \<Rightarrow> mm" where
  "mm_init_blocks i s =
     (if i < PAGE_NUM then
        let s1 = upd_page i (\<lambda>p. p\<lparr>pi_idx := i\<rparr>) s;
            s2 = add_to_free_list (Some i) (int MAX_ORDER - 1) s1;
            s3 = upd_page i (\<lambda>p. p\<lparr>pi_order := int MAX_ORDER - 1\<rparr>) s2;
            s4 = upd_page i (\<lambda>p. p\<lparr>pi_entry_in_list := Some i\<rparr>) s3
        in mm_init_blocks (i + MAX_BLOCK_SIZE) s4
      else s)"
  by pat_completeness auto
termination
  by (relation "measure (\<lambda>(i, _). PAGE_NUM - i)") auto

function mm_init_cache :: "nat \<Rightarrow> mm \<Rightarrow> mm" where
  "mm_init_cache i s =
     (if i < PAGE_NUM then mm_init_cache (i + 1) (upd_page i (\<lambda>p. p\<lparr>pi_cache_order := -1\<rparr>) s)
      else s)"
  by pat_completeness auto
termination
  by (relation "measure (\<lambda>(i, _). PAGE_NUM - i)") auto

declare mm_init_blocks.simps [simp del] mm_init_cache.simps [simp del]

definition mm_init :: "mm \<Rightarrow> mm" where
  "mm_init s =
     (let s1 = s\<lparr>free_list := (\<lambda>i. if i < MAX_ORDER then None else free_list s i)\<rparr>;
          s2 = s1\<lparr>memory_start := 0\<rparr>;
          s3 = s2\<lparr>page_list := (\<lambda>i. if i < PAGE_NUM then zero_page else page_list s2 i)\<rparr>
      in mm_init_cache 0 (mm_init_blocks 0 s3))"

subsection \<open>Allocation\<close>

text \<open>\<open>while (i > order)\<close>: split the block found at order \<open>i\<close>, freeing the upper halves.\<close>

function alloc_split :: "nat \<Rightarrow> nat \<Rightarrow> nat \<Rightarrow> mm \<Rightarrow> mm" where
  "alloc_split block i order s =
     (if order < i then
        let i' = i - 1;
            new_entry = block + 2 ^ i';
            s1 = upd_page new_entry (\<lambda>p. p\<lparr>pi_idx := pi_idx (page_list s block) + 2 ^ i'\<rparr>) s;
            s2 = add_to_free_list (Some new_entry) (int i') s1;
            j = pi_idx (page_list s2 new_entry);
            s3 = upd_page j (\<lambda>p. p\<lparr>pi_order := int i'\<rparr>) s2;
            s4 = upd_page j (\<lambda>p. p\<lparr>pi_entry_in_list := Some new_entry\<rparr>) s3
        in alloc_split block i' order s4
      else s)"
  by pat_completeness auto
termination
  by (relation "measure (\<lambda>(_, i, _, _). i)") auto

text \<open>The scan over the orders: \<open>for (int i = order; i < MAX_ORDER; i++)\<close>.\<close>

function alloc_scan :: "nat \<Rightarrow> nat \<Rightarrow> mm \<Rightarrow> addr \<times> mm" where
  "alloc_scan i order s =
     (if i < MAX_ORDER then
        (case free_list s i of
          None \<Rightarrow> alloc_scan (i + 1) order s
        | Some block \<Rightarrow>
            let s1 = rm_from_free_list (Some block) (int i) s;
                s2 = alloc_split block i order s1;
                j = pi_idx (page_list s2 block);
                s3 = upd_page j (\<lambda>p. p\<lparr>pi_order := int order\<rparr>) s2;
                s4 = upd_page j (\<lambda>p. p\<lparr>pi_entry_in_list := None\<rparr>) s3
            in (memory_start s4 + pi_idx (page_list s4 block) * PAGE_SIZE, s4))
      else (NULL, s))"
  by pat_completeness auto
termination
  by (relation "measure (\<lambda>(i, _, _). MAX_ORDER - i)") auto

declare alloc_split.simps [simp del] alloc_scan.simps [simp del]

definition mm_alloc :: "nat \<Rightarrow> mm \<Rightarrow> addr \<times> mm" where
  "mm_alloc sz s =
     (if sz = 0 \<or> MAX_ALLOC_SIZE < sz then (NULL, s)
      else let sz' = round_up (int sz);
               order = get_order sz'
           in alloc_scan order order s)"

subsection \<open>Freeing\<close>

definition page_index :: "addr \<Rightarrow> mm \<Rightarrow> int" where
  "page_index ptr s = to_s32 (to_s64 (int ptr - int (memory_start s)) sdiv int PAGE_SIZE)"

definition free_insert :: "nat \<Rightarrow> int \<Rightarrow> mm \<Rightarrow> mm" where
  "free_insert curr_idx order s =
     (let s1 = upd_page curr_idx (\<lambda>p. p\<lparr>pi_idx := curr_idx\<rparr>) s;
          s2 = add_to_free_list (Some curr_idx) order s1;
          s3 = upd_page curr_idx (\<lambda>p. p\<lparr>pi_entry_in_list := Some curr_idx\<rparr>) s2
      in upd_page curr_idx (\<lambda>p. p\<lparr>pi_order := order\<rparr>) s3)"

function free_loop :: "nat \<Rightarrow> nat \<Rightarrow> nat \<Rightarrow> mm \<Rightarrow> mm" where
  "free_loop curr_idx buddy_idx order s =
     (if order < MAX_ORDER - 1 then
        (case pi_entry_in_list (page_list s buddy_idx) of
          Some buddy_entry \<Rightarrow>
            if pi_order (page_list s buddy_idx) = pi_order (page_list s curr_idx) then
              let s1 = rm_from_free_list (Some buddy_entry) (int order) s;
                  bigger_idx = (if buddy_idx < curr_idx then curr_idx else buddy_idx);
                  smaller_idx = (if curr_idx < buddy_idx then curr_idx else buddy_idx);
                  order' = order + 1;
                  s2 = upd_page smaller_idx (\<lambda>p. p\<lparr>pi_order := int order'\<rparr>) s1;
                  s3 = upd_page bigger_idx (\<lambda>p. p\<lparr>pi_order := -1\<rparr>) s2;
                  s4 = upd_page bigger_idx (\<lambda>p. p\<lparr>pi_entry_in_list := None\<rparr>) s3
              in free_loop smaller_idx (get_buddy smaller_idx order') order' s4
            else free_insert curr_idx (int order) s
        | None \<Rightarrow> free_insert curr_idx (int order) s)
      else s)"
  by pat_completeness auto
termination
  by (relation "measure (\<lambda>(_, _, order, _). MAX_ORDER - order)") auto

declare free_loop.simps [simp del]

text \<open>
  \<open>None\<close>: the page's \<open>order\<close> is the \<open>-1\<close> of a page merged into a lower one, and the code
  shifts by that negative amount (undefined in C).
\<close>

definition mm_free :: "addr \<Rightarrow> mm \<Rightarrow> mm option" where
  "mm_free ptr s =
     (if ptr = NULL then Some s
      else
        let original_idx = page_index ptr s in
        if original_idx < 0 \<or> int PAGE_NUM \<le> original_idx \<or>
           pi_entry_in_list (page_list s (nat original_idx)) \<noteq> None
        then Some s
        else
          let i = nat original_idx; order = pi_order (page_list s i) in
          if order < 0 then None
          else Some (free_loop i (get_buddy i (nat order)) (nat order) s))"

subsection \<open>Reserving a range at boot\<close>

text \<open>\<open>split\<close> is called with \<open>0 < order\<close> only (see \<open>reserve_split\<close>).\<close>

definition mm_split :: "nat \<Rightarrow> nat \<Rightarrow> mm \<Rightarrow> mm" where
  "mm_split i order s =
     (if MAX_ORDER \<le> order then s
      else
        let s1 = rm_from_free_list (Some i) (int order) s;
            s2 = upd_page i (\<lambda>p. p\<lparr>pi_entry_in_list := None\<rparr>) s1;
            order' = order - 1;
            s3 = upd_page i (\<lambda>p. p\<lparr>pi_idx := i\<rparr>) s2;
            s4 = upd_page i (\<lambda>p. p\<lparr>pi_order := int order'\<rparr>) s3;
            s5 = add_to_free_list (Some i) (int order') s4;
            s6 = upd_page i (\<lambda>p. p\<lparr>pi_entry_in_list := Some i\<rparr>) s5;
            buddy_idx = get_buddy i order';
            s7 = upd_page buddy_idx (\<lambda>p. p\<lparr>pi_idx := buddy_idx\<rparr>) s6;
            s8 = upd_page buddy_idx (\<lambda>p. p\<lparr>pi_order := int order'\<rparr>) s7;
            s9 = add_to_free_list (Some buddy_idx) (int order') s8
        in upd_page buddy_idx (\<lambda>p. p\<lparr>pi_entry_in_list := Some buddy_idx\<rparr>) s9)"

definition reserve_step :: "nat \<Rightarrow> nat \<Rightarrow> nat \<Rightarrow> mm \<Rightarrow> mm" where
  "reserve_step start_idx end_idx curr_order s =
     (let start_block_idx = start_idx - (start_idx AND (2 ^ curr_order - 1));
          end_block_idx = end_idx - (end_idx AND (2 ^ curr_order - 1))
      in if start_block_idx = end_block_idx then
           (if pi_order (page_list s start_block_idx) = int curr_order
            then mm_split start_block_idx curr_order s else s)
         else
           let s1 = (if pi_order (page_list s start_block_idx) = int curr_order
                     then mm_split start_block_idx curr_order s else s)
           in if pi_order (page_list s1 end_block_idx) = int curr_order
              then mm_split end_block_idx curr_order s1 else s1)"

text \<open>\<open>for (int curr_order = MAX_ORDER-1; curr_order > 0; curr_order--)\<close>\<close>

primrec reserve_split :: "nat \<Rightarrow> nat \<Rightarrow> nat \<Rightarrow> mm \<Rightarrow> mm" where
  "reserve_split start_idx end_idx 0 s = s"
| "reserve_split start_idx end_idx (Suc k) s =
     reserve_split start_idx end_idx k (reserve_step start_idx end_idx (Suc k) s)"

text \<open>
  A negative order cannot be shifted by; it is taken as 0 here. It does not come up when the range is free, the case that is
  proved: each \<open>i\<close> is the first page of a free block then, with an order from 0 on.
\<close>

function reserve_take :: "nat \<Rightarrow> nat \<Rightarrow> mm \<Rightarrow> mm" where
  "reserve_take i end_idx s =
     (if i \<le> end_idx then
        let s1 = (if pi_entry_in_list (page_list s i) \<noteq> None then
                    upd_page i (\<lambda>p. p\<lparr>pi_entry_in_list := None\<rparr>)
                      (rm_from_free_list (Some i) (pi_order (page_list s i)) s)
                  else s)
        in reserve_take (i + 2 ^ nat (pi_order (page_list s1 i))) end_idx s1
      else s)"
  by pat_completeness auto
termination
  by (relation "measure (\<lambda>(i, e, _). Suc e - i)") (auto intro!: diff_less_mono2)

declare reserve_take.simps [simp del]

definition reserve :: "addr \<Rightarrow> addr \<Rightarrow> mm \<Rightarrow> mm" where
  "reserve start finish s =
     (let end' = (finish + (2 ^ 64 - 1)) mod 2 ^ 64;
          start_idx = nat (to_s64 (int start - int (memory_start s)) sdiv int PAGE_SIZE mod 2 ^ 32);
          end_idx = nat (to_s64 (int end' - int (memory_start s)) sdiv int PAGE_SIZE mod 2 ^ 32);
          s1 = reserve_split start_idx end_idx (MAX_ORDER - 1) s
      in reserve_take start_idx end_idx s1)"

end
