(* ===== verification/FreeLists.thy ===== *)
theory FreeLists
  imports Mm
begin

section \<open>The intrusive free lists spell out one HOL list per order\<close>

text \<open>
  \<open>lists_ok s fl\<close>: in state \<open>s\<close> the chain of order \<open>k\<close> is a well-formed doubly linked
  list over the pages \<open>fl k\<close>, and no page is in two chains. \<open>add_to_free_list\<close> puts a page
  in front of its list and \<open>rm_from_free_list\<close> removes it, wherever it is; neither touches
  any other field of any page.
\<close>

abbreviation page_next :: "mm \<Rightarrow> nat \<Rightarrow> nat option" where
  "page_next s i \<equiv> pi_next (page_list s i)"

abbreviation page_prev :: "mm \<Rightarrow> nat \<Rightarrow> nat option" where
  "page_prev s i \<equiv> pi_prev (page_list s i)"

definition lists_ok :: "mm \<Rightarrow> (nat \<Rightarrow> nat list) \<Rightarrow> bool" where
  "lists_ok s fl \<longleftrightarrow>
     (\<forall>k < MAX_ORDER. dll (page_next s) (page_prev s) None (free_list s k) (fl k) \<and> distinct (fl k)) \<and>
     (\<forall>j < MAX_ORDER. \<forall>k < MAX_ORDER. j \<noteq> k \<longrightarrow> set (fl j) \<inter> set (fl k) = {})"

definition in_lists :: "(nat \<Rightarrow> nat list) \<Rightarrow> nat \<Rightarrow> bool" where
  "in_lists fl b \<longleftrightarrow> (\<exists>k < MAX_ORDER. b \<in> set (fl k))"

lemma lists_ok_dll:
  "lists_ok s fl \<Longrightarrow> k < MAX_ORDER \<Longrightarrow> dll (page_next s) (page_prev s) None (free_list s k) (fl k)"
  by (simp add: lists_ok_def)

lemma lists_ok_distinct: "lists_ok s fl \<Longrightarrow> k < MAX_ORDER \<Longrightarrow> distinct (fl k)"
  by (simp add: lists_ok_def)

lemma lists_ok_head: "lists_ok s fl \<Longrightarrow> k < MAX_ORDER \<Longrightarrow> free_list s k = None \<longleftrightarrow> fl k = []"
  by (rule dll_Nil_iff) (rule lists_ok_dll)

lemma lists_ok_head_Some:
  "lists_ok s fl \<Longrightarrow> k < MAX_ORDER \<Longrightarrow> free_list s k = Some b \<Longrightarrow> \<exists>bs. fl k = b # bs"
  using lists_ok_dll [of s fl k] by (auto simp: dll_Some)

subsection \<open>Only the links change\<close>

lemma add_fields [simp]:
  "pi_idx (page_list (add_to_free_list e k s) i) = pi_idx (page_list s i)"
  "pi_order (page_list (add_to_free_list e k s) i) = pi_order (page_list s i)"
  "pi_cache_order (page_list (add_to_free_list e k s) i) = pi_cache_order (page_list s i)"
  "pi_entry_in_list (page_list (add_to_free_list e k s) i) = pi_entry_in_list (page_list s i)"
  "memory_start (add_to_free_list e k s) = memory_start s"
  by (auto simp: add_to_free_list_def Let_def split: option.split)

lemma rm_fields [simp]:
  "pi_idx (page_list (rm_from_free_list e k s) i) = pi_idx (page_list s i)"
  "pi_order (page_list (rm_from_free_list e k s) i) = pi_order (page_list s i)"
  "pi_cache_order (page_list (rm_from_free_list e k s) i) = pi_cache_order (page_list s i)"
  "pi_entry_in_list (page_list (rm_from_free_list e k s) i) = pi_entry_in_list (page_list s i)"
  "memory_start (rm_from_free_list e k s) = memory_start s"
  by (auto simp: rm_from_free_list_def Let_def split: option.split)

lemma lists_ok_cong:
  assumes "lists_ok s fl" "\<And>k. k < MAX_ORDER \<Longrightarrow> free_list s' k = free_list s k"
    "\<And>i. page_next s' i = page_next s i" "\<And>i. page_prev s' i = page_prev s i"
  shows "lists_ok s' fl"
  using assms by (simp add: lists_ok_def)

lemma lists_ok_upd_page:
  assumes "lists_ok s fl" "\<And>p. pi_next (f p) = pi_next p" "\<And>p. pi_prev (f p) = pi_prev p"
  shows "lists_ok (upd_page i f s) fl"
  by (rule lists_ok_cong [OF assms(1)]) (simp_all add: assms(2,3))

subsection \<open>Pushing a page\<close>

lemma add_links:
  assumes "k < MAX_ORDER" "free_list s k \<noteq> Some e"
  shows "page_next (add_to_free_list (Some e) (int k) s) i =
           (if i = e then free_list s k else page_next s i)"
    and "page_prev (add_to_free_list (Some e) (int k) s) i =
           (if i = e then None else if free_list s k = Some i then Some e else page_prev s i)"
    and "free_list (add_to_free_list (Some e) (int k) s) = (free_list s)(k := Some e)"
  using assms by (auto simp: add_to_free_list_def Let_def split: option.split)

lemma add_lists_ok:
  assumes ok: "lists_ok s fl" and k: "k < MAX_ORDER" and e: "\<not> in_lists fl e"
  shows "lists_ok (add_to_free_list (Some e) (int k) s) (fl(k := e # fl k))"
proof -
  let ?s = "add_to_free_list (Some e) (int k) s"
  have e': "e \<notin> set (fl j)" if "j < MAX_ORDER" for j using e that by (auto simp: in_lists_def)
  have hd: "free_list s k \<noteq> Some e"
    using lists_ok_dll [OF ok k] e' [OF k] by (auto simp: dll_Some)
  note links = add_links [OF k hd]
  have "dll (page_next ?s) (page_prev ?s) None (free_list ?s j) ((fl(k := e # fl k)) j)"
    if j: "j < MAX_ORDER" for j
  proof (cases "j = k")
    case True
    have "dll (page_next ?s) (page_prev ?s) None (Some e) (e # fl k)"
      by (rule dll_push [OF lists_ok_dll [OF ok k] e' [OF k] lists_ok_distinct [OF ok k]])
         (use e' [OF k] in \<open>auto simp: links\<close>)
    then show ?thesis by (simp add: True links)
  next
    case False
    have "free_list s k \<noteq> Some x" if "x \<in> set (fl j)" for x
      using that ok j k False lists_ok_dll [OF ok k] unfolding lists_ok_def
      by (fastforce simp: dll_Some)
    then have "dll (page_next ?s) (page_prev ?s) None (free_list s j) (fl j)"
      by (intro dll_cong [OF lists_ok_dll [OF ok j]]) (use e' [OF j] in \<open>auto simp: links\<close>)
    then show ?thesis by (simp add: False links)
  qed
  then show ?thesis using ok e' k by (auto simp: lists_ok_def)
qed

subsection \<open>Unlinking a page\<close>

lemma rm_links_first:
  assumes "k < MAX_ORDER" "free_list s k = Some e" "page_next s e \<noteq> Some e"
  shows "page_next (rm_from_free_list (Some e) (int k) s) i =
           (if i = e then None else page_next s i)"
    and "page_prev (rm_from_free_list (Some e) (int k) s) i =
           (if i = e \<or> page_next s e = Some i then None else page_prev s i)"
    and "free_list (rm_from_free_list (Some e) (int k) s) = (free_list s)(k := page_next s e)"
  using assms by (auto simp: rm_from_free_list_def Let_def split: option.split)

lemma rm_links_middle:
  assumes "k < MAX_ORDER" "free_list s k \<noteq> Some e" "page_prev s e = Some q" "q \<noteq> e"
    "page_next s e \<noteq> Some e"
  shows "page_next (rm_from_free_list (Some e) (int k) s) i =
           (if i = e then None else if i = q then page_next s e else page_next s i)"
    and "page_prev (rm_from_free_list (Some e) (int k) s) i =
           (if i = e then None else if page_next s e = Some i then Some q else page_prev s i)"
    and "free_list (rm_from_free_list (Some e) (int k) s) = free_list s"
  using assms by (auto simp: rm_from_free_list_def Let_def split: option.split)

lemma rm_lists_ok:
  assumes ok: "lists_ok s fl" and k: "k < MAX_ORDER" and e: "e \<in> set (fl k)"
  shows "lists_ok (rm_from_free_list (Some e) (int k) s) (fl(k := remove1 e (fl k)))"
proof -
  let ?s = "rm_from_free_list (Some e) (int k) s"
  from e obtain xs ys where fl: "fl k = xs @ e # ys" by (meson split_list)
  have d: "distinct (xs @ e # ys)" using lists_ok_distinct [OF ok k] fl by simp
  have l: "dll (page_next s) (page_prev s) None (free_list s k) (xs @ e # ys)"
    using lists_ok_dll [OF ok k] fl by simp
  have other: "x \<noteq> e" "\<And>y. y \<in> set (fl k) \<Longrightarrow> x \<noteq> y" if "x \<in> set (fl j)" "j < MAX_ORDER" "j \<noteq> k" for x j
    using that ok e k unfolding lists_ok_def by (metis disjoint_iff)+
  have nx: "page_next s e = Some y \<Longrightarrow> y \<in> set ys" for y
    using dll_middle(2) [OF l] by (auto split: list.splits)
  then have nxe: "page_next s e \<noteq> Some e" using d by auto
  have rem: "remove1 e (fl k) = xs @ ys" using fl d by (auto simp: remove1_append)
  have "dll (page_next ?s) (page_prev ?s) None (free_list ?s j) ((fl(k := remove1 e (fl k))) j)"
    if j: "j < MAX_ORDER" for j
  proof (cases "xs = []")
    case True
    then have hd: "free_list s k = Some e" using l by simp
    note links = rm_links_first [OF k hd nxe]
    have "dll (page_next ?s) (page_prev ?s) None (page_next s e) ys"
      by (rule dll_drop_first [of "page_next s" "page_prev s" None e ys])
         (use l True hd d in \<open>auto simp: links\<close>)
    moreover have "dll (page_next ?s) (page_prev ?s) None (free_list s j) (fl j)" if "j \<noteq> k"
      by (rule dll_cong [OF lists_ok_dll [OF ok j]])
         (use other [OF _ j that] nx fl in \<open>auto simp: links\<close>)
    ultimately show ?thesis using True rem by (simp add: links)
  next
    case False
    then have pv: "page_prev s e = Some (last xs)" using dll_middle(1) [OF l] by simp
    have q: "last xs \<noteq> e" using d False by (auto dest: last_in_set)
    have hd: "free_list s k \<noteq> Some e" using l False d by (cases xs) auto
    note links = rm_links_middle [OF k hd pv q nxe]
    have "dll (page_next ?s) (page_prev ?s) None (free_list s k) (xs @ ys)"
      by (rule dll_unlink_middle [OF l d False]) (use d pv in \<open>auto simp: links\<close>)
    moreover have "dll (page_next ?s) (page_prev ?s) None (free_list s j) (fl j)" if "j \<noteq> k"
      by (rule dll_cong [OF lists_ok_dll [OF ok j]])
         (use other [OF _ j that] nx fl False in \<open>auto simp: links dest: last_in_set\<close>)
    ultimately show ?thesis using rem by (simp add: links)
  qed
  moreover have "set (remove1 e (fl k)) \<subseteq> set (fl k)" by (rule set_remove1_subset)
  ultimately show ?thesis using ok by (fastforce simp: lists_ok_def)
qed

text \<open>
  A page that is linked nowhere (both links \<open>NULL\<close>, not a head) is removed without effect on
  the lists: the case of \<open>mm_split\<close> on a page that was taken off its list before.
\<close>

lemma rm_unlinked:
  assumes "k < MAX_ORDER" "free_list s k \<noteq> Some e" "page_prev s e = None" "page_next s e = None"
  shows "rm_from_free_list (Some e) (int k) s = s"
proof -
  have "page_list s e\<lparr>pi_next := None, pi_prev := None\<rparr> = page_list s e"
    using assms(3,4) by (cases "page_list s e") simp
  then have "upd_page e (\<lambda>p. p\<lparr>pi_next := None, pi_prev := None\<rparr>) s = s"
    by (simp add: upd_page_def)
  then show ?thesis using assms by (simp add: rm_from_free_list_def)
qed

end
