(* ===== verification/Buddy.thy ===== *)
theory Buddy
  imports FreeLists
begin

section \<open>The buddy system on lists of block numbers\<close>

text \<open>
  The abstract specification of src/mm.c: the free lists are HOL lists of page numbers, one per
  order, and the blocks handed out (or reserved) are a ghost set of pairs of a first page and an
  order. \<open>bsplit\<close>, \<open>balloc\<close> and \<open>bmerge\<close>/\<open>bfree\<close> are the allocator's algorithm without
  pointers; this theory shows that they keep the blocks aligned, within memory and disjoint, and
  what they do to the set of free pages. \<open>MmRefine\<close> shows that the pointer code implements them.
\<close>

type_synonym block = "nat \<times> nat"
type_synonym flists = "nat \<Rightarrow> nat list"

definition rng :: "block \<Rightarrow> nat set" where
  "rng x = {fst x ..< fst x + 2 ^ snd x}"

definition free_blocks :: "flists \<Rightarrow> block set" where
  "free_blocks fl = {(b, k). k < MAX_ORDER \<and> b \<in> set (fl k)}"

definition free_pages :: "flists \<Rightarrow> nat set" where
  "free_pages fl = (\<Union>x \<in> free_blocks fl. rng x)"

definition aligned :: "block \<Rightarrow> bool" where
  "aligned x \<longleftrightarrow> snd x < MAX_ORDER \<and> 2 ^ snd x dvd fst x \<and> fst x + 2 ^ snd x \<le> PAGE_NUM"

definition disj :: "block set \<Rightarrow> bool" where
  "disj B \<longleftrightarrow> (\<forall>x \<in> B. \<forall>y \<in> B. x \<noteq> y \<longrightarrow> rng x \<inter> rng y = {})"

definition buddy_ok :: "flists \<Rightarrow> block set \<Rightarrow> bool" where
  "buddy_ok fl A \<longleftrightarrow>
     (\<forall>k < MAX_ORDER. distinct (fl k)) \<and> free_blocks fl \<inter> A = {} \<and>
     (\<forall>x \<in> free_blocks fl \<union> A. aligned x) \<and> disj (free_blocks fl \<union> A)"

subsection \<open>The algorithm\<close>

fun bsplit :: "nat \<Rightarrow> nat \<Rightarrow> nat \<Rightarrow> flists \<Rightarrow> flists" where
  "bsplit b 0 order fl = fl"
| "bsplit b (Suc i) order fl =
     (if order < Suc i then bsplit b i order (fl(i := (b + 2 ^ i) # fl i)) else fl)"

function bscan :: "nat \<Rightarrow> nat \<Rightarrow> flists \<Rightarrow> nat option \<times> flists" where
  "bscan i order fl =
     (if i < MAX_ORDER then
        (case fl i of [] \<Rightarrow> bscan (i + 1) order fl
         | b # bs \<Rightarrow> (Some b, bsplit b i order (fl(i := bs))))
      else (None, fl))"
  by pat_completeness auto
termination
  by (relation "measure (\<lambda>(i, _, _). MAX_ORDER - i)") auto

declare bscan.simps [simp del]

definition balloc :: "nat \<Rightarrow> flists \<Rightarrow> nat option \<times> flists" where
  "balloc order fl = bscan order order fl"

function bmerge :: "nat \<Rightarrow> nat \<Rightarrow> flists \<Rightarrow> nat \<times> nat \<times> flists" where
  "bmerge b k fl =
     (if k < MAX_ORDER - 1 \<and> b XOR 2 ^ k \<in> set (fl k)
      then bmerge (min b (b XOR 2 ^ k)) (k + 1) (fl(k := remove1 (b XOR 2 ^ k) (fl k)))
      else (b, k, fl))"
  by pat_completeness auto
termination
  by (relation "measure (\<lambda>(_, k, _). MAX_ORDER - k)") auto

declare bmerge.simps [simp del]

text \<open>A block that has reached the highest order is not put on any list: the code's loop ends.\<close>

definition bfree :: "nat \<Rightarrow> nat \<Rightarrow> flists \<Rightarrow> flists" where
  "bfree b k fl =
     (case bmerge b k fl of (c, m, fl') \<Rightarrow>
        if m < MAX_ORDER - 1 then fl'(m := c # fl' m) else fl')"

subsection \<open>Sets of blocks\<close>

lemma rng_nonempty [simp]: "fst x \<in> rng x"
  by (simp add: rng_def)

lemma rng_Suc: "rng (b, Suc k) = rng (b, k) \<union> rng (b + 2 ^ k, k)"
  by (auto simp: rng_def)

lemma rng_halves_disjoint: "rng (b, k) \<inter> rng (b + 2 ^ k, k) = {}"
  by (auto simp: rng_def)

lemma disj_subset: "disj B \<Longrightarrow> C \<subseteq> B \<Longrightarrow> disj C"
  unfolding disj_def by blast

lemma disj_insert: "disj (insert x B) \<longleftrightarrow> disj B \<and> (\<forall>y \<in> B. x \<noteq> y \<longrightarrow> rng x \<inter> rng y = {})"
  unfolding disj_def by (metis Int_commute insert_iff)

lemma disjD: "disj B \<Longrightarrow> x \<in> B \<Longrightarrow> y \<in> B \<Longrightarrow> x \<noteq> y \<Longrightarrow> rng x \<inter> rng y = {}"
  by (simp add: disj_def)

lemma disj_same: "disj B \<Longrightarrow> x \<in> B \<Longrightarrow> y \<in> B \<Longrightarrow> p \<in> rng x \<Longrightarrow> p \<in> rng y \<Longrightarrow> x = y"
  unfolding disj_def by blast

lemma disj_split:
  assumes "disj (insert (b, Suc k) B)" "(b, Suc k) \<notin> B"
  shows "disj (insert (b, k) (insert (b + 2 ^ k, k) B))"
    and "(b, k) \<notin> B" "(b + 2 ^ k, k) \<notin> B"
proof -
  have d: "rng (b, Suc k) \<inter> rng y = {}" if "y \<in> B" for y
    by (rule disjD [OF assms(1)]) (use assms(2) that in auto)
  then have d': "rng (b, k) \<inter> rng y = {}" "rng (b + 2 ^ k, k) \<inter> rng y = {}" if "y \<in> B" for y
    using that unfolding rng_Suc by blast+
  have "disj B" using assms(1) by (rule disj_subset) blast
  then show "disj (insert (b, k) (insert (b + 2 ^ k, k) B))"
    by (simp add: disj_insert d' rng_halves_disjoint)
  show "(b, k) \<notin> B" "(b + 2 ^ k, k) \<notin> B"
    using d' rng_nonempty [of "(b, k)"] rng_nonempty [of "(b + 2 ^ k, k)"] by blast+
qed

lemma disj_merge:
  assumes "disj (insert (b, k) (insert (b + 2 ^ k, k) B))" "(b, k) \<notin> B" "(b + 2 ^ k, k) \<notin> B"
  shows "disj (insert (b, Suc k) B)" and "(b, Suc k) \<notin> B"
proof -
  have d: "rng (b, k) \<inter> rng y = {}" "rng (b + 2 ^ k, k) \<inter> rng y = {}" if "y \<in> B" for y
    by (rule disjD [OF assms(1)]; use assms(2,3) that in auto)+
  have "disj B" using assms(1) by (rule disj_subset) blast
  then show "disj (insert (b, Suc k) B)"
    by (simp add: disj_insert rng_Suc Int_Un_distrib2 d)
  show "(b, Suc k) \<notin> B"
    using d(1) [of "(b, Suc k)"] by (auto simp: rng_def)
qed

lemma free_blocks_iff: "(b, k) \<in> free_blocks fl \<longleftrightarrow> k < MAX_ORDER \<and> b \<in> set (fl k)"
  by (simp add: free_blocks_def)

lemma free_blocks_push:
  "k < MAX_ORDER \<Longrightarrow> free_blocks (fl(k := b # fl k)) = insert (b, k) (free_blocks fl)"
  by (auto simp: free_blocks_def split: if_splits)

lemma free_blocks_remove:
  "k < MAX_ORDER \<Longrightarrow> distinct (fl k) \<Longrightarrow>
   free_blocks (fl(k := remove1 b (fl k))) = free_blocks fl - {(b, k)}"
  by (auto simp: free_blocks_def split: if_splits)

lemma in_lists_free_blocks: "in_lists fl b \<longleftrightarrow> (\<exists>k. (b, k) \<in> free_blocks fl)"
  by (auto simp: in_lists_def free_blocks_def)

lemma free_pages_Un: "free_pages fl \<union> rng x = (\<Union>y \<in> insert x (free_blocks fl). rng y)"
  by (auto simp: free_pages_def)

subsection \<open>Taking a block in hand and giving it back\<close>

text \<open>
  While an operation holds a block, it counts among the allocated ones. The three moves of the
  algorithm on that block: take it from a list, put it on a list, halve or double it.
\<close>

lemma buddy_ok_distinct: "buddy_ok fl A \<Longrightarrow> k < MAX_ORDER \<Longrightarrow> distinct (fl k)"
  by (simp add: buddy_ok_def)

lemma buddy_ok_aligned: "buddy_ok fl A \<Longrightarrow> x \<in> A \<Longrightarrow> aligned x"
  by (simp add: buddy_ok_def)

lemma buddy_ok_aligned_free: "buddy_ok fl A \<Longrightarrow> x \<in> free_blocks fl \<Longrightarrow> aligned x"
  by (simp add: buddy_ok_def)

lemma buddy_ok_take:
  assumes "buddy_ok fl A" "k < MAX_ORDER" "b \<in> set (fl k)"
  shows "buddy_ok (fl(k := remove1 b (fl k))) (insert (b, k) A)" and "(b, k) \<notin> A"
proof -
  have fb: "free_blocks (fl(k := remove1 b (fl k))) = free_blocks fl - {(b, k)}"
    using assms by (intro free_blocks_remove) (auto simp: buddy_ok_def)
  have mem: "(b, k) \<in> free_blocks fl" using assms(2,3) by (simp add: free_blocks_iff)
  then show "(b, k) \<notin> A" using assms(1) by (auto simp: buddy_ok_def)
  have "free_blocks fl - {(b, k)} \<union> insert (b, k) A = free_blocks fl \<union> A"
    using mem by blast
  then show "buddy_ok (fl(k := remove1 b (fl k))) (insert (b, k) A)"
    using assms(1) unfolding buddy_ok_def fb by auto
qed

lemma buddy_ok_put:
  assumes "buddy_ok fl (insert (b, k) A)" "(b, k) \<notin> A"
  shows "buddy_ok (fl(k := b # fl k)) A"
proof -
  have al: "aligned (b, k)" using assms(1) by (simp add: buddy_ok_def)
  then have k: "k < MAX_ORDER" by (simp add: aligned_def)
  note fb = free_blocks_push [OF k, of fl b]
  have "(b, k) \<notin> free_blocks fl" using assms(1) by (auto simp: buddy_ok_def)
  then have "b \<notin> set (fl k)" using k by (simp add: free_blocks_iff)
  then show ?thesis
    using assms al unfolding buddy_ok_def fb by auto
qed

lemma buddy_ok_halve:
  assumes "buddy_ok fl (insert (b, Suc k) A)" "(b, Suc k) \<notin> A"
  shows "buddy_ok (fl(k := (b + 2 ^ k) # fl k)) (insert (b, k) A)" and "(b, k) \<notin> A"
proof -
  let ?B = "free_blocks fl \<union> A"
  have al: "aligned (b, Suc k)" and nf: "(b, Suc k) \<notin> free_blocks fl"
    using assms(1) by (auto simp: buddy_ok_def)
  have d: "disj (insert (b, Suc k) ?B)" using assms(1) by (simp add: buddy_ok_def)
  have "(b, Suc k) \<notin> ?B" using assms(2) nf by blast
  note sp = disj_split [OF d this]
  have k: "k < MAX_ORDER" using al by (simp add: aligned_def)
  have dvd: "2 ^ k dvd b"
    using al pow2_dvd_le [of k "Suc k" b] by (simp add: aligned_def)
  have al1: "aligned (b, k)" "aligned (b + 2 ^ k, k)"
    using al dvd by (auto simp: aligned_def)
  show "(b, k) \<notin> A" using sp(2) by blast
  have "b + 2 ^ k \<notin> set (fl k)" using sp(3) k by (simp add: free_blocks_iff)
  then have dis: "\<forall>j < MAX_ORDER. distinct ((fl(k := (b + 2 ^ k) # fl k)) j)"
    using assms(1) k by (auto simp: buddy_ok_def)
  have dd: "disj (insert (b + 2 ^ k, k) (free_blocks fl) \<union> insert (b, k) A)"
    by (rule disj_subset [OF sp(1)]) blast
  have "insert (b + 2 ^ k, k) (free_blocks fl) \<inter> insert (b, k) A = {}"
    using sp(2,3) assms(1) by (auto simp: buddy_ok_def)
  then show "buddy_ok (fl(k := (b + 2 ^ k) # fl k)) (insert (b, k) A)"
    using dis dd al1 assms(1) unfolding buddy_ok_def free_blocks_push [OF k] by auto
qed

lemma buddy_ok_double:
  assumes ok: "buddy_ok fl (insert (b, k) A)" and nin: "(b, k) \<notin> A" and k: "k < MAX_ORDER - 1"
    and bud: "b XOR 2 ^ k \<in> set (fl k)"
  shows "buddy_ok (fl(k := remove1 (b XOR 2 ^ k) (fl k))) (insert (min b (b XOR 2 ^ k), Suc k) A)"
    and "(min b (b XOR 2 ^ k), Suc k) \<notin> A"
    and "rng (min b (b XOR 2 ^ k), Suc k) = rng (b, k) \<union> rng (b XOR 2 ^ k, k)"
proof -
  let ?d = "b XOR 2 ^ k" and ?fl = "fl(k := remove1 (b XOR 2 ^ k) (fl k))"
  let ?c = "min b ?d" and ?B = "free_blocks ?fl \<union> A"
  have k': "k < MAX_ORDER" using k by simp
  have al: "aligned (b, k)" using ok by (simp add: buddy_ok_def)
  then have dvd: "2 ^ k dvd b" by (simp add: aligned_def)
  note flip = flip_aligned [OF dvd]
  note tk = buddy_ok_take [OF ok k' bud]
  have ald: "aligned (?d, k)" using tk(1) by (simp add: buddy_ok_def)
  have "b XOR ?d = 2 ^ k" by (simp flip: xor.assoc)
  then have ne: "?d \<noteq> b" by auto
  obtain q where q: "b = 2 ^ k * q" using dvd by (elim dvdE)
  then have "b div 2 ^ k = q" by simp
  then have cs: "(even q \<and> ?d = b + 2 ^ k) \<or> (odd q \<and> ?d + 2 ^ k = b)"
    using flip q by (auto elim: oddE)
  then have c: "(?c = b \<and> ?c + 2 ^ k = ?d) \<or> (?c = ?d \<and> ?c + 2 ^ k = b)" by auto
  then have pair: "insert (b, k) (insert (?d, k) ?B) = insert (?c, k) (insert (?c + 2 ^ k, k) ?B)"
    by (elim disjE conjE) (simp_all add: insert_commute)
  have cdvd: "2 ^ Suc k dvd ?c"
    using cs q by (elim disjE conjE evenE oddE) (simp_all add: min_def algebra_simps)
  have dj: "disj (insert (b, k) (insert (?d, k) ?B))"
    using tk(1) by (simp add: buddy_ok_def insert_commute)
  have nB: "(b, k) \<notin> ?B" "(?d, k) \<notin> ?B"
    using tk nin ok ne by (auto simp: buddy_ok_def free_blocks_iff)
  then have nB': "(?c, k) \<notin> ?B" "(?c + 2 ^ k, k) \<notin> ?B"
    using c by auto
  note mg = disj_merge [OF dj [unfolded pair] nB']
  show "(?c, Suc k) \<notin> A" using mg(2) by blast
  show rg: "rng (?c, Suc k) = rng (b, k) \<union> rng (?d, k)"
  proof -
    have "{(b, k), (?d, k)} = {(?c, k), (?c + 2 ^ k, k)}"
      using pair nB nB' by blast
    then have "rng (b, k) \<union> rng (?d, k) = rng (?c, k) \<union> rng (?c + 2 ^ k, k)"
      by (metis Union_insert image_insert sup_bot_right Union_empty image_empty)
    then show ?thesis by (simp add: rng_Suc)
  qed
  have "?c + 2 ^ Suc k \<le> PAGE_NUM"
  proof -
    have "0 < (2::nat) ^ k" by simp
    then have "?c + 2 ^ Suc k - 1 \<in> rng (?c, Suc k)"
      unfolding rng_def fst_conv snd_conv atLeastLessThan_iff power_Suc by linarith
    then have "?c + 2 ^ Suc k - 1 \<in> rng (b, k) \<union> rng (?d, k)" by (simp only: rg)
    then show ?thesis using al ald by (auto simp: rng_def aligned_def)
  qed
  then have "aligned (?c, Suc k)" using cdvd k by (simp add: aligned_def)
  then show "buddy_ok ?fl (insert (?c, Suc k) A)"
    using tk(1) mg unfolding buddy_ok_def by auto
qed

subsection \<open>Allocation\<close>

lemma bsplit_ok:
  assumes "buddy_ok fl (insert (b, i) A)" "(b, i) \<notin> A" "order \<le> i"
  shows "buddy_ok (bsplit b i order fl) (insert (b, order) A)"
    and "(b, order) \<notin> A"
    and "free_pages (bsplit b i order fl) \<union> rng (b, order) = free_pages fl \<union> rng (b, i)"
  using assms
proof (induction i arbitrary: fl)
  case 0
  { case 1 then show ?case by simp next
    case 2 then show ?case by simp next
    case 3 then show ?case by simp }
next
  case (Suc i)
  { case 1
    note step = buddy_ok_halve [OF 1(1,2)]
    show ?case using 1 Suc.IH(1) [OF step]
      by (cases "order = Suc i") (simp_all del: fun_upd_apply)
  next
    case 2
    note step = buddy_ok_halve [OF 2(1,2)]
    show ?case using 2 Suc.IH(2) [OF step]
      by (cases "order = Suc i") (simp_all del: fun_upd_apply)
  next
    case 3
    show ?case
    proof (cases "order = Suc i")
      case True
      then show ?thesis by simp
    next
      case False
      let ?fl = "fl(i := (b + 2 ^ i) # fl i)"
      note ok = buddy_ok_halve [OF 3(1,2)]
      have i: "i < MAX_ORDER" using 3(1) by (auto simp: buddy_ok_def aligned_def)
      have "free_pages ?fl \<union> rng (b, i) = free_pages fl \<union> rng (b, Suc i)"
        unfolding free_pages_def free_blocks_push [OF i] rng_Suc by auto
      then show ?thesis using Suc.IH(3) [OF ok] 3(3) False by (simp del: fun_upd_apply)
    qed }
qed

lemma bscan_ok:
  assumes "buddy_ok fl A" "order \<le> i"
  shows "(\<exists>j \<ge> i. j < MAX_ORDER \<and> fl j \<noteq> []) \<longleftrightarrow> fst (bscan i order fl) \<noteq> None"
    and "bscan i order fl = (None, fl') \<Longrightarrow> fl' = fl"
    and "bscan i order fl = (Some b, fl') \<Longrightarrow>
           buddy_ok fl' (insert (b, order) A) \<and> (b, order) \<notin> A \<and>
           free_pages fl' \<union> rng (b, order) = free_pages fl \<and>
           rng (b, order) \<inter> free_pages fl' = {}"
  using assms
proof (induction i order fl rule: bscan.induct)
  case (1 i order fl)
  { case 1
    show ?case
    proof (cases "i < MAX_ORDER \<and> fl i = []")
      case True
      then have "(\<exists>j \<ge> i. j < MAX_ORDER \<and> fl j \<noteq> []) \<longleftrightarrow> (\<exists>j \<ge> i + 1. j < MAX_ORDER \<and> fl j \<noteq> [])"
        by (metis Suc_eq_plus1 Suc_le_eq le_eq_less_or_eq)
      then show ?thesis using "1.IH"(1) True 1 by (simp add: bscan.simps [of i order fl])
    next
      case False
      then show ?thesis by (auto simp: bscan.simps [of i order fl] split: list.splits)
    qed
  next
    case 2
    then show ?case using "1.IH"(2)
      by (auto simp: bscan.simps [of i order fl] split: if_splits list.splits)
  next
    case 3
    show ?case
    proof (cases "i < MAX_ORDER \<and> fl i = []")
      case True
      then show ?thesis using "1.IH"(3) 3 by (simp add: bscan.simps [of i order fl])
    next
      case False
      with 3(1) obtain bs where i: "i < MAX_ORDER" and bs: "fl i = b # bs"
        and fl': "fl' = bsplit b i order (fl(i := bs))"
        by (auto simp: bscan.simps [of i order fl] split: if_splits list.splits)
      have rem: "bs = remove1 b (fl i)" using bs by simp
      have tk: "buddy_ok (fl(i := bs)) (insert (b, i) A)" "(b, i) \<notin> A"
        using buddy_ok_take [OF 3(2) i, of b] by (simp_all add: bs)
      have fp: "free_pages (fl(i := bs)) \<union> rng (b, i) = free_pages fl"
        unfolding rem free_pages_Un free_blocks_remove [of i fl b, OF i buddy_ok_distinct [OF 3(2) i]]
        using bs i by (auto simp: free_pages_def free_blocks_iff)
      note sp = bsplit_ok [OF tk 3(3)]
      have "rng (b, order) \<inter> rng y = {}" if "y \<in> free_blocks fl'" for y
      proof -
        have "y \<noteq> (b, order)" using sp(1) that fl' by (auto simp: buddy_ok_def)
        then show ?thesis using sp(1) that fl' unfolding buddy_ok_def disj_def by blast
      qed
      then show ?thesis using sp fp fl' by (auto simp: free_pages_def)
    qed }
qed

subsection \<open>Freeing\<close>

lemma bmerge_ok:
  assumes "buddy_ok fl (insert (b, k) A)" "(b, k) \<notin> A" "bmerge b k fl = (c, m, fl')"
  shows "buddy_ok fl' (insert (c, m) A) \<and> (c, m) \<notin> A \<and> m < MAX_ORDER \<and>
         free_pages fl' \<union> rng (c, m) = free_pages fl \<union> rng (b, k) \<and> rng (b, k) \<subseteq> rng (c, m)"
  using assms
proof (induction b k fl rule: bmerge.induct)
  case (1 b k fl)
  show ?case
  proof (cases "k < MAX_ORDER - 1 \<and> b XOR 2 ^ k \<in> set (fl k)")
    case True
    then have k: "k < MAX_ORDER - 1" and k': "k < MAX_ORDER" and mem: "b XOR 2 ^ k \<in> set (fl k)"
      by auto
    note db = buddy_ok_double [OF "1.prems"(1,2) k mem]
    have mf: "(b XOR 2 ^ k, k) \<in> free_blocks fl" using mem k' by (simp add: free_blocks_iff)
    have dk: "distinct (fl k)" using buddy_ok_distinct [OF "1.prems"(1) k'] .
    have "free_pages (fl(k := remove1 (b XOR 2 ^ k) (fl k))) \<union> rng (min b (b XOR 2 ^ k), Suc k) =
          free_pages fl \<union> rng (b, k)"
      unfolding db(3) using mf
      by (auto intro: bexI [OF _ mf] simp: free_pages_def free_blocks_remove [of k fl "b XOR 2 ^ k", OF k' dk] free_blocks_iff)
    moreover have "bmerge (min b (b XOR 2 ^ k)) (k + 1) (fl(k := remove1 (b XOR 2 ^ k) (fl k))) = (c, m, fl')"
      using "1.prems"(3) True by (simp add: bmerge.simps [of b k fl])
    ultimately show ?thesis using "1.IH" [OF True] db by (auto simp del: fun_upd_apply)
  next
    case False
    then have "c = b" "m = k" "fl' = fl"
      using "1.prems"(3) by (auto simp: bmerge.simps [of b k fl])
    moreover have "k < MAX_ORDER" using "1.prems"(1) by (auto simp: buddy_ok_def aligned_def)
    ultimately show ?thesis using "1.prems" by simp
  qed
qed

lemma bfree_ok:
  assumes ok: "buddy_ok fl (insert (b, k) A)" and nin: "(b, k) \<notin> A"
    and m: "bmerge b k fl = (c, m, fl')"
  shows "buddy_ok (bfree b k fl) A"
    and "m < MAX_ORDER - 1 \<Longrightarrow> free_pages (bfree b k fl) = free_pages fl \<union> rng (b, k)"
    and "m = MAX_ORDER - 1 \<Longrightarrow>
           free_pages (bfree b k fl) = free_pages fl \<union> rng (b, k) - rng (c, m)"
proof -
  note mg = bmerge_ok [OF ok nin m]
  show "buddy_ok (bfree b k fl) A"
  proof (cases "m < MAX_ORDER - 1")
    case True
    then show ?thesis using mg m buddy_ok_put [of fl' c m A] by (simp add: bfree_def)
  next
    case False
    then have "bfree b k fl = fl'" using m by (simp add: bfree_def)
    moreover have "buddy_ok fl' A"
      using mg unfolding buddy_ok_def by (auto elim!: disj_subset)
    ultimately show ?thesis by simp
  qed
  show "free_pages (bfree b k fl) = free_pages fl \<union> rng (b, k)" if "m < MAX_ORDER - 1"
  proof -
    have "free_pages (bfree b k fl) = free_pages fl' \<union> rng (c, m)"
      using that m mg unfolding free_pages_Un by (simp add: bfree_def free_pages_def free_blocks_push)
    then show ?thesis using mg by simp
  qed
  show "free_pages (bfree b k fl) = free_pages fl \<union> rng (b, k) - rng (c, m)" if "m = MAX_ORDER - 1"
  proof -
    have "rng (c, m) \<inter> rng y = {}" if "y \<in> free_blocks fl'" for y
    proof -
      have "y \<noteq> (c, m)" using mg that by (auto simp: buddy_ok_def)
      then show ?thesis using mg that unfolding buddy_ok_def disj_def by blast
    qed
    then have "rng (c, m) \<inter> free_pages fl' = {}" by (auto simp: free_pages_def)
    moreover have "bfree b k fl = fl'" using that m by (simp add: bfree_def)
    ultimately show ?thesis using mg by blast
  qed
qed

end
