(* ===== verification/MmRefine.thy ===== *)
theory MmRefine
  imports Buddy
begin

section \<open>The page allocator implements the buddy system\<close>

text \<open>
  \<open>mm_ok s fl A\<close> relates a state of src/mm.c to the abstract free lists \<open>fl\<close> and the blocks
  \<open>A\<close> that are handed out: the intrusive lists spell out \<open>fl\<close>; the \<open>idx\<close>, \<open>order\<close> and
  \<open>entry_in_list\<close> fields of every block's first page agree with it; any other page has no
  \<open>entry_in_list\<close>. The exception (order \<open>MAX_ORDER - 1\<close>) is the trace a
  block leaves that was merged up to the highest order and then belongs to no list.
\<close>

definition info :: "mm \<Rightarrow> flists \<Rightarrow> bool" where
  "info s fl \<longleftrightarrow> (\<forall>k < MAX_ORDER. \<forall>b \<in> set (fl k).
     pi_idx (page_list s b) = b \<and> pi_order (page_list s b) = int k \<and>
     pi_entry_in_list (page_list s b) = Some b)"

definition core :: "mm \<Rightarrow> flists \<Rightarrow> block set \<Rightarrow> bool" where
  "core s fl A \<longleftrightarrow>
     lists_ok s fl \<and> info s fl \<and> memory_start s = 0 \<and>
     (\<forall>(b, k) \<in> A. pi_order (page_list s b) = int k \<and> pi_entry_in_list (page_list s b) = None)"

definition tight :: "nat set \<Rightarrow> mm \<Rightarrow> flists \<Rightarrow> bool" where
  "tight X s fl \<longleftrightarrow> (\<forall>p < PAGE_NUM. p \<notin> X \<longrightarrow>
     (pi_entry_in_list (page_list s p) \<noteq> None \<longrightarrow>
        pi_order (page_list s p) = int (MAX_ORDER - 1) \<or> in_lists fl p))"

definition mm_ok :: "mm \<Rightarrow> flists \<Rightarrow> block set \<Rightarrow> bool" where
  "mm_ok s fl A \<longleftrightarrow> core s fl A \<and> tight {} s fl \<and> buddy_ok fl A"

lemma infoD:
  "info s fl \<Longrightarrow> k < MAX_ORDER \<Longrightarrow> b \<in> set (fl k) \<Longrightarrow>
   pi_idx (page_list s b) = b \<and> pi_order (page_list s b) = int k \<and>
   pi_entry_in_list (page_list s b) = Some b"
  by (simp add: info_def)

lemma PAGE_NUM_eq: "PAGE_NUM = 245760"
  by (simp add: PAGE_NUM_def)

lemma in_hand_fresh:
  assumes "buddy_ok fl (insert (b, k) A)" "(b, k) \<notin> A" "n \<in> rng (b, k)"
  shows "\<not> in_lists fl n" and "\<And>j. (n, j) \<notin> A"
proof -
  have *: "(n, j) \<noteq> (b, k) \<Longrightarrow> (n, j) \<notin> free_blocks fl \<union> insert (b, k) A" for j
  proof
    assume "(n, j) \<noteq> (b, k)" "(n, j) \<in> free_blocks fl \<union> insert (b, k) A"
    moreover have "disj (free_blocks fl \<union> insert (b, k) A)" using assms(1) by (simp add: buddy_ok_def)
    moreover have "n \<in> rng (n, j)" by (simp add: rng_def)
    ultimately show False using disj_same [of _ "(n, j)" "(b, k)" n] assms(3) by blast
  qed
  show "(n, j) \<notin> A" for j using * [of j] assms(2) by blast
  have "(b, k) \<notin> free_blocks fl" using assms(1) by (auto simp: buddy_ok_def)
  then show "\<not> in_lists fl n" using * unfolding in_lists_free_blocks by (metis UnI1)
qed

subsection \<open>Moves of one block between the lists and the hand\<close>

text \<open>Writing the administrative fields of a page that heads no block.\<close>

lemma core_upd_page:
  assumes "core s fl A" "\<not> in_lists fl n" "\<And>j. (n, j) \<notin> A"
    "\<And>p. pi_next (f p) = pi_next p" "\<And>p. pi_prev (f p) = pi_prev p"
  shows "core (upd_page n f s) fl A"
proof -
  have "lists_ok (upd_page n f s) fl"
    using assms by (intro lists_ok_upd_page) (simp_all add: core_def)
  moreover have "info (upd_page n f s) fl"
    using assms(1,2) by (auto simp: core_def info_def in_lists_def)
  ultimately show ?thesis using assms(1,3) by (auto simp: core_def)
qed

text \<open>A page leaves the list of its order.\<close>

lemma core_rm:
  assumes "core s fl A" "k < MAX_ORDER" "b \<in> set (fl k)"
  shows "core (rm_from_free_list (Some b) (int k) s) (fl(k := remove1 b (fl k))) A"
proof -
  have "lists_ok (rm_from_free_list (Some b) (int k) s) (fl(k := remove1 b (fl k)))"
    using assms by (intro rm_lists_ok) (simp_all add: core_def)
  moreover have "info (rm_from_free_list (Some b) (int k) s) (fl(k := remove1 b (fl k)))"
    using assms by (auto simp: core_def info_def dest: in_set_remove1 [THEN iffD1, rotated]
        split: if_splits dest!: set_remove1_subset [THEN subsetD])
  ultimately show ?thesis using assms(1) by (auto simp: core_def)
qed

text \<open>A page with the right administrative fields enters the list of its order.\<close>

lemma core_add:
  assumes "core s fl A" "k < MAX_ORDER" "\<not> in_lists fl b" "\<And>j. (b, j) \<notin> A"
  defines "s' \<equiv> add_to_free_list (Some b) (int k) s"
  assumes "pi_idx (page_list s'' b) = b" "pi_order (page_list s'' b) = int k"
    "pi_entry_in_list (page_list s'' b) = Some b" "memory_start s'' = memory_start s'"
    "\<And>i. i \<noteq> b \<Longrightarrow> page_list s'' i = page_list s' i"
    "free_list s'' = free_list s'" "page_next s'' b = page_next s' b" "page_prev s'' b = page_prev s' b"
  shows "core s'' (fl(k := b # fl k)) A"
proof -
  have "lists_ok s' (fl(k := b # fl k))"
    unfolding s'_def using assms(1-3) by (intro add_lists_ok) (simp_all add: core_def)
  then have "lists_ok s'' (fl(k := b # fl k))"
    by (rule lists_ok_cong) (use assms(11-13) assms(10) in metis)+
  moreover have "info s'' (fl(k := b # fl k))"
    unfolding info_def
  proof (intro allI impI ballI)
    fix j c assume j: "j < MAX_ORDER" and c: "c \<in> set ((fl(k := b # fl k)) j)"
    show "pi_idx (page_list s'' c) = c \<and> pi_order (page_list s'' c) = int j \<and>
          pi_entry_in_list (page_list s'' c) = Some c"
    proof (cases "c = b")
      case True
      then have "j = k" using c j assms(3) by (auto simp: in_lists_def split: if_splits)
      then show ?thesis using True assms(6-8) by simp
    next
      case False
      then have "c \<in> set (fl j)" using c by (auto split: if_splits)
      then show ?thesis using False assms(1,10) j
        unfolding s'_def by (simp add: core_def info_def)
    qed
  qed
  moreover have "pi_order (page_list s'' c) = int j \<and> pi_entry_in_list (page_list s'' c) = None"
    if "(c, j) \<in> A" for c j
  proof -
    have "c \<noteq> b" using that assms(4) by blast
    then show ?thesis using that assms(1,10) unfolding s'_def by (auto simp: core_def)
  qed
  ultimately show ?thesis using assms(1,9) unfolding s'_def by (auto simp: core_def)
qed

lemma in_lists_push: "k < MAX_ORDER \<Longrightarrow> in_lists (fl(k := b # fl k)) p \<longleftrightarrow> p = b \<or> in_lists fl p"
  by (auto simp: in_lists_def split: if_splits)

text \<open>What \<open>tight\<close> needs when the lists change by one block and the pages outside \<open>X\<close> do not.\<close>

lemma tight_mono:
  assumes "tight X s fl"
    "\<And>p. p < PAGE_NUM \<Longrightarrow> p \<notin> Y \<Longrightarrow> p \<notin> X \<Longrightarrow>
       pi_order (page_list s' p) = pi_order (page_list s p) \<and>
       pi_entry_in_list (page_list s' p) = pi_entry_in_list (page_list s p)"
    "\<And>p. p \<notin> Y \<Longrightarrow> p \<notin> X \<Longrightarrow> in_lists fl p \<Longrightarrow> in_lists fl' p"
    "\<And>p. p < PAGE_NUM \<Longrightarrow> p \<in> X - Y \<Longrightarrow> pi_entry_in_list (page_list s' p) \<noteq> None \<Longrightarrow>
       pi_order (page_list s' p) = int (MAX_ORDER - 1) \<or> in_lists fl' p"
  shows "tight Y s' fl'"
  unfolding tight_def
proof (intro allI impI)
  fix p assume p: "p < PAGE_NUM" "p \<notin> Y" "pi_entry_in_list (page_list s' p) \<noteq> None"
  show "pi_order (page_list s' p) = int (MAX_ORDER - 1) \<or> in_lists fl' p"
  proof (cases "p \<in> X")
    case True
    then show ?thesis using assms(4) p by blast
  next
    case False
    then show ?thesis
      using assms(1) assms(2) [OF p(1,2) False] assms(3) [OF p(2) False] p
      unfolding tight_def by metis
  qed
qed

lemma tight_weaken: "tight X s fl \<Longrightarrow> X \<subseteq> Y \<Longrightarrow> tight Y s fl"
  unfolding tight_def by blast

subsection \<open>Allocation\<close>

text \<open>Every page but the new one keeps its administrative fields in one round of the split.\<close>

lemma alloc_split_refines:
  assumes "core s fl A" "tight {b} s fl" "buddy_ok fl (insert (b, i) A)" "(b, i) \<notin> A"
    "order \<le> i" "pi_idx (page_list s b) = b"
  shows "core (alloc_split b i order s) (bsplit b i order fl) A \<and>
         tight {b} (alloc_split b i order s) (bsplit b i order fl) \<and>
         pi_idx (page_list (alloc_split b i order s) b) = b"
  using assms
proof (induction i arbitrary: s fl)
  case 0
  then show ?case by (simp add: alloc_split.simps)
next
  case (Suc j)
  show ?case
  proof (cases "order = Suc j")
    case True
    then show ?thesis using Suc.prems by (simp add: alloc_split.simps)
  next
    case False
    let ?n = "b + 2 ^ j" and ?fl = "fl(j := (b + 2 ^ j) # fl j)"
    let ?s1 = "upd_page ?n (\<lambda>p. p\<lparr>pi_idx := ?n\<rparr>) s"
    let ?s2 = "add_to_free_list (Some ?n) (int j) ?s1"
    let ?s4 = "upd_page ?n (\<lambda>p. p\<lparr>pi_entry_in_list := Some ?n\<rparr>)
                 (upd_page ?n (\<lambda>p. p\<lparr>pi_order := int j\<rparr>) ?s2)"
    have j: "j < MAX_ORDER" using Suc.prems(3) by (auto simp: buddy_ok_def aligned_def)
    have nr: "?n \<in> rng (b, Suc j)" and ne: "?n \<noteq> b" by (simp_all add: rng_def)
    note fresh = in_hand_fresh [OF Suc.prems(3,4) nr]
    have c1: "core ?s1 fl A" by (rule core_upd_page [OF Suc.prems(1) fresh]) simp_all
    have c4: "core ?s4 ?fl A" by (rule core_add [OF c1 j fresh]) simp_all
    have fb: "free_blocks ?fl = insert (?n, j) (free_blocks fl)" by (rule free_blocks_push [OF j])
    have "tight {b, ?n} s fl" by (rule tight_weaken [OF Suc.prems(2)]) simp
    then have t4: "tight {b} ?s4 ?fl"
      by (rule tight_mono) (use j in \<open>auto simp: in_lists_push fb\<close>)
    have ix: "pi_idx (page_list ?s4 b) = b" using Suc.prems(6) ne by simp
    have "alloc_split b (Suc j) order s = alloc_split b j order ?s4"
      using False Suc.prems(5,6) by (simp add: alloc_split.simps [of b "Suc j"] Let_def)
    moreover have "bsplit b (Suc j) order fl = bsplit b j order ?fl"
      using False Suc.prems(5) by simp
    moreover have "order \<le> j" using False Suc.prems(5) by simp
    ultimately show ?thesis
      using Suc.IH [OF c4 t4 buddy_ok_halve [OF Suc.prems(3,4)] _ ix] by (simp del: fun_upd_apply)
  qed
qed

text \<open>The block found is marked: its page gets the order asked for and leaves the free state.\<close>

lemma mark_allocated:
  assumes "core s fl A" "tight {b} s fl" "buddy_ok fl (insert (b, k) A)" "(b, k) \<notin> A"
  shows "mm_ok (upd_page b (\<lambda>p. p\<lparr>pi_entry_in_list := None\<rparr>)
                 (upd_page b (\<lambda>p. p\<lparr>pi_order := int k\<rparr>) s)) fl (insert (b, k) A)"
proof -
  let ?s = "upd_page b (\<lambda>p. p\<lparr>pi_entry_in_list := None\<rparr>)
              (upd_page b (\<lambda>p. p\<lparr>pi_order := int k\<rparr>) s)"
  have "b \<in> rng (b, k)" by (simp add: rng_def)
  note fresh = in_hand_fresh [OF assms(3,4) this]
  have "core ?s fl A"
    by (intro core_upd_page assms(1) fresh) simp_all
  then have "core ?s fl (insert (b, k) A)" by (simp add: core_def)
  moreover have "tight {} ?s fl"
    by (rule tight_mono [OF assms(2)]) auto
  ultimately show ?thesis using assms(3) by (simp add: mm_ok_def)
qed

lemma alloc_scan_refines:
  assumes "mm_ok s fl A" "order \<le> i"
  shows "case bscan i order fl of
           (None, _) \<Rightarrow> alloc_scan i order s = (NULL, s)
         | (Some b, fl') \<Rightarrow>
             (\<exists>s'. alloc_scan i order s = (b * PAGE_SIZE, s') \<and> mm_ok s' fl' (insert (b, order) A))"
  using assms
proof (induction i order fl rule: bscan.induct)
  case (1 i order fl)
  have ok: "lists_ok s fl" "core s fl A" "tight {} s fl" "buddy_ok fl A"
    using "1.prems"(1) by (simp_all add: mm_ok_def core_def)
  consider (out) "\<not> i < MAX_ORDER" | (skip) "i < MAX_ORDER" "fl i = []"
    | (hit) b bs where "i < MAX_ORDER" "fl i = b # bs"
    by (cases "fl i") auto
  then show ?case
  proof cases
    case out
    then show ?thesis by (simp add: alloc_scan.simps [of i] bscan.simps [of i])
  next
    case skip
    then have "free_list s i = None" using lists_ok_head [OF ok(1)] by simp
    then have eqs: "alloc_scan i order s = alloc_scan (i + 1) order s"
      "bscan i order fl = bscan (i + 1) order fl"
      using skip by (simp_all add: alloc_scan.simps [of i order s] bscan.simps [of i order fl])
    have "order \<le> i + 1" using "1.prems"(2) by simp
    then show ?thesis using "1.IH" [OF skip "1.prems"(1)] by (simp only: eqs)
  next
    case hit
    then have hd: "free_list s i = Some b" using lists_ok_dll [OF ok(1) hit(1)] by simp
    have mem: "b \<in> set (fl i)" using hit by simp
    let ?fl = "fl(i := remove1 b (fl i))" and ?s1 = "rm_from_free_list (Some b) (int i) s"
    let ?s2 = "alloc_split b i order ?s1" and ?fl' = "bsplit b i order (fl(i := bs))"
    have fl: "?fl = fl(i := bs)" using hit by simp
    note tk = buddy_ok_take [OF ok(4) hit(1) mem]
    have c1: "core ?s1 ?fl A" by (rule core_rm [OF ok(2) hit(1) mem])
    have "free_blocks ?fl = free_blocks fl - {(b, i)}"
      using hit(1) buddy_ok_distinct [OF ok(4) hit(1)] by (rule free_blocks_remove)
    then have t1: "tight {b} ?s1 ?fl"
      by (intro tight_mono [OF ok(3)]) (auto simp: in_lists_free_blocks)
    have ix: "pi_idx (page_list ?s1 b) = b"
      using ok(2) hit(1) mem by (simp add: core_def info_def)
    note sp = alloc_split_refines [OF c1 t1 tk "1.prems"(2) ix]
    note bs = bsplit_ok [OF tk "1.prems"(2)]
    let ?s4 = "upd_page b (\<lambda>p. p\<lparr>pi_entry_in_list := None\<rparr>)
                 (upd_page b (\<lambda>p. p\<lparr>pi_order := int order\<rparr>) ?s2)"
    have "mm_ok ?s4 ?fl' (insert (b, order) A)"
      using mark_allocated [OF _ _ bs(1,2)] sp unfolding fl by blast
    moreover have "alloc_scan i order s = (b * PAGE_SIZE, ?s4)"
      using sp hit(1) hd by (auto simp: alloc_scan.simps [of i] Let_def core_def)
    ultimately show ?thesis using hit by (simp add: bscan.simps [of i])
  qed
qed

subsection \<open>Sizes and orders\<close>

lemma round_up_spec:
  assumes "0 \<le> n"
  shows "n \<le> round_up n" and "round_up n < n + 4096" and "4096 dvd round_up n"
proof -
  have "n smod 4096 = n mod 4096" "n sdiv 4096 = n div 4096"
    using assms by (simp_all add: smod_nonneg sdiv_nonneg)
  then have r: "round_up n = (if n mod 4096 = 0 then n else (n div 4096 + 1) * 4096)"
    by (simp add: round_up_def)
  have "n div 4096 * 4096 + n mod 4096 = n" "0 \<le> n mod 4096" "n mod 4096 < 4096"
    by simp_all
  then show "n \<le> round_up n" "round_up n < n + 4096"
    unfolding r by (simp_all, linarith+)
  show "4096 dvd round_up n" unfolding r by auto
qed

lemma order_loop_spec:
  assumes "o0 = 0 \<or> 2 ^ (o0 - 1) < n" "n \<le> 2 ^ m" "o0 \<le> m"
  shows "n \<le> 2 ^ order_loop n o0" and "order_loop n o0 = 0 \<or> 2 ^ (order_loop n o0 - 1) < n"
    and "order_loop n o0 \<le> m"
  using assms
proof (induction n o0 rule: order_loop.induct)
  case (1 n o0)
  have step: "o0 + 1 \<le> m" if "2 ^ o0 < n" "n \<le> 2 ^ m"
  proof (rule ccontr)
    assume "\<not> o0 + 1 \<le> m"
    then have "m \<le> o0" by simp
    then have "(2::int) ^ m \<le> 2 ^ o0" by (intro power_increasing) auto
    then show False using that by linarith
  qed
  { case 1 then show ?case using "1.IH"(1) step by (cases "2 ^ o0 < n") (simp_all add: order_loop.simps [of n o0])
  next
    case 2 then show ?case using "1.IH"(2) step by (cases "2 ^ o0 < n") (simp_all add: order_loop.simps [of n o0])
  next
    case 3 then show ?case using "1.IH"(3) step by (cases "2 ^ o0 < n") (simp_all add: order_loop.simps [of n o0]) }
qed

text \<open>The order of a request: the least block size in pages that holds it.\<close>

definition alloc_order :: "nat \<Rightarrow> nat" where
  "alloc_order sz = get_order (round_up (int sz))"

lemma alloc_order_spec:
  assumes "0 < sz" "sz \<le> MAX_ALLOC_SIZE"
  shows "alloc_order sz < MAX_ORDER" and "sz \<le> 2 ^ alloc_order sz * PAGE_SIZE"
    and "alloc_order sz = 0 \<or> 2 ^ (alloc_order sz - 1) * PAGE_SIZE < sz"
proof -
  note r = round_up_spec [of "int sz"]
  obtain q where q: "round_up (int sz) = 4096 * q" using r(3) by auto
  have qb: "q \<le> 2 ^ 13" using r(2) q assms(2) by simp
  have ao: "alloc_order sz = order_loop q 0"
    using q r(1) by (simp add: alloc_order_def get_order_def sdiv_nonneg)
  note sp = order_loop_spec [of 0 q 13, folded ao]
  show "alloc_order sz < MAX_ORDER" using sp(3) qb by simp
  have "int sz \<le> int (2 ^ alloc_order sz * PAGE_SIZE)" using sp(1) qb q r(1) by simp
  then show "sz \<le> 2 ^ alloc_order sz * PAGE_SIZE" by (simp only: of_nat_le_iff)
  show "alloc_order sz = 0 \<or> 2 ^ (alloc_order sz - 1) * PAGE_SIZE < sz"
  proof (cases "alloc_order sz = 0")
    case False
    then have "2 ^ (alloc_order sz - 1) < q" using sp(2) qb by simp
    then have "2 ^ (alloc_order sz - 1) * 4096 \<le> (q - 1) * 4096" by simp
    also have "\<dots> < int sz" using r(2) q by simp
    finally have "int (2 ^ (alloc_order sz - 1) * PAGE_SIZE) < int sz" by simp
    then show ?thesis by (simp only: of_nat_less_iff simp_thms)
  qed simp
qed

theorem mm_alloc_refines:
  assumes "mm_ok s fl A" "0 < sz" "sz \<le> MAX_ALLOC_SIZE"
  shows "case balloc (alloc_order sz) fl of
           (None, _) \<Rightarrow> mm_alloc sz s = (NULL, s)
         | (Some b, fl') \<Rightarrow>
             (\<exists>s'. mm_alloc sz s = (b * PAGE_SIZE, s') \<and>
                   mm_ok s' fl' (insert (b, alloc_order sz) A))"
proof -
  have "mm_alloc sz s = alloc_scan (alloc_order sz) (alloc_order sz) s"
    using assms(2,3) by (simp add: mm_alloc_def alloc_order_def Let_def)
  then show ?thesis
    using alloc_scan_refines [OF assms(1) order_refl, of "alloc_order sz"]
    by (simp only: balloc_def)
qed

subsection \<open>Freeing\<close>

lemma buddy_in_range:
  assumes "aligned (c, m)" "m < MAX_ORDER - 1"
  shows "c XOR 2 ^ m < PAGE_NUM" and "c XOR 2 ^ m \<noteq> c"
proof -
  have dvd: "2 ^ m dvd c" and le: "c + 2 ^ m \<le> PAGE_NUM" using assms(1) by (simp_all add: aligned_def)
  note flip = flip_aligned [OF dvd]
  have "c + 2 ^ m < PAGE_NUM" if ev: "even (c div 2 ^ m)"
  proof -
    obtain q where q: "c = 2 ^ m * q" using dvd by (elim dvdE)
    then have "even q" using ev by simp
    then have "2 ^ Suc m dvd c" using q by (elim evenE) simp
    moreover have "2 ^ Suc m dvd PAGE_NUM"
      using assms(2) by (intro pow2_dvd_le [of "Suc m" 13]) (simp_all add: PAGE_NUM_eq)
    moreover have "0 < (2::nat) ^ m" by simp
    then have "c < PAGE_NUM" using le by linarith
    ultimately have "c + 2 ^ Suc m \<le> PAGE_NUM" by (rule aligned_add_le)
    then show ?thesis using \<open>0 < 2 ^ m\<close> unfolding power_Suc by linarith
  qed
  moreover have "c - 2 ^ m < PAGE_NUM"
  proof -
    have "0 < (2::nat) ^ m" by simp
    then show ?thesis using le by linarith
  qed
  ultimately show "c XOR 2 ^ m < PAGE_NUM" using flip by simp
  have "c XOR (c XOR 2 ^ m) = 2 ^ m" by (simp flip: xor.assoc)
  then show "c XOR 2 ^ m \<noteq> c" by auto
qed

lemma bfree_step:
  "bfree b k fl =
     (if k < MAX_ORDER - 1 \<and> b XOR 2 ^ k \<in> set (fl k)
      then bfree (min b (b XOR 2 ^ k)) (k + 1) (fl(k := remove1 (b XOR 2 ^ k) (fl k)))
      else if k < MAX_ORDER - 1 then fl(k := b # fl k) else fl)"
  by (simp add: bfree_def bmerge.simps [of b k fl])

lemma free_insert_refines:
  assumes "core s fl A" "tight {c} s fl" "buddy_ok fl (insert (c, m) A)" "(c, m) \<notin> A"
  shows "core (free_insert c (int m) s) (fl(m := c # fl m)) A \<and>
         tight {} (free_insert c (int m) s) (fl(m := c # fl m))"
proof -
  have m: "m < MAX_ORDER" using assms(3) by (auto simp: buddy_ok_def aligned_def)
  have "c \<in> rng (c, m)" by (simp add: rng_def)
  note fresh = in_hand_fresh [OF assms(3,4) this]
  let ?s1 = "upd_page c (\<lambda>p. p\<lparr>pi_idx := c\<rparr>) s"
  have c1: "core ?s1 fl A" by (rule core_upd_page [OF assms(1) fresh]) simp_all
  have "core (free_insert c (int m) s) (fl(m := c # fl m)) A"
    by (rule core_add [OF c1 m fresh]) (simp_all add: free_insert_def Let_def)
  moreover have "tight {} (free_insert c (int m) s) (fl(m := c # fl m))"
    by (rule tight_mono [OF assms(2)])
       (auto simp: free_insert_def Let_def in_lists_push [OF m] free_blocks_push [OF m])
  ultimately show ?thesis by blast
qed

lemma free_loop_refines:
  assumes "core s fl A" "tight {c} s fl" "buddy_ok fl (insert (c, m) A)" "(c, m) \<notin> A"
    "pi_order (page_list s c) = int m"
  shows "core (free_loop c (get_buddy c m) m s) (bfree c m fl) A \<and>
         tight {} (free_loop c (get_buddy c m) m s) (bfree c m fl)"
  using assms
proof (induction c m fl arbitrary: s rule: bmerge.induct)
  case (1 c m fl)
  let ?d = "c XOR 2 ^ m"
  have al: "aligned (c, m)" using "1.prems"(3) by (simp add: buddy_ok_def)
  then have m: "m < MAX_ORDER" by (simp add: aligned_def)
  show ?case
  proof (cases "m < MAX_ORDER - 1 \<and> ?d \<in> set (fl m)")
    case True
    then have m1: "m < MAX_ORDER - 1" and mem: "?d \<in> set (fl m)" by auto
    let ?fl = "fl(m := remove1 ?d (fl m))" and ?s1 = "rm_from_free_list (Some ?d) (int m) s"
    let ?lo = "min c ?d" and ?hi = "max c ?d"
    let ?s4 = "upd_page ?hi (\<lambda>p. p\<lparr>pi_entry_in_list := None\<rparr>)
                (upd_page ?hi (\<lambda>p. p\<lparr>pi_order := -1\<rparr>)
                  (upd_page ?lo (\<lambda>p. p\<lparr>pi_order := int (m + 1)\<rparr>) ?s1))"
    note db = buddy_ok_double [OF "1.prems"(3,4) m1 mem]
    have ne: "?d \<noteq> c" using buddy_in_range(2) [OF al m1] .
    have "c \<in> rng (?lo, Suc m)" "?d \<in> rng (?lo, Suc m)"
      unfolding db(3) by (simp_all add: rng_def)
    note fc = in_hand_fresh [OF db(1,2) this(1)] and fd = in_hand_fresh [OF db(1,2) this(2)]
    have flo: "\<not> in_lists ?fl ?lo" "(?lo, j) \<notin> A" and fhi: "\<not> in_lists ?fl ?hi" "(?hi, j) \<notin> A" for j
      using fc fd by (auto simp: min_def max_def simp del: fun_upd_apply)
    have "core ?s1 ?fl A" by (rule core_rm [OF "1.prems"(1) m mem])
    then have c4: "core ?s4 ?fl A"
      by (intro core_upd_page flo fhi) simp_all
    have fb: "free_blocks ?fl = free_blocks fl - {(?d, m)}"
      using m buddy_ok_distinct [OF "1.prems"(3) m] by (rule free_blocks_remove)
    have "tight {c, ?d} s fl" by (rule tight_weaken [OF "1.prems"(2)]) simp
    then have t4: "tight {?lo} ?s4 ?fl"
      by (rule tight_mono)
         (auto simp: in_lists_free_blocks fb min_def max_def simp del: fun_upd_apply split: if_splits)
    have od: "pi_order (page_list ?s4 ?lo) = int (m + 1)" using ne by (auto simp: min_def max_def)
    have "pi_entry_in_list (page_list s ?d) = Some ?d" "pi_order (page_list s ?d) = int m"
      using "1.prems"(1) m mem by (simp_all add: core_def info_def)
    then have "free_loop c (get_buddy c m) m s = free_loop ?lo (get_buddy ?lo (m + 1)) (m + 1) ?s4"
      using m1 "1.prems"(5) ne
      by (auto simp: free_loop.simps [of c ?d m s] get_buddy_def Let_def min_def max_def)
    moreover have "bfree c m fl = bfree ?lo (m + 1) ?fl" using True by (simp add: bfree_step [of c m fl])
    ultimately show ?thesis
      using "1.IH" [OF True c4 t4 _ _ od] db(1,2) by (simp del: fun_upd_apply)
  next
    case False
    show ?thesis
    proof (cases "m < MAX_ORDER - 1")
      case True
      then have nd: "?d \<notin> set (fl m)" using False by simp
      note dr = buddy_in_range [OF al True]
      have "\<not> (pi_entry_in_list (page_list s ?d) \<noteq> None \<and> pi_order (page_list s ?d) = int m)"
      proof
        assume a: "pi_entry_in_list (page_list s ?d) \<noteq> None \<and> pi_order (page_list s ?d) = int m"
        then have "in_lists fl ?d" using "1.prems"(2) dr True by (auto simp: tight_def)
        then obtain k where k: "k < MAX_ORDER" "?d \<in> set (fl k)" by (auto simp: in_lists_def)
        then have "pi_order (page_list s ?d) = int k" using "1.prems"(1) by (simp add: core_def info_def)
        then show False using a k nd by simp
      qed
      then have "free_loop c (get_buddy c m) m s = free_insert c (int m) s"
        using True "1.prems"(5)
        by (auto simp: free_loop.simps [of c ?d m s] get_buddy_def split: option.splits)
      moreover have "bfree c m fl = fl(m := c # fl m)"
        using False True by (simp add: bfree_step [of c m fl])
      ultimately show ?thesis using free_insert_refines [OF "1.prems"(1-4)] by (simp only:)
    next
      case top: False
      then have "free_loop c (get_buddy c m) m s = s" "bfree c m fl = fl"
        by (simp_all add: free_loop.simps [of c "get_buddy c m" m s] bfree_step [of c m fl])
      moreover have "tight {} s fl"
        using "1.prems"(2,5) m top by (auto simp: tight_def)
      ultimately show ?thesis using "1.prems"(1) by simp
    qed
  qed
qed

lemma page_index_block:
  assumes "memory_start s = 0" "b < PAGE_NUM"
  shows "page_index (b * PAGE_SIZE) s = int b"
proof -
  have "to_s64 (int b * 4096) = int b * 4096" using assms(2) by (intro to_s64_id) (auto simp: PAGE_NUM_eq)
  moreover have "to_s32 (int b) = int b" using assms(2) by (intro to_s32_id) (auto simp: PAGE_NUM_eq)
  ultimately show ?thesis using assms(1) by (simp add: page_index_def sdiv_nonneg)
qed

theorem mm_free_refines:
  assumes "mm_ok s fl A" "(b, k) \<in> A" "b \<noteq> 0"
  shows "\<exists>s'. mm_free (b * PAGE_SIZE) s = Some s' \<and> mm_ok s' (bfree b k fl) (A - {(b, k)})"
proof -
  let ?A = "A - {(b, k)}" and ?s = "free_loop b (get_buddy b k) k s"
  have ins: "insert (b, k) ?A = A" using assms(2) by blast
  have ok: "core s fl A" "tight {} s fl" "buddy_ok fl A" using assms(1) by (simp_all add: mm_ok_def)
  have al: "aligned (b, k)" using ok(3) assms(2) by (simp add: buddy_ok_def)
  have "0 < (2::nat) ^ k" by simp
  then have b: "b < PAGE_NUM" using al unfolding aligned_def by (simp, linarith)
  have f: "pi_order (page_list s b) = int k" "pi_entry_in_list (page_list s b) = None"
    using ok(1) assms(2) by (auto simp: core_def)
  have c: "core s fl ?A" using ok(1) by (auto simp: core_def)
  have "tight {b} s fl" by (rule tight_weaken [OF ok(2)]) simp
  then have t: "tight {b} s fl" by (rule tight_mono) auto
  have bo: "buddy_ok fl (insert (b, k) ?A)" "(b, k) \<notin> ?A" using ok(3) ins by auto
  have "mm_ok ?s (bfree b k fl) ?A"
    using free_loop_refines [OF c t bo f(1)] bfree_ok(1) [OF bo]
    by (cases "bmerge b k fl") (auto simp: mm_ok_def)
  moreover have "page_index (b * PAGE_SIZE) s = int b"
    using ok(1) b by (intro page_index_block) (simp_all add: core_def)
  then have "mm_free (b * PAGE_SIZE) s = Some ?s"
    using f b assms(3) by (simp add: mm_free_def Let_def)
  ultimately show ?thesis by blast
qed

subsection \<open>Initialisation\<close>

definition init_fl :: "nat \<Rightarrow> flists" where
  "init_fl j = (\<lambda>k. if k = MAX_ORDER - 1 then rev (map ((*) MAX_BLOCK_SIZE) [0..<j]) else [])"

lemma init_fl_Suc:
  "init_fl (Suc j) = (init_fl j)(MAX_ORDER - 1 := MAX_BLOCK_SIZE * j # init_fl j (MAX_ORDER - 1))"
  by (auto simp: init_fl_def)

lemma in_init_fl: "in_lists (init_fl j) p \<longleftrightarrow> (\<exists>i < j. p = MAX_BLOCK_SIZE * i)"
  by (auto simp: in_lists_def init_fl_def)

lemma free_blocks_init: "free_blocks (init_fl j) = {(MAX_BLOCK_SIZE * i, MAX_ORDER - 1) |i. i < j}"
  by (auto simp: free_blocks_def init_fl_def split: if_splits)

definition init_inv :: "nat \<Rightarrow> mm \<Rightarrow> bool" where
  "init_inv j s \<longleftrightarrow> core s (init_fl j) {} \<and>
     (\<forall>p < PAGE_NUM. \<not> in_lists (init_fl j) p \<longrightarrow>
        pi_entry_in_list (page_list s p) = None \<and> pi_order (page_list s p) = 0)"

lemma mm_init_blocks_inv:
  assumes "init_inv j s" "j \<le> 30"
  shows "init_inv 30 (mm_init_blocks (MAX_BLOCK_SIZE * j) s)"
  using assms
proof (induction "30 - j" arbitrary: j s)
  case 0
  then show ?case by (simp add: mm_init_blocks.simps PAGE_NUM_eq)
next
  case (Suc n)
  let ?i = "MAX_BLOCK_SIZE * j" and ?fl = "init_fl j"
  let ?s1 = "upd_page ?i (\<lambda>p. p\<lparr>pi_idx := ?i\<rparr>) s"
  let ?s2 = "add_to_free_list (Some ?i) (int (MAX_ORDER - 1)) ?s1"
  let ?s4 = "upd_page ?i (\<lambda>p. p\<lparr>pi_entry_in_list := Some ?i\<rparr>)
               (upd_page ?i (\<lambda>p. p\<lparr>pi_order := int (MAX_ORDER - 1)\<rparr>) ?s2)"
  have j: "j < 30" using Suc(2) by simp
  have fresh: "\<not> in_lists ?fl ?i" "(?i, k) \<notin> ({} :: block set)" for k
    by (auto simp: in_init_fl)
  have "core s ?fl {}" using Suc.prems(1) by (simp add: init_inv_def)
  then have c1: "core ?s1 ?fl {}" by (rule core_upd_page [OF _ fresh]) simp_all
  have "core ?s4 (?fl(MAX_ORDER - 1 := ?i # ?fl (MAX_ORDER - 1))) {}"
    by (rule core_add [OF c1 _ fresh]) simp_all
  then have "init_inv (Suc j) ?s4"
    using Suc.prems(1) unfolding init_fl_Suc [symmetric]
    by (auto simp: init_inv_def in_init_fl less_Suc_eq)
  then have "init_inv 30 (mm_init_blocks (MAX_BLOCK_SIZE * Suc j) ?s4)"
    by (rule Suc(1) [rotated]) (use Suc(2) j in auto)
  moreover have "mm_init_blocks ?i s = mm_init_blocks (MAX_BLOCK_SIZE * Suc j) ?s4"
    using j by (simp add: mm_init_blocks.simps [of "8192 * j"] PAGE_NUM_eq Let_def add.commute)
  ultimately show ?case by (simp only:)
qed

lemma mm_init_cache_eq:
  "free_list (mm_init_cache i s) = free_list s \<and>
   memory_start (mm_init_cache i s) = memory_start s \<and>
   page_list (mm_init_cache i s) p =
     (if i \<le> p \<and> p < PAGE_NUM then (page_list s p)\<lparr>pi_cache_order := -1\<rparr> else page_list s p)"
proof (induction i s rule: mm_init_cache.induct)
  case (1 i s)
  then show ?case by (cases "p = i") (auto simp: mm_init_cache.simps [of i s])
qed

lemma core_mm_init_cache: "core s fl A \<Longrightarrow> core (mm_init_cache i s) fl A"
  unfolding core_def using mm_init_cache_eq [of i s]
  by (auto simp: info_def intro: lists_ok_cong)

lemma buddy_ok_init: "buddy_ok (init_fl 30) {}"
proof -
  have d: "rng (8192 * i, 13) \<inter> rng (8192 * i', 13) = {}" if "i \<noteq> i'" for i i'
    using that by (auto simp: rng_def)
  have "rng x \<inter> rng y = {}" if "x \<in> free_blocks (init_fl 30)" "y \<in> free_blocks (init_fl 30)" "x \<noteq> y"
    for x y
  proof -
    from that(1,2) obtain i i' where "x = (8192 * i, 13)" "y = (8192 * i', 13)"
      by (auto simp: free_blocks_init)
    with that(3) d [of i i'] show ?thesis by auto
  qed
  then have "disj (free_blocks (init_fl 30) \<union> {})"
    by (simp add: disj_def)
  moreover have "aligned x" if "x \<in> free_blocks (init_fl 30) \<union> {}" for x
    using that by (auto simp: free_blocks_init aligned_def PAGE_NUM_eq)
  moreover have "distinct (init_fl 30 k)" for k
    by (simp add: init_fl_def distinct_map inj_on_def)
  ultimately show ?thesis by (simp add: buddy_ok_def)
qed

lemma free_pages_init: "free_pages (init_fl 30) = {..<PAGE_NUM}"
proof
  show "free_pages (init_fl 30) \<subseteq> {..<PAGE_NUM}"
    by (auto simp: free_pages_def free_blocks_init rng_def PAGE_NUM_eq)
  show "{..<PAGE_NUM} \<subseteq> free_pages (init_fl 30)"
  proof
    fix p assume "p \<in> {..<PAGE_NUM}"
    then have "p div 8192 < 30" and "p \<in> rng (MAX_BLOCK_SIZE * (p div 8192), MAX_ORDER - 1)"
      by (auto simp: rng_def PAGE_NUM_eq)
    then show "p \<in> free_pages (init_fl 30)"
      unfolding free_pages_def free_blocks_init by blast
  qed
qed

lemma mm_ok_init_cache:
  assumes inv: "init_inv 30 t"
  shows "mm_ok (mm_init_cache 0 t) (init_fl 30) {}"
proof -
  have c: "core t (init_fl 30) {}" and z: "\<And>p. p < PAGE_NUM \<Longrightarrow> \<not> in_lists (init_fl 30) p \<Longrightarrow>
      pi_entry_in_list (page_list t p) = None \<and> pi_order (page_list t p) = 0"
    using inv unfolding init_inv_def by blast+
  have q: "pi_entry_in_list (page_list (mm_init_cache 0 t) p) = pi_entry_in_list (page_list t p)"
    "pi_order (page_list (mm_init_cache 0 t) p) = pi_order (page_list t p)" for p
    using mm_init_cache_eq [of 0 t p] by simp_all
  have hd: "pi_order (page_list t p) = int (MAX_ORDER - 1)" if "in_lists (init_fl 30) p" for p
  proof -
    from that have "p \<in> set (init_fl 30 (MAX_ORDER - 1))"
      by (auto simp: in_lists_def init_fl_def split: if_splits)
    then show ?thesis using infoD [of t "init_fl 30" "MAX_ORDER - 1" p] c by (simp add: core_def)
  qed
  have "tight {} (mm_init_cache 0 t) (init_fl 30)"
    unfolding tight_def q using z hd by (metis less_irrefl)
  then show ?thesis
    using core_mm_init_cache [OF c] buddy_ok_init by (simp add: mm_ok_def)
qed

theorem mm_init_ok: "mm_ok (mm_init s) (init_fl 30) {}"
proof -
  let ?s = "s\<lparr>free_list := (\<lambda>i. if i < MAX_ORDER then None else free_list s i), memory_start := 0,
              page_list := (\<lambda>i. if i < PAGE_NUM then zero_page else page_list s i)\<rparr>"
  have "init_inv 0 ?s"
    by (auto simp: init_inv_def core_def lists_ok_def info_def init_fl_def zero_page_def)
  then have inv: "init_inv 30 (mm_init_blocks 0 ?s)" using mm_init_blocks_inv [of 0 ?s] by simp
  have eq: "mm_init s = mm_init_cache 0 (mm_init_blocks 0 ?s)"
    by (cases s) (simp add: mm_init_def Let_def cong: if_cong)
  show ?thesis unfolding eq by (rule mm_ok_init_cache [OF inv])
qed

subsection \<open>What a caller sees\<close>

text \<open>The pages under the allocator's control: those it can give out and those it has given out.\<close>

definition managed :: "flists \<Rightarrow> block set \<Rightarrow> nat set" where
  "managed fl A = free_pages fl \<union> (\<Union>x \<in> A. rng x)"

lemma mm_alloc_block:
  assumes ok: "mm_ok s fl A" and sz: "0 < sz" "sz \<le> MAX_ALLOC_SIZE" and res: "mm_alloc sz s = (p, s')"
  shows "(p = NULL \<and> s' = s \<and> (\<forall>k \<ge> alloc_order sz. k < MAX_ORDER \<longrightarrow> fl k = [])) \<or>
    (\<exists>b fl'. p = b * PAGE_SIZE \<and> mm_ok s' fl' (insert (b, alloc_order sz) A) \<and>
       (b, alloc_order sz) \<notin> A \<and> free_pages fl' = free_pages fl - rng (b, alloc_order sz) \<and>
       rng (b, alloc_order sz) \<subseteq> free_pages fl \<and>
       managed fl' (insert (b, alloc_order sz) A) = managed fl A)"
proof -
  let ?k = "alloc_order sz"
  have bo: "buddy_ok fl A" using ok by (simp add: mm_ok_def)
  note ref = mm_alloc_refines [OF ok sz]
  obtain r fl' where b: "balloc ?k fl = (r, fl')" by (cases "balloc ?k fl") auto
  show ?thesis
  proof (cases r)
    case None
    have "fst (bscan ?k ?k fl) = None" using b None by (simp add: balloc_def)
    then have "\<not> (\<exists>j \<ge> ?k. j < MAX_ORDER \<and> fl j \<noteq> [])"
      using bscan_ok(1) [OF bo order_refl, of ?k] by simp
    moreover have "p = NULL \<and> s' = s" using ref b None res by simp
    ultimately show ?thesis by blast
  next
    case (Some c)
    have "p = c * PAGE_SIZE \<and> mm_ok s' fl' (insert (c, ?k) A)" using ref b Some res by simp
    moreover have "buddy_ok fl' (insert (c, ?k) A) \<and> (c, ?k) \<notin> A \<and>
        free_pages fl' \<union> rng (c, ?k) = free_pages fl \<and> rng (c, ?k) \<inter> free_pages fl' = {}"
      using b Some by (intro bscan_ok(3) [OF bo order_refl]) (simp add: balloc_def)
    ultimately show ?thesis unfolding managed_def by blast
  qed
qed

lemma mm_free_block:
  assumes ok: "mm_ok s fl A" and b: "(b, k) \<in> A" "b \<noteq> 0"
  shows "\<exists>s' fl'. mm_free (b * PAGE_SIZE) s = Some s' \<and> mm_ok s' fl' (A - {(b, k)}) \<and>
     managed fl' (A - {(b, k)}) \<subseteq> managed fl A"
proof -
  let ?A = "A - {(b, k)}"
  have ins: "insert (b, k) ?A = A" using b(1) by blast
  have bo: "buddy_ok fl (insert (b, k) ?A)" using ok unfolding ins by (simp add: mm_ok_def)
  obtain c m fl' where m: "bmerge b k fl = (c, m, fl')" by (cases "bmerge b k fl") auto
  have lt: "m < MAX_ORDER" using bmerge_ok [OF bo _ m] by simp
  note fr = bfree_ok(2,3) [OF bo _ m]
  have "free_pages (bfree b k fl) \<subseteq> free_pages fl \<union> rng (b, k)"
  proof (cases "m = MAX_ORDER - 1")
    case True
    show ?thesis using fr(2) True by auto
  next
    case False
    then show ?thesis using fr(1) lt by auto
  qed
  then have "managed (bfree b k fl) ?A \<subseteq> managed fl A"
    using b(1) unfolding managed_def by fastforce
  then show ?thesis using mm_free_refines [OF ok b] by blast
qed

subsection \<open>Fields the page allocator leaves alone\<close>

lemma alloc_split_cache_order [simp]:
  "pi_cache_order (page_list (alloc_split b i order s) p) = pi_cache_order (page_list s p)"
proof (induction b i order s rule: alloc_split.induct)
  case (1 b i order s)
  then show ?case by (subst alloc_split.simps) (simp add: Let_def)
qed

lemma alloc_scan_cache_order:
  "pi_cache_order (page_list (snd (alloc_scan i order s)) p) = pi_cache_order (page_list s p)"
proof (induction i order s rule: alloc_scan.induct)
  case (1 i order s)
  then show ?case by (subst alloc_scan.simps) (simp add: Let_def split: option.split)
qed

lemma mm_alloc_cache_order:
  "mm_alloc sz s = (q, s') \<Longrightarrow> pi_cache_order (page_list s' p) = pi_cache_order (page_list s p)"
  using alloc_scan_cache_order [of "get_order (round_up (int sz))" "get_order (round_up (int sz))" s p]
  by (auto simp: mm_alloc_def Let_def split: if_splits)

lemma free_loop_cache_order [simp]:
  "pi_cache_order (page_list (free_loop c d m s) p) = pi_cache_order (page_list s p)"
proof (induction "MAX_ORDER - m" arbitrary: c d m s p)
  case 0
  then show ?case by (simp add: free_loop.simps [of c d m s])
next
  case (Suc n)
  have IH: "pi_cache_order (page_list (free_loop c' d' (Suc m) s') p) = pi_cache_order (page_list s' p)"
    for c' d' s' p by (rule Suc.hyps(1)) (use Suc.hyps(2) in simp)
  show ?case
    by (subst free_loop.simps) (simp add: Let_def free_insert_def IH split: option.split)
qed

lemma mm_free_cache_order:
  "mm_free ptr s = Some s' \<Longrightarrow> pi_cache_order (page_list s' p) = pi_cache_order (page_list s p)"
  by (auto simp: mm_free_def Let_def split: if_splits)

end
