(* ===== verification/Reserve.thy ===== *)
theory Reserve
  imports MmRefine
begin

section \<open>Reserving memory at boot\<close>

text \<open>
  \<open>reserve\<close> first splits the blocks that hold the two ends of the range until both ends are blocks
  of one page, then takes the blocks of the range off the free lists one after another. It
  recognises the block to split by the \<open>order\<close> field of its first page; before the first \<open>_free\<close>
  that field is never stale, which is \<open>strict\<close>.
\<close>

definition strict :: "mm \<Rightarrow> flists \<Rightarrow> block set \<Rightarrow> bool" where
  "strict s fl A \<longleftrightarrow> (\<forall>p < PAGE_NUM. 0 < pi_order (page_list s p) \<longrightarrow>
     (p, nat (pi_order (page_list s p))) \<in> free_blocks fl \<union> A)"

lemma strictD:
  "strict s fl A \<Longrightarrow> p < PAGE_NUM \<Longrightarrow> pi_order (page_list s p) = int (Suc k) \<Longrightarrow>
   (p, Suc k) \<in> free_blocks fl \<union> A"
  unfolding strict_def by (metis nat_int of_nat_0_less_iff zero_less_Suc)

lemma free_block_order:
  "core s fl A \<Longrightarrow> (b, k) \<in> free_blocks fl \<Longrightarrow> pi_order (page_list s b) = int k"
  by (simp add: core_def info_def free_blocks_iff)

subsection \<open>Splitting a free block\<close>

lemma free_blocks_two:
  "k < MAX_ORDER \<Longrightarrow> free_blocks (fl(k := a # b # fl k)) = insert (a, k) (insert (b, k) (free_blocks fl))"
  by (auto simp: free_blocks_def split: if_splits)

lemma mm_split_ok:
  assumes ok: "mm_ok s fl A" and b: "(b, Suc k) \<in> free_blocks fl"
  defines "fl1 \<equiv> fl(Suc k := remove1 b (fl (Suc k)))"
  shows "mm_ok (mm_split b (Suc k) s) (fl1(k := (b + 2 ^ k) # b # fl1 k)) A"
    and "strict s fl A \<Longrightarrow> strict (mm_split b (Suc k) s) (fl1(k := (b + 2 ^ k) # b # fl1 k)) A"
proof -
  let ?d = "b + 2 ^ k" and ?fl = "fl1(k := (b + 2 ^ k) # b # fl1 k)"
  have K: "Suc k < MAX_ORDER" "b \<in> set (fl (Suc k))" using b by (auto simp: free_blocks_iff)
  have ok': "core s fl A" "tight {} s fl" "buddy_ok fl A" using ok by (simp_all add: mm_ok_def)
  note tk = buddy_ok_take [OF ok'(3) K, folded fl1_def]
  have al: "aligned (b, Suc k)" using tk(1) by (simp add: buddy_ok_def)
  then have dvd: "2 ^ k dvd b" and ev: "even (b div 2 ^ k)"
    by (auto simp: aligned_def elim!: dvdE)
  have bd: "get_buddy b k = ?d" using ev by (simp add: get_buddy_def flip_aligned [OF dvd])
  have fresh: "\<not> in_lists fl1 x" "(x, j) \<notin> A" if "x = b \<or> x = ?d" for x j
    using in_hand_fresh [OF tk, of x] that by (auto simp: rng_def)
  let ?s1 = "rm_from_free_list (Some b) (int (Suc k)) s"
  let ?s4 = "upd_page b (\<lambda>p. p\<lparr>pi_order := int k\<rparr>) (upd_page b (\<lambda>p. p\<lparr>pi_idx := b\<rparr>)
               (upd_page b (\<lambda>p. p\<lparr>pi_entry_in_list := None\<rparr>) ?s1))"
  let ?s6 = "upd_page b (\<lambda>p. p\<lparr>pi_entry_in_list := Some b\<rparr>) (add_to_free_list (Some b) (int k) ?s4)"
  let ?s8 = "upd_page ?d (\<lambda>p. p\<lparr>pi_order := int k\<rparr>) (upd_page ?d (\<lambda>p. p\<lparr>pi_idx := ?d\<rparr>) ?s6)"
  let ?s10 = "upd_page ?d (\<lambda>p. p\<lparr>pi_entry_in_list := Some ?d\<rparr>) (add_to_free_list (Some ?d) (int k) ?s8)"
  have eq: "mm_split b (Suc k) s = ?s10" using K(1) by (simp add: mm_split_def Let_def bd)
  have "core ?s1 fl1 A" unfolding fl1_def by (rule core_rm [OF ok'(1) K])
  then have c4: "core ?s4 fl1 A" by (intro core_upd_page) (use fresh in auto)
  have k: "k < MAX_ORDER" using K(1) by simp
  have c6: "core ?s6 (fl1(k := b # fl1 k)) A"
    by (rule core_add [OF c4 k]) (use fresh in auto)
  have nd: "\<not> in_lists (fl1(k := b # fl1 k)) ?d"
    using fresh(1) [of ?d] by (simp add: in_lists_push [OF k])
  have c8: "core ?s8 (fl1(k := b # fl1 k)) A"
    by (intro core_upd_page c6 nd) (use fresh in auto)
  have "core ?s10 ((fl1(k := b # fl1 k))(k := ?d # (fl1(k := b # fl1 k)) k)) A"
    by (rule core_add [OF c8 k nd]) (use fresh in auto)
  then have c10: "core ?s10 ?fl A" by simp
  have fb: "free_blocks ?fl = insert (?d, k) (insert (b, k) (free_blocks fl - {(b, Suc k)}))"
    unfolding free_blocks_two [OF k] fl1_def
    using free_blocks_remove [of "Suc k" fl b] K(1) buddy_ok_distinct [OF ok'(3) K(1)] by simp
  have il: "in_lists ?fl p" if "in_lists fl p" for p
    using that unfolding in_lists_free_blocks fb by blast
  have "tight {b, ?d} s fl" by (rule tight_weaken [OF ok'(2)]) simp
  then have "tight {} ?s10 ?fl"
    by (rule tight_mono) (use il fb in \<open>auto simp: in_lists_free_blocks\<close>)
  moreover have "buddy_ok ?fl A"
  proof -
    have "buddy_ok (fl1(k := ?d # fl1 k)) (insert (b, k) A)" "(b, k) \<notin> A"
      using buddy_ok_halve [OF tk] by auto
    then have "buddy_ok ((fl1(k := ?d # fl1 k))(k := b # (fl1(k := ?d # fl1 k)) k)) A"
      by (rule buddy_ok_put)
    moreover have "free_blocks (fl1(k := b # ?d # fl1 k)) = free_blocks ?fl"
      unfolding free_blocks_two [OF k] by blast
    ultimately show ?thesis by (auto simp: buddy_ok_def)
  qed
  ultimately show "mm_ok (mm_split b (Suc k) s) ?fl A" using c10 unfolding eq by (simp add: mm_ok_def)
  assume st: "strict s fl A"
  show "strict (mm_split b (Suc k) s) ?fl A"
    unfolding strict_def eq
  proof (intro allI impI)
    fix p assume p: "p < PAGE_NUM" "0 < pi_order (page_list ?s10 p)"
    show "(p, nat (pi_order (page_list ?s10 p))) \<in> free_blocks ?fl \<union> A"
    proof (cases "p = b \<or> p = ?d")
      case True
      then have "pi_order (page_list ?s10 p) = int k" by auto
      then show ?thesis using True unfolding fb by auto
    next
      case False
      then have "pi_order (page_list ?s10 p) = pi_order (page_list s p)" by simp
      then show ?thesis using st p False unfolding strict_def fb by auto
    qed
  qed
qed

subsection \<open>Isolating a page\<close>

text \<open>The free block that holds page \<open>x\<close>, if any, has order at most \<open>m\<close>.\<close>

definition order_le :: "flists \<Rightarrow> nat \<Rightarrow> nat \<Rightarrow> bool" where
  "order_le fl x m \<longleftrightarrow> (\<forall>(b, k) \<in> free_blocks fl. x \<in> rng (b, k) \<longrightarrow> k \<le> m)"

definition split_at :: "nat \<Rightarrow> nat \<Rightarrow> mm \<Rightarrow> mm" where
  "split_at x k s =
     (let b = x - (x AND (2 ^ k - 1)) in
      if pi_order (page_list s b) = int k then mm_split b k s else s)"

lemma aligned_block:
  assumes "2 ^ k dvd b" "b \<le> x" "x < b + 2 ^ k"
  shows "x - (x AND (2 ^ k - 1)) = (b::nat)"
proof -
  obtain q where q: "b = 2 ^ k * q" using assms(1) by (elim dvdE)
  then have "x div 2 ^ k = q" using assms(2,3) by (intro div_nat_eqI) (auto simp: algebra_simps)
  then have "x mod 2 ^ k = x - b" using q minus_div_mult_eq_mod [of x "2 ^ k"] by (simp add: mult.commute)
  then show ?thesis using assms(2) by (simp only: mask_and_mod)
qed

lemma in_block: "x - (x AND (2 ^ k - 1)) \<le> x \<and> x < x - (x AND (2 ^ k - 1)) + 2 ^ k" for x :: nat
proof -
  have "x mod 2 ^ k < 2 ^ k" "x mod 2 ^ k \<le> x" by simp_all
  then show ?thesis unfolding mask_and_mod by linarith
qed

lemma split_at_ok:
  assumes ok: "mm_ok s fl A" "strict s fl A" and x: "x \<in> free_pages fl" "order_le fl x (Suc k)"
    and k: "Suc k < MAX_ORDER"
  shows "\<exists>fl'. mm_ok (split_at x (Suc k) s) fl' A \<and> strict (split_at x (Suc k) s) fl' A \<and>
     free_pages fl' = free_pages fl \<and> order_le fl' x k \<and> (\<forall>y m. order_le fl y m \<longrightarrow> order_le fl' y m)"
proof -
  have ok': "core s fl A" "buddy_ok fl A" using ok(1) by (simp_all add: mm_ok_def)
  have dj: "disj (free_blocks fl \<union> A)" using ok'(2) by (simp add: buddy_ok_def)
  obtain b j where bj: "(b, j) \<in> free_blocks fl" "x \<in> rng (b, j)"
    using x(1) by (auto simp: free_pages_def)
  have j: "j \<le> Suc k" using x(2) bj by (auto simp: order_le_def)
  have albj: "aligned (b, j)" using buddy_ok_aligned_free [OF ok'(2) bj(1)] .
  let ?c = "x - (x AND (2 ^ Suc k - 1))"
  show ?thesis
  proof (cases "j = Suc k")
    case True
    have c: "?c = b" using bj(2) albj True by (intro aligned_block) (auto simp: aligned_def rng_def)
    have "split_at x (Suc k) s = mm_split b (Suc k) s"
      using free_block_order [OF ok'(1) bj(1)] True c by (simp add: split_at_def Let_def)
    moreover
    let ?fl1 = "fl(Suc k := remove1 b (fl (Suc k)))"
    let ?fl = "?fl1(k := (b + 2 ^ k) # b # ?fl1 k)"
    note sp = mm_split_ok [OF ok(1) bj(1) [unfolded True]]
    have fb: "free_blocks ?fl = insert (b + 2 ^ k, k) (insert (b, k) (free_blocks fl - {(b, Suc k)}))"
      using k free_blocks_remove [of "Suc k" fl b] buddy_ok_distinct [OF ok'(2) k]
      by (subst free_blocks_two) simp_all
    have bm: "(b, Suc k) \<in> free_blocks fl" using bj(1) True by simp
    have fp: "free_pages ?fl = free_pages fl"
    proof -
      have "free_pages ?fl = rng (b, Suc k) \<union> (\<Union>y \<in> free_blocks fl - {(b, Suc k)}. rng y)"
        unfolding free_pages_def fb by (simp add: rng_Suc Un_ac)
      also have "\<dots> = free_pages fl" unfolding free_pages_def using bm by blast
      finally show ?thesis .
    qed
    have "order_le ?fl x k" unfolding order_le_def
    proof clarify
      fix c i assume ci: "(c, i) \<in> free_blocks ?fl" "x \<in> rng (c, i)"
      show "i \<le> k"
      proof (cases "(c, i) \<in> free_blocks fl - {(b, Suc k)}")
        case True
        then have "(c, i) = (b, Suc k)" using disj_same [OF dj, of "(c, i)" "(b, Suc k)" x] ci bj \<open>j = Suc k\<close> by simp
        then show ?thesis using True by simp
      next
        case False
        then show ?thesis using ci(1) unfolding fb by auto
      qed
    qed
    moreover have "order_le ?fl y m" if le: "order_le fl y m" for y m
      unfolding order_le_def
    proof clarify
      fix c i assume ci: "(c, i) \<in> free_blocks ?fl" "y \<in> rng (c, i)"
      show "i \<le> m"
      proof (cases "(c, i) \<in> free_blocks fl - {(b, Suc k)}")
        case True
        then show ?thesis using le ci(2) by (auto simp: order_le_def)
      next
        case False
        then have "i = k" "y \<in> rng (b, Suc k)" using ci unfolding fb by (auto simp: rng_Suc)
        then show ?thesis using le bm by (auto simp: order_le_def)
      qed
    qed
    ultimately show ?thesis using sp(1) sp(2) [OF ok(2)] fp by metis
  next
    case False
    have "pi_order (page_list s ?c) \<noteq> int (Suc k)"
    proof
      assume o: "pi_order (page_list s ?c) = int (Suc k)"
      have "?c \<le> x" by simp
      moreover have "x < PAGE_NUM" using bj(2) albj by (auto simp: aligned_def rng_def)
      ultimately have "(?c, Suc k) \<in> free_blocks fl \<union> A" using strictD [OF ok(2) _ o] by simp
      moreover have "x \<in> rng (?c, Suc k)"
        using in_block [of x "Suc k"] by (simp add: rng_def)
      ultimately have "(?c, Suc k) = (b, j)" using disj_same [OF dj _ _ _ bj(2)] bj(1) by blast
      then show False using False by simp
    qed
    then have "split_at x (Suc k) s = s" by (simp add: split_at_def Let_def)
    moreover have "order_le fl x k" unfolding order_le_def
    proof clarify
      fix c i assume ci: "(c, i) \<in> free_blocks fl" "x \<in> rng (c, i)"
      then have "(c, i) = (b, j)" using disj_same [OF dj _ _ ci(2) bj(2)] bj(1) by blast
      then show "i \<le> k" using j False by simp
    qed
    ultimately show ?thesis using ok by metis
  qed
qed

subsection \<open>Both ends\<close>

lemma mm_split_order: "Suc k < MAX_ORDER \<Longrightarrow> pi_order (page_list (mm_split b (Suc k) s) b) = int k"
  by (simp add: mm_split_def Let_def)

lemma reserve_step_eq:
  assumes "Suc k < MAX_ORDER"
  shows "reserve_step a z (Suc k) s = split_at z (Suc k) (split_at a (Suc k) s)"
proof (cases "a - (a AND (2 ^ Suc k - 1)) = z - (z AND (2 ^ Suc k - 1))")
  case True
  then show ?thesis
    using mm_split_order [OF assms, of "z - (z AND (2 ^ Suc k - 1))" s]
    unfolding reserve_step_def split_at_def Let_def by (simp only: if_True) simp
next
  case False
  then show ?thesis unfolding reserve_step_def split_at_def Let_def by (simp only: if_False)
qed

lemma reserve_split_ok:
  assumes "mm_ok s fl A" "strict s fl A" "a \<in> free_pages fl" "z \<in> free_pages fl"
    "order_le fl a k" "order_le fl z k" "k < MAX_ORDER"
  shows "\<exists>fl'. mm_ok (reserve_split a z k s) fl' A \<and> strict (reserve_split a z k s) fl' A \<and>
     free_pages fl' = free_pages fl \<and> order_le fl' a 0 \<and> order_le fl' z 0"
  using assms
proof (induction k arbitrary: s fl)
  case 0
  then show ?case by auto
next
  case (Suc k)
  have k: "Suc k < MAX_ORDER" by (rule Suc.prems(7))
  obtain fl1 where 1: "mm_ok (split_at a (Suc k) s) fl1 A" "strict (split_at a (Suc k) s) fl1 A"
    "free_pages fl1 = free_pages fl" "order_le fl1 a k" "\<And>y m. order_le fl y m \<Longrightarrow> order_le fl1 y m"
    using split_at_ok [OF Suc.prems(1,2,3,5) k] by blast
  have z: "z \<in> free_pages fl1" "order_le fl1 z (Suc k)" using 1(3,5) Suc.prems(4,6) by auto
  obtain fl2 where 2: "mm_ok (split_at z (Suc k) (split_at a (Suc k) s)) fl2 A"
    "strict (split_at z (Suc k) (split_at a (Suc k) s)) fl2 A"
    "free_pages fl2 = free_pages fl1" "order_le fl2 z k" "\<And>y m. order_le fl1 y m \<Longrightarrow> order_le fl2 y m"
    using split_at_ok [OF 1(1,2) z k] by blast
  have "a \<in> free_pages fl2" "z \<in> free_pages fl2" "k < MAX_ORDER"
    using 1(3) 2(3) Suc.prems(3,4) k by auto
  from Suc.IH [OF 2(1,2) this(1,2) 2(5) [OF 1(4)] 2(4) this(3)] show ?case
    by (simp add: reserve_step_eq [OF k] 1(3) 2(3))
qed

subsection \<open>Taking the range\<close>

text \<open>One block leaves the free lists and counts as handed out.\<close>

lemma take_block_ok:
  assumes ok: "mm_ok s fl A" "strict s fl A" and b: "(b, k) \<in> free_blocks fl"
  defines "s1 \<equiv> upd_page b (\<lambda>p. p\<lparr>pi_entry_in_list := None\<rparr>) (rm_from_free_list (Some b) (int k) s)"
    and "fl1 \<equiv> fl(k := remove1 b (fl k))"
  shows "mm_ok s1 fl1 (insert (b, k) A)" and "strict s1 fl1 (insert (b, k) A)"
    and "free_blocks fl1 = free_blocks fl - {(b, k)}" and "pi_order (page_list s1 b) = int k"
    and "pi_entry_in_list (page_list s b) \<noteq> None" and "pi_order (page_list s b) = int k"
proof -
  have K: "k < MAX_ORDER" "b \<in> set (fl k)" using b by (auto simp: free_blocks_iff)
  have ok': "core s fl A" "tight {} s fl" "buddy_ok fl A" using ok by (simp_all add: mm_ok_def)
  note tk = buddy_ok_take [OF ok'(3) K, folded fl1_def]
  have fresh: "\<not> in_lists fl1 b" "(b, j) \<notin> A" for j
    using in_hand_fresh [OF tk, of b] by (auto simp: rng_def)
  show fb: "free_blocks fl1 = free_blocks fl - {(b, k)}"
    unfolding fl1_def using K(1) buddy_ok_distinct [OF ok'(3) K(1)] by (intro free_blocks_remove)
  show o: "pi_order (page_list s b) = int k" and "pi_entry_in_list (page_list s b) \<noteq> None"
    using ok'(1) K by (auto simp: core_def info_def)
  then show o1: "pi_order (page_list s1 b) = int k" by (simp add: s1_def)
  have "core (rm_from_free_list (Some b) (int k) s) fl1 A" unfolding fl1_def by (rule core_rm [OF ok'(1) K])
  then have "core s1 fl1 A" unfolding s1_def by (intro core_upd_page fresh) auto
  then have "core s1 fl1 (insert (b, k) A)" using o1 by (simp add: core_def s1_def)
  moreover have "tight {b} s fl" by (rule tight_weaken [OF ok'(2)]) simp
  then have "tight {} s1 fl1"
    by (rule tight_mono) (auto simp: s1_def fb in_lists_free_blocks)
  ultimately show "mm_ok s1 fl1 (insert (b, k) A)" using tk(1) by (simp add: mm_ok_def)
  show "strict s1 fl1 (insert (b, k) A)"
    using ok(2) unfolding strict_def fb by (auto simp: s1_def)
qed

text \<open>Free blocks that fill up a range whose last page is a block by itself.\<close>

lemma reserve_take_ok:
  assumes "mm_ok s fl A" "strict s fl A" "{i..z} \<subseteq> free_pages fl" "order_le fl z 0" "i \<le> Suc z"
    "\<And>b k. (b, k) \<in> free_blocks fl \<Longrightarrow> i \<in> rng (b, k) \<Longrightarrow> b = i"
  shows "\<exists>fl' B. mm_ok (reserve_take i z s) fl' (A \<union> B) \<and> strict (reserve_take i z s) fl' (A \<union> B) \<and>
     free_pages fl' = free_pages fl - {i..z} \<and> (\<Union>x \<in> B. rng x) = {i..z}"
  using assms
proof (induction "Suc z - i" arbitrary: i s fl A rule: less_induct)
  case less
  show ?case
  proof (cases "i \<le> z")
    case False
    then show ?thesis using less.prems(1,2)
      by (intro exI [of _ fl] exI [of _ "{}"]) (simp add: reserve_take.simps)
  next
    case True
    have ok': "buddy_ok fl A" using less.prems(1) by (simp add: mm_ok_def)
    then have dj: "disj (free_blocks fl \<union> A)" by (simp add: buddy_ok_def)
    obtain b k where "(b, k) \<in> free_blocks fl" "i \<in> rng (b, k)"
      using less.prems(3) True by (auto simp: free_pages_def)
    with less.prems(6) have bk: "(i, k) \<in> free_blocks fl" by blast
    let ?j = "i + 2 ^ k"
    have pos: "0 < (2::nat) ^ k" by simp
    have top: "?j \<le> Suc z"
    proof (rule ccontr)
      assume "\<not> ?j \<le> Suc z"
      then have "z \<in> rng (i, k)" "Suc z < ?j" using True by (auto simp: rng_def)
      then show False using less.prems(4) bk True by (auto simp: order_le_def)
    qed
    note tk = take_block_ok [OF less.prems(1,2) bk]
    define s1 where "s1 = upd_page i (\<lambda>p. p\<lparr>pi_entry_in_list := None\<rparr>) (rm_from_free_list (Some i) (int k) s)"
    define fl1 where "fl1 = fl(k := remove1 i (fl k))"
    note tk = tk [folded s1_def fl1_def]
    have e: "reserve_take i z s = reserve_take ?j z s1"
      using True tk(4-6) unfolding reserve_take.simps [of i z s] by (simp add: s1_def Let_def)
    have fp: "free_pages fl1 = free_pages fl - rng (i, k)"
    proof -
      have "rng y \<inter> rng (i, k) = {}" if "y \<in> free_blocks fl - {(i, k)}" for y
        using disjD [OF dj, of y "(i, k)"] that bk by blast
      then show ?thesis unfolding free_pages_def tk(3) using bk by blast
    qed
    have rg: "rng (i, k) = {i..<?j}" by (simp add: rng_def)
    have "\<exists>fl' B. mm_ok (reserve_take ?j z s1) fl' (insert (i, k) A \<union> B) \<and>
        strict (reserve_take ?j z s1) fl' (insert (i, k) A \<union> B) \<and>
        free_pages fl' = free_pages fl1 - {?j..z} \<and> (\<Union>x \<in> B. rng x) = {?j..z}"
    proof (rule less.hyps [OF _ tk(1,2) _ _ top])
      show "Suc z - ?j < Suc z - i" using True pos by (intro diff_less_mono2) auto
      show "{?j..z} \<subseteq> free_pages fl1" using less.prems(3) unfolding fp rg by auto
      show "order_le fl1 z 0" using less.prems(4) unfolding order_le_def tk(3) by blast
      show "b = ?j" if b: "(b, m) \<in> free_blocks fl1" "?j \<in> rng (b, m)" for b m
      proof -
        have "rng (b, m) \<inter> rng (i, k) = {}"
          using disjD [OF dj, of "(b, m)" "(i, k)"] b(1) bk unfolding tk(3) by blast
        moreover have "?j - 1 \<in> {i..<?j}" using pos by (simp, linarith)
        ultimately have "?j - 1 \<notin> rng (b, m)" unfolding rg by blast
        then show ?thesis using b(2) pos by (auto simp: rng_def)
      qed
    qed
    then obtain fl' B where f: "mm_ok (reserve_take ?j z s1) fl' (insert (i, k) A \<union> B)"
        "strict (reserve_take ?j z s1) fl' (insert (i, k) A \<union> B)"
        "free_pages fl' = free_pages fl1 - {?j..z}" "(\<Union>x \<in> B. rng x) = {?j..z}"
      by blast
    have "insert (i, k) A \<union> B = A \<union> insert (i, k) B" by blast
    moreover have "{i..z} = rng (i, k) \<union> {?j..z}" unfolding rg using top by auto
    ultimately show ?thesis
      using f unfolding e fp by (intro exI [of _ fl'] exI [of _ "insert (i, k) B"]) auto
  qed
qed

subsection \<open>The whole operation\<close>

definition pages :: "addr \<Rightarrow> addr \<Rightarrow> nat set" where
  "pages a b = {a div PAGE_SIZE .. (b - 1) div PAGE_SIZE}"

lemma reserve_index:
  assumes "memory_start s = 0" "a < 2 ^ 32"
  shows "nat (to_s64 (int a - int (memory_start s)) sdiv int PAGE_SIZE mod 2 ^ 32) = a div PAGE_SIZE"
proof -
  have "to_s64 (int a) = int a" using assms(2) by (intro to_s64_id) auto
  moreover have "int a div 4096 mod 4294967296 = int (a div 4096)"
    using assms(2) by (simp add: zdiv_int)
  ultimately show ?thesis using assms(1) by (simp add: sdiv_nonneg zdiv_int)
qed

lemma order_le_top: "order_le fl x (MAX_ORDER - 1)"
  by (auto simp: order_le_def free_blocks_def)

theorem reserve_ok:
  assumes ok: "mm_ok s fl A" "strict s fl A" and r: "a < b" "b \<le> MEMORY_SIZE"
    and free: "pages a b \<subseteq> free_pages fl"
  shows "\<exists>fl' B. mm_ok (reserve a b s) fl' (A \<union> B) \<and> strict (reserve a b s) fl' (A \<union> B) \<and>
     free_pages fl' = free_pages fl - pages a b \<and> (\<Union>x \<in> B. rng x) = pages a b"
proof -
  let ?i = "a div PAGE_SIZE" and ?z = "(b - 1) div PAGE_SIZE"
  have ms: "memory_start s = 0" using ok(1) by (simp add: mm_ok_def core_def)
  have "b + (2 ^ 64 - 1) = (b - 1) + 2 ^ 64" using r(1) by simp
  then have "(b + (2 ^ 64 - 1)) mod 2 ^ 64 = ((b - 1) + 2 ^ 64) mod 2 ^ 64" by (simp only:)
  also have "\<dots> = b - 1" using r(2) by (subst mod_add_self2) simp
  finally have "(b + (2 ^ 64 - 1)) mod 2 ^ 64 = b - 1" .
  then have e: "reserve a b s = reserve_take ?i ?z (reserve_split ?i ?z (MAX_ORDER - 1) s)"
    using reserve_index [OF ms, of a] reserve_index [OF ms, of "b - 1"] r unfolding reserve_def Let_def
    by simp
  have le: "?i \<le> ?z" using r(1) by (intro div_le_mono) simp
  then have ends: "?i \<in> free_pages fl" "?z \<in> free_pages fl" using free by (auto simp: pages_def)
  obtain fl1 where 1: "mm_ok (reserve_split ?i ?z (MAX_ORDER - 1) s) fl1 A"
    "strict (reserve_split ?i ?z (MAX_ORDER - 1) s) fl1 A" "free_pages fl1 = free_pages fl"
    "order_le fl1 ?i 0" "order_le fl1 ?z 0"
    using reserve_split_ok [OF ok ends order_le_top order_le_top] by auto
  have "c = ?i" if "(c, k) \<in> free_blocks fl1" "?i \<in> rng (c, k)" for c k
  proof -
    have "k = 0" using 1(4) that unfolding order_le_def by blast
    then show ?thesis using that(2) by (simp add: rng_def)
  qed
  then show ?thesis
    using reserve_take_ok [OF 1(1,2) _ 1(5), of ?i] free le unfolding e 1(3) pages_def by simp
qed

end
