(* ===== verification/Kmem.thy ===== *)
theory Kmem
  imports MmRefine
begin

section \<open>The chunk allocator (src/alloc.c)\<close>

text \<open>
  \<open>simple_alloc\<close> bumps a pointer between the linker symbols \<open>__bss_end\<close> and \<open>__stack_top\<close>.
  \<open>kmalloc\<close> serves requests of up to 128 bytes from four caches of chunks of 16, 32, 64 and 128
  bytes, cut from pages of the page allocator; each chunk is preceded by a 16-byte
  \<open>struct kmem_cache_entry\<close>, which links the free ones. \<open>alloc\<close> and \<open>free\<close> choose between the two
  allocators. The memory that holds the entries is the field \<open>entries\<close>; the values of the two
  linker symbols are the parameter \<open>layout\<close>.
\<close>

subsection \<open>Data (include/alloc.h)\<close>

definition MAX_CHUNK_SIZE :: nat where [simp]: "MAX_CHUNK_SIZE = 128"
definition MIN_CACHE_ORDER :: nat where [simp]: "MIN_CACHE_ORDER = 4"
definition MAX_CACHE_ORDER :: nat where [simp]: "MAX_CACHE_ORDER = 7"
definition CACHE_NUM :: nat where [simp]: "CACHE_NUM = 4"

text \<open>\<open>sizeof(struct kmem_cache_entry)\<close>: two pointers.\<close>

definition ENTRY_SIZE :: nat where [simp]: "ENTRY_SIZE = 16"

record layout =
  bss_end :: addr
  stack_top :: addr

record kmem_cache_entry =
  ke_prev :: "addr option"
  ke_next :: "addr option"

record kmem_cache =
  cache_size :: int
  cache_list :: "addr option"

record heap =
  h_mm :: mm
  heap_ptr :: addr
  kmem_caches :: "nat \<Rightarrow> kmem_cache"
  entries :: "addr \<Rightarrow> kmem_cache_entry"

definition upd_entry :: "addr \<Rightarrow> (kmem_cache_entry \<Rightarrow> kmem_cache_entry) \<Rightarrow> heap \<Rightarrow> heap" where
  "upd_entry a f s = s\<lparr>entries := (entries s)(a := f (entries s a))\<rparr>"

definition set_cache_list :: "nat \<Rightarrow> addr option \<Rightarrow> heap \<Rightarrow> heap" where
  "set_cache_list i h s = s\<lparr>kmem_caches := (kmem_caches s)(i := (kmem_caches s i)\<lparr>cache_list := h\<rparr>)\<rparr>"

definition set_cache_order :: "int \<Rightarrow> int \<Rightarrow> heap \<Rightarrow> heap" where
  "set_cache_order page_idx c s =
     s\<lparr>h_mm := upd_page (nat page_idx) (\<lambda>p. p\<lparr>pi_cache_order := c\<rparr>) (h_mm s)\<rparr>"

lemma upd_entry_sel [simp]:
  "entries (upd_entry a f s) x = (if x = a then f (entries s a) else entries s x)"
  "h_mm (upd_entry a f s) = h_mm s" "heap_ptr (upd_entry a f s) = heap_ptr s"
  "kmem_caches (upd_entry a f s) = kmem_caches s"
  by (simp_all add: upd_entry_def)

lemma set_cache_list_sel [simp]:
  "cache_list (kmem_caches (set_cache_list i h s) j) = (if j = i then h else cache_list (kmem_caches s j))"
  "cache_size (kmem_caches (set_cache_list i h s) j) = cache_size (kmem_caches s j)"
  "entries (set_cache_list i h s) = entries s" "h_mm (set_cache_list i h s) = h_mm s"
  "heap_ptr (set_cache_list i h s) = heap_ptr s"
  by (simp_all add: set_cache_list_def)

lemma set_cache_order_sel [simp]:
  "kmem_caches (set_cache_order p c s) = kmem_caches s" "entries (set_cache_order p c s) = entries s"
  "heap_ptr (set_cache_order p c s) = heap_ptr s"
  "h_mm (set_cache_order p c s) = upd_page (nat p) (\<lambda>q. q\<lparr>pi_cache_order := c\<rparr>) (h_mm s)"
  by (simp_all add: set_cache_order_def)

subsection \<open>The start-up allocator\<close>

definition simple_alloc :: "layout \<Rightarrow> u32 \<Rightarrow> heap \<Rightarrow> addr \<times> heap" where
  "simple_alloc L sz s =
     (let s1 = (if heap_ptr s = NULL then s\<lparr>heap_ptr := bss_end L\<rparr> else s)
      in if stack_top L < heap_ptr s1 + unat sz then (NULL, s1)
         else (heap_ptr s1, s1\<lparr>heap_ptr := heap_ptr s1 + unat sz\<rparr>))"

subsection \<open>The free list of a cache\<close>

definition kmem_freelist_push :: "addr \<Rightarrow> nat \<Rightarrow> heap \<Rightarrow> heap" where
  "kmem_freelist_push entry cache s =
     (let s1 = upd_entry entry (\<lambda>e. e\<lparr>ke_next := cache_list (kmem_caches s cache)\<rparr>) s;
          s2 = (case cache_list (kmem_caches s1 cache) of
                  None \<Rightarrow> s1
                | Some h \<Rightarrow> upd_entry h (\<lambda>e. e\<lparr>ke_prev := Some entry\<rparr>) s1);
          s3 = set_cache_list cache (Some entry) s2
      in upd_entry entry (\<lambda>e. e\<lparr>ke_prev := None\<rparr>) s3)"

text \<open>\<open>None\<close>: the list is empty and the code dereferences \<open>NULL\<close>.\<close>

definition kmem_freelist_pop :: "nat \<Rightarrow> heap \<Rightarrow> heap option" where
  "kmem_freelist_pop cache s =
     (case cache_list (kmem_caches s cache) of
        None \<Rightarrow> None
      | Some tmp \<Rightarrow>
          let s1 = set_cache_list cache (ke_next (entries s tmp)) s;
              s2 = (case cache_list (kmem_caches s1 cache) of
                      None \<Rightarrow> s1
                    | Some h \<Rightarrow> upd_entry h (\<lambda>e. e\<lparr>ke_prev := None\<rparr>) s1);
              s3 = upd_entry tmp (\<lambda>e. e\<lparr>ke_next := None\<rparr>) s2
          in Some (upd_entry tmp (\<lambda>e. e\<lparr>ke_prev := None\<rparr>) s3))"

subsection \<open>Filling the caches\<close>

definition page_alloc :: "nat \<Rightarrow> heap \<Rightarrow> addr \<times> heap" where
  "page_alloc sz s = (case mm_alloc sz (h_mm s) of (p, m) \<Rightarrow> (p, s\<lparr>h_mm := m\<rparr>))"

text \<open>The loop that cuts \<open>n\<close> chunks from \<open>page\<close> on.\<close>

primrec push_chunks :: "nat \<Rightarrow> addr \<Rightarrow> nat \<Rightarrow> nat \<Rightarrow> heap \<Rightarrow> heap" where
  "push_chunks 0 page step cache s = s"
| "push_chunks (Suc n) page step cache s =
     push_chunks n (page + step) step cache (kmem_freelist_push page cache s)"

definition chunk_num :: "nat \<Rightarrow> heap \<Rightarrow> nat" where
  "chunk_num cache s = PAGE_SIZE div (nat (cache_size (kmem_caches s cache)) + ENTRY_SIZE)"

primrec cache_sizes :: "nat \<Rightarrow> heap \<Rightarrow> heap" where
  "cache_sizes 0 s = s"
| "cache_sizes (Suc i) s =
     (let s1 = cache_sizes i s
      in s1\<lparr>kmem_caches := (kmem_caches s1)(i := \<lparr>cache_size = 2 ^ (i + 4), cache_list = None\<rparr>)\<rparr>)"

function cache_fill :: "nat \<Rightarrow> heap \<Rightarrow> heap" where
  "cache_fill i s =
     (if i < CACHE_NUM then
        (case page_alloc PAGE_SIZE s of (page, s1) \<Rightarrow>
           if page = NULL then s1
           else
             let s2 = set_cache_order (page_index page (h_mm s1)) (int (i + MIN_CACHE_ORDER)) s1;
                 s3 = set_cache_list i None s2
             in cache_fill (i + 1)
                  (push_chunks (chunk_num i s3) page
                     (nat (cache_size (kmem_caches s3 i)) + ENTRY_SIZE) i s3))
      else s)"
  by pat_completeness auto
termination
  by (relation "measure (\<lambda>(i, _). CACHE_NUM - i)") auto

declare cache_fill.simps [simp del]

definition kmem_cache_init :: "heap \<Rightarrow> heap" where
  "kmem_cache_init s = cache_fill 0 (cache_sizes CACHE_NUM s)"

definition request_page :: "nat \<Rightarrow> heap \<Rightarrow> heap" where
  "request_page order s =
     (case page_alloc PAGE_SIZE s of (page, s1) \<Rightarrow>
        if page = NULL then s1
        else
          let s2 = set_cache_order (page_index page (h_mm s1)) (int (order + MIN_CACHE_ORDER)) s1
          in push_chunks (chunk_num order s2 - 1) page
               (nat (cache_size (kmem_caches s2 order)) + ENTRY_SIZE) order s2)"

subsection \<open>Allocating and freeing chunks\<close>

text \<open>
  \<open>1 << order\<close> is an \<open>int\<close> compared with an \<open>unsigned\<close>; \<open>None\<close>: a shift by 32 or more, undefined in C.
\<close>

function chunk_order_loop :: "nat \<Rightarrow> u32 \<Rightarrow> nat option" where
  "chunk_order_loop order sz =
     (if 32 \<le> order then None
      else if (push_bit order 1 :: u32) < sz then chunk_order_loop (order + 1) sz
      else Some order)"
  by pat_completeness auto
termination
  by (relation "measure (\<lambda>(order, _). 32 - order)") auto

declare chunk_order_loop.simps [simp del]

definition get_chunk_order :: "u32 \<Rightarrow> nat option" where
  "get_chunk_order sz = chunk_order_loop 4 sz"

definition kmalloc :: "u32 \<Rightarrow> heap \<Rightarrow> (addr \<times> heap) option" where
  "kmalloc sz s =
     (case get_chunk_order sz of
        None \<Rightarrow> None
      | Some order \<Rightarrow>
          let sz' = (push_bit order 1 :: u32); cache = order - MIN_CACHE_ORDER in
          if sz' = 0 then Some (NULL, s)
          else if of_nat MAX_CHUNK_SIZE < sz' then Some (NULL, s)
          else
            let s1 = (if cache_list (kmem_caches s cache) = None then request_page cache s else s) in
            (case cache_list (kmem_caches s1 cache) of
               None \<Rightarrow> Some (NULL, s1)
             | Some entry \<Rightarrow>
                 (case kmem_freelist_pop cache s1 of
                    None \<Rightarrow> None
                  | Some s2 \<Rightarrow> Some (entry + ENTRY_SIZE, s2))))"

text \<open>\<open>None\<close>: the page index is outside \<open>page_list\<close>; \<open>kfree\<close> itself does not check it.\<close>

definition kfree :: "layout \<Rightarrow> addr \<Rightarrow> heap \<Rightarrow> heap option" where
  "kfree L ptr s =
     (if ptr = NULL then Some s
      else if bss_end L \<le> ptr \<and> ptr < stack_top L then Some s
      else
        let page_idx = page_index ptr (h_mm s) in
        if page_idx < 0 \<or> int PAGE_NUM \<le> page_idx then None
        else
          let order = pi_cache_order (page_list (h_mm s) (nat page_idx)) in
          if order < int MIN_CACHE_ORDER \<or> int MAX_CACHE_ORDER < order then Some s
          else Some (kmem_freelist_push (ptr - ENTRY_SIZE) (nat order - MIN_CACHE_ORDER) s))"

definition alloc :: "u32 \<Rightarrow> heap \<Rightarrow> (addr \<times> heap) option" where
  "alloc sz s =
     (if sz = 0 then Some (NULL, s)
      else if of_nat MAX_CHUNK_SIZE < sz then Some (page_alloc (unat sz) s)
      else kmalloc sz s)"

definition free :: "layout \<Rightarrow> addr \<Rightarrow> heap \<Rightarrow> heap option" where
  "free L ptr s =
     (if ptr = NULL then Some s
      else if bss_end L \<le> ptr \<and> ptr < stack_top L then Some s
      else
        let page_idx = page_index ptr (h_mm s) in
        if page_idx < 0 \<or> int PAGE_NUM \<le> page_idx then Some s
        else if pi_cache_order (page_list (h_mm s) (nat page_idx)) \<noteq> -1 then kfree L ptr s
        else map_option (\<lambda>m. s\<lparr>h_mm := m\<rparr>) (mm_free ptr (h_mm s)))"

end
