(* ===== verification/Allocator.thy ===== *)
theory Allocator
  imports Prelude
begin

section \<open>The contract of a memory allocator\<close>

text \<open>
  The kernel has three allocators (the start-up bump allocator, the page allocator and the chunk
  allocator in front of it) and every other component is a client of one of them. What a client
  may rely on is the same: a request that does not return \<open>NULL\<close> returns memory that overlaps
  nothing handed out before and still held. \<open>allocator\<close> states that contract and
  \<open>reclaiming_allocator\<close> adds the return of memory; the client's theorem, proved once, is that in any
  sequence of requests and returns the held regions stay pairwise disjoint.
\<close>

text \<open>A region: its first address and its length. The regions held are a list, the newest first.\<close>

type_synonym region = "addr \<times> nat"

definition bytes :: "region \<Rightarrow> addr set" where
  "bytes r = {fst r ..< fst r + snd r}"

definition apart :: "region \<Rightarrow> region \<Rightarrow> bool" where
  "apart r q \<longleftrightarrow> bytes r \<inter> bytes q = {}"

definition drop_nth :: "nat \<Rightarrow> 'a list \<Rightarrow> 'a list" where
  "drop_nth i xs = take i xs @ drop (Suc i) xs"

text \<open>A client: it asks for memory, or returns the \<open>i\<close>-th block it holds.\<close>

datatype 'n req = Get 'n | Put nat

fun serve :: "('n \<Rightarrow> 's \<Rightarrow> (addr \<times> 's) option) \<Rightarrow> (addr \<Rightarrow> 's \<Rightarrow> 's option) \<Rightarrow> 'n req list \<Rightarrow>
    's \<Rightarrow> (addr \<times> 'n) list \<Rightarrow> ('s \<times> (addr \<times> 'n) list) option" where
  "serve get put [] s H = Some (s, H)"
| "serve get put (Get n # rs) s H =
     (case get n s of None \<Rightarrow> None
      | Some (p, s') \<Rightarrow> serve get put rs s' (if p = NULL then H else (p, n) # H))"
| "serve get put (Put i # rs) s H =
     (if i < length H then
        (case put (fst (H ! i)) s of None \<Rightarrow> None
         | Some s' \<Rightarrow> serve get put rs s' (drop_nth i H))
      else serve get put rs s H)"

lemma set_drop_nth: "set (drop_nth i xs) \<subseteq> set xs"
  by (auto simp: drop_nth_def dest: in_set_takeD in_set_dropD)

lemma in_drop_nth:
  assumes "x \<in> set xs" "i < length xs" "x \<noteq> xs ! i"
  shows "x \<in> set (drop_nth i xs)"
proof -
  have "xs = take i xs @ xs ! i # drop (Suc i) xs" using assms(2) by (rule id_take_nth_drop)
  then have "set xs = insert (xs ! i) (set (drop_nth i xs))"
    unfolding drop_nth_def by (metis Un_insert_right list.simps(15) set_append)
  then show ?thesis using assms(1,3) by blast
qed

lemma sorted_wrt_drop_nth: "sorted_wrt P xs \<Longrightarrow> sorted_wrt P (drop_nth i xs)"
  unfolding drop_nth_def
  by (induction xs arbitrary: i) (auto simp: take_Cons drop_Cons split: nat.splits
      dest: in_set_takeD in_set_dropD)

lemma drop_nth_apart:
  "sorted_wrt P xs \<Longrightarrow> i < length xs \<Longrightarrow> y \<in> set (drop_nth i xs) \<Longrightarrow> P (xs ! i) y \<or> P y (xs ! i)"
  unfolding drop_nth_def
proof (induction xs arbitrary: i)
  case (Cons x xs)
  then show ?case by (cases i) auto
qed simp

lemma list_all2_drop_nth: "list_all2 P xs ys \<Longrightarrow> list_all2 P (drop_nth i xs) (drop_nth i ys)"
  unfolding drop_nth_def by (intro list_all2_appendI list_all2_takeI list_all2_dropI)

text \<open>What the client asked for lies in what it was given.\<close>

definition covers :: "('n \<Rightarrow> nat) \<Rightarrow> (addr \<times> 'n) list \<Rightarrow> region list \<Rightarrow> bool" where
  "covers len H R \<longleftrightarrow> list_all2 (\<lambda>(p, n) (q, l). p = q \<and> len n \<le> l) H R"

lemma covers_apart:
  assumes "covers len H R" "sorted_wrt apart R"
  shows "sorted_wrt (\<lambda>(p, n) (q, m). apart (p, len n) (q, len m)) H"
  using assms unfolding covers_def
proof (induction H R rule: list_all2_induct)
  case (Cons h H r R)
  have "apart (fst h, len (snd h)) (fst g, len (snd g))" if g: "g \<in> set H" for g
  proof -
    obtain q where q: "q \<in> set R" "fst g = fst q" "len (snd g) \<le> snd q"
      using Cons(2) g by (fastforce simp: list_all2_conv_all_nth in_set_conv_nth)
    then have "apart r q" using Cons.prems by simp
    then show ?thesis using Cons(1) q by (fastforce simp: apart_def bytes_def)
  qed
  then show ?case using Cons by (auto simp: case_prod_beta)
qed simp

locale allocator =
  fixes get :: "'n \<Rightarrow> 's \<Rightarrow> (addr \<times> 's) option"
    and len :: "'n \<Rightarrow> nat"
    and inv :: "'s \<Rightarrow> region list \<Rightarrow> bool"
    and arena :: "addr set"
  assumes inv_apart: "inv s R \<Longrightarrow> sorted_wrt apart R"
    and inv_arena: "inv s R \<Longrightarrow> r \<in> set R \<Longrightarrow> bytes r \<subseteq> arena"
    and get_returns: "inv s R \<Longrightarrow> \<exists>p s'. get n s = Some (p, s')"
    and get_null: "inv s R \<Longrightarrow> get n s = Some (NULL, s') \<Longrightarrow> inv s' R"
    and get_fresh: "inv s R \<Longrightarrow> get n s = Some (p, s') \<Longrightarrow> p \<noteq> NULL \<Longrightarrow>
                      \<exists>l \<ge> len n. inv s' ((p, l) # R)"
begin

lemma get_step:
  assumes "inv s R" "covers len H R" "get n s = Some (p, s')"
  shows "\<exists>R'. inv s' R' \<and> covers len (if p = NULL then H else (p, n) # H) R'"
  using get_null [OF assms(1), of n s'] get_fresh [OF assms(1,3)] assms(2,3)
  by (cases "p = NULL") (auto simp: covers_def)

lemma held_apart:
  "inv s R \<Longrightarrow> covers len H R \<Longrightarrow> sorted_wrt (\<lambda>(p, n) (q, m). apart (p, len n) (q, len m)) H"
  by (blast intro: covers_apart inv_apart)

lemma held_arena:
  assumes "inv s R" "covers len H R" "(p, n) \<in> set H"
  shows "bytes (p, len n) \<subseteq> arena"
proof -
  obtain l where "(p, l) \<in> set R" "len n \<le> l"
    using assms(2,3) by (fastforce simp: covers_def list_all2_conv_all_nth in_set_conv_nth)
  then show ?thesis using inv_arena [OF assms(1)] by (fastforce simp: bytes_def)
qed

lemma new_apart:
  assumes "inv s R" "get n s = Some (p, s')" "p \<noteq> NULL" "r \<in> set R"
  shows "apart (p, len n) r"
proof -
  obtain l where "len n \<le> l" "inv s' ((p, l) # R)" using get_fresh [OF assms(1-3)] by blast
  then have "sorted_wrt apart ((p, l) # R)" by (intro inv_apart)
  then have "apart (p, l) r" using assms(4) by simp
  with \<open>len n \<le> l\<close> show ?thesis by (fastforce simp: apart_def bytes_def)
qed

lemma gets_ok:
  assumes "inv s R" "covers len H R"
  shows "\<exists>s' H' R'. serve get put (map Get ns) s H = Some (s', H') \<and> inv s' R' \<and> covers len H' R'"
  using assms
proof (induction ns arbitrary: s H R)
  case (Cons n ns)
  obtain p s' where g: "get n s = Some (p, s')" using get_returns [OF Cons.prems(1)] by blast
  obtain R' where "inv s' R'" "covers len (if p = NULL then H else (p, n) # H) R'"
    using get_step [OF Cons.prems g] by blast
  from Cons.IH [OF this] show ?case by (simp add: g)
qed auto

lemma gets_disjoint:
  assumes "inv s []"
  shows "\<exists>s' H'. serve get put (map Get ns) s [] = Some (s', H') \<and>
           sorted_wrt (\<lambda>(p, n) (q, m). apart (p, len n) (q, len m)) H' \<and>
           (\<forall>(p, n) \<in> set H'. bytes (p, len n) \<subseteq> arena)"
proof -
  have "covers len [] []" by (simp add: covers_def)
  then obtain s' H' R' where "serve get put (map Get ns) s [] = Some (s', H')" "inv s' R'" "covers len H' R'"
    using gets_ok [OF assms] by blast
  then show ?thesis using held_apart held_arena by blast
qed

end

locale reclaiming_allocator = allocator get len inv arena
  for get :: "'n \<Rightarrow> 's \<Rightarrow> (addr \<times> 's) option" and len :: "'n \<Rightarrow> nat"
    and inv :: "'s \<Rightarrow> region list \<Rightarrow> bool" and arena :: "addr set" +
  fixes put :: "addr \<Rightarrow> 's \<Rightarrow> 's option"
  assumes put_held: "inv s R \<Longrightarrow> i < length R \<Longrightarrow>
                       \<exists>s'. put (fst (R ! i)) s = Some s' \<and> inv s' (drop_nth i R)"
begin

lemma put_step:
  assumes "inv s R" "covers len H R" "i < length H"
  shows "\<exists>s'. put (fst (H ! i)) s = Some s' \<and> inv s' (drop_nth i R) \<and>
              covers len (drop_nth i H) (drop_nth i R)"
proof -
  have "i < length R" "fst (H ! i) = fst (R ! i)"
    using assms(2,3) by (auto simp: covers_def list_all2_conv_all_nth split_beta)
  then show ?thesis
    using put_held [OF assms(1)] list_all2_drop_nth assms(2) unfolding covers_def by metis
qed

lemma serve_ok:
  assumes "inv s R" "covers len H R"
  shows "\<exists>s' H' R'. serve get put rs s H = Some (s', H') \<and> inv s' R' \<and> covers len H' R'"
  using assms
proof (induction rs arbitrary: s H R)
  case Nil
  then show ?case by auto
next
  case (Cons r rs)
  show ?case
  proof (cases r)
    case (Get n)
    obtain p s' where g: "get n s = Some (p, s')" using get_returns [OF Cons.prems(1)] by blast
    obtain R' where "inv s' R'" "covers len (if p = NULL then H else (p, n) # H) R'"
      using get_step [OF Cons.prems g] by blast
    from Cons.IH [OF this] show ?thesis by (simp add: Get g)
  next
    case (Put i)
    show ?thesis
    proof (cases "i < length H")
      case True
      obtain s' where "put (fst (H ! i)) s = Some s'" "inv s' (drop_nth i R)"
        "covers len (drop_nth i H) (drop_nth i R)"
        using put_step [OF Cons.prems True] by blast
      then show ?thesis using Cons.IH [of s' "drop_nth i R" "drop_nth i H"] True by (simp add: Put)
    next
      case False
      then show ?thesis using Cons.IH [OF Cons.prems] by (simp add: Put)
    qed
  qed
qed

lemma serve_disjoint:
  assumes "inv s []"
  shows "\<exists>s' H'. serve get put rs s [] = Some (s', H') \<and>
           sorted_wrt (\<lambda>(p, n) (q, m). apart (p, len n) (q, len m)) H' \<and>
           (\<forall>(p, n) \<in> set H'. bytes (p, len n) \<subseteq> arena)"
proof -
  have "covers len [] []" by (simp add: covers_def)
  then obtain s' H' R' where "serve get put rs s [] = Some (s', H')" "inv s' R'" "covers len H' R'"
    using serve_ok [OF assms] by blast
  then show ?thesis using held_apart held_arena by blast
qed

end

end
