(* ===== verification/KmemInv.thy ===== *)
theory KmemInv
  imports Kmem Allocator
begin

section \<open>The chunk allocator keeps allocations apart\<close>

text \<open>
  \<open>heap_ok\<close> relates the allocator's state to the blocks \<open>A\<close> taken from the page allocator, the map
  \<open>C\<close> of the pages cut into chunks to their cache, the free chunks \<open>fr\<close> of each cache and the chunks
  \<open>U\<close> in use. The section ends with the interpretations of \<open>reclaiming_allocator\<close> for the pair
  \<open>alloc\<close>/\<open>free\<close> and of \<open>allocator\<close> for \<open>simple_alloc\<close>.
\<close>

subsection \<open>Chunks\<close>

definition chunk_step :: "nat \<Rightarrow> nat" where
  "chunk_step i = 2 ^ (i + 4) + ENTRY_SIZE"

definition chunk_at :: "(nat \<rightharpoonup> nat) \<Rightarrow> nat \<Rightarrow> addr \<Rightarrow> bool" where
  "chunk_at C i a \<longleftrightarrow> (\<exists>p j. C p = Some i \<and> p < PAGE_NUM \<and> j < PAGE_SIZE div chunk_step i \<and>
     a = p * PAGE_SIZE + j * chunk_step i)"

definition chunk_region :: "addr \<times> nat \<Rightarrow> region" where
  "chunk_region x = (fst x + ENTRY_SIZE, 2 ^ (snd x + 4))"

definition block_region :: "block \<Rightarrow> region" where
  "block_region x = (fst x * PAGE_SIZE, 2 ^ snd x * PAGE_SIZE)"

lemma chunk_step_pos [simp]: "0 < chunk_step i"
  by (simp add: chunk_step_def)

lemma slot_in_page:
  assumes "j < PAGE_SIZE div chunk_step i" "y < chunk_step i"
  shows "(p * PAGE_SIZE + j * chunk_step i + y) div PAGE_SIZE = p"
proof -
  have "Suc j * chunk_step i \<le> PAGE_SIZE div chunk_step i * chunk_step i"
    using assms(1) by (intro mult_le_mono1) simp
  also have "\<dots> \<le> PAGE_SIZE" by simp
  finally have "j * chunk_step i + y < PAGE_SIZE" using assms(2) by simp
  then show ?thesis by (simp add: div_add1_eq [of "p * 4096"] add.assoc)
qed

lemma chunk_page:
  assumes "chunk_at C i a"
  shows "C (a div PAGE_SIZE) = Some i" and "a div PAGE_SIZE < PAGE_NUM"
    and "y < chunk_step i \<Longrightarrow> (a + y) div PAGE_SIZE = a div PAGE_SIZE"
    and "\<exists>j. j < PAGE_SIZE div chunk_step i \<and> a = a div PAGE_SIZE * PAGE_SIZE + j * chunk_step i"
proof -
  obtain p j where c: "C p = Some i" "p < PAGE_NUM" "j < PAGE_SIZE div chunk_step i"
    "a = p * PAGE_SIZE + j * chunk_step i" using assms by (auto simp: chunk_at_def)
  have d: "(a + y) div PAGE_SIZE = p" if "y < chunk_step i" for y
    unfolding c(4) by (rule slot_in_page [OF c(3) that])
  have p: "a div PAGE_SIZE = p" using d [of 0] by simp
  show "C (a div PAGE_SIZE) = Some i" "a div PAGE_SIZE < PAGE_NUM"
    "\<exists>j. j < PAGE_SIZE div chunk_step i \<and> a = a div PAGE_SIZE * PAGE_SIZE + j * chunk_step i"
    unfolding p using c by blast+
  show "y < chunk_step i \<Longrightarrow> (a + y) div PAGE_SIZE = a div PAGE_SIZE" unfolding p by (rule d)
qed

lemma chunk_unique: "chunk_at C i a \<Longrightarrow> chunk_at C j a \<Longrightarrow> i = j"
  by (auto dest!: chunk_page(1))

lemma chunk_mono: "chunk_at C i a \<Longrightarrow> (\<And>p j. C p = Some j \<Longrightarrow> C' p = Some j) \<Longrightarrow> chunk_at C' i a"
  unfolding chunk_at_def by blast

lemma block_bytes: "y \<in> bytes (block_region x) \<longleftrightarrow> y div PAGE_SIZE \<in> rng x"
proof -
  have "fst x * 4096 \<le> y \<longleftrightarrow> fst x \<le> y div 4096"
    by (simp add: less_eq_div_iff_mult_less_eq)
  moreover have "y < fst x * 4096 + 2 ^ snd x * 4096 \<longleftrightarrow> y div 4096 < fst x + 2 ^ snd x"
    by (simp add: div_less_iff_less_mult algebra_simps)
  ultimately show ?thesis by (simp add: bytes_def block_region_def rng_def)
qed

lemma chunk_bytes:
  "chunk_at C i a \<Longrightarrow> y \<in> bytes (chunk_region (a, i)) \<Longrightarrow> y div PAGE_SIZE = a div PAGE_SIZE"
  using chunk_page(3) [of C i a "y - a"] by (auto simp: bytes_def chunk_region_def chunk_step_def)

lemma block_not_chunk:
  assumes "chunk_at C i a"
  shows "block_region x \<noteq> chunk_region (a, i)"
proof
  assume "block_region x = chunk_region (a, i)"
  then have e: "a + 16 = fst x * 4096" by (simp add: block_region_def chunk_region_def)
  have "(a + 16) div PAGE_SIZE = a div PAGE_SIZE"
    by (rule chunk_page(3) [OF assms]) (simp add: chunk_step_def)
  then have "fst x = a div 4096" by (simp add: e)
  then show False using e by linarith
qed

lemma chunk_chunk_apart:
  assumes "chunk_at C i a" "chunk_at C j b" "(a, i) \<noteq> (b, j)"
  shows "apart (chunk_region (a, i)) (chunk_region (b, j))"
proof (rule ccontr)
  assume "\<not> apart (chunk_region (a, i)) (chunk_region (b, j))"
  then obtain y where y: "y \<in> bytes (chunk_region (a, i))" "y \<in> bytes (chunk_region (b, j))"
    by (auto simp: apart_def)
  then have pg: "a div PAGE_SIZE = b div PAGE_SIZE" using chunk_bytes assms by metis
  then have ij: "i = j" using chunk_page(1) assms by (metis option.inject)
  obtain m n where mn: "a = a div PAGE_SIZE * PAGE_SIZE + m * chunk_step i"
    "b = a div PAGE_SIZE * PAGE_SIZE + n * chunk_step i"
    using chunk_page(4) assms(1,2) pg ij by metis
  have "a < b + chunk_step i" "b < a + chunk_step i"
    using y ij by (auto simp: bytes_def chunk_region_def chunk_step_def)
  then have "m * chunk_step i < Suc n * chunk_step i" "n * chunk_step i < Suc m * chunk_step i"
    using mn by simp_all
  then have "m < Suc n" "n < Suc m" unfolding mult_less_cancel2 by auto
  then have "m = n" by simp
  then have "a = b" using mn by simp
  then show False using assms(3) ij by simp
qed

subsection \<open>The lists of free chunks\<close>

abbreviation "entry_next s a \<equiv> ke_next (entries s a)"
abbreviation "entry_prev s a \<equiv> ke_prev (entries s a)"

definition caches_ok :: "heap \<Rightarrow> (nat \<rightharpoonup> nat) \<Rightarrow> (nat \<Rightarrow> addr list) \<Rightarrow> bool" where
  "caches_ok s C fr \<longleftrightarrow> (\<forall>i < CACHE_NUM.
     dll (entry_next s) (entry_prev s) None (cache_list (kmem_caches s i)) (fr i) \<and>
     distinct (fr i) \<and> (\<forall>a \<in> set (fr i). chunk_at C i a))"

lemma caches_okD:
  assumes "caches_ok s C fr" "i < CACHE_NUM"
  shows "dll (entry_next s) (entry_prev s) None (cache_list (kmem_caches s i)) (fr i)"
    and "distinct (fr i)" and "\<And>a. a \<in> set (fr i) \<Longrightarrow> chunk_at C i a"
  using assms unfolding caches_ok_def by blast+

lemma caches_ok_mono:
  "caches_ok s C fr \<Longrightarrow> (\<And>p j. C p = Some j \<Longrightarrow> C' p = Some j) \<Longrightarrow> caches_ok s C' fr"
  unfolding caches_ok_def using chunk_mono by blast

lemma caches_ok_cong:
  "caches_ok s C fr \<Longrightarrow> entries s' = entries s \<Longrightarrow>
   (\<And>i. cache_list (kmem_caches s' i) = cache_list (kmem_caches s i)) \<Longrightarrow> caches_ok s' C fr"
  unfolding caches_ok_def by simp

lemma push_fields [simp]:
  "h_mm (kmem_freelist_push a i s) = h_mm s"
  "heap_ptr (kmem_freelist_push a i s) = heap_ptr s"
  "cache_size (kmem_caches (kmem_freelist_push a i s) j) = cache_size (kmem_caches s j)"
  by (simp_all add: kmem_freelist_push_def Let_def split: option.split)

lemma push_ok:
  assumes ok: "caches_ok s C fr" and i: "i < CACHE_NUM" and a: "chunk_at C i a" "a \<notin> set (fr i)"
  shows "caches_ok (kmem_freelist_push a i s) C (fr(i := a # fr i))"
  unfolding caches_ok_def
proof (intro allI impI)
  fix j assume j: "j < CACHE_NUM"
  let ?s = "kmem_freelist_push a i s" and ?h = "cache_list (kmem_caches s i)"
  note D = caches_okD [OF ok i]
  have h: "?h = Some b \<Longrightarrow> b \<in> set (fr i)" for b using D(1) by (auto simp: dll_Some)
  then have ha: "?h \<noteq> Some a" using a(2) by blast
  have nx: "entry_next ?s y = (if y = a then ?h else entry_next s y)" for y
    using ha by (auto simp: kmem_freelist_push_def Let_def split: option.split)
  have pv: "entry_prev ?s y = (if y = a then None else if ?h = Some y then Some a else entry_prev s y)" for y
    using ha by (auto simp: kmem_freelist_push_def Let_def split: option.split)
  have cl: "cache_list (kmem_caches ?s j) = (if j = i then Some a else cache_list (kmem_caches s j))"
    by (auto simp: kmem_freelist_push_def Let_def split: option.split)
  show "dll (entry_next ?s) (entry_prev ?s) None (cache_list (kmem_caches ?s j)) ((fr(i := a # fr i)) j) \<and>
        distinct ((fr(i := a # fr i)) j) \<and> (\<forall>b \<in> set ((fr(i := a # fr i)) j). chunk_at C j b)"
  proof (cases "j = i")
    case True
    have "dll (entry_next ?s) (entry_prev ?s) None (Some a) (a # fr i)"
      by (rule dll_push [OF D(1)]) (use a(2) D(2) nx pv in auto)
    then show ?thesis using True cl a D(2,3) by simp
  next
    case False
    note E = caches_okD [OF ok j]
    have ne: "y \<noteq> a \<and> ?h \<noteq> Some y" if "y \<in> set (fr j)" for y
      using that False chunk_unique [OF E(3)] D(3) a(1) h by blast
    have "dll (entry_next ?s) (entry_prev ?s) None (cache_list (kmem_caches s j)) (fr j)"
      by (rule dll_cong [OF E(1)]) (use ne nx pv in auto)
    then show ?thesis using False cl E by simp
  qed
qed

lemma pop_ok:
  assumes ok: "caches_ok s C fr" and i: "i < CACHE_NUM" and fr: "fr i = a # as"
  shows "cache_list (kmem_caches s i) = Some a"
    and "\<exists>s'. kmem_freelist_pop i s = Some s' \<and> caches_ok s' C (fr(i := as)) \<and> h_mm s' = h_mm s \<and>
           heap_ptr s' = heap_ptr s \<and> (\<forall>j. cache_size (kmem_caches s' j) = cache_size (kmem_caches s j))"
proof -
  note D = caches_okD [OF ok i, unfolded fr]
  show h: "cache_list (kmem_caches s i) = Some a" using D(1) by simp
  let ?n = "entry_next s a"
  have n: "?n = Some b \<Longrightarrow> b \<in> set as" for b using D(1) by (auto simp: dll_Some)
  then have na: "?n \<noteq> Some a" using D(2) by auto
  obtain s' where s': "kmem_freelist_pop i s = Some s'" by (simp add: kmem_freelist_pop_def h Let_def)
  have nx: "entry_next s' y = (if y = a then None else entry_next s y)" for y
    using s' na by (auto simp: kmem_freelist_pop_def h Let_def split: option.splits)
  have pv: "entry_prev s' y = (if y = a \<or> ?n = Some y then None else entry_prev s y)" for y
    using s' na by (auto simp: kmem_freelist_pop_def h Let_def split: option.splits)
  have cl: "cache_list (kmem_caches s' j) = (if j = i then ?n else cache_list (kmem_caches s j))" for j
    using s' by (auto simp: kmem_freelist_pop_def h Let_def split: option.splits)
  have "caches_ok s' C (fr(i := as))" unfolding caches_ok_def
  proof (intro allI impI)
    fix j assume j: "j < CACHE_NUM"
    note E = caches_okD [OF ok j]
    show "dll (entry_next s') (entry_prev s') None (cache_list (kmem_caches s' j)) ((fr(i := as)) j) \<and>
          distinct ((fr(i := as)) j) \<and> (\<forall>b \<in> set ((fr(i := as)) j). chunk_at C j b)"
    proof (cases "j = i")
      case True
      have "dll (entry_next s') (entry_prev s') None ?n as"
        using D(1) [unfolded h] by (rule dll_drop_first) (use D(2) nx pv in auto)
      then show ?thesis using True cl D by auto
    next
      case False
      have ne: "y \<noteq> a \<and> ?n \<noteq> Some y" if "y \<in> set (fr j)" for y
        using that False chunk_unique [OF E(3)] D(3) n by (metis list.set_intros)
      have "dll (entry_next s') (entry_prev s') None (cache_list (kmem_caches s j)) (fr j)"
        by (rule dll_cong [OF E(1)]) (use ne nx pv in auto)
      then show ?thesis using False cl E by simp
    qed
  qed
  moreover have "h_mm s' = h_mm s \<and> heap_ptr s' = heap_ptr s \<and>
      (\<forall>j. cache_size (kmem_caches s' j) = cache_size (kmem_caches s j))"
    using s' by (auto simp: kmem_freelist_pop_def h Let_def split: option.splits)
  ultimately show "\<exists>s'. kmem_freelist_pop i s = Some s' \<and> caches_ok s' C (fr(i := as)) \<and>
      h_mm s' = h_mm s \<and> heap_ptr s' = heap_ptr s \<and>
      (\<forall>j. cache_size (kmem_caches s' j) = cache_size (kmem_caches s j))" using s' by blast
qed

lemma push_chunks_fields [simp]:
  "h_mm (push_chunks n page st i s) = h_mm s"
  "heap_ptr (push_chunks n page st i s) = heap_ptr s"
  "cache_size (kmem_caches (push_chunks n page st i s) j) = cache_size (kmem_caches s j)"
  by (induction n arbitrary: page s) auto

lemma push_chunks_ok:
  assumes "caches_ok s C fr" "i < CACHE_NUM" "0 < st"
    "\<And>t. t < n \<Longrightarrow> chunk_at C i (page + t * st) \<and> page + t * st \<notin> set (fr i)"
  shows "caches_ok (push_chunks n page st i s) C
           (fr(i := rev (map (\<lambda>t. page + t * st) [0..<n]) @ fr i))"
  using assms
proof (induction n arbitrary: page s fr)
  case 0
  then show ?case by simp
next
  case (Suc n)
  let ?fr = "fr(i := page # fr i)"
  have "caches_ok (push_chunks n (page + st) st i (kmem_freelist_push page i s)) C
          (?fr(i := rev (map (\<lambda>t. page + st + t * st) [0..<n]) @ ?fr i))"
  proof (rule Suc.IH)
    show "caches_ok (kmem_freelist_push page i s) C ?fr"
      using Suc.prems(4) [of 0] by (intro push_ok Suc.prems(1,2)) auto
    show "chunk_at C i (page + st + t * st) \<and> page + st + t * st \<notin> set (?fr i)" if "t < n" for t
      using Suc.prems(3) Suc.prems(4) [of "Suc t"] that by (simp add: add.assoc)
  qed (use Suc.prems in auto)
  moreover have "map (\<lambda>t. page + t * st) [0..<Suc n] = page # map (\<lambda>t. page + st + t * st) [0..<n]"
    by (simp add: upt_rec [of 0] map_Suc_upt [symmetric] o_def add.assoc del: upt_Suc)
  ultimately show ?case
    by (simp add: fun_upd_upd fun_upd_same del: upt_Suc fun_upd_apply)
qed

subsection \<open>The invariant\<close>

text \<open>\<open>M\<close>: the pages left to the allocator at boot; none of them holds kernel memory.\<close>

definition outside :: "layout \<Rightarrow> nat set \<Rightarrow> bool" where
  "outside L M \<longleftrightarrow> (\<forall>x. bss_end L \<le> x \<and> x < stack_top L \<longrightarrow> x div PAGE_SIZE \<notin> M)"

definition heap_ok :: "layout \<Rightarrow> nat set \<Rightarrow> heap \<Rightarrow> flists \<Rightarrow> block set \<Rightarrow> (nat \<rightharpoonup> nat) \<Rightarrow>
    (nat \<Rightarrow> addr list) \<Rightarrow> (addr \<times> nat) set \<Rightarrow> bool" where
  "heap_ok L M s fl A C fr U \<longleftrightarrow>
     mm_ok (h_mm s) fl A \<and>
     (\<forall>i < CACHE_NUM. cache_size (kmem_caches s i) = 2 ^ (i + 4)) \<and>
     (\<forall>p < PAGE_NUM. pi_cache_order (page_list (h_mm s) p) =
        (case C p of None \<Rightarrow> -1 | Some i \<Rightarrow> int (i + MIN_CACHE_ORDER))) \<and>
     (\<forall>p i. C p = Some i \<longrightarrow> i < CACHE_NUM \<and> (p, 0) \<in> A) \<and>
     caches_ok s C fr \<and>
     (\<forall>(a, i) \<in> U. chunk_at C i a \<and> a \<notin> set (fr i)) \<and>
     managed fl A \<subseteq> M \<and> outside L M"

text \<open>The regions clients can hold: blocks not cut into chunks, and chunks in use.\<close>

definition regions :: "block set \<Rightarrow> (nat \<rightharpoonup> nat) \<Rightarrow> (addr \<times> nat) set \<Rightarrow> region set" where
  "regions A C U = block_region ` {x \<in> A. C (fst x) = None} \<union> chunk_region ` U"

definition heap_inv :: "layout \<Rightarrow> nat set \<Rightarrow> heap \<Rightarrow> region list \<Rightarrow> bool" where
  "heap_inv L M s R \<longleftrightarrow> (\<exists>fl A C fr U. heap_ok L M s fl A C fr U \<and> set R \<subseteq> regions A C U \<and>
     (\<forall>r \<in> set R. fst r \<noteq> NULL) \<and> sorted_wrt apart R)"

lemma heap_okD:
  assumes "heap_ok L M s fl A C fr U"
  shows "mm_ok (h_mm s) fl A"
    and "i < CACHE_NUM \<Longrightarrow> cache_size (kmem_caches s i) = 2 ^ (i + 4)"
    and "p < PAGE_NUM \<Longrightarrow> pi_cache_order (page_list (h_mm s) p) =
           (case C p of None \<Rightarrow> -1 | Some i \<Rightarrow> int (i + MIN_CACHE_ORDER))"
    and "C p = Some i \<Longrightarrow> i < CACHE_NUM" and "C p = Some i \<Longrightarrow> (p, 0) \<in> A"
    and "caches_ok s C fr" and "(a, i) \<in> U \<Longrightarrow> chunk_at C i a" and "(a, i) \<in> U \<Longrightarrow> a \<notin> set (fr i)"
    and "bss_end L \<le> x \<Longrightarrow> x < stack_top L \<Longrightarrow> x div PAGE_SIZE \<notin> managed fl A"
    and "managed fl A \<subseteq> M" and "outside L M"
  using assms unfolding heap_ok_def outside_def by blast+

lemma heap_ok_disj: "heap_ok L M s fl A C fr U \<Longrightarrow> disj A"
  by (auto simp: heap_ok_def mm_ok_def buddy_ok_def intro: disj_subset)

lemma heap_ok_page:
  assumes "heap_ok L M s fl A C fr U" "C p = Some i" "(b, k) \<in> A" "p \<in> rng (b, k)"
  shows "b = p" and "k = 0"
proof -
  have "(b, k) = (p, 0)"
    using disj_same [OF heap_ok_disj [OF assms(1)] assms(3) heap_okD(5) [OF assms(1,2)] assms(4)]
    by (simp add: rng_def)
  then show "b = p" "k = 0" by auto
qed

lemma regions_apart:
  assumes ok: "heap_ok L M s fl A C fr U" and rq: "r \<in> regions A C U" "q \<in> regions A C U" "r \<noteq> q"
  shows "apart r q"
proof -
  have bb: "apart (block_region x) (block_region y)" if "x \<in> A" "y \<in> A" "x \<noteq> y" for x y
    using disjD [OF heap_ok_disj [OF ok] that] by (auto simp: apart_def block_bytes)
  have bc: "apart (block_region x) (chunk_region u)" if x: "x \<in> A" "C (fst x) = None" and u: "u \<in> U" for x u
  proof -
    obtain a i where ai: "u = (a, i)" by (cases u)
    have c: "chunk_at C i a" using heap_okD(7) [OF ok] u ai by simp
    have "a div PAGE_SIZE \<notin> rng x"
      using heap_ok_page [OF ok chunk_page(1) [OF c], of "fst x" "snd x"] x chunk_page(1) [OF c] by auto
    then show ?thesis using chunk_bytes [OF c] unfolding ai apart_def disjoint_iff block_bytes by metis
  qed
  have cc: "apart (chunk_region u) (chunk_region v)" if "u \<in> U" "v \<in> U" "u \<noteq> v" for u v
    using chunk_chunk_apart [of C "snd u" "fst u" "snd v" "fst v"] heap_okD(7) [OF ok] that by auto
  have sym: "apart x y \<longleftrightarrow> apart y x" for x y by (auto simp: apart_def)
  from rq show ?thesis unfolding regions_def
    by (elim UnE imageE; simp only: mem_Collect_eq; metis bb bc cc sym rq(3))
qed

definition page_bytes :: "nat set \<Rightarrow> addr set" where
  "page_bytes M = {x. x div PAGE_SIZE \<in> M}"

lemma regions_arena:
  assumes ok: "heap_ok L M s fl A C fr U" and r: "r \<in> regions A C U"
  shows "bytes r \<subseteq> page_bytes M"
proof -
  have AM: "p \<in> M" if "x \<in> A" "p \<in> rng x" for x p
    using heap_okD(10) [OF ok] that unfolding managed_def by blast
  from r consider x where "x \<in> A" "r = block_region x" | u where "u \<in> U" "r = chunk_region u"
    by (auto simp: regions_def)
  then show ?thesis
  proof cases
    case 1
    then show ?thesis unfolding page_bytes_def using AM [of x] by (auto simp: block_bytes)
  next
    case 2
    obtain a i where u: "u = (a, i)" by (cases u)
    have c: "chunk_at C i a" using heap_okD(7) [OF ok] 2(1) u by simp
    have "a div PAGE_SIZE \<in> M"
      using AM [OF heap_okD(5) [OF ok chunk_page(1) [OF c]]] by (simp add: rng_def)
    then show ?thesis using chunk_bytes [OF c] 2(2) u by (auto simp: page_bytes_def)
  qed
qed

lemma regions_nonempty: "r \<in> regions A C U \<Longrightarrow> \<not> apart r r"
  by (auto simp: regions_def apart_def bytes_def block_region_def chunk_region_def)

lemma page_index_eq:
  assumes "memory_start m = 0" "x div PAGE_SIZE < PAGE_NUM"
  shows "page_index x m = int (x div PAGE_SIZE)"
proof -
  have lt: "x div 4096 < 245760" using assms(2) by (simp add: PAGE_NUM_eq)
  then have "x < 245760 * 4096" by (simp add: div_less_iff_less_mult)
  then have "to_s64 (int x) = int x" by (intro to_s64_id) simp_all
  moreover have "to_s32 (int (x div 4096)) = int (x div 4096)" using lt by (intro to_s32_id) simp_all
  ultimately show ?thesis using assms(1) by (simp add: page_index_def sdiv_nonneg zdiv_int)
qed

lemma heap_ok_memory_start: "heap_ok L M s fl A C fr U \<Longrightarrow> memory_start (h_mm s) = 0"
  by (simp add: heap_ok_def mm_ok_def core_def)

subsection \<open>Pages from the page allocator\<close>

lemma alloc_order_page [simp]: "alloc_order 4096 = 0"
proof -
  have "round_up 4096 = 4096" by (simp add: round_up_def smod_nonneg)
  then show ?thesis
    by (simp add: alloc_order_def get_order_def sdiv_nonneg order_loop.simps [of 1 0])
qed

lemma heap_ok_frame:
  assumes "heap_ok L M s fl A C fr U" "mm_ok m fl' A'"
    "\<And>p. pi_cache_order (page_list m p) = pi_cache_order (page_list (h_mm s) p)"
    "\<And>p i. C p = Some i \<Longrightarrow> (p, 0) \<in> A'" "managed fl' A' \<subseteq> managed fl A"
  shows "heap_ok L M (s\<lparr>h_mm := m\<rparr>) fl' A' C fr U"
proof -
  have "caches_ok (s\<lparr>h_mm := m\<rparr>) C fr" by (rule caches_ok_cong [OF heap_okD(6) [OF assms(1)]]) simp_all
  then show ?thesis using assms unfolding heap_ok_def by fastforce
qed

text \<open>
  What \<open>_alloc\<close> adds: nothing, or a block that was free. (A block at page 0 is \<open>NULL\<close> to the caller
  and lost; the kernel reserves that page.)
\<close>

lemma page_alloc_ok:
  assumes ok: "heap_ok L M s fl A C fr U" and res: "page_alloc sz s = (p, s')"
  shows "\<exists>fl' A'. heap_ok L M s' fl' A' C fr U \<and> A \<subseteq> A' \<and> entries s' = entries s \<and>
     kmem_caches s' = kmem_caches s \<and> heap_ptr s' = heap_ptr s \<and>
     (p \<noteq> NULL \<longrightarrow> (\<exists>b. p = b * PAGE_SIZE \<and> 0 < sz \<and> sz \<le> MAX_ALLOC_SIZE \<and>
        A' = insert (b, alloc_order sz) A \<and> (b, alloc_order sz) \<notin> A \<and> C b = None))"
proof (cases "0 < sz \<and> sz \<le> MAX_ALLOC_SIZE")
  case False
  then have "p = NULL" "s' = s" using res by (auto simp: page_alloc_def mm_alloc_def)
  then show ?thesis using ok by blast
next
  case True
  obtain m where m: "mm_alloc sz (h_mm s) = (p, m)" "s' = s\<lparr>h_mm := m\<rparr>"
    using res by (cases "mm_alloc sz (h_mm s)") (simp add: page_alloc_def)
  note co = mm_alloc_cache_order [OF m(1)]
  from mm_alloc_block [OF heap_okD(1) [OF ok] _ _ m(1)] True
  consider (null) "p = NULL" "m = h_mm s"
    | (block) b fl' where "p = b * PAGE_SIZE" "mm_ok m fl' (insert (b, alloc_order sz) A)"
      "(b, alloc_order sz) \<notin> A" "managed fl' (insert (b, alloc_order sz) A) = managed fl A"
    by blast
  then show ?thesis
  proof cases
    case null
    then show ?thesis using ok m(2) by auto
  next
    case block
    let ?A = "insert (b, alloc_order sz) A"
    have "heap_ok L M s' fl' ?A C fr U"
      unfolding m(2) using heap_okD(5) [OF ok] block(2,4) co by (intro heap_ok_frame [OF ok]) auto
    moreover have "C b = None"
    proof (cases "C b")
      case (Some i)
      have "b \<in> rng (b, alloc_order sz)" by (simp add: rng_def)
      then have "alloc_order sz = 0"
        using heap_ok_page(2) [OF calculation Some, of b "alloc_order sz"] by simp
      then show ?thesis using heap_okD(5) [OF ok Some] block(3) by simp
    qed simp
    ultimately show ?thesis using block True m(2) by auto
  qed
qed

lemma mm_ok_cong:
  assumes ok: "mm_ok s fl A" and fl: "free_list s' = free_list s" and ms: "memory_start s' = memory_start s"
    and eq: "\<And>p. pi_idx (page_list s' p) = pi_idx (page_list s p)"
    "\<And>p. pi_order (page_list s' p) = pi_order (page_list s p)"
    "\<And>p. pi_entry_in_list (page_list s' p) = pi_entry_in_list (page_list s p)"
    "\<And>p. page_next s' p = page_next s p" "\<And>p. page_prev s' p = page_prev s p"
  shows "mm_ok s' fl A"
proof -
  have "lists_ok s' fl"
    by (rule lists_ok_cong [of s]) (use ok fl eq in \<open>simp_all add: mm_ok_def core_def\<close>)
  then show ?thesis
    using ok unfolding mm_ok_def core_def info_def tight_def eq ms by blast
qed

text \<open>A fresh page is cut into chunks.\<close>

lemma fill_page_ok:
  assumes ok: "heap_ok L M s fl (insert (b, 0) A) C fr U" and i: "i < CACHE_NUM"
    and b: "C b = None" and n: "n \<le> PAGE_SIZE div chunk_step i"
  shows "heap_ok L M (push_chunks n (b * PAGE_SIZE) (chunk_step i) i
              (set_cache_order (int b) (int (i + MIN_CACHE_ORDER)) s))
           fl (insert (b, 0) A) (C(b \<mapsto> i))
           (fr(i := rev (map (\<lambda>t. b * PAGE_SIZE + t * chunk_step i) [0..<n]) @ fr i)) U"
proof -
  let ?C = "C(b \<mapsto> i)" and ?s = "set_cache_order (int b) (int (i + MIN_CACHE_ORDER)) s"
  let ?new = "map (\<lambda>t. b * PAGE_SIZE + t * chunk_step i) [0..<n]"
  have al: "aligned (b, 0)" using heap_okD(1) [OF ok] by (simp add: mm_ok_def buddy_ok_def)
  have bP: "b < PAGE_NUM" using al by (simp add: aligned_def)
  have mono: "C p = Some j \<Longrightarrow> ?C p = Some j" for p j using b by auto
  have ch: "chunk_at ?C i (b * PAGE_SIZE + t * chunk_step i)" if "t < n" for t
    using that n bP unfolding chunk_at_def by (intro exI [of _ b] exI [of _ t]) auto
  have pg: "(b * PAGE_SIZE + t * chunk_step i) div PAGE_SIZE = b" if "t < n" for t
    using slot_in_page [of t i 0 b] that n by simp
  have old: "x \<noteq> b * PAGE_SIZE + t * chunk_step i" if "t < n" "chunk_at C j x" for x t j
    using chunk_page(1) [OF that(2)] pg [OF that(1)] b by auto
  have "caches_ok ?s C fr" by (rule caches_ok_cong [OF heap_okD(6) [OF ok]]) simp_all
  then have "caches_ok ?s ?C fr" by (rule caches_ok_mono) (rule mono)
  moreover have "b * PAGE_SIZE + t * chunk_step i \<notin> set (fr i)" if "t < n" for t
    using caches_okD(3) [OF heap_okD(6) [OF ok] i] old [OF that] by blast
  ultimately have 1: "caches_ok (push_chunks n (b * PAGE_SIZE) (chunk_step i) i ?s) ?C
      (fr(i := rev ?new @ fr i))" using i ch by (intro push_chunks_ok) auto
  have "mm_ok (upd_page b (\<lambda>q. q\<lparr>pi_cache_order := int (i + MIN_CACHE_ORDER)\<rparr>) (h_mm s)) fl (insert (b, 0) A)"
    by (rule mm_ok_cong [OF heap_okD(1) [OF ok]]) simp_all
  then have 2: "mm_ok (h_mm (push_chunks n (b * PAGE_SIZE) (chunk_step i) i ?s)) fl (insert (b, 0) A)"
    by simp
  have 3: "chunk_at ?C j a \<and> a \<notin> set ((fr(i := rev ?new @ fr i)) j)" if u: "(a, j) \<in> U" for a j
  proof -
    have "chunk_at ?C j a" using heap_okD(7) [OF ok u] mono by (rule chunk_mono)
    moreover have "a \<notin> set (rev ?new)" using old [OF _ heap_okD(7) [OF ok u]] by fastforce
    ultimately show ?thesis using heap_okD(8) [OF ok u] by auto
  qed
  have "\<forall>(a, j) \<in> U. chunk_at ?C j a \<and> a \<notin> set ((fr(i := rev ?new @ fr i)) j)" using 3 by blast
  moreover have "\<forall>p j. ?C p = Some j \<longrightarrow> j < CACHE_NUM \<and> (p, 0) \<in> insert (b, 0) A"
  proof (intro allI impI)
    fix p j assume "?C p = Some j"
    then show "j < CACHE_NUM \<and> (p, 0) \<in> insert (b, 0) A"
      using heap_okD(4,5) [OF ok, of p j] i by (auto split: if_splits)
  qed
  ultimately show ?thesis unfolding heap_ok_def using 1 2
    by (intro conjI) (use heap_okD(2,3,10,11) [OF ok] i in \<open>auto split: if_splits\<close>)
qed

subsection \<open>Requesting and returning memory\<close>

lemma chunk_num_eq:
  assumes "heap_ok L M s fl A C fr U" "i < CACHE_NUM"
  shows "chunk_num i s = PAGE_SIZE div chunk_step i"
    and "nat (cache_size (kmem_caches s i)) + ENTRY_SIZE = chunk_step i"
  using heap_okD(2) [OF assms] by (simp_all add: chunk_num_def chunk_step_def nat_add_distrib nat_power_eq)

text \<open>One step of \<open>kmem_cache_init\<close> or \<open>request_page\<close>, up to the number of chunks.\<close>

lemma page_fill_ok:
  assumes ok: "heap_ok L M s fl A C fr U" and i: "i < CACHE_NUM"
    and res: "page_alloc PAGE_SIZE s = (page, s1)" "page \<noteq> NULL"
    and n: "n \<le> PAGE_SIZE div chunk_step i"
  defines "s2 \<equiv> set_cache_order (page_index page (h_mm s1)) (int (i + MIN_CACHE_ORDER)) s1"
  shows "\<exists>fl' A' C' fr'. heap_ok L M (push_chunks n page (chunk_step i) i s2) fl' A' C' fr' U \<and>
     regions A C U \<subseteq> regions A' C' U \<and> (\<forall>j. j \<noteq> i \<longrightarrow> fr' j = fr j)"
proof -
  obtain fl' A' b where b: "heap_ok L M s1 fl' (insert (b, 0) A) C fr U" "page = b * PAGE_SIZE" "C b = None"
    "(b, 0) \<notin> A"
    using page_alloc_ok [OF ok res(1)] res(2) by auto
  have "aligned (b, 0)" using heap_okD(1) [OF b(1)] by (simp add: mm_ok_def buddy_ok_def)
  then have "page_index page (h_mm s1) = int b"
    using heap_ok_memory_start [OF b(1)] by (simp add: page_index_eq b(2) aligned_def)
  then have f: "heap_ok L M (push_chunks n page (chunk_step i) i s2) fl' (insert (b, 0) A) (C(b \<mapsto> i))
      (fr(i := rev (map (\<lambda>t. b * PAGE_SIZE + t * chunk_step i) [0..<n]) @ fr i)) U"
    unfolding s2_def b(2) using fill_page_ok [OF b(1) i b(3) n] by simp
  have "fst x \<noteq> b" if "x \<in> A" for x
    using heap_ok_page [OF f, of b i "fst x" "snd x"] that b(4)
    by (cases x) (auto simp: rng_def)
  then have "regions A C U \<subseteq> regions (insert (b, 0) A) (C(b \<mapsto> i)) U"
    by (auto simp: regions_def)
  with f show ?thesis by fastforce
qed

lemma request_page_ok:
  assumes ok: "heap_ok L M s fl A C fr U" and i: "i < CACHE_NUM"
  shows "\<exists>fl' A' C' fr'. heap_ok L M (request_page i s) fl' A' C' fr' U \<and>
     regions A C U \<subseteq> regions A' C' U"
proof -
  obtain page s1 where r: "page_alloc PAGE_SIZE s = (page, s1)" by (cases "page_alloc PAGE_SIZE s")
  obtain fl' A' where p: "heap_ok L M s1 fl' A' C fr U" "A \<subseteq> A'" using page_alloc_ok [OF ok r] by blast
  show ?thesis
  proof (cases "page = NULL")
    case True
    have "regions A C U \<subseteq> regions A' C U" using p(2) by (auto simp: regions_def)
    then show ?thesis using p(1) r True by (auto simp: request_page_def)
  next
    case False
    let ?s2 = "set_cache_order (page_index page (h_mm s1)) (int (i + MIN_CACHE_ORDER)) s1"
    have "chunk_num i ?s2 = PAGE_SIZE div chunk_step i"
      "nat (cache_size (kmem_caches ?s2 i)) + ENTRY_SIZE = chunk_step i"
      using chunk_num_eq [OF p(1) i] by (simp_all add: chunk_num_def)
    then have "request_page i s =
        push_chunks (PAGE_SIZE div chunk_step i - 1) page (chunk_step i) i ?s2"
      using r False by (simp add: request_page_def Let_def)
    then show ?thesis using page_fill_ok [OF ok i r False, of "PAGE_SIZE div chunk_step i - 1"] by auto
  qed
qed

lemma chunk_order:
  assumes "0 < sz" "sz \<le> 128"
  shows "\<exists>i < CACHE_NUM. get_chunk_order sz = Some (i + 4) \<and> unat sz \<le> 2 ^ (i + 4) \<and>
           (push_bit (i + 4) 1 :: u32) \<noteq> 0 \<and> \<not> of_nat MAX_CHUNK_SIZE < (push_bit (i + 4) 1 :: u32)"
proof -
  have u: "unat sz \<le> 128" using assms(2) by (simp add: word_le_nat_alt)
  have eq: "get_chunk_order sz =
      (if 128 < sz then chunk_order_loop 8 sz else if 64 < sz then Some 7
       else if 32 < sz then Some 6 else if 16 < sz then Some 5 else Some 4)"
    unfolding get_chunk_order_def
    by (simp add: chunk_order_loop.simps [of 4] chunk_order_loop.simps [of 5]
        chunk_order_loop.simps [of 6] chunk_order_loop.simps [of 7] push_bit_eq_mult word_less_nat_alt)
  consider "unat sz \<le> 16" | "16 < unat sz" "unat sz \<le> 32" | "32 < unat sz" "unat sz \<le> 64"
    | "64 < unat sz" "unat sz \<le> 128" using u by linarith
  then show ?thesis
  proof cases
    case 1
    then show ?thesis unfolding eq by (intro exI [of _ 0]) (auto simp: push_bit_eq_mult word_less_nat_alt)
  next
    case 2
    then show ?thesis unfolding eq by (intro exI [of _ 1]) (auto simp: push_bit_eq_mult word_less_nat_alt)
  next
    case 3
    then show ?thesis unfolding eq by (intro exI [of _ 2]) (auto simp: push_bit_eq_mult word_less_nat_alt)
  next
    case 4
    then show ?thesis unfolding eq by (intro exI [of _ 3]) (auto simp: push_bit_eq_mult word_less_nat_alt)
  qed
qed

lemma kmalloc_ok:
  assumes ok: "heap_ok L M s fl A C fr U" and sz: "0 < sz" "sz \<le> 128"
  shows "\<exists>p s' fl' A' C' fr' U'. kmalloc sz s = Some (p, s') \<and> heap_ok L M s' fl' A' C' fr' U' \<and>
     regions A C U \<subseteq> regions A' C' U' \<and>
     (p \<noteq> NULL \<longrightarrow> (\<exists>l. unat sz \<le> l \<and> (p, l) \<in> regions A' C' U' \<and> (p, l) \<notin> regions A C U))"
proof -
  obtain i where i: "i < CACHE_NUM" "get_chunk_order sz = Some (i + 4)" "unat sz \<le> 2 ^ (i + 4)"
    "(push_bit (i + 4) 1 :: u32) \<noteq> 0" "\<not> of_nat MAX_CHUNK_SIZE < (push_bit (i + 4) 1 :: u32)"
    using chunk_order [OF sz] by blast
  define s1 where "s1 = (if cache_list (kmem_caches s i) = None then request_page i s else s)"
  obtain fl' A' C' fr' where h: "heap_ok L M s1 fl' A' C' fr' U" "regions A C U \<subseteq> regions A' C' U"
    using request_page_ok [OF ok i(1)] ok unfolding s1_def by (metis order_refl)
  have k: "kmalloc sz s = (case cache_list (kmem_caches s1 i) of None \<Rightarrow> Some (NULL, s1)
      | Some e \<Rightarrow> (case kmem_freelist_pop i s1 of None \<Rightarrow> None | Some s2 \<Rightarrow> Some (e + ENTRY_SIZE, s2)))"
    using i(2,4,5) by (cases "cache_list (kmem_caches s i)")
      (simp_all add: kmalloc_def s1_def Let_def cong: option.case_cong)
  note c = heap_okD(6) [OF h(1)]
  show ?thesis
  proof (cases "fr' i")
    case Nil
    then have "cache_list (kmem_caches s1 i) = None" using caches_okD(1) [OF c i(1)] by simp
    then have "kmalloc sz s = Some (NULL, s1)" using k by simp
    then show ?thesis using h by blast
  next
    case (Cons a as)
    obtain s2 where s2: "kmem_freelist_pop i s1 = Some s2" "caches_ok s2 C' (fr'(i := as))"
      "h_mm s2 = h_mm s1" "\<And>j. cache_size (kmem_caches s2 j) = cache_size (kmem_caches s1 j)"
      using pop_ok(2) [OF c i(1) Cons] by blast
    have p: "kmalloc sz s = Some (a + ENTRY_SIZE, s2)" using k pop_ok(1) [OF c i(1) Cons] s2(1) by simp
    have a: "chunk_at C' i a" "a \<notin> set as" using caches_okD(2,3) [OF c i(1)] Cons by auto
    have nU: "(a, i) \<notin> U" using heap_okD(8) [OF h(1), of a i] Cons by auto
    have "b \<notin> set ((fr'(i := as)) j)" if "(b, j) \<in> insert (a, i) U" for b j
      using heap_okD(8) [OF h(1), of b j] that a(2) Cons by auto
    then have "\<forall>(b, j) \<in> insert (a, i) U. chunk_at C' j b \<and> b \<notin> set ((fr'(i := as)) j)"
      using heap_okD(7) [OF h(1)] a(1) by blast
    then have h2: "heap_ok L M s2 fl' A' C' (fr'(i := as)) (insert (a, i) U)"
      using h(1) s2(2-4) unfolding heap_ok_def by simp
    let ?r = "chunk_region (a, i)"
    have r: "?r \<in> regions A' C' (insert (a, i) U)" by (simp add: regions_def)
    have "?r \<notin> regions A' C' U"
    proof
      assume "?r \<in> regions A' C' U"
      then consider x where "x \<in> A'" "C' (fst x) = None" "?r = block_region x"
        | u where "u \<in> U" "?r = chunk_region u" by (auto simp: regions_def)
      then show False
      proof cases
        case 1
        then show False using block_not_chunk [OF a(1)] by metis
      next
        case 2
        then show False using nU by (cases u) (simp add: chunk_region_def)
      qed
    qed
    then have "?r \<notin> regions A C U" using h(2) by blast
    moreover have "regions A C U \<subseteq> regions A' C' (insert (a, i) U)"
      using h(2) by (auto simp: regions_def)
    moreover have "?r = (a + ENTRY_SIZE, 2 ^ (i + 4))" by (simp add: chunk_region_def)
    ultimately show ?thesis using p h2 r i(3) by metis
  qed
qed

lemma alloc_ok:
  assumes ok: "heap_ok L M s fl A C fr U"
  shows "\<exists>p s' fl' A' C' fr' U'. alloc sz s = Some (p, s') \<and> heap_ok L M s' fl' A' C' fr' U' \<and>
     regions A C U \<subseteq> regions A' C' U' \<and>
     (p \<noteq> NULL \<longrightarrow> (\<exists>l. unat sz \<le> l \<and> (p, l) \<in> regions A' C' U' \<and> (p, l) \<notin> regions A C U))"
proof -
  consider "sz = 0" | "128 < sz" | "0 < sz" "sz \<le> 128"
    using word_gt_0 [of sz] by fastforce
  then show ?thesis
  proof cases
    case 1
    then show ?thesis using ok by (simp add: alloc_def) blast
  next
    case 2
    obtain p s' where r: "page_alloc (unat sz) s = (p, s')" by (cases "page_alloc (unat sz) s")
    have e: "alloc sz s = Some (p, s')" using 2 r by (auto simp: alloc_def)
    obtain fl' A' where p: "heap_ok L M s' fl' A' C fr U" "A \<subseteq> A'"
      "p \<noteq> NULL \<Longrightarrow> \<exists>b. p = b * PAGE_SIZE \<and> 0 < unat sz \<and> unat sz \<le> MAX_ALLOC_SIZE \<and>
         A' = insert (b, alloc_order (unat sz)) A \<and> (b, alloc_order (unat sz)) \<notin> A \<and> C b = None"
      using page_alloc_ok [OF ok r] by blast
    have sub: "regions A C U \<subseteq> regions A' C U" using p(2) by (auto simp: regions_def)
    have "\<exists>l. unat sz \<le> l \<and> (p, l) \<in> regions A' C U \<and> (p, l) \<notin> regions A C U" if nn: "p \<noteq> NULL"
    proof -
      obtain b where b: "p = b * PAGE_SIZE" "0 < unat sz" "unat sz \<le> MAX_ALLOC_SIZE"
        "A' = insert (b, alloc_order (unat sz)) A" "(b, alloc_order (unat sz)) \<notin> A" "C b = None"
        using p(3) [OF nn] by blast
      let ?x = "(b, alloc_order (unat sz))"
      have r: "block_region ?x \<in> regions A' C U" using b(4,6) by (auto simp: regions_def)
      have "block_region ?x \<notin> regions A C U"
      proof
        assume "block_region ?x \<in> regions A C U"
        then consider x where "x \<in> A" "block_region ?x = block_region x"
          | u where "u \<in> U" "block_region ?x = chunk_region u" by (auto simp: regions_def)
        then show False
        proof cases
          case 1
          then have "x = ?x" by (cases x) (simp add: block_region_def)
          then show False using 1 b(5) by simp
        next
          case 2
          obtain a i where ai: "u = (a, i)" by (cases u)
          have c: "chunk_at C i a" using 2(1) ai heap_okD(7) [OF p(1)] by simp
          then show False using block_not_chunk [OF c] 2(2) ai by metis
        qed
      qed
      moreover have "block_region ?x = (p, 2 ^ alloc_order (unat sz) * PAGE_SIZE)"
        by (simp add: block_region_def b(1))
      moreover have "unat sz \<le> 2 ^ alloc_order (unat sz) * PAGE_SIZE"
        using alloc_order_spec(2) b(2,3) by blast
      ultimately show ?thesis using r by metis
    qed
    then show ?thesis using e p(1) sub by blast
  next
    case 3
    then have "alloc sz s = kmalloc sz s" by (auto simp: alloc_def)
    then show ?thesis using kmalloc_ok [OF ok 3] by simp
  qed
qed

lemma free_block_ok:
  assumes ok: "heap_ok L M s fl A C fr U" and b: "(b, k) \<in> A" "C b = None" "b \<noteq> 0"
  shows "\<exists>s' fl'. free L (b * PAGE_SIZE) s = Some s' \<and> heap_ok L M s' fl' (A - {(b, k)}) C fr U"
proof -
  have al: "aligned (b, k)" using heap_okD(1) [OF ok] b(1) by (simp add: mm_ok_def buddy_ok_def)
  have "0 < (2::nat) ^ k" by simp
  then have bP: "b < PAGE_NUM" using al unfolding aligned_def by (simp, linarith)
  have "b \<in> managed fl A" using b(1) by (force simp: managed_def rng_def)
  then have out: "\<not> (bss_end L \<le> b * PAGE_SIZE \<and> b * PAGE_SIZE < stack_top L)"
    using heap_okD(9) [OF ok, of "b * PAGE_SIZE"] by auto
  have pi: "page_index (b * PAGE_SIZE) (h_mm s) = int b"
    using heap_ok_memory_start [OF ok] bP by (simp add: page_index_eq)
  have co: "pi_cache_order (page_list (h_mm s) b) = -1" using heap_okD(3) [OF ok bP] b(2) by simp
  obtain m fl' where m: "mm_free (b * PAGE_SIZE) (h_mm s) = Some m" "mm_ok m fl' (A - {(b, k)})"
    "managed fl' (A - {(b, k)}) \<subseteq> managed fl A"
    using mm_free_block [OF heap_okD(1) [OF ok] b(1,3)] by blast
  have "free L (b * PAGE_SIZE) s = Some (s\<lparr>h_mm := m\<rparr>)"
    unfolding free_def Let_def pi nat_int co using b(3) out bP m(1) by auto
  moreover have "heap_ok L M (s\<lparr>h_mm := m\<rparr>) fl' (A - {(b, k)}) C fr U"
  proof (rule heap_ok_frame [OF ok m(2) mm_free_cache_order [OF m(1)] _ m(3)])
    show "(p, 0) \<in> A - {(b, k)}" if "C p = Some i" for p i
      using heap_okD(5) [OF ok that] that b(2) by auto
  qed
  ultimately show ?thesis by blast
qed

lemma free_chunk_ok:
  assumes ok: "heap_ok L M s fl A C fr U" and u: "(a, i) \<in> U"
  shows "\<exists>s' fr'. free L (a + ENTRY_SIZE) s = Some s' \<and> heap_ok L M s' fl A C fr' (U - {(a, i)})"
proof -
  let ?p = "a div PAGE_SIZE" and ?s = "kmem_freelist_push a i s"
  note c = heap_okD(7,8) [OF ok u]
  note pg = chunk_page [OF c(1)]
  have i: "i < CACHE_NUM" using heap_okD(4) [OF ok pg(1)] .
  have d: "(a + ENTRY_SIZE) div PAGE_SIZE = ?p" by (rule pg(3)) (simp add: chunk_step_def)
  have pi: "page_index (a + ENTRY_SIZE) (h_mm s) = int ?p"
    using page_index_eq [of "h_mm s" "a + ENTRY_SIZE"] heap_ok_memory_start [OF ok] d pg(2) by metis
  have co: "pi_cache_order (page_list (h_mm s) ?p) = int (i + MIN_CACHE_ORDER)"
    using heap_okD(3) [OF ok pg(2)] pg(1) by simp
  have "?p \<in> managed fl A"
    using heap_okD(5) [OF ok pg(1)] unfolding managed_def by (force simp: rng_def)
  then have out: "\<not> (bss_end L \<le> a + ENTRY_SIZE \<and> a + ENTRY_SIZE < stack_top L)"
    using heap_okD(9) [OF ok, of "a + ENTRY_SIZE"] d by auto
  have "kfree L (a + ENTRY_SIZE) s = Some ?s"
    unfolding kfree_def Let_def pi nat_int co using out i pg(2) by (auto simp: nat_add_distrib)
  then have e: "free L (a + ENTRY_SIZE) s = Some ?s"
    unfolding free_def Let_def pi nat_int co using out pg(2) by auto
  have "caches_ok ?s C (fr(i := a # fr i))" by (rule push_ok [OF heap_okD(6) [OF ok] i c])
  moreover have "b \<notin> set ((fr(i := a # fr i)) j)" if "(b, j) \<in> U - {(a, i)}" for b j
    using heap_okD(8) [OF ok, of b j] that by auto
  then have "\<forall>(b, j) \<in> U - {(a, i)}. chunk_at C j b \<and> b \<notin> set ((fr(i := a # fr i)) j)"
    using heap_okD(7) [OF ok] by blast
  ultimately have "heap_ok L M ?s fl A C (fr(i := a # fr i)) (U - {(a, i)})"
    using ok unfolding heap_ok_def by simp
  then show ?thesis using e by blast
qed

lemma free_ok:
  assumes ok: "heap_ok L M s fl A C fr U" and r: "r \<in> regions A C U" "fst r \<noteq> NULL"
  shows "\<exists>s' fl' A' fr' U'. free L (fst r) s = Some s' \<and> heap_ok L M s' fl' A' C fr' U' \<and>
     regions A C U - {r} \<subseteq> regions A' C U'"
proof -
  from r(1) consider x where "x \<in> A" "C (fst x) = None" "r = block_region x"
    | u where "u \<in> U" "r = chunk_region u" by (auto simp: regions_def)
  then show ?thesis
  proof cases
    case 1
    obtain b k where x: "x = (b, k)" by (cases x)
    have "b \<noteq> 0" using r(2) 1(3) x by (simp add: block_region_def)
    then obtain s' fl' where "free L (b * PAGE_SIZE) s = Some s'" "heap_ok L M s' fl' (A - {(b, k)}) C fr U"
      using free_block_ok [OF ok] 1(1,2) x by force
    moreover have "regions A C U - {r} \<subseteq> regions (A - {(b, k)}) C U"
      using 1(3) x by (auto simp: regions_def)
    ultimately show ?thesis using 1(3) x by (auto simp: block_region_def)
  next
    case 2
    obtain a i where u: "u = (a, i)" by (cases u)
    obtain s' fr' where "free L (a + ENTRY_SIZE) s = Some s'" "heap_ok L M s' fl A C fr' (U - {(a, i)})"
      using free_chunk_ok [OF ok] 2(1) u by blast
    moreover have "regions A C U - {r} \<subseteq> regions A C (U - {(a, i)})"
      using 2(2) u by (auto simp: regions_def)
    ultimately show ?thesis using 2(2) u by (auto simp: chunk_region_def)
  qed
qed

subsection \<open>The contract\<close>

lemma heap_inv_alloc:
  assumes "heap_inv L M s R"
  shows "\<exists>p s'. alloc sz s = Some (p, s') \<and> (p = NULL \<longrightarrow> heap_inv L M s' R) \<and>
     (p \<noteq> NULL \<longrightarrow> (\<exists>l \<ge> unat sz. heap_inv L M s' ((p, l) # R)))"
proof -
  obtain fl A C fr U where h: "heap_ok L M s fl A C fr U" "set R \<subseteq> regions A C U"
    "\<forall>r \<in> set R. fst r \<noteq> NULL" "sorted_wrt apart R"
    using assms unfolding heap_inv_def by blast
  obtain p s' fl' A' C' fr' U' where a: "alloc sz s = Some (p, s')" "heap_ok L M s' fl' A' C' fr' U'"
    "regions A C U \<subseteq> regions A' C' U'"
    "p \<noteq> NULL \<Longrightarrow> \<exists>l. unat sz \<le> l \<and> (p, l) \<in> regions A' C' U' \<and> (p, l) \<notin> regions A C U"
    using alloc_ok [OF h(1), of sz] by blast
  have "heap_inv L M s' R" unfolding heap_inv_def using a(2,3) h(2-4) by blast
  moreover have "heap_inv L M s' ((p, l) # R)"
    if l: "(p, l) \<in> regions A' C' U'" "(p, l) \<notin> regions A C U" and "p \<noteq> NULL" for l
  proof -
    have "apart (p, l) r" if "r \<in> set R" for r
      using that h(2) a(3) l by (intro regions_apart [OF a(2)]) auto
    then show ?thesis unfolding heap_inv_def using a(2,3) h(2-4) l(1) \<open>p \<noteq> NULL\<close>
      by (intro exI conjI) (assumption, auto)
  qed
  ultimately show ?thesis using a(1,4) by blast
qed

lemma heap_inv_free:
  assumes "heap_inv L M s R" "i < length R"
  shows "\<exists>s'. free L (fst (R ! i)) s = Some s' \<and> heap_inv L M s' (drop_nth i R)"
proof -
  obtain fl A C fr U where h: "heap_ok L M s fl A C fr U" "set R \<subseteq> regions A C U"
    "\<forall>r \<in> set R. fst r \<noteq> NULL" "sorted_wrt apart R"
    using assms unfolding heap_inv_def by blast
  have r: "R ! i \<in> regions A C U" "fst (R ! i) \<noteq> NULL" using h(2,3) assms(2) by auto
  obtain s' fl' A' fr' U' where f: "free L (fst (R ! i)) s = Some s'" "heap_ok L M s' fl' A' C fr' U'"
    "regions A C U - {R ! i} \<subseteq> regions A' C U'"
    using free_ok [OF h(1) r] by blast
  have "R ! i \<notin> set (drop_nth i R)"
    using drop_nth_apart [OF h(4) assms(2)] regions_nonempty [OF r(1)] by blast
  then have "set (drop_nth i R) \<subseteq> regions A' C U'" using set_drop_nth [of i R] h(2) f(3) by blast
  moreover have "\<forall>r \<in> set (drop_nth i R). fst r \<noteq> NULL" using set_drop_nth [of i R] h(3) by blast
  ultimately show ?thesis
    using f(1,2) sorted_wrt_drop_nth [OF h(4)] unfolding heap_inv_def by blast
qed

interpretation heap_alloc: reclaiming_allocator alloc unat "heap_inv L M" "page_bytes M" "free L" for L M
proof
  show "sorted_wrt apart R" if "heap_inv L M s R" for s R
    using that by (auto simp: heap_inv_def)
  show "bytes r \<subseteq> page_bytes M" if "heap_inv L M s R" "r \<in> set R" for s R r
    using that regions_arena unfolding heap_inv_def by blast
  show "\<exists>p s'. alloc n s = Some (p, s')" if "heap_inv L M s R" for s R n
    using heap_inv_alloc [OF that, of n] by blast
  show "heap_inv L M s' R" if "heap_inv L M s R" "alloc n s = Some (NULL, s')" for s R n s'
    using heap_inv_alloc [OF that(1), of n] that(2) by auto
  show "\<exists>l \<ge> unat n. heap_inv L M s' ((p, l) # R)"
    if "heap_inv L M s R" "alloc n s = Some (p, s')" "p \<noteq> NULL" for s R n p s'
    using heap_inv_alloc [OF that(1), of n] that(2,3) by auto
  show "\<exists>s'. free L (fst (R ! i)) s = Some s' \<and> heap_inv L M s' (drop_nth i R)"
    if "heap_inv L M s R" "i < length R" for s R i
    using that by (rule heap_inv_free)
qed

text \<open>The page allocator alone.\<close>

definition page_inv :: "nat set \<Rightarrow> mm \<Rightarrow> region list \<Rightarrow> bool" where
  "page_inv M s R \<longleftrightarrow> (\<exists>fl A. mm_ok s fl A \<and> managed fl A \<subseteq> M \<and> set R \<subseteq> block_region ` A \<and>
     (\<forall>r \<in> set R. fst r \<noteq> NULL) \<and> sorted_wrt apart R)"

lemma block_region_inject [simp]: "block_region x = block_region y \<longleftrightarrow> x = y"
  by (cases x; cases y) (simp add: block_region_def)

lemma block_region_apart: "mm_ok s fl A \<Longrightarrow> x \<in> A \<Longrightarrow> y \<in> A \<Longrightarrow> x \<noteq> y \<Longrightarrow>
    apart (block_region x) (block_region y)"
  using disjD [of "free_blocks fl \<union> A" x y]
  by (auto simp: mm_ok_def buddy_ok_def apart_def block_bytes)

lemma page_inv_alloc:
  assumes "page_inv M s R" "mm_alloc sz s = (p, s')"
  shows "p = NULL \<longrightarrow> page_inv M s' R" and "p \<noteq> NULL \<longrightarrow> (\<exists>l \<ge> sz. page_inv M s' ((p, l) # R))"
proof -
  obtain fl A where h: "mm_ok s fl A" "set R \<subseteq> block_region ` A" "\<forall>r \<in> set R. fst r \<noteq> NULL"
    "sorted_wrt apart R" "managed fl A \<subseteq> M" using assms(1) unfolding page_inv_def by blast
  have "(p = NULL \<and> s' = s) \<or> (\<exists>b k fl'. p = b * PAGE_SIZE \<and> mm_ok s' fl' (insert (b, k) A) \<and>
      (b, k) \<notin> A \<and> sz \<le> 2 ^ k * PAGE_SIZE \<and> managed fl' (insert (b, k) A) = managed fl A)"
  proof (cases "0 < sz \<and> sz \<le> MAX_ALLOC_SIZE")
    case True
    then show ?thesis
      using mm_alloc_block [OF h(1) _ _ assms(2)] alloc_order_spec(2) [of sz] by blast
  next
    case False
    then show ?thesis using assms(2) by (auto simp: mm_alloc_def)
  qed
  then consider "p = NULL" "s' = s"
    | b k fl' where "p = b * PAGE_SIZE" "mm_ok s' fl' (insert (b, k) A)" "(b, k) \<notin> A" "sz \<le> 2 ^ k * PAGE_SIZE"
      "managed fl' (insert (b, k) A) \<subseteq> M"
    using h(5) by blast
  then have "(p = NULL \<longrightarrow> page_inv M s' R) \<and> (p \<noteq> NULL \<longrightarrow> (\<exists>l \<ge> sz. page_inv M s' ((p, l) # R)))"
  proof cases
    case 1
    then show ?thesis using assms(1) by simp
  next
    case 2
    have r: "block_region (b, k) = (p, 2 ^ k * PAGE_SIZE)" by (simp add: block_region_def 2(1))
    have "page_inv M s' R"
      unfolding page_inv_def using 2(2,5) h(2-4) by blast
    moreover have "apart (p, 2 ^ k * PAGE_SIZE) q" if q: "q \<in> set R" for q
    proof -
      obtain x where x: "x \<in> A" "q = block_region x" using q h(2) by blast
      then have "x \<noteq> (b, k)" using 2(3) by blast
      then show ?thesis
        unfolding r [symmetric] x(2) using x(1) by (intro block_region_apart [OF 2(2)]) auto
    qed
    then have "page_inv M s' ((p, 2 ^ k * PAGE_SIZE) # R)" if "p \<noteq> NULL"
      unfolding page_inv_def using 2(2,5) h(2-4) r that
      by (intro exI [of _ fl'] exI [of _ "insert (b, k) A"]) auto
    ultimately show ?thesis using 2(4) by blast
  qed
  then show "p = NULL \<longrightarrow> page_inv M s' R" "p \<noteq> NULL \<longrightarrow> (\<exists>l \<ge> sz. page_inv M s' ((p, l) # R))" by auto
qed

lemma page_inv_free:
  assumes "page_inv M s R" "i < length R"
  shows "\<exists>s'. mm_free (fst (R ! i)) s = Some s' \<and> page_inv M s' (drop_nth i R)"
proof -
  obtain fl A where h: "mm_ok s fl A" "set R \<subseteq> block_region ` A" "\<forall>r \<in> set R. fst r \<noteq> NULL"
    "sorted_wrt apart R" "managed fl A \<subseteq> M" using assms(1) unfolding page_inv_def by blast
  have "R ! i \<in> set R" using assms(2) by simp
  then obtain b k where b: "(b, k) \<in> A" "R ! i = block_region (b, k)" using h(2) by auto
  have "fst (R ! i) \<noteq> NULL" using h(3) \<open>R ! i \<in> set R\<close> by blast
  then have "b \<noteq> 0" unfolding b(2) by (simp add: block_region_def)
  then obtain s' fl' where f: "mm_free (b * PAGE_SIZE) s = Some s'" "mm_ok s' fl' (A - {(b, k)})"
    "managed fl' (A - {(b, k)}) \<subseteq> M"
    using mm_free_block [OF h(1) b(1)] h(5) by blast
  have "R ! i \<notin> set (drop_nth i R)"
    using drop_nth_apart [OF h(4) assms(2)] unfolding b(2)
    by (fastforce simp: apart_def bytes_def block_region_def)
  then have "set (drop_nth i R) \<subseteq> block_region ` (A - {(b, k)})"
    using set_drop_nth [of i R] h(2) unfolding b(2) by blast
  moreover have "\<forall>r \<in> set (drop_nth i R). fst r \<noteq> NULL" using set_drop_nth [of i R] h(3) by blast
  ultimately have "page_inv M s' (drop_nth i R)"
    using f(2,3) sorted_wrt_drop_nth [OF h(4)] unfolding page_inv_def by blast
  moreover have "fst (R ! i) = b * PAGE_SIZE" using b(2) by (simp add: block_region_def)
  ultimately show ?thesis using f(1) by metis
qed

interpretation page_alloc: reclaiming_allocator "\<lambda>n s. Some (mm_alloc n s)" "\<lambda>n. n" "page_inv M" "page_bytes M" mm_free for M
proof
  show "sorted_wrt apart R" if "page_inv M s R" for s R
    using that by (auto simp: page_inv_def)
  show "bytes r \<subseteq> page_bytes M" if "page_inv M s R" "r \<in> set R" for s R r
    using that unfolding page_inv_def by (force simp: managed_def page_bytes_def block_bytes)
  show "\<exists>p s'. Some (mm_alloc n s) = Some (p, s')" for s :: mm and n
    by (cases "mm_alloc n s") simp
  show "page_inv M s' R" if "page_inv M s R" "Some (mm_alloc n s) = Some (NULL, s')" for s R n s'
    using page_inv_alloc(1) [OF that(1)] that(2) by simp
  show "\<exists>l \<ge> n. page_inv M s' ((p, l) # R)"
    if "page_inv M s R" "Some (mm_alloc n s) = Some (p, s')" "p \<noteq> NULL" for s R n p s'
    using page_inv_alloc(2) [OF that(1)] that(2,3) by simp
  show "\<exists>s'. mm_free (fst (R ! i)) s = Some s' \<and> page_inv M s' (drop_nth i R)"
    if "page_inv M s R" "i < length R" for s R i
    using that by (rule page_inv_free)
qed

text \<open>The start-up allocator: everything it gave out lies between \<open>__bss_end\<close> and \<open>heap_ptr\<close>.\<close>

definition simple_inv :: "layout \<Rightarrow> heap \<Rightarrow> region list \<Rightarrow> bool" where
  "simple_inv L s R \<longleftrightarrow> 0 < bss_end L \<and> sorted_wrt apart R \<and> (heap_ptr s = NULL \<longrightarrow> R = []) \<and>
     (heap_ptr s \<noteq> NULL \<longrightarrow> bss_end L \<le> heap_ptr s \<and>
        (\<forall>r \<in> set R. bss_end L \<le> fst r \<and> fst r + snd r \<le> heap_ptr s \<and> fst r + snd r \<le> stack_top L))"

interpretation simple_alloc: allocator "\<lambda>n s. Some (simple_alloc L n s)" unat "simple_inv L"
  "{bss_end L ..< stack_top L}" for L
proof
  show "sorted_wrt apart R" if "simple_inv L s R" for s R
    using that by (auto simp: simple_inv_def)
  show "bytes r \<subseteq> {bss_end L ..< stack_top L}" if "simple_inv L s R" "r \<in> set R" for s R r
    using that by (fastforce simp: simple_inv_def bytes_def)
  show "\<exists>p s'. Some (simple_alloc L n s) = Some (p, s')" for s n
    by (cases "simple_alloc L n s") simp
  show "simple_inv L s' R" if "simple_inv L s R" "Some (simple_alloc L n s) = Some (NULL, s')" for s R n s'
    using that by (auto simp: simple_inv_def simple_alloc_def Let_def split: if_splits)
  show "\<exists>l \<ge> unat n. simple_inv L s' ((p, l) # R)"
    if h: "simple_inv L s R" "Some (simple_alloc L n s) = Some (p, s')" "p \<noteq> NULL" for s R n p s'
  proof -
    have p: "p = (if heap_ptr s = NULL then bss_end L else heap_ptr s)" "heap_ptr s' = p + unat n"
      "p + unat n \<le> stack_top L"
      using h(2,3) by (auto simp: simple_alloc_def Let_def split: if_splits)
    have "apart (p, unat n) r" if "r \<in> set R" for r
      using that h(1) p(1) by (auto simp: simple_inv_def apart_def bytes_def split: if_splits)
    then have "simple_inv L s' ((p, unat n) # R)"
      using h(1,3) p by (fastforce simp: simple_inv_def split: if_splits)
    then show ?thesis by blast
  qed
qed

subsection \<open>Initialisation\<close>

lemma cache_sizes_eq:
  "h_mm (cache_sizes n s) = h_mm s \<and> heap_ptr (cache_sizes n s) = heap_ptr s \<and>
   (\<forall>i < n. kmem_caches (cache_sizes n s) i = \<lparr>cache_size = 2 ^ (i + 4), cache_list = None\<rparr>)"
  by (induction n) (auto simp: Let_def less_Suc_eq)

lemma cache_fill_ok:
  assumes "heap_ok L M s fl A C fr {}" "\<And>j. i \<le> j \<Longrightarrow> j < CACHE_NUM \<Longrightarrow> fr j = []"
  shows "\<exists>fl' A' C' fr'. heap_ok L M (cache_fill i s) fl' A' C' fr' {}"
  using assms
proof (induction "CACHE_NUM - i" arbitrary: i s fl A C fr)
  case 0
  then show ?case by (subst cache_fill.simps) auto
next
  case (Suc n)
  have i: "i < CACHE_NUM" using Suc.hyps(2) by simp
  note ok = Suc.prems(1)
  obtain page s1 where r: "page_alloc PAGE_SIZE s = (page, s1)" by (cases "page_alloc PAGE_SIZE s")
  obtain fl1 A1 where p: "heap_ok L M s1 fl1 A1 C fr {}" using page_alloc_ok [OF ok r] by blast
  show ?case
  proof (cases "page = NULL")
    case True
    then show ?thesis using p r i by (subst cache_fill.simps) auto
  next
    case False
    let ?s2 = "set_cache_order (page_index page (h_mm s1)) (int (i + MIN_CACHE_ORDER)) s1"
    have "cache_list (kmem_caches ?s2 i) = None"
      using caches_okD(1) [OF heap_okD(6) [OF p] i] Suc.prems(2) [OF _ i] by simp
    then have id: "set_cache_list i None ?s2 = ?s2"
      by (simp add: set_cache_list_def fun_upd_idem)
    have "chunk_num i ?s2 = PAGE_SIZE div chunk_step i"
      "nat (cache_size (kmem_caches ?s2 i)) + ENTRY_SIZE = chunk_step i"
      using chunk_num_eq [OF p i] by (simp_all add: chunk_num_def)
    then have e: "cache_fill i s =
        cache_fill (i + 1) (push_chunks (PAGE_SIZE div chunk_step i) page (chunk_step i) i ?s2)"
      using i r False id by (subst cache_fill.simps) (simp add: Let_def)
    obtain fl' A' C' fr' where f: "heap_ok L M (push_chunks (PAGE_SIZE div chunk_step i) page (chunk_step i) i ?s2)
        fl' A' C' fr' {}" "\<And>j. j \<noteq> i \<Longrightarrow> fr' j = fr j"
      using page_fill_ok [OF ok i r False order_refl] by blast
    show ?thesis unfolding e
      by (rule Suc.hyps(1) [OF _ f(1)]) (use Suc.hyps(2) Suc.prems(2) f(2) in auto)
  qed
qed

lemma kmem_cache_init_inv:
  assumes "mm_ok (h_mm s) fl A" "\<And>p. p < PAGE_NUM \<Longrightarrow> pi_cache_order (page_list (h_mm s) p) = -1"
    "managed fl A \<subseteq> M" "outside L M"
  shows "heap_inv L M (kmem_cache_init s) []"
proof -
  have "heap_ok L M (cache_sizes CACHE_NUM s) fl A (\<lambda>_. None) (\<lambda>_. []) {}"
    using assms cache_sizes_eq [of CACHE_NUM s] by (auto simp: heap_ok_def caches_ok_def)
  then obtain fl' A' C' fr' where "heap_ok L M (kmem_cache_init s) fl' A' C' fr' {}"
    using cache_fill_ok unfolding kmem_cache_init_def by blast
  then show ?thesis unfolding heap_inv_def by fastforce
qed

end
