(* ===== verification/Boot.thy ===== *)
theory Boot
  imports Reserve KmemInv
begin

section \<open>The memory part of the boot sequence (main in src/main.c)\<close>

text \<open>
  \<open>main\<close> initialises the page allocator, reserves the spin tables, the kernel image with its start-up
  heap, the initramfs and the device tree, and sets up the chunk caches. The addresses of the
  initramfs and of the device tree are run-time values and parameters here. The theorem: if the four
  ranges lie in memory and share no page, the heap's invariant holds after boot with all other
  pages, and only those, under the allocator's control.
\<close>

definition kernel_memory_init :: "layout \<Rightarrow> addr \<Rightarrow> addr \<Rightarrow> addr \<Rightarrow> nat \<Rightarrow> heap \<Rightarrow> heap" where
  "kernel_memory_init L cpio_addr cpio_end dtb fdt_total_size s =
     (let m0 = mm_init (h_mm s);
          m1 = reserve 0x0000 0x1000 m0;
          m2 = reserve 0x80000 (stack_top L) m1;
          m3 = reserve cpio_addr cpio_end m2;
          m4 = reserve dtb (dtb + fdt_total_size) m3
      in kmem_cache_init (s\<lparr>h_mm := m4\<rparr>))"

lemma strict_mm_init: "strict (mm_init s) (init_fl 30) {}"
proof -
  let ?s = "s\<lparr>free_list := (\<lambda>i. if i < MAX_ORDER then None else free_list s i), memory_start := 0,
              page_list := (\<lambda>i. if i < PAGE_NUM then zero_page else page_list s i)\<rparr>"
  have "init_inv 0 ?s"
    by (auto simp: init_inv_def core_def lists_ok_def info_def init_fl_def zero_page_def)
  then have inv: "init_inv 30 (mm_init_blocks 0 ?s)" using mm_init_blocks_inv [of 0 ?s] by simp
  have eq: "mm_init s = mm_init_cache 0 (mm_init_blocks 0 ?s)"
    by (cases s) (simp add: mm_init_def Let_def cong: if_cong)
  have o: "pi_order (page_list (mm_init s) p) = pi_order (page_list (mm_init_blocks 0 ?s) p)" for p
    unfolding eq using mm_init_cache_eq [of 0 "mm_init_blocks 0 ?s" p] by simp
  show ?thesis unfolding strict_def
  proof (intro allI impI)
    fix p assume p: "p < PAGE_NUM" "0 < pi_order (page_list (mm_init s) p)"
    have il: "in_lists (init_fl 30) p"
    proof (rule ccontr)
      assume "\<not> in_lists (init_fl 30) p"
      then have "pi_order (page_list (mm_init_blocks 0 ?s) p) = 0"
        using inv p(1) unfolding init_inv_def by blast
      then show False using p(2) unfolding o by simp
    qed
    then obtain k where k: "(p, k) \<in> free_blocks (init_fl 30)" unfolding in_lists_free_blocks by blast
    have "core (mm_init s) (init_fl 30) {}" using mm_init_ok [of s] by (simp add: mm_ok_def)
    then have "pi_order (page_list (mm_init s) p) = int k" using k by (rule free_block_order)
    then show "(p, nat (pi_order (page_list (mm_init s) p))) \<in> free_blocks (init_fl 30) \<union> {}"
      using k by simp
  qed
qed

lemma mm_init_cache_order: "p < PAGE_NUM \<Longrightarrow> pi_cache_order (page_list (mm_init s) p) = -1"
  unfolding mm_init_def Let_def by (simp add: mm_init_cache_eq)

lemma mm_split_cache_order [simp]:
  "pi_cache_order (page_list (mm_split b k s) p) = pi_cache_order (page_list s p)"
  by (simp add: mm_split_def Let_def)

lemma reserve_split_cache_order [simp]:
  "pi_cache_order (page_list (reserve_split a z k s) p) = pi_cache_order (page_list s p)"
  by (induction k arbitrary: s) (simp_all add: reserve_step_def Let_def)

lemma reserve_take_cache_order:
  "pi_cache_order (page_list (reserve_take i z s) p) = pi_cache_order (page_list s p)"
proof (induction "Suc z - i" arbitrary: i s p rule: less_induct)
  case less
  show ?case
  proof (cases "i \<le> z")
    case True
    have "pi_cache_order (page_list (reserve_take (i + 2 ^ n) z t) q) = pi_cache_order (page_list t q)" for n t q
      by (rule less) (use True in \<open>intro diff_less_mono2; simp\<close>)
    then show ?thesis by (subst reserve_take.simps) (simp add: Let_def)
  qed (simp add: reserve_take.simps)
qed

lemma reserve_cache_order: "pi_cache_order (page_list (reserve a b s) p) = pi_cache_order (page_list s p)"
  by (simp add: reserve_def Let_def reserve_take_cache_order)

lemma mm_ok_subset: "mm_ok s fl A \<Longrightarrow> B \<subseteq> A \<Longrightarrow> mm_ok s fl B"
proof -
  assume ok: "mm_ok s fl A" and sub: "B \<subseteq> A"
  have "core s fl B" using ok sub unfolding mm_ok_def core_def by blast
  moreover have "disj (free_blocks fl \<union> B)"
    using ok sub by (auto simp: mm_ok_def buddy_ok_def intro: disj_subset)
  then have "buddy_ok fl B" using ok sub unfolding mm_ok_def buddy_ok_def by blast
  ultimately show ?thesis using ok by (simp add: mm_ok_def)
qed

text \<open>One reservation of the boot sequence, in terms of the pages that stay free.\<close>

definition boot_ok :: "mm \<Rightarrow> nat set \<Rightarrow> bool" where
  "boot_ok s F \<longleftrightarrow> (\<exists>fl A. mm_ok s fl A \<and> strict s fl A \<and> free_pages fl = F) \<and>
     (\<forall>p < PAGE_NUM. pi_cache_order (page_list s p) = -1)"

lemma boot_ok_reserve:
  assumes "boot_ok s F" "a < b" "b \<le> MEMORY_SIZE" "pages a b \<subseteq> F"
  shows "boot_ok (reserve a b s) (F - pages a b)"
proof -
  obtain fl A where "mm_ok s fl A" "strict s fl A" "free_pages fl = F"
    using assms(1) by (auto simp: boot_ok_def)
  then show ?thesis using reserve_ok [of s fl A a b] assms unfolding boot_ok_def
    by (metis reserve_cache_order)
qed

lemma boot_ok_init: "boot_ok (mm_init s) {..<PAGE_NUM}"
  unfolding boot_ok_def using mm_init_ok strict_mm_init free_pages_init mm_init_cache_order by blast

lemma pages_in_memory:
  assumes "a < b" "b \<le> MEMORY_SIZE"
  shows "pages a b \<subseteq> {..<PAGE_NUM}"
proof -
  have "(b - 1) div 4096 < 245760" using assms by (subst div_less_iff_less_mult) auto
  then show ?thesis by (auto simp: pages_def PAGE_NUM_eq)
qed

text \<open>The pages reserved at boot, and what is left.\<close>

definition boot_ranges :: "layout \<Rightarrow> addr \<Rightarrow> addr \<Rightarrow> addr \<Rightarrow> nat \<Rightarrow> (addr \<times> addr) list" where
  "boot_ranges L c e d n = [(0, 0x1000), (0x80000, stack_top L), (c, e), (d, d + n)]"

definition boot_layout_ok :: "layout \<Rightarrow> addr \<Rightarrow> addr \<Rightarrow> addr \<Rightarrow> nat \<Rightarrow> bool" where
  "boot_layout_ok L c e d n \<longleftrightarrow>
     list_all (\<lambda>(a, b). a < b \<and> b \<le> MEMORY_SIZE) (boot_ranges L c e d n) \<and>
     sorted_wrt (\<lambda>(a, b) (a', b'). (b - 1) div PAGE_SIZE < a' div PAGE_SIZE \<or>
                    (b' - 1) div PAGE_SIZE < a div PAGE_SIZE) (boot_ranges L c e d n) \<and>
     0x80000 \<le> bss_end L"

definition free_at_boot :: "layout \<Rightarrow> addr \<Rightarrow> addr \<Rightarrow> addr \<Rightarrow> nat \<Rightarrow> nat set" where
  "free_at_boot L c e d n =
     {..<PAGE_NUM} - (\<Union>(a, b) \<in> set (boot_ranges L c e d n). pages a b)"

lemma pages_disjoint:
  "(b - 1) div PAGE_SIZE < a' div PAGE_SIZE \<or> (b' - 1) div PAGE_SIZE < a div PAGE_SIZE \<Longrightarrow>
   pages a b \<inter> pages a' b' = {}"
  by (auto simp: pages_def)

text \<open>The memory map after the four reservations.\<close>

definition boot_mm :: "layout \<Rightarrow> addr \<Rightarrow> addr \<Rightarrow> addr \<Rightarrow> nat \<Rightarrow> mm \<Rightarrow> mm" where
  "boot_mm L c e d n m = reserve d (d + n) (reserve c e (reserve 0x80000 (stack_top L) (reserve 0 0x1000 (mm_init m))))"

lemma kernel_memory_init_eq:
  "kernel_memory_init L c e d n s = kmem_cache_init (s\<lparr>h_mm := boot_mm L c e d n (h_mm s)\<rparr>)"
  by (simp add: kernel_memory_init_def boot_mm_def Let_def)

lemma boot_mm_ok:
  assumes lay: "boot_layout_ok L c e d n"
  shows "boot_ok (boot_mm L c e d n m) (free_at_boot L c e d n)"
proof -
  let ?m1 = "reserve 0 0x1000 (mm_init m)"
  let ?m2 = "reserve 0x80000 (stack_top L) ?m1"
  let ?m3 = "reserve c e ?m2"
  let ?K = "pages 0x80000 (stack_top L)"
  let ?F = "{..<PAGE_NUM} - pages 0 0x1000 - ?K - pages c e - pages d (d + n)"
  have lt: "0x80000 < stack_top L" "stack_top L \<le> MEMORY_SIZE" "c < e" "e \<le> MEMORY_SIZE"
    "d < d + n" "d + n \<le> MEMORY_SIZE"
    using lay by (auto simp: boot_layout_ok_def boot_ranges_def)
  have mem: "pages 0 0x1000 \<subseteq> {..<PAGE_NUM}" "?K \<subseteq> {..<PAGE_NUM}" "pages c e \<subseteq> {..<PAGE_NUM}"
    "pages d (d + n) \<subseteq> {..<PAGE_NUM}"
    by (simp_all only: pages_in_memory lt) (simp add: pages_in_memory)
  have dj: "pages 0 0x1000 \<inter> ?K = {}" "pages 0 0x1000 \<inter> pages c e = {}"
    "pages 0 0x1000 \<inter> pages d (d + n) = {}" "?K \<inter> pages c e = {}"
    "?K \<inter> pages d (d + n) = {}" "pages c e \<inter> pages d (d + n) = {}"
    by (rule pages_disjoint, use lay in
        \<open>simp add: boot_layout_ok_def boot_ranges_def del: PAGE_SIZE_def One_nat_def\<close>)+
  have "boot_ok ?m1 ({..<PAGE_NUM} - pages 0 0x1000)"
    by (rule boot_ok_reserve [OF boot_ok_init]) (use mem in auto)
  then have "boot_ok ?m2 ({..<PAGE_NUM} - pages 0 0x1000 - ?K)"
    by (rule boot_ok_reserve [OF _ lt(1,2)]) (use mem dj in blast)
  then have "boot_ok ?m3 ({..<PAGE_NUM} - pages 0 0x1000 - ?K - pages c e)"
    by (rule boot_ok_reserve [OF _ lt(3,4)]) (use mem dj in blast)
  then have "boot_ok (reserve d (d + n) ?m3) ?F"
    by (rule boot_ok_reserve [OF _ lt(5,6)]) (use mem dj in blast)
  moreover have "?F = free_at_boot L c e d n" by (auto simp: free_at_boot_def boot_ranges_def)
  ultimately show ?thesis by (simp add: boot_mm_def)
qed

lemma boot_outside:
  assumes "boot_layout_ok L c e d n"
  shows "outside L (free_at_boot L c e d n)"
  unfolding outside_def
proof (intro allI impI)
  fix x assume x: "bss_end L \<le> x \<and> x < stack_top L"
  then have "0x80000 \<le> x" using assms by (auto simp: boot_layout_ok_def)
  then have "x div PAGE_SIZE \<in> pages 0x80000 (stack_top L)"
    using x unfolding pages_def by (simp only: atLeastAtMost_iff) (auto intro!: div_le_mono simp del: PAGE_SIZE_def)
  then show "x div PAGE_SIZE \<notin> free_at_boot L c e d n" by (auto simp: free_at_boot_def boot_ranges_def)
qed

lemma kernel_memory_init_ok:
  assumes lay: "boot_layout_ok L c e d n"
  shows "heap_inv L (free_at_boot L c e d n) (kernel_memory_init L c e d n s) []"
proof -
  let ?m = "boot_mm L c e d n (h_mm s)"
  obtain fl A where m: "mm_ok ?m fl A" "free_pages fl = free_at_boot L c e d n"
    and co: "\<And>p. p < PAGE_NUM \<Longrightarrow> pi_cache_order (page_list ?m p) = -1"
    using boot_mm_ok [OF lay] unfolding boot_ok_def by blast
  show ?thesis unfolding kernel_memory_init_eq
    by (rule kmem_cache_init_inv [of _ fl "{}"])
       (use mm_ok_subset [OF m(1)] m(2) co boot_outside [OF lay] in \<open>simp_all add: managed_def\<close>)
qed

end
