(* ===== verification/Room.thy ===== *)
theory Room
  imports Boot
begin

section \<open>When allocation succeeds\<close>

text \<open>
  The heap's invariant says what a block is that \<open>alloc\<close> returns; here it is shown that a request
  of at most a page is met as long as the page allocator has a free page, and uses up at most one. After
  boot all pages that are not reserved are free, but for those the chunk caches have taken.
\<close>

definition pages_left :: "mm \<Rightarrow> nat \<Rightarrow> bool" where
  "pages_left m n \<longleftrightarrow> (\<exists>fl A. mm_ok m fl A \<and> 0 \<notin> managed fl A \<and> n \<le> card (free_pages fl))"

lemma pages_left_mono: "pages_left m n \<Longrightarrow> k \<le> n \<Longrightarrow> pages_left m k"
  unfolding pages_left_def by (meson order_trans)

lemma finite_free_pages: "mm_ok m fl A \<Longrightarrow> finite (free_pages fl)"
proof -
  assume "mm_ok m fl A"
  then have "\<forall>x \<in> free_blocks fl. fst x + 2 ^ snd x \<le> PAGE_NUM"
    by (simp add: mm_ok_def buddy_ok_def aligned_def)
  then have "free_pages fl \<subseteq> {..<PAGE_NUM}" unfolding free_pages_def rng_def by fastforce
  then show ?thesis by (rule finite_subset) simp
qed

lemma rng_page [simp]: "rng (b, 0) = {b}"
  by (auto simp: rng_def)

lemma alloc_order_small: "0 < sz \<Longrightarrow> sz \<le> PAGE_SIZE \<Longrightarrow> alloc_order sz = 0"
proof -
  assume sz: "0 < sz" "sz \<le> PAGE_SIZE"
  then have "sz \<le> MAX_ALLOC_SIZE" by (simp add: MAX_ALLOC_SIZE_def MAX_BLOCK_SIZE_def)
  note s = alloc_order_spec(3) [OF sz(1) this]
  have "1 * PAGE_SIZE \<le> 2 ^ (alloc_order sz - 1) * PAGE_SIZE" by (rule mult_le_mono1) simp
  then show ?thesis using s sz(2) by linarith
qed

lemma page_alloc_left:
  assumes l: "pages_left (h_mm s) (Suc n)" and sz: "0 < sz" "sz \<le> PAGE_SIZE" and res: "page_alloc sz s = (p, s')"
  shows "p \<noteq> NULL \<and> pages_left (h_mm s') n"
proof -
  obtain fl A where f: "mm_ok (h_mm s) fl A" "0 \<notin> managed fl A" "Suc n \<le> card (free_pages fl)"
    using l by (auto simp: pages_left_def)
  obtain m where m: "mm_alloc sz (h_mm s) = (p, m)" "h_mm s' = m"
    using res by (cases "mm_alloc sz (h_mm s)") (auto simp: page_alloc_def)
  have o: "alloc_order sz = 0" by (rule alloc_order_small [OF sz])
  have mx: "sz \<le> MAX_ALLOC_SIZE" using sz by (simp add: MAX_ALLOC_SIZE_def MAX_BLOCK_SIZE_def)
  obtain q where "q \<in> free_pages fl" using f(3) by (cases "free_pages fl = {}") auto
  then obtain b k where "k < MAX_ORDER" "b \<in> set (fl k)" unfolding free_pages_def free_blocks_def by blast
  then have "k < MAX_ORDER" "fl k \<noteq> []" by auto
  then obtain b fl' where b: "p = b * PAGE_SIZE" "mm_ok m fl' (insert (b, 0) A)"
    "free_pages fl' = free_pages fl - {b}" "b \<in> free_pages fl" "managed fl' (insert (b, 0) A) = managed fl A"
    using mm_alloc_block [OF f(1) sz(1) mx m(1)] o by auto
  have "b \<noteq> 0" using b(4) f(2) by (metis UnI1 managed_def)
  then have "p \<noteq> NULL" using b(1) by simp
  moreover have "card (free_pages fl') = card (free_pages fl) - 1"
    using b(3,4) finite_free_pages [OF f(1)] by simp
  moreover have "0 \<notin> managed fl' (insert (b, 0) A)" unfolding b(5) by (rule f(2))
  ultimately show ?thesis using b(2) f(3) unfolding pages_left_def m(2) by (metis Suc_leD diff_Suc_1 diff_le_mono)
qed

lemma pages_left_cache_order [simp]:
  "pages_left (upd_page i (\<lambda>q. q\<lparr>pi_cache_order := v\<rparr>) m) n = pages_left m n"
proof -
  have "mm_ok (upd_page i (\<lambda>q. q\<lparr>pi_cache_order := v\<rparr>) m) fl A = mm_ok m fl A" for fl A
    by (rule iffI; erule mm_ok_cong) (auto simp: upd_page_def)
  then show ?thesis by (simp add: pages_left_def)
qed

lemma push_list: "cache_list (kmem_caches (kmem_freelist_push a i s) i) = Some a"
  by (simp add: kmem_freelist_push_def Let_def set_cache_list_def split: option.split)

lemma push_chunks_list: "0 < n \<Longrightarrow> cache_list (kmem_caches (push_chunks n page st i s) i) \<noteq> None"
proof (induction n arbitrary: page s)
  case (Suc n)
  then show ?case by (cases n) (simp_all add: push_list)
qed simp

lemma kmalloc_left:
  assumes inv: "heap_inv L M s R" and l: "pages_left (h_mm s) (Suc n)" and sz: "0 < sz" "sz \<le> 128"
    and res: "kmalloc sz s = Some (p, s')"
  shows "p \<noteq> NULL \<and> pages_left (h_mm s') n"
proof -
  obtain fl A C fr U where h: "heap_ok L M s fl A C fr U" using inv by (auto simp: heap_inv_def)
  obtain i where i: "i < CACHE_NUM" "get_chunk_order sz = Some (i + 4)"
    "(push_bit (i + 4) 1 :: u32) \<noteq> 0" "\<not> of_nat MAX_CHUNK_SIZE < (push_bit (i + 4) 1 :: u32)"
    using chunk_order [OF sz] by blast
  let ?c = "cache_list (kmem_caches s i) = None"
  define s1 where "s1 = (if ?c then request_page i s else s)"
  have s1: "cache_list (kmem_caches s1 i) \<noteq> None \<and> pages_left (h_mm s1) n"
  proof (cases ?c)
    case True
    obtain page t where r: "page_alloc PAGE_SIZE s = (page, t)" by (cases "page_alloc PAGE_SIZE s")
    have p: "page \<noteq> NULL" "pages_left (h_mm t) n" using page_alloc_left [OF l _ _ r] by simp_all
    let ?t = "set_cache_order (page_index page (h_mm t)) (int (i + MIN_CACHE_ORDER)) t"
    obtain fl' A' where "heap_ok L M t fl' A' C fr U" using page_alloc_ok [OF h r] by blast
    from chunk_num_eq(1) [OF this i(1)] have "chunk_num i ?t = PAGE_SIZE div chunk_step i" by (simp add: chunk_num_def)
    moreover have "i = 0 \<or> i = 1 \<or> i = 2 \<or> i = 3" using i(1) by (auto simp: CACHE_NUM_def)
    then have "2 \<le> PAGE_SIZE div chunk_step i" by (auto simp: chunk_step_def)
    ultimately have "2 \<le> chunk_num i ?t" by simp
    then have "0 < chunk_num i ?t - 1" by simp
    from push_chunks_list [OF this] show ?thesis
      using p r True by (simp add: s1_def request_page_def Let_def)
  next
    case False
    have "s1 = s" using False by (simp only: s1_def if_False)
    then show ?thesis using False pages_left_mono [OF l, of n] by simp
  qed
  then obtain e where e: "cache_list (kmem_caches s1 i) = Some e" by auto
  have k: "kmalloc sz s = (case kmem_freelist_pop i s1 of None \<Rightarrow> None | Some s2 \<Rightarrow> Some (e + ENTRY_SIZE, s2))"
    using i(2-4) e by (cases "cache_list (kmem_caches s i)")
      (simp_all add: kmalloc_def s1_def Let_def cong: option.case_cong)
  obtain s2 where s2: "kmem_freelist_pop i s1 = Some s2" "h_mm s2 = h_mm s1"
    using e by (auto simp: kmem_freelist_pop_def Let_def split: option.splits)
  have "p = e + ENTRY_SIZE" "s' = s2" using res k s2(1) by simp_all
  then show ?thesis using s1 s2(2) by simp
qed

text \<open>A request of at most a page succeeds while a page is free.\<close>

lemma alloc_left:
  assumes inv: "heap_inv L M s R" and l: "pages_left (h_mm s) (Suc n)" and sz: "0 < sz" "unat sz \<le> PAGE_SIZE"
  shows "\<exists>p k s'. alloc sz s = Some (p, s') \<and> p \<noteq> NULL \<and> unat sz \<le> k \<and> heap_inv L M s' ((p, k) # R) \<and>
     pages_left (h_mm s') n"
proof -
  obtain p s' where a: "alloc sz s = Some (p, s')" "p \<noteq> NULL \<longrightarrow> (\<exists>l \<ge> unat sz. heap_inv L M s' ((p, l) # R))"
    using heap_inv_alloc [OF inv, of sz] by blast
  have "p \<noteq> NULL \<and> pages_left (h_mm s') n"
  proof (cases "of_nat MAX_CHUNK_SIZE < sz")
    case True
    then show ?thesis using a(1) sz page_alloc_left [OF l, of "unat sz" p s']
      by (auto simp: alloc_def word_less_nat_alt unat_gt_0)
  next
    case False
    then have "alloc sz s = kmalloc sz s" "sz \<le> 128" using sz(1) by (auto simp: alloc_def not_less MAX_CHUNK_SIZE_def)
    then show ?thesis using kmalloc_left [OF inv l sz(1), of p s'] a(1) by simp
  qed
  then show ?thesis using a by blast
qed

subsection \<open>Small blocks\<close>

text \<open>
  A chunk never starts at a page boundary, which tells it from a block of pages; freeing it does not
  change the page allocator.
\<close>

lemma chunk_offset:
  assumes "chunk_at C i a"
  shows "(a + ENTRY_SIZE) mod PAGE_SIZE \<noteq> 0"
proof
  assume "(a + ENTRY_SIZE) mod PAGE_SIZE = 0"
  then have m: "(a + ENTRY_SIZE) div PAGE_SIZE * PAGE_SIZE = a + ENTRY_SIZE"
    using div_mult_mod_eq [of "a + ENTRY_SIZE" PAGE_SIZE] by linarith
  have "(a + ENTRY_SIZE) div PAGE_SIZE = a div PAGE_SIZE"
    by (rule chunk_page(3) [OF assms]) (simp add: chunk_step_def)
  then have "a div PAGE_SIZE * PAGE_SIZE = a + ENTRY_SIZE" using m by metis
  moreover have "a div PAGE_SIZE * PAGE_SIZE \<le> a" by (rule div_times_less_eq_dividend)
  ultimately show False by simp
qed

lemma kmalloc_small:
  assumes inv: "heap_inv L M s R" and sz: "0 < sz" "sz \<le> 128" and res: "kmalloc sz s = Some (p, s')" "p \<noteq> NULL"
  shows "p mod PAGE_SIZE \<noteq> 0"
proof -
  obtain fl A C fr U where h: "heap_ok L M s fl A C fr U" using inv by (auto simp: heap_inv_def)
  obtain i where i: "i < CACHE_NUM" "get_chunk_order sz = Some (i + 4)"
    "(push_bit (i + 4) 1 :: u32) \<noteq> 0" "\<not> of_nat MAX_CHUNK_SIZE < (push_bit (i + 4) 1 :: u32)"
    using chunk_order [OF sz] by blast
  define s1 where "s1 = (if cache_list (kmem_caches s i) = None then request_page i s else s)"
  obtain fl' A' C' fr' where h1: "heap_ok L M s1 fl' A' C' fr' U"
    using request_page_ok [OF h i(1)] h unfolding s1_def by metis
  note c = heap_okD(6) [OF h1]
  have k: "kmalloc sz s = (case cache_list (kmem_caches s1 i) of None \<Rightarrow> Some (NULL, s1)
      | Some e \<Rightarrow> (case kmem_freelist_pop i s1 of None \<Rightarrow> None | Some s2 \<Rightarrow> Some (e + ENTRY_SIZE, s2)))"
    using i(2-4) by (cases "cache_list (kmem_caches s i)")
      (simp_all add: kmalloc_def s1_def Let_def cong: option.case_cong)
  obtain e where e: "cache_list (kmem_caches s1 i) = Some e" "p = e + ENTRY_SIZE"
    using k res by (auto split: option.splits)
  have "fr' i \<noteq> []" using caches_okD(1) [OF c i(1)] e(1) by auto
  then obtain a as where a: "fr' i = a # as" by (cases "fr' i") auto
  then have "a = e" using pop_ok(1) [OF c i(1) a] e(1) by simp
  then have "chunk_at C' i e" using caches_okD(3) [OF c i(1), of a] a by simp
  then show ?thesis unfolding e(2) by (rule chunk_offset)
qed

lemma free_small:
  assumes inv: "heap_inv L M s R" and r: "(p, k) \<in> set R" "p mod PAGE_SIZE \<noteq> 0"
  shows "\<exists>s'. free L p s = Some s' \<and> h_mm s' = h_mm s"
proof -
  obtain fl A C fr U where h: "heap_ok L M s fl A C fr U" "set R \<subseteq> regions A C U"
    using inv unfolding heap_inv_def by blast
  then have "(p, k) \<in> regions A C U" using r(1) by blast
  then consider x where "(p, k) = block_region x" | u where "u \<in> U" "(p, k) = chunk_region u"
    unfolding regions_def by blast
  then show ?thesis
  proof cases
    case 1
    then show ?thesis using r(2) by (simp add: block_region_def)
  next
    case 2
    obtain a i where u: "u = (a, i)" by (cases u)
    then have p: "p = a + ENTRY_SIZE" using 2(2) by (simp add: chunk_region_def)
    obtain s' where f: "free L p s = Some s'" using free_chunk_ok [OF h(1)] 2(1) u p by blast
    have c: "chunk_at C i a" using heap_okD(7) [OF h(1)] 2(1) u by simp
    note pg = chunk_page [OF c]
    have d: "p div PAGE_SIZE = a div PAGE_SIZE" unfolding p by (rule pg(3)) (simp add: chunk_step_def)
    have pi: "page_index p (h_mm s) = int (a div PAGE_SIZE)"
      using page_index_eq [of "h_mm s" p] heap_ok_memory_start [OF h(1)] d pg(2) by metis
    have "pi_cache_order (page_list (h_mm s) (a div PAGE_SIZE)) = int (i + MIN_CACHE_ORDER)"
      using heap_okD(3) [OF h(1) pg(2)] pg(1) by simp
    then have "free L p s = (if p = NULL \<or> bss_end L \<le> p \<and> p < stack_top L then Some s else kfree L p s)"
      unfolding free_def Let_def pi nat_int using pg(2) by auto
    moreover have "h_mm t = h_mm s" if "kfree L p s = Some t" for t
      using that unfolding kfree_def Let_def by (auto split: if_splits)
    ultimately show ?thesis using f by (metis option.inject)
  qed
qed

lemma small_size:
  assumes inv: "heap_inv L M s R" and r: "(p, k) \<in> set R" "p mod PAGE_SIZE \<noteq> 0"
  shows "k < PAGE_SIZE"
proof -
  obtain fl A C fr U where h: "heap_ok L M s fl A C fr U" "set R \<subseteq> regions A C U"
    using inv unfolding heap_inv_def by blast
  then have "(p, k) \<in> regions A C U" using r(1) by blast
  moreover have "(p, k) \<noteq> block_region x" for x using r(2) by (auto simp: block_region_def)
  ultimately obtain a i where u: "(a, i) \<in> U" "(p, k) = chunk_region (a, i)" unfolding regions_def by auto
  have "chunk_at C i a" using heap_okD(7) [OF h(1)] u(1) by simp
  then have "i < CACHE_NUM" using heap_okD(4) [OF h(1)] chunk_page(1) by blast
  then have "i = 0 \<or> i = 1 \<or> i = 2 \<or> i = 3" by (auto simp: CACHE_NUM_def)
  then show ?thesis using u(2) by (auto simp: chunk_region_def)
qed

text \<open>The invariant is one of the set of the regions held.\<close>

lemma heap_inv_distinct:
  assumes "heap_inv L M s R"
  shows "distinct R"
proof -
  obtain fl A C fr U where h: "set R \<subseteq> regions A C U" "sorted_wrt apart R"
    using assms unfolding heap_inv_def by blast
  have "x \<noteq> y" if "x \<in> set R" "apart x y" for x y
    using regions_nonempty h(1) that by blast
  with h(2) show ?thesis by (induction R) (simp_all, blast)
qed

lemma heap_inv_sub:
  assumes inv: "heap_inv L M s R" and sub: "set Q \<subseteq> set R" "distinct Q"
  shows "heap_inv L M s Q"
proof -
  obtain fl A C fr U where h: "heap_ok L M s fl A C fr U" "set R \<subseteq> regions A C U" "\<forall>r \<in> set R. fst r \<noteq> NULL"
    using inv unfolding heap_inv_def by blast
  have "apart x y" if "x \<in> set Q" "y \<in> set Q" "x \<noteq> y" for x y
    using regions_apart [OF h(1)] h(2) sub(1) that by blast
  then have "sorted_wrt apart Q" using sub(2) by (induction Q) (simp_all, blast)
  then show ?thesis unfolding heap_inv_def using h sub(1) by blast
qed

lemma small_block:
  assumes inv: "heap_inv L M s R" and l: "pages_left (h_mm s) (Suc n)" and sz: "0 < sz" "sz \<le> 128"
  shows "\<exists>p k s'. alloc sz s = Some (p, s') \<and> p \<noteq> NULL \<and> p mod PAGE_SIZE \<noteq> 0 \<and> 0 < k \<and>
     heap_inv L M s' ((p, k) # R) \<and> pages_left (h_mm s') n"
proof -
  have "unat sz \<le> 128" using sz(2) by (simp add: word_le_nat_alt)
  then obtain p k s' where a: "alloc sz s = Some (p, s')" "p \<noteq> NULL" "unat sz \<le> k" "heap_inv L M s' ((p, k) # R)"
    "pages_left (h_mm s') n" using alloc_left [OF inv l sz(1)] by force
  moreover have "0 < k" using a(3) sz(1) by (simp add: word_less_nat_alt)
  moreover have "alloc sz s = kmalloc sz s" using sz by (auto simp: alloc_def)
  ultimately show ?thesis using kmalloc_small [OF inv sz, of p s'] by metis
qed

lemma free_small_block:
  assumes inv: "heap_inv L M s R" and r: "(p, k) \<in> set R" "p mod PAGE_SIZE \<noteq> 0"
  shows "\<exists>s'. free L p s = Some s' \<and> heap_inv L M s' (remove1 (p, k) R) \<and> h_mm s' = h_mm s"
proof -
  obtain s' where s': "free L p s = Some s'" "h_mm s' = h_mm s" using free_small [OF inv r] by blast
  let ?Q = "(p, k) # remove1 (p, k) R"
  have "distinct ?Q" "set ?Q \<subseteq> set R" using heap_inv_distinct [OF inv] r(1) by auto
  then have "heap_inv L M s ?Q" using heap_inv_sub [OF inv] by blast
  from heap_inv_free [OF this, of 0] show ?thesis using s' by (auto simp: drop_nth_def)
qed

subsection \<open>After boot\<close>

lemma cache_fill_left:
  "pages_left (h_mm s) (n + (CACHE_NUM - i)) \<Longrightarrow> pages_left (h_mm (cache_fill i s)) n"
proof (induction "CACHE_NUM - i" arbitrary: i s n)
  case 0
  then show ?case by (subst cache_fill.simps) simp
next
  case (Suc k)
  then have i: "i < CACHE_NUM" and l: "pages_left (h_mm s) (Suc (n + (CACHE_NUM - (i + 1))))"
  proof -
    show i: "i < CACHE_NUM" using Suc.hyps(2) by simp
    have "n + (CACHE_NUM - i) = Suc (n + (CACHE_NUM - (i + 1)))" using i by simp
    then show "pages_left (h_mm s) (Suc (n + (CACHE_NUM - (i + 1))))" using Suc.prems by metis
  qed
  obtain page t where r: "page_alloc PAGE_SIZE s = (page, t)" by (cases "page_alloc PAGE_SIZE s")
  have p: "page \<noteq> NULL" "pages_left (h_mm t) (n + (CACHE_NUM - (i + 1)))" using page_alloc_left [OF l _ _ r] by simp_all
  have "pages_left (h_mm (cache_fill (i + 1) u)) n" if "pages_left (h_mm u) (n + (CACHE_NUM - (i + 1)))" for u
    by (rule Suc.hyps(1)) (use Suc.hyps(2) that in auto)
  then show ?case using i p r by (subst cache_fill.simps) (simp add: Let_def)
qed

lemma boot_left:
  assumes lay: "boot_layout_ok L c e d n" and k: "k + CACHE_NUM \<le> card (free_at_boot L c e d n)"
  shows "pages_left (h_mm (kernel_memory_init L c e d n s)) k"
proof -
  let ?m = "boot_mm L c e d n (h_mm s)"
  obtain fl A where m: "mm_ok ?m fl A" "free_pages fl = free_at_boot L c e d n"
    using boot_mm_ok [OF lay] unfolding boot_ok_def by blast
  have "0 \<notin> free_at_boot L c e d n" by (auto simp: free_at_boot_def boot_ranges_def pages_def)
  then have "pages_left ?m (k + CACHE_NUM)"
    using mm_ok_subset [OF m(1), of "{}"] m(2) k unfolding pages_left_def
    by (intro exI [of _ fl] exI [of _ "{}"]) (simp add: managed_def)
  then show ?thesis
    unfolding kernel_memory_init_eq kmem_cache_init_def
    by (intro cache_fill_left) (use cache_sizes_eq [of CACHE_NUM "s\<lparr>h_mm := ?m\<rparr>"] in simp)
qed

end
