(* ===== verification/Cstring.thy ===== *)
theory Cstring
  imports Kmem "HOL-Library.Monad_Syntax"
begin

section \<open>Strings and memory blocks (src/string.c)\<close>

text \<open>
  Byte memory is a function from addresses to bytes. A loop that scans for a terminating NUL may run
  away, so the scanning functions are \<open>partial_function (option)\<close>s, \<open>None\<close> being the scan that never
  ends; \<open>cstr m p s\<close> says that the C string at \<open>p\<close> is \<open>s\<close>, and then they return.
\<close>

type_synonym mem = "addr \<Rightarrow> byte"

definition cstr :: "mem \<Rightarrow> addr \<Rightarrow> byte list \<Rightarrow> bool" where
  "cstr m p s \<longleftrightarrow> (\<forall>i < length s. m (p + i) = s ! i) \<and> m (p + length s) = 0 \<and> 0 \<notin> set s"

text \<open>Little-endian words in memory.\<close>

definition get_u32 :: "mem \<Rightarrow> addr \<Rightarrow> u32" where
  "get_u32 m a = ucast (m a) OR push_bit 8 (ucast (m (a + 1))) OR push_bit 16 (ucast (m (a + 2))) OR
     push_bit 24 (ucast (m (a + 3)))"

definition put_u32 :: "addr \<Rightarrow> u32 \<Rightarrow> mem \<Rightarrow> mem" where
  "put_u32 a w m = m(a := ucast w, a + 1 := ucast (drop_bit 8 w), a + 2 := ucast (drop_bit 16 w),
     a + 3 := ucast (drop_bit 24 w))"

lemma word_of_bytes:
  "ucast (ucast w :: byte) OR push_bit 8 (ucast (ucast (drop_bit 8 w) :: byte)) OR
   push_bit 16 (ucast (ucast (drop_bit 16 w) :: byte)) OR push_bit 24 (ucast (ucast (drop_bit 24 w) :: byte)) = (w :: u32)"
  (is "?w = w")
proof (rule bit_word_eqI)
  fix n assume "n < LENGTH(32)"
  then have "n < 8 \<or> n \<in> {8..<16} \<or> n \<in> {16..<24} \<or> n \<in> {24..<32}" by auto
  moreover have "n = c + (n - c)" if "c \<le> n" for c using that by simp
  ultimately consider "n < 8" | k where "n = 8 + k" "k < 8" | k where "n = 16 + k" "k < 8" | k where "n = 24 + k" "k < 8"
    by (elim disjE) (auto simp: le_iff_add)
  then show "bit ?w n = bit w n" by cases (auto simp: bit_simps)
qed

lemma get_put_u32: "get_u32 (put_u32 a w m) a = w"
  using word_of_bytes [of w] by (simp add: get_u32_def put_u32_def)

lemma cstr_Nil [simp]: "cstr m p [] \<longleftrightarrow> m p = 0"
  by (simp add: cstr_def)

lemma cstr_Cons [simp]: "cstr m p (c # s) \<longleftrightarrow> m p = c \<and> c \<noteq> 0 \<and> cstr m (Suc p) s"
  by (auto simp: cstr_def All_less_Suc2)

lemma cstr_unique: "cstr m p s \<Longrightarrow> cstr m p t \<Longrightarrow> s = t"
proof (induction s arbitrary: p t)
  case Nil
  then show ?case by (cases t) auto
next
  case (Cons c s)
  then show ?case by (cases t) auto
qed

lemma cstr_cong: "cstr m p s \<Longrightarrow> (\<And>i. i \<le> length s \<Longrightarrow> m' (p + i) = m (p + i)) \<Longrightarrow> cstr m' p s"
  by (simp add: cstr_def)

subsection \<open>Scanning\<close>

partial_function (option) strcmp :: "mem \<Rightarrow> addr \<Rightarrow> addr \<Rightarrow> int option" where
  "strcmp m s1 s2 =
     (if m s1 \<noteq> 0 \<and> m s2 \<noteq> 0 \<and> m s1 = m s2 then strcmp m (s1 + 1) (s2 + 1)
      else Some (uint (m s1) - uint (m s2)))"

partial_function (option) strlen_loop :: "mem \<Rightarrow> addr \<Rightarrow> u32 \<Rightarrow> u32 option" where
  "strlen_loop m s len = (if m s \<noteq> 0 then strlen_loop m (s + 1) (len + 1) else Some len)"

definition strlen :: "mem \<Rightarrow> addr \<Rightarrow> u32 option" where
  "strlen m s = strlen_loop m s 0"

subsection \<open>Splitting\<close>

text \<open>\<open>strtok\<close> keeps the rest of the string in a static pointer (here \<open>NULL\<close> is 0).\<close>

record strtok_state =
  st_mem :: mem
  st_p :: addr

partial_function (option) tok_end :: "mem \<Rightarrow> byte \<Rightarrow> addr \<Rightarrow> addr option" where
  "tok_end m delim p = (if m p \<noteq> delim \<and> m p \<noteq> 0 then tok_end m delim (p + 1) else Some p)"

definition strtok :: "addr \<Rightarrow> byte \<Rightarrow> strtok_state \<Rightarrow> (addr \<times> strtok_state) option" where
  "strtok str delim s =
     (let s1 = (if str \<noteq> NULL then s\<lparr>st_p := str\<rparr> else s) in
      if st_p s1 = NULL \<or> st_mem s1 (st_p s1) = 0 then Some (NULL, s1)
      else do {
        e \<leftarrow> tok_end (st_mem s1) delim (st_p s1);
        Some (st_p s1,
              if st_mem s1 e = delim then s1\<lparr>st_mem := (st_mem s1)(e := 0), st_p := e + 1\<rparr>
              else s1\<lparr>st_p := e\<rparr>)
      })"

subsection \<open>Copying\<close>

primrec memset_loop :: "nat \<Rightarrow> addr \<Rightarrow> byte \<Rightarrow> mem \<Rightarrow> mem" where
  "memset_loop 0 p c m = m"
| "memset_loop (Suc n) p c m = memset_loop n (p + 1) c (m(p := c))"

definition memset :: "addr \<Rightarrow> int \<Rightarrow> u32 \<Rightarrow> mem \<Rightarrow> mem" where
  "memset s c n m = memset_loop (unat n) s (of_int c) m"

primrec memcpy_loop :: "nat \<Rightarrow> addr \<Rightarrow> addr \<Rightarrow> mem \<Rightarrow> mem" where
  "memcpy_loop 0 d s m = m"
| "memcpy_loop (Suc n) d s m = memcpy_loop n (d + 1) (s + 1) (m(d := m s))"

definition memcpy :: "addr \<Rightarrow> addr \<Rightarrow> u32 \<Rightarrow> mem \<Rightarrow> mem" where
  "memcpy d s n m = memcpy_loop (unat n) d s m"

definition strdup :: "addr \<Rightarrow> heap \<times> mem \<Rightarrow> (addr \<times> heap \<times> mem) option" where
  "strdup s hm = (case hm of (h, m) \<Rightarrow> do {
     len \<leftarrow> strlen m s;
     (dup, h') \<leftarrow> alloc (len + 1) h;
     if dup = NULL then Some (NULL, h', m)
     else Some (dup, h', (memcpy_loop (unat len) dup s m)(dup + unat len := 0))
   })"

subsection \<open>What they compute\<close>

lemma strlen_loop_eq: "cstr m p s \<Longrightarrow> strlen_loop m p n = Some (n + of_nat (length s))"
proof (induction s arbitrary: p n)
  case Nil
  then show ?case by (simp add: strlen_loop.simps)
next
  case (Cons c s)
  then show ?case by (subst strlen_loop.simps) (simp add: algebra_simps)
qed

lemma strlen_eq: "cstr m p s \<Longrightarrow> strlen m p = Some (of_nat (length s))"
  by (simp add: strlen_def strlen_loop_eq)

text \<open>
  The result of \<open>strcmp\<close>: the difference of the first bytes that differ, the NUL counting as a byte.
\<close>

fun str_diff :: "byte list \<Rightarrow> byte list \<Rightarrow> int" where
  "str_diff [] [] = 0"
| "str_diff (x # _) [] = uint x"
| "str_diff [] (y # _) = - uint y"
| "str_diff (x # xs) (y # ys) = (if x = y then str_diff xs ys else uint x - uint y)"

lemma strcmp_eq: "cstr m p s \<Longrightarrow> cstr m q t \<Longrightarrow> strcmp m p q = Some (str_diff s t)"
proof (induction s t arbitrary: p q rule: str_diff.induct)
  case (4 x xs y ys)
  then show ?case by (subst strcmp.simps) auto
qed (subst strcmp.simps; simp)+

lemma uint_eq_iff: "uint x = uint y \<longleftrightarrow> x = y" for x y :: byte
  by (simp only: word_uint_eq_iff)

lemma str_diff_0: "0 \<notin> set s \<Longrightarrow> 0 \<notin> set t \<Longrightarrow> str_diff s t = 0 \<longleftrightarrow> s = t"
  by (induction s t rule: str_diff.induct) (auto simp: unsigned_eq_0_iff uint_eq_iff)

lemma cstr_nonzero: "cstr m p s \<Longrightarrow> 0 \<notin> set s"
  by (simp add: cstr_def)

lemma strcmp_zero:
  assumes "cstr m p s" "cstr m q t"
  shows "strcmp m p q = Some 0 \<longleftrightarrow> s = t"
  using strcmp_eq [OF assms] str_diff_0 cstr_nonzero assms by fastforce

lemma memset_loop_eq: "memset_loop n p c m a = (if p \<le> a \<and> a < p + n then c else m a)"
  by (induction n arbitrary: p m) auto

lemma memcpy_loop_eq:
  "d + n \<le> s \<or> s + n \<le> d \<Longrightarrow>
   memcpy_loop n d s m a = (if d \<le> a \<and> a < d + n then m (s + (a - d)) else m a)"
proof (induction n arbitrary: d s m)
  case (Suc n)
  then have IH: "memcpy_loop n (Suc d) (Suc s) (m(d := m s)) a =
      (if Suc d \<le> a \<and> a < Suc d + n then (m(d := m s)) (Suc s + (a - Suc d)) else (m(d := m s)) a)"
    by (intro Suc.IH) auto
  consider "a = d" | "Suc d \<le> a \<and> a < Suc d + n" | "a \<noteq> d" "\<not> (Suc d \<le> a \<and> a < Suc d + n)" by blast
  then show ?case
  proof cases
    case 2
    then have "Suc s + (a - Suc d) = s + (a - d)" "s + (a - d) \<noteq> d" using Suc.prems by auto
    then show ?thesis using IH 2 by auto
  qed (use IH in auto)
qed auto

text \<open>A copy with its NUL is the same string.\<close>

lemma cstr_copy:
  assumes "cstr m s cs" "d + length cs < s \<or> s + length cs < d" "length cs < n"
    "d + n \<le> s \<or> s + n \<le> d"
  shows "cstr (memcpy_loop n d s m) d cs"
  using assms by (auto simp: cstr_def memcpy_loop_eq)

text \<open>Tokens: the next token is the longest delimiter-free prefix.\<close>

lemma tok_end_eq:
  "cstr m p s \<Longrightarrow> tok_end m delim p = Some (p + length (takeWhile (\<lambda>c. c \<noteq> delim) s))"
proof (induction s arbitrary: p)
  case Nil
  then show ?case by (simp add: tok_end.simps)
next
  case (Cons c s)
  then show ?case by (subst tok_end.simps) auto
qed

lemma cstr_append:
  "cstr m p (s @ t) \<longleftrightarrow> (\<forall>i < length s. m (p + i) = s ! i) \<and> 0 \<notin> set s \<and> cstr m (p + length s) t"
proof (induction s arbitrary: p)
  case (Cons c s)
  then show ?case by (auto simp: All_less_Suc2)
qed simp

lemma strtok_step:
  assumes c: "cstr m p s" "s \<noteq> []" "p \<noteq> NULL" "delim \<noteq> 0"
  defines "tok \<equiv> takeWhile (\<lambda>c. c \<noteq> delim) s"
  shows "\<exists>s'. strtok p delim \<lparr>st_mem = m, st_p = q\<rparr> = Some (p, s') \<and> cstr (st_mem s') p tok \<and>
     cstr (st_mem s') (st_p s') (drop (Suc (length tok)) s) \<and>
     (\<forall>a. a < p \<or> p + length s < a \<longrightarrow> st_mem s' a = m a) \<and>
     p + length tok \<le> st_p s' \<and> (drop (Suc (length tok)) s = [] \<or> st_p s' = Suc (p + length tok))"
proof -
  have te: "tok_end m delim p = Some (p + length tok)" unfolding tok_def by (rule tok_end_eq [OF c(1)])
  have ne: "m p \<noteq> 0" using c(1,2) by (cases s) auto
  have s: "s = tok @ dropWhile (\<lambda>c. c \<noteq> delim) s" by (simp add: tok_def)
  have z: "0 \<notin> set tok" using cstr_nonzero [OF c(1)] s by (metis Un_iff set_append)
  show ?thesis
  proof (cases "dropWhile (\<lambda>c. c \<noteq> delim) s")
    case Nil
    then have t: "tok = s" using s by (metis append_Nil2)
    then have "m (p + length tok) = 0" using c(1) by (simp add: cstr_def)
    then have "strtok p delim \<lparr>st_mem = m, st_p = q\<rparr> = Some (p, \<lparr>st_mem = m, st_p = p + length tok\<rparr>)"
      using te ne c(3,4) by (simp add: strtok_def)
    then show ?thesis using c(1) t by (auto simp: cstr_def)
  next
    case (Cons d r)
    then have d: "d = delim" using hd_dropWhile [of "\<lambda>c. c \<noteq> delim" s] by simp
    have s': "s = tok @ delim # r" using s Cons d by simp
    let ?m = "m(p + length tok := 0)"
    have r: "cstr m (Suc (p + length tok)) r" "m (p + length tok) = delim"
      using c(1) unfolding s' cstr_append by auto
    have "strtok p delim \<lparr>st_mem = m, st_p = q\<rparr> = Some (p, \<lparr>st_mem = ?m, st_p = p + length tok + 1\<rparr>)"
      using te ne c(3) r(2) by (simp add: strtok_def)
    moreover have "cstr ?m p tok"
      using c(1) z unfolding s' cstr_append by (simp add: cstr_def)
    moreover have "cstr ?m (Suc (p + length tok)) r" by (rule cstr_cong [OF r(1)]) simp
    ultimately show ?thesis by (auto simp: s')
  qed
qed

lemma strtok_first:
  assumes "cstr m p s" "s \<noteq> []" "p \<noteq> NULL" "delim \<noteq> 0"
  defines "tok \<equiv> takeWhile (\<lambda>c. c \<noteq> delim) s"
  shows "\<exists>s'. strtok p delim \<lparr>st_mem = m, st_p = q\<rparr> = Some (p, s') \<and> cstr (st_mem s') p tok \<and>
     cstr (st_mem s') (st_p s') (drop (Suc (length tok)) s) \<and>
     (\<forall>a. a < p \<or> p + length s < a \<longrightarrow> st_mem s' a = m a)"
  using strtok_step [OF assms(1-4)] unfolding tok_def by blast

text \<open>The following calls, with the string \<open>NULL\<close>.\<close>

lemma strtok_next: "strtok NULL delim s = strtok (st_p s) delim \<lparr>st_mem = st_mem s, st_p = st_p s\<rparr>"
  by (cases s) (simp add: strtok_def)

lemma strtok_end: "st_mem s (st_p s) = 0 \<Longrightarrow> strtok NULL delim s = Some (NULL, s)"
  by (simp add: strtok_def)

lemma strdup_eq:
  assumes s: "cstr m p cs" "length cs < 2 ^ 32 - 1"
    and a: "alloc (of_nat (length cs) + 1) h = Some (d, h')" "d \<noteq> NULL"
    and far: "d + length cs < p \<or> p + length cs < d"
  shows "\<exists>m'. strdup p (h, m) = Some (d, h', m') \<and> cstr m' d cs \<and> cstr m' p cs \<and>
     (\<forall>x. x < d \<or> d + length cs < x \<longrightarrow> m' x = m x)"
proof -
  have l: "strlen m p = Some (of_nat (length cs))" by (rule strlen_eq [OF s(1)])
  have u: "unat (of_nat (length cs) :: u32) = length cs"
    using s(2) by (simp add: unat_of_nat)
  let ?m = "(memcpy_loop (length cs) d p m)(d + length cs := 0)"
  have cp: "memcpy_loop (length cs) d p m x = (if d \<le> x \<and> x < d + length cs then m (p + (x - d)) else m x)" for x
    using far by (intro memcpy_loop_eq) auto
  have "strdup p (h, m) = Some (d, h', ?m)" using l a u by (simp add: strdup_def)
  moreover have "cstr ?m d cs" "cstr ?m p cs"
    using s(1) far by (auto simp: cstr_def cp)
  moreover have "?m x = m x" if "x < d \<or> d + length cs < x" for x
    using that by (auto simp: cp)
  ultimately show ?thesis by blast
qed

end
