(* ===== verification/PrioList.thy ===== *)
theory PrioList
  imports Prelude
begin

section \<open>The contract of a priority list\<close>

text \<open>
  The interrupt tasks (src/tasks.c) and the timers (src/timer.c) are kept in linked lists ordered by
  a key: inserting puts the new node before the first one whose key is not smaller, and the client
  only ever takes the first node. \<open>prio_list\<close> is that contract; its client's theorem is that a list
  of nodes inserted one by one and then taken one by one comes out in the order of the keys.
\<close>

text \<open>A node goes in front of the first one whose key is not smaller.\<close>

definition insert_before :: "('n \<Rightarrow> 'k::linorder) \<Rightarrow> 'n \<Rightarrow> 'n list \<Rightarrow> 'n list" where
  "insert_before key n xs = takeWhile (\<lambda>x. key x < key n) xs @ n # dropWhile (\<lambda>x. key x < key n) xs"

lemma insert_before_Nil [simp]: "insert_before key n [] = [n]"
  by (simp add: insert_before_def)

lemma insert_before_Cons:
  "insert_before key n (x # xs) =
     (if key x < key n then x # insert_before key n xs else n # x # xs)"
  by (simp add: insert_before_def)

lemma insert_before_set [simp]: "set (insert_before key n xs) = insert n (set xs)"
proof -
  have "set xs = set (takeWhile (\<lambda>x. key x < key n) xs) \<union> set (dropWhile (\<lambda>x. key x < key n) xs)"
    by (metis set_append takeWhile_dropWhile_id)
  then show ?thesis by (auto simp: insert_before_def)
qed

lemma insert_before_distinct: "distinct xs \<Longrightarrow> n \<notin> set xs \<Longrightarrow> distinct (insert_before key n xs)"
  by (induction xs) (auto simp: insert_before_Cons)

lemma insert_before_cong:
  "(\<And>x. x \<in> insert n (set xs) \<Longrightarrow> key' x = key x) \<Longrightarrow> insert_before key' n xs = insert_before key n xs"
  by (induction xs) (auto simp: insert_before_Cons)

lemma insert_before_sorted: "sorted (map key xs) \<Longrightarrow> sorted (map key (insert_before key n xs))"
proof (induction xs)
  case (Cons x xs)
  then show ?case by (auto simp: insert_before_Cons)
qed simp

lemma insert_before_length [simp]: "length (insert_before key n xs) = Suc (length xs)"
  by (induction xs) (auto simp: insert_before_Cons)

text \<open>
  How both components insert: in front of the head, or behind the last node \<open>walk_stop\<close> of those with
  a smaller key.
\<close>

definition walk_stop :: "('n \<Rightarrow> 'k::linorder) \<Rightarrow> 'k \<Rightarrow> 'n \<Rightarrow> 'n list \<Rightarrow> 'n" where
  "walk_stop key k h xs = last (h # takeWhile (\<lambda>x. key x < k) xs)"

lemma walk_stop_simps [simp]:
  "walk_stop key k h [] = h"
  "walk_stop key k h (x # xs) = (if key x < k then walk_stop key k x xs else h)"
  by (simp_all add: walk_stop_def)

lemma walk_stop_in: "walk_stop key k h xs \<in> insert h (set xs)"
  by (induction xs arbitrary: h) auto

lemma sll_insert_head:
  assumes "sll nx h xs" "n \<notin> set xs" "xs = [] \<or> key n \<le> key (hd xs)"
    and "nx' n = h" "\<And>x. x \<in> set xs \<Longrightarrow> nx' x = nx x"
  shows "sll nx' (Some n) (insert_before key n xs)"
proof -
  have "insert_before key n xs = n # xs"
    using assms(3) by (cases xs) (auto simp: insert_before_Cons)
  moreover have "sll nx' h xs" using assms(1) by (rule sll_cong) (rule assms(5))
  ultimately show ?thesis using assms(4) by simp
qed

lemma sll_insert_walk:
  assumes "sll nx (Some h) (h # xs)" "distinct (h # xs)" "n \<notin> set (h # xs)" "key h < key n"
    and nx': "\<And>x. x \<in> insert n (set (h # xs)) \<Longrightarrow> nx' x =
       (if x = walk_stop key (key n) h xs then Some n
        else if x = n then nx (walk_stop key (key n) h xs) else nx x)"
  shows "sll nx' (Some h) (insert_before key n (h # xs))"
proof -
  let ?as = "takeWhile (\<lambda>x. key x < key n) (h # xs)" and ?bs = "dropWhile (\<lambda>x. key x < key n) (h # xs)"
  have c: "last ?as = walk_stop key (key n) h xs" and ne: "?as \<noteq> []"
    using assms(4) by (simp_all add: walk_stop_def)
  have cn: "walk_stop key (key n) h xs \<noteq> n" using walk_stop_in [of key "key n" h xs] assms(3) by auto
  have id: "?as @ ?bs = h # xs" by (rule takeWhile_dropWhile_id)
  have "sll nx' (Some h) (?as @ n # ?bs)"
  proof (rule sll_insert_middle [of nx])
    show "sll nx (Some h) (?as @ ?bs)" "distinct (?as @ ?bs)" "n \<notin> set (?as @ ?bs)" "?as \<noteq> []"
      unfolding id using assms(1-3) ne by auto
    show "nx' x = (if x = last ?as then Some n else nx x)" if "x \<in> set (?as @ ?bs)" for x
      using that nx' [of x] assms(3) unfolding id c by auto
    show "nx' n = nx (last ?as)" using nx' [of n] cn unfolding c by simp
  qed
  then show ?thesis by (simp only: insert_before_def)
qed

text \<open>Inserting all of a list, and taking up to \<open>n\<close> nodes.\<close>

fun put_all :: "('n \<Rightarrow> 's \<Rightarrow> 's option) \<Rightarrow> 'n list \<Rightarrow> 's \<Rightarrow> 's option" where
  "put_all ins [] s = Some s"
| "put_all ins (n # ns) s = (case ins n s of None \<Rightarrow> None | Some s' \<Rightarrow> put_all ins ns s')"

fun take_all :: "('s \<Rightarrow> ('n \<times> 's) option) \<Rightarrow> nat \<Rightarrow> 's \<Rightarrow> ('n list \<times> 's) option" where
  "take_all tk 0 s = Some ([], s)"
| "take_all tk (Suc k) s =
     (case tk s of None \<Rightarrow> None
      | Some (n, s') \<Rightarrow> (case take_all tk k s' of None \<Rightarrow> None | Some (ns, s'') \<Rightarrow> Some (n # ns, s'')))"

locale prio_list =
  fixes holds :: "'s \<Rightarrow> 'n list \<Rightarrow> bool"
    and key :: "'s \<Rightarrow> 'n \<Rightarrow> 'k::linorder"
    and ins :: "'n \<Rightarrow> 's \<Rightarrow> 's option"
    and tk :: "'s \<Rightarrow> ('n \<times> 's) option"
  assumes holds_sorted: "holds s xs \<Longrightarrow> sorted (map (key s) xs) \<and> distinct xs"
    and ins_ok: "holds s xs \<Longrightarrow> n \<notin> set xs \<Longrightarrow>
                   \<exists>s'. ins n s = Some s' \<and> holds s' (insert_before (key s) n xs) \<and> key s' = key s"
    and tk_ok: "holds s (x # xs) \<Longrightarrow> \<exists>s'. tk s = Some (x, s') \<and> holds s' xs \<and> key s' = key s"
begin

lemma put_all_ok:
  assumes "holds s xs" "distinct (ns @ xs)"
  shows "\<exists>s' ys. put_all ins ns s = Some s' \<and> holds s' ys \<and> set ys = set ns \<union> set xs \<and>
           length ys = length ns + length xs \<and> key s' = key s"
  using assms
proof (induction ns arbitrary: s xs)
  case Nil
  then show ?case by auto
next
  case (Cons n ns)
  obtain s1 where 1: "ins n s = Some s1" "holds s1 (insert_before (key s) n xs)" "key s1 = key s"
    using ins_ok [OF Cons.prems(1)] Cons.prems(2) by auto
  have "distinct (ns @ insert_before (key s) n xs)"
    using Cons.prems(2) by (auto intro: insert_before_distinct)
  from Cons.IH [OF 1(2) this] show ?case using 1 by auto
qed

lemma take_all_ok:
  "holds s (xs @ ys) \<Longrightarrow> \<exists>s'. take_all tk (length xs) s = Some (xs, s') \<and> holds s' ys \<and> key s' = key s"
proof (induction xs arbitrary: s)
  case (Cons x xs)
  then obtain s1 where 1: "tk s = Some (x, s1)" "holds s1 (xs @ ys)" "key s1 = key s"
    using tk_ok [of s x "xs @ ys"] by auto
  from Cons.IH [OF 1(2)] show ?case using 1 by auto
qed simp

lemma drain_sorted:
  assumes "holds s []" "distinct ns"
  shows "\<exists>s1 s2 ys. put_all ins ns s = Some s1 \<and> take_all tk (length ns) s1 = Some (ys, s2) \<and>
           set ys = set ns \<and> distinct ys \<and> sorted (map (key s) ys) \<and> holds s2 []"
proof -
  obtain s1 ys where p: "put_all ins ns s = Some s1" "holds s1 ys" "set ys = set ns"
    "length ys = length ns" "key s1 = key s"
    using put_all_ok [OF assms(1), of ns] assms(2) by auto
  then show ?thesis using take_all_ok [of s1 ys "[]"] holds_sorted [OF p(2)] by auto
qed

end

end
