(* ===== verification/Tasks.thy ===== *)
theory Tasks
  imports KmemInv PrioList
begin

section \<open>Interrupt tasks (src/tasks.c)\<close>

text \<open>
  An interrupt handler queues its work as a \<open>struct Task\<close> and runs the first task of the queue. The
  queue is linked through the tasks' \<open>next\<close> and \<open>prev\<close> fields and ordered by \<open>priority\<close>; the tasks
  live on the heap. A callback is a number; what running it does to the state is a parameter.
\<close>

record Task =
  t_prev :: "addr option"
  t_next :: "addr option"
  t_callback :: nat
  t_priority :: int

text \<open>\<open>sizeof(struct Task)\<close>\<close>

definition TASK_SIZE :: u32 where [simp]: "TASK_SIZE = 32"

record tasks =
  tk_heap :: heap
  tk_node :: "addr \<Rightarrow> Task"
  task_head :: "addr option"

definition upd_task :: "addr \<Rightarrow> (Task \<Rightarrow> Task) \<Rightarrow> tasks \<Rightarrow> tasks" where
  "upd_task a f s = s\<lparr>tk_node := (tk_node s)(a := f (tk_node s a))\<rparr>"

lemma upd_task_sel [simp]:
  "tk_node (upd_task a f s) x = (if x = a then f (tk_node s a) else tk_node s x)"
  "tk_heap (upd_task a f s) = tk_heap s" "task_head (upd_task a f s) = task_head s"
  by (simp_all add: upd_task_def)

subsection \<open>Queueing\<close>

text \<open>The walk to the node the new one goes behind; it ends only if the list does.\<close>

partial_function (option) task_walk :: "int \<Rightarrow> addr \<Rightarrow> tasks \<Rightarrow> addr option" where
  "task_walk prio cur s =
     (case t_next (tk_node s cur) of
        None \<Rightarrow> Some cur
      | Some n \<Rightarrow> if t_priority (tk_node s n) < prio then task_walk prio n s else Some cur)"

definition task_insert :: "addr \<Rightarrow> tasks \<Rightarrow> tasks option" where
  "task_insert new_task s =
     (case task_head s of
        None \<Rightarrow>
          Some ((upd_task new_task (\<lambda>t. t\<lparr>t_prev := None, t_next := None\<rparr>) s)\<lparr>task_head := Some new_task\<rparr>)
      | Some h \<Rightarrow>
          if t_priority (tk_node s new_task) \<le> t_priority (tk_node s h) then
            let s1 = upd_task new_task (\<lambda>t. t\<lparr>t_next := Some h\<rparr>) s;
                s2 = upd_task h (\<lambda>t. t\<lparr>t_prev := Some new_task\<rparr>) s1;
                s3 = upd_task new_task (\<lambda>t. t\<lparr>t_prev := None\<rparr>) s2
            in Some (s3\<lparr>task_head := Some new_task\<rparr>)
          else
            (case task_walk (t_priority (tk_node s new_task)) h s of
               None \<Rightarrow> None
             | Some cur \<Rightarrow>
                 let s1 = upd_task new_task (\<lambda>t. t\<lparr>t_next := t_next (tk_node s cur)\<rparr>) s;
                     s2 = upd_task new_task (\<lambda>t. t\<lparr>t_prev := Some cur\<rparr>) s1;
                     s3 = upd_task cur (\<lambda>t. t\<lparr>t_next := Some new_task\<rparr>) s2
                 in (case t_next (tk_node s3 cur) of
                       None \<Rightarrow> Some s3
                     | Some n \<Rightarrow> Some (upd_task n (\<lambda>t. t\<lparr>t_prev := Some new_task\<rparr>) s3))))"

definition add_task :: "nat \<Rightarrow> int \<Rightarrow> tasks \<Rightarrow> tasks option" where
  "add_task callback priority s =
     (case alloc TASK_SIZE (tk_heap s) of
        None \<Rightarrow> None
      | Some (new_task, h) \<Rightarrow>
          let s1 = s\<lparr>tk_heap := h\<rparr> in
          if new_task = NULL then Some s1
          else task_insert new_task
                 (upd_task new_task (\<lambda>t. t\<lparr>t_callback := callback, t_priority := priority\<rparr>) s1))"

subsection \<open>Running\<close>

text \<open>\<open>None\<close>: the queue is empty and the code dereferences \<open>NULL\<close>. A callback may change the queue, the
  heap and the rest \<open>'w\<close> of the kernel's state.\<close>

definition task_take :: "tasks \<Rightarrow> (addr \<times> tasks) option" where
  "task_take s =
     (case task_head s of
        None \<Rightarrow> None
      | Some cur \<Rightarrow>
          let s1 = s\<lparr>task_head := t_next (tk_node s cur)\<rparr> in
          Some (cur,
            (case task_head s1 of
               None \<Rightarrow> s1
             | Some h \<Rightarrow> upd_task h (\<lambda>t. t\<lparr>t_prev := None\<rparr>) s1)))"

definition execute_task :: "layout \<Rightarrow> (nat \<Rightarrow> tasks \<times> 'w \<Rightarrow> (tasks \<times> 'w) option) \<Rightarrow> tasks \<times> 'w \<Rightarrow>
    (tasks \<times> 'w) option" where
  "execute_task L run sw =
     (case task_take (fst sw) of
        None \<Rightarrow> None
      | Some (cur, s1) \<Rightarrow>
          (case run (t_callback (tk_node s1 cur)) (s1, snd sw) of
             None \<Rightarrow> None
           | Some (s2, w) \<Rightarrow> map_option (\<lambda>h. (s2\<lparr>tk_heap := h\<rparr>, w)) (free L cur (tk_heap s2))))"

subsection \<open>The queue as a priority list\<close>

definition task_prio :: "tasks \<Rightarrow> addr \<Rightarrow> int" where
  "task_prio s x = t_priority (tk_node s x)"

lemma task_prio_heap [simp]: "task_prio (s\<lparr>tk_heap := g\<rparr>) = task_prio s"
  by (simp add: task_prio_def fun_eq_iff)

definition task_list :: "tasks \<Rightarrow> addr list \<Rightarrow> bool" where
  "task_list s xs \<longleftrightarrow> sll (\<lambda>x. t_next (tk_node s x)) (task_head s) xs \<and> distinct xs \<and>
     sorted (map (task_prio s) xs)"

lemma task_walk_eq:
  "sll (\<lambda>x. t_next (tk_node s x)) (t_next (tk_node s c)) xs \<Longrightarrow>
   task_walk p c s = Some (walk_stop (task_prio s) p c xs)"
proof (induction xs arbitrary: c)
  case Nil
  then show ?case by (subst task_walk.simps) simp
next
  case (Cons x xs)
  then show ?case by (subst task_walk.simps) (auto simp flip: task_prio_def)
qed

lemma task_insert_ok:
  assumes l: "task_list s xs" and n: "n \<notin> set xs"
  shows "\<exists>s'. task_insert n s = Some s' \<and> task_list s' (insert_before (task_prio s) n xs) \<and>
     task_prio s' = task_prio s \<and> tk_heap s' = tk_heap s \<and>
     (\<forall>x. t_callback (tk_node s' x) = t_callback (tk_node s x))"
proof -
  let ?nx = "\<lambda>x. t_next (tk_node s x)" and ?ys = "insert_before (task_prio s) n xs"
  have c: "sll ?nx (task_head s) xs" "distinct xs" "sorted (map (task_prio s) xs)"
    using l by (auto simp: task_list_def)
  have d: "distinct ?ys" "sorted (map (task_prio s) ?ys)"
    using c n by (auto intro: insert_before_distinct insert_before_sorted)
  have "\<exists>s'. task_insert n s = Some s' \<and> sll (\<lambda>x. t_next (tk_node s' x)) (task_head s') ?ys \<and>
     (\<forall>x. t_priority (tk_node s' x) = t_priority (tk_node s x)) \<and> tk_heap s' = tk_heap s \<and>
     (\<forall>x. t_callback (tk_node s' x) = t_callback (tk_node s x))"
  proof (cases "xs = [] \<or> task_prio s n \<le> task_prio s (hd xs)")
    case True
    obtain s' where s': "task_insert n s = Some s'"
      using True c(1) by (cases xs) (auto simp: task_insert_def task_prio_def Let_def)
    then have f: "t_next (tk_node s' x) = (if x = n then task_head s else ?nx x)" "task_head s' = Some n"
      "t_priority (tk_node s' x) = t_priority (tk_node s x)" "tk_heap s' = tk_heap s"
      "t_callback (tk_node s' x) = t_callback (tk_node s x)" for x
      using True c(1) by (cases xs; auto simp: task_insert_def task_prio_def Let_def)+
    have "sll (\<lambda>x. t_next (tk_node s' x)) (Some n) ?ys"
      by (rule sll_insert_head [OF c(1) n True]) (use f(1) n in auto)
    then show ?thesis using s' f by auto
  next
    case False
    then obtain h zs where xs: "xs = h # zs" and k: "task_prio s h < task_prio s n" by (cases xs) auto
    let ?c = "walk_stop (task_prio s) (task_prio s n) h zs"
    have hd: "task_head s = Some h" using c(1) xs by simp
    have cn: "?c \<noteq> n" using walk_stop_in [of "task_prio s" "task_prio s n" h zs] n xs by auto
    have w: "task_walk (t_priority (tk_node s n)) h s = Some ?c"
      using task_walk_eq [of s h zs "task_prio s n"] c(1) xs by (simp add: task_prio_def)
    obtain s' where s': "task_insert n s = Some s'"
      using hd k w cn by (simp add: task_insert_def task_prio_def Let_def)
    then have f: "t_next (tk_node s' x) = (if x = ?c then Some n else if x = n then ?nx ?c else ?nx x)"
      "task_head s' = task_head s" "t_priority (tk_node s' x) = t_priority (tk_node s x)"
      "tk_heap s' = tk_heap s" "t_callback (tk_node s' x) = t_callback (tk_node s x)" for x
      using hd k w cn by (auto simp: task_insert_def task_prio_def Let_def)
    have "sll (\<lambda>x. t_next (tk_node s' x)) (Some h) (insert_before (task_prio s) n (h # zs))"
      by (rule sll_insert_walk [of ?nx]) (use c(1,2) n k f(1) xs in auto)
    then show ?thesis using s' f(2-5) hd xs by auto
  qed
  then show ?thesis using d unfolding task_list_def task_prio_def by (metis (no_types, lifting) map_eq_conv)
qed

lemma task_take_ok:
  assumes "task_list s (x # xs)"
  shows "\<exists>s'. task_take s = Some (x, s') \<and> task_list s' xs \<and> task_prio s' = task_prio s \<and>
     tk_heap s' = tk_heap s \<and> (\<forall>y. t_callback (tk_node s' y) = t_callback (tk_node s y))"
proof -
  have c: "task_head s = Some x" "sll (\<lambda>y. t_next (tk_node s y)) (t_next (tk_node s x)) xs" "distinct xs"
    "sorted (map (task_prio s) xs)" using assms by (auto simp: task_list_def)
  obtain s' where s': "task_take s = Some (x, s')" by (simp add: task_take_def c(1) Let_def)
  have f: "t_next (tk_node s' y) = t_next (tk_node s y)" "t_priority (tk_node s' y) = t_priority (tk_node s y)"
    "t_callback (tk_node s' y) = t_callback (tk_node s y)" for y
    using s' by (auto simp: task_take_def c(1) Let_def split: option.splits)
  have "task_head s' = t_next (tk_node s x)" "tk_heap s' = tk_heap s"
    using s' by (auto simp: task_take_def c(1) Let_def split: option.splits)
  moreover have "task_prio s' = task_prio s" using f by (simp add: task_prio_def fun_eq_iff)
  ultimately have "task_list s' xs" "task_prio s' = task_prio s" "tk_heap s' = tk_heap s"
    using c f by (simp_all add: task_list_def)
  then show ?thesis using s' f by blast
qed

interpretation task_queue: prio_list task_list task_prio task_insert task_take
proof
  show "sorted (map (task_prio s) xs) \<and> distinct xs" if "task_list s xs" for s xs
    using that by (simp add: task_list_def)
  show "\<exists>s'. task_insert n s = Some s' \<and> task_list s' (insert_before (task_prio s) n xs) \<and>
      task_prio s' = task_prio s" if "task_list s xs" "n \<notin> set xs" for s xs n
    using task_insert_ok [OF that] by blast
  show "\<exists>s'. task_take s = Some (x, s') \<and> task_list s' xs \<and> task_prio s' = task_prio s"
    if "task_list s (x # xs)" for s x xs
    using task_take_ok [OF that] by blast
qed

subsection \<open>With the heap\<close>

text \<open>
  \<open>tasks_ok\<close>: the queue holds the tasks \<open>xs\<close>, all of them memory held from the allocator (\<open>R\<close>).
\<close>

definition tasks_ok :: "layout \<Rightarrow> nat set \<Rightarrow> tasks \<Rightarrow> region list \<Rightarrow> addr list \<Rightarrow> bool" where
  "tasks_ok L M s R xs \<longleftrightarrow> heap_inv L M (tk_heap s) R \<and> task_list s xs \<and>
     set xs \<subseteq> fst ` {r \<in> set R. 0 < snd r}"

lemma add_task_ok:
  assumes ok: "tasks_ok L M s R xs"
  shows "\<exists>s'. add_task cb prio s = Some s' \<and> tk_heap s' = snd (the (alloc TASK_SIZE (tk_heap s))) \<and>
     (\<forall>x \<in> set xs. t_callback (tk_node s' x) = t_callback (tk_node s x)) \<and>
     (fst (the (alloc TASK_SIZE (tk_heap s))) = NULL \<and> tasks_ok L M s' R xs \<and> task_prio s' = task_prio s \<or>
      (\<exists>n l. n = fst (the (alloc TASK_SIZE (tk_heap s))) \<and> n \<noteq> NULL \<and> 0 < l \<and> n \<notin> set xs \<and> tasks_ok L M s' ((n, l) # R) (insert_before (task_prio s') n xs) \<and>
         task_prio s' = (task_prio s)(n := prio) \<and> t_callback (tk_node s' n) = cb))"
proof -
  have h: "heap_inv L M (tk_heap s) R" "task_list s xs" "set xs \<subseteq> fst ` {r \<in> set R. 0 < snd r}"
    using ok by (auto simp: tasks_ok_def)
  obtain n g where a: "alloc TASK_SIZE (tk_heap s) = Some (n, g)"
    using heap_inv_alloc [OF h(1), of TASK_SIZE] by blast
  show ?thesis
  proof (cases "n = NULL")
    case True
    then have "heap_inv L M g R" using heap_inv_alloc [OF h(1), of TASK_SIZE] a by auto
    then have "tasks_ok L M (s\<lparr>tk_heap := g\<rparr>) R xs"
      using h(2,3) by (simp add: tasks_ok_def task_list_def task_prio_def)
    then show ?thesis using a True by (simp add: add_task_def task_prio_def fun_eq_iff)
  next
    case False
    obtain l where l: "32 \<le> l" "heap_inv L M g ((n, l) # R)"
      using heap_inv_alloc [OF h(1), of TASK_SIZE] a False by auto
    have "sorted_wrt apart ((n, l) # R)" using heap_alloc.inv_apart [OF l(2)] .
    then have ap: "apart (n, l) r" if "r \<in> set R" for r using that by simp
    have nx: "n \<notin> set xs"
    proof
      assume "n \<in> set xs"
      then obtain k where "(n, k) \<in> set R" "0 < k" using h(3) by auto
      then show False using ap [of "(n, k)"] l(1) by (auto simp: apart_def bytes_def)
    qed
    let ?s = "upd_task n (\<lambda>t. t\<lparr>t_callback := cb, t_priority := prio\<rparr>) (s\<lparr>tk_heap := g\<rparr>)"
    have p: "task_prio ?s = (task_prio s)(n := prio)" by (auto simp: task_prio_def fun_eq_iff)
    have "sll (\<lambda>x. t_next (tk_node ?s x)) (task_head ?s) xs"
      by (rule sll_cong [of "\<lambda>x. t_next (tk_node s x)"]) (use h(2) nx in \<open>auto simp: task_list_def\<close>)
    moreover have "map (task_prio ?s) xs = map (task_prio s) xs" unfolding p using nx by simp
    ultimately have "task_list ?s xs" using h(2) unfolding task_list_def by (simp only:)
    from task_insert_ok [OF this nx] obtain s' where
      s': "task_insert n ?s = Some s'" "task_list s' (insert_before (task_prio ?s) n xs)"
        "task_prio s' = task_prio ?s" "tk_heap s' = tk_heap ?s"
        "\<And>x. t_callback (tk_node s' x) = t_callback (tk_node ?s x)" by blast
    have "add_task cb prio s = Some s'" using a False s'(1) by (simp add: add_task_def Let_def)
    moreover have "tasks_ok L M s' ((n, l) # R) (insert_before (task_prio s') n xs)"
    proof -
      have "n \<in> fst ` {r \<in> set ((n, l) # R). 0 < snd r}"
        by (rule image_eqI [of _ _ "(n, l)"]) (use l(1) in auto)
      then have "insert n (set xs) \<subseteq> fst ` {r \<in> set ((n, l) # R). 0 < snd r}" using h(3) by auto
      then show ?thesis using s'(2-4) l(2) by (simp add: tasks_ok_def)
    qed
    moreover have "t_callback (tk_node s' n) = cb" using s'(5) [of n] by simp
    moreover have "n = fst (the (alloc TASK_SIZE (tk_heap s)))" "tk_heap s' = snd (the (alloc TASK_SIZE (tk_heap s)))" "0 < l"
      using a l(1) s'(4) by auto
    moreover have "\<forall>x \<in> set xs. t_callback (tk_node s' x) = t_callback (tk_node s x)" using s'(5) nx by auto
    moreover have "task_prio s' = (task_prio s)(n := prio)" using s'(3) p by simp
    ultimately show ?thesis using nx False by blast
  qed
qed

text \<open>
  Running the first task: its callback runs on the queue without it, and if the callback keeps the
  queue and the heap in order, so does the whole step; the task's memory is given back.
\<close>

lemma execute_task_ok:
  assumes ok: "tasks_ok L M s ((x, l) # R) (x # xs)" and l: "0 < l"
    and run: "\<And>s1. tasks_ok L M s1 ((x, l) # R) xs \<Longrightarrow>
       \<exists>s2 w2 R' ys. run (t_callback (tk_node s x)) (s1, w) = Some (s2, w2) \<and>
         tasks_ok L M s2 ((x, l) # R' @ R) ys \<and> x \<notin> set ys \<and> P w2 R' ys"
  shows "\<exists>s' w2 R' ys. execute_task L run (s, w) = Some (s', w2) \<and> tasks_ok L M s' (R' @ R) ys \<and> P w2 R' ys"
proof -
  have h: "heap_inv L M (tk_heap s) ((x, l) # R)" "task_list s (x # xs)"
    "set (x # xs) \<subseteq> fst ` {r \<in> set ((x, l) # R). 0 < snd r}" using ok by (auto simp: tasks_ok_def)
  obtain s1 where s1: "task_take s = Some (x, s1)" "task_list s1 xs" "tk_heap s1 = tk_heap s"
    "t_callback (tk_node s1 x) = t_callback (tk_node s x)" using task_take_ok [OF h(2)] by blast
  have "tasks_ok L M s1 ((x, l) # R) xs" using s1 h by (auto simp: tasks_ok_def)
  from run [OF this] obtain s2 w2 R' ys where s2: "run (t_callback (tk_node s x)) (s1, w) = Some (s2, w2)"
    "tasks_ok L M s2 ((x, l) # R' @ R) ys" "x \<notin> set ys" "P w2 R' ys" by blast
  have h2: "heap_inv L M (tk_heap s2) ((x, l) # R' @ R)" "task_list s2 ys"
    "set ys \<subseteq> fst ` {r \<in> set ((x, l) # R' @ R). 0 < snd r}" using s2(2) by (auto simp: tasks_ok_def)
  obtain g where g: "free L x (tk_heap s2) = Some g" "heap_inv L M g (R' @ R)"
    using heap_inv_free [OF h2(1), of 0] by (auto simp: drop_nth_def)
  have "execute_task L run (s, w) = Some (s2\<lparr>tk_heap := g\<rparr>, w2)"
    using s1(1,4) s2(1) g(1) by (simp add: execute_task_def)
  moreover have "tasks_ok L M (s2\<lparr>tk_heap := g\<rparr>) (R' @ R) ys"
    using g(2) h2(2,3) s2(3) by (auto simp: tasks_ok_def task_list_def task_prio_def)
  ultimately show ?thesis using s2(4) by blast
qed

end
