(* ===== verification/Timer.thy ===== *)
theory Timer
  imports KmemInv PrioList Cstring
begin

section \<open>Timers (src/timer.c)\<close>

text \<open>
  Software timers over the one core timer: a list of \<open>struct Timer\<close> ordered by expiration tick, the
  hardware timer armed for the first. The counter \<open>cntpct_el0\<close> and the frequency \<open>cntfrq_el0\<close> are
  read by the code and set by the hardware: \<open>clk i\<close> is the \<open>i\<close>-th reading of the counter and
  \<open>freq\<close> the frequency, parameters of the model. The three callbacks of the source are a datatype.
  The registers written are fields: the pending interval and whether the timer interrupt is enabled.
  The model's \<open>tm_calls\<close> is no part of the code's state: it records the calls of callbacks, each with its argument, the message's address.
\<close>

datatype timer_callback = Print_msg | Print_uptime | Keep_schedule

record Timer =
  tm_prev :: "addr option"
  tm_next :: "addr option"
  tm_callback :: timer_callback
  tm_expiration :: u64

text \<open>\<open>sizeof(struct Timer)\<close> and the offset of its \<open>msg\<close>; the message itself is in \<open>tm_mem\<close>.\<close>

definition TIMER_SIZE :: u32 where [simp]: "TIMER_SIZE = 96"
definition TIMER_MSG_SIZE :: nat where [simp]: "TIMER_MSG_SIZE = 64"
definition MSG_OFFSET :: nat where [simp]: "MSG_OFFSET = 24"

record timers =
  tm_heap :: heap
  tm_mem :: mem
  tm_node :: "addr \<Rightarrow> Timer"
  timer_head :: "addr option"
  need_schedule :: bool
  tm_irq :: bool
  tm_tval :: u64
  tm_reads :: nat
  tm_calls :: "(timer_callback \<times> addr) list"

definition upd_timer :: "addr \<Rightarrow> (Timer \<Rightarrow> Timer) \<Rightarrow> timers \<Rightarrow> timers" where
  "upd_timer a f s = s\<lparr>tm_node := (tm_node s)(a := f (tm_node s a))\<rparr>"

lemma upd_timer_sel [simp]:
  "tm_node (upd_timer a f s) x = (if x = a then f (tm_node s a) else tm_node s x)"
  "tm_heap (upd_timer a f s) = tm_heap s" "tm_mem (upd_timer a f s) = tm_mem s"
  "timer_head (upd_timer a f s) = timer_head s" "need_schedule (upd_timer a f s) = need_schedule s"
  "tm_irq (upd_timer a f s) = tm_irq s" "tm_tval (upd_timer a f s) = tm_tval s"
  "tm_reads (upd_timer a f s) = tm_reads s" "tm_calls (upd_timer a f s) = tm_calls s"
  by (simp_all add: upd_timer_def)

definition get_tick :: "(nat \<Rightarrow> u64) \<Rightarrow> timers \<Rightarrow> u64 \<times> timers" where
  "get_tick clk s = (clk (tm_reads s), s\<lparr>tm_reads := Suc (tm_reads s)\<rparr>)"

definition timer_enable_irq :: "timers \<Rightarrow> timers" where
  "timer_enable_irq s = s\<lparr>tm_irq := True\<rparr>"

definition timer_disable_irq :: "timers \<Rightarrow> timers" where
  "timer_disable_irq s = s\<lparr>tm_irq := False\<rparr>"

definition set_timer_irq :: "u64 \<Rightarrow> timers \<Rightarrow> timers" where
  "set_timer_irq tick s = s\<lparr>tm_tval := tick\<rparr>"

subsection \<open>Adding a timer\<close>

partial_function (option) timer_walk :: "u64 \<Rightarrow> addr \<Rightarrow> timers \<Rightarrow> addr option" where
  "timer_walk e cur s =
     (case tm_next (tm_node s cur) of
        None \<Rightarrow> Some cur
      | Some n \<Rightarrow> if tm_expiration (tm_node s n) < e then timer_walk e n s else Some cur)"

text \<open>The result also says whether the new timer is the first, so that the hardware is set again.\<close>

definition timer_insert :: "addr \<Rightarrow> timers \<Rightarrow> (bool \<times> timers) option" where
  "timer_insert new_timer s =
     (case timer_head s of
        None \<Rightarrow>
          Some (True, (upd_timer new_timer (\<lambda>t. t\<lparr>tm_prev := None, tm_next := None\<rparr>) s)
                        \<lparr>timer_head := Some new_timer\<rparr>)
      | Some h \<Rightarrow>
          if tm_expiration (tm_node s new_timer) \<le> tm_expiration (tm_node s h) then
            let s1 = upd_timer new_timer (\<lambda>t. t\<lparr>tm_next := Some h\<rparr>) s;
                s2 = upd_timer h (\<lambda>t. t\<lparr>tm_prev := Some new_timer\<rparr>) s1;
                s3 = upd_timer new_timer (\<lambda>t. t\<lparr>tm_prev := None\<rparr>) s2
            in Some (True, s3\<lparr>timer_head := Some new_timer\<rparr>)
          else
            (case timer_walk (tm_expiration (tm_node s new_timer)) h s of
               None \<Rightarrow> None
             | Some cur \<Rightarrow>
                 let s1 = upd_timer new_timer (\<lambda>t. t\<lparr>tm_next := tm_next (tm_node s cur)\<rparr>) s;
                     s2 = upd_timer new_timer (\<lambda>t. t\<lparr>tm_prev := Some cur\<rparr>) s1;
                     s3 = upd_timer cur (\<lambda>t. t\<lparr>tm_next := Some new_timer\<rparr>) s2
                 in Some (False, (case tm_next (tm_node s3 cur) of
                       None \<Rightarrow> s3
                     | Some n \<Rightarrow> upd_timer n (\<lambda>t. t\<lparr>tm_prev := Some new_timer\<rparr>) s3))))"

text \<open>\<open>None\<close>: a scan for a NUL that never ends.\<close>

definition add_timer ::
    "(nat \<Rightarrow> u64) \<Rightarrow> timer_callback \<Rightarrow> addr \<Rightarrow> u64 \<Rightarrow> timers \<Rightarrow> timers option" where
  "add_timer clk callback msg tick s = do {
     (new_timer, h) \<leftarrow> alloc TIMER_SIZE (tm_heap s);
     let s1 = s\<lparr>tm_heap := h\<rparr>;
     if new_timer = NULL then Some s1
     else do {
       let (curr_tick, s2) = get_tick clk s1;
       len \<leftarrow> strlen (tm_mem s2) msg;
       let s3 = s2\<lparr>tm_mem := memcpy (new_timer + MSG_OFFSET) msg (len + 1) (tm_mem s2)\<rparr>;
       let s4 = upd_timer new_timer
                  (\<lambda>t. t\<lparr>tm_expiration := curr_tick + tick, tm_callback := callback\<rparr>) s3;
       (reset, s5) \<leftarrow> timer_insert new_timer (timer_disable_irq s4);
       let s6 = (if reset then
                   (case timer_head s5 of None \<Rightarrow> s5
                    | Some h \<Rightarrow> set_timer_irq (tm_expiration (tm_node s5 h) - curr_tick) s5)
                 else s5);
       Some (timer_enable_irq s6)
     }
   }"

subsection \<open>Callbacks\<close>

text \<open>The call \<open>callback(msg)\<close>. What the callbacks print is not part of the state; \<open>print_msg\<close> reads the counter.\<close>

definition timer_run ::
    "(nat \<Rightarrow> u64) \<Rightarrow> u64 \<Rightarrow> timer_callback \<Rightarrow> addr \<Rightarrow> timers \<Rightarrow> timers option" where
  "timer_run clk freq cb msg s =
     (let s0 = s\<lparr>tm_calls := tm_calls s @ [(cb, msg)]\<rparr> in
      case cb of
        Print_msg \<Rightarrow> Some (snd (get_tick clk s0))
      | Print_uptime \<Rightarrow> add_timer clk Print_uptime NULL (2 * freq) (snd (get_tick clk s0))
      | Keep_schedule \<Rightarrow>
          map_option (\<lambda>s'. s'\<lparr>need_schedule := True\<rparr>)
            (add_timer clk Keep_schedule NULL (drop_bit 8 freq) s0))"

definition timer_init :: "(nat \<Rightarrow> u64) \<Rightarrow> u64 \<Rightarrow> timers \<Rightarrow> timers option" where
  "timer_init clk freq s = add_timer clk Keep_schedule NULL (drop_bit 5 freq) (timer_enable_irq s)"

definition set_timeout :: "(nat \<Rightarrow> u64) \<Rightarrow> u64 \<Rightarrow> addr \<Rightarrow> int \<Rightarrow> timers \<Rightarrow> timers option" where
  "set_timeout clk freq msg sec s = add_timer clk Print_msg msg (of_int sec * freq) s"

subsection \<open>The interrupt handler\<close>

definition timer_take :: "timers \<Rightarrow> (addr \<times> timers) option" where
  "timer_take s =
     (case timer_head s of
        None \<Rightarrow> None
      | Some cur \<Rightarrow>
          let s1 = s\<lparr>timer_head := tm_next (tm_node s cur)\<rparr> in
          Some (cur,
            (case tm_next (tm_node s1 cur) of
               None \<Rightarrow> s1
             | Some n \<Rightarrow> upd_timer n (\<lambda>t. t\<lparr>tm_prev := None\<rparr>) s1)))"

text \<open>The loop that runs the expired timers; \<open>fired\<close> lists their nodes (its being non-empty is \<open>removed\<close>).\<close>

partial_function (option) expire_loop ::
    "layout \<Rightarrow> (nat \<Rightarrow> u64) \<Rightarrow> u64 \<Rightarrow> u64 \<Rightarrow> addr list \<Rightarrow> timers \<Rightarrow> (addr list \<times> timers) option" where
  "expire_loop L clk freq curr_tick fired s =
     (case timer_head s of
        None \<Rightarrow> Some (fired, s)
      | Some cur \<Rightarrow>
          if tm_expiration (tm_node s cur) \<le> curr_tick then
            (case timer_take s of
               None \<Rightarrow> None
             | Some (c, s1) \<Rightarrow>
                 (case timer_run clk freq (tm_callback (tm_node s1 c)) (c + MSG_OFFSET) s1 of
                    None \<Rightarrow> None
                  | Some s2 \<Rightarrow>
                      (case free L c (tm_heap s2) of
                         None \<Rightarrow> None
                       | Some h \<Rightarrow> expire_loop L clk freq curr_tick (fired @ [c]) (s2\<lparr>tm_heap := h\<rparr>))))
          else Some (fired, s))"

text \<open>
  The first component of the result: whether the handler ends by calling \<open>schedule\<close>. That call is made by \<open>execute_irq_task\<close>, on the
  threads' state; it turns the timer interrupt on again (src/sched.c), so \<open>tm_irq\<close> here is what it is before. The call of
  \<open>enable_irq_el1\<close> at the start of the handler is in \<open>task_callback\<close>; that interrupts nest from there on is not modelled.
\<close>

definition core_timer_handler ::
    "layout \<Rightarrow> (nat \<Rightarrow> u64) \<Rightarrow> u64 \<Rightarrow> timers \<Rightarrow> (bool \<times> timers) option" where
  "core_timer_handler L clk freq s =
     (let (curr_tick, s1) = get_tick clk s; s2 = timer_disable_irq s1 in
      map_option (\<lambda>(fired, s3).
        let s4 = (case timer_head s3 of
                    Some h \<Rightarrow>
                      if fired \<noteq> [] then
                        timer_enable_irq (set_timer_irq (tm_expiration (tm_node s3 h) - curr_tick) s3)
                      else s3
                  | None \<Rightarrow> s3)
        in if need_schedule s4 then (True, s4\<lparr>need_schedule := False\<rparr>) else (False, s4))
      (expire_loop L clk freq curr_tick [] s2))"

subsection \<open>The list as a priority list\<close>

definition timer_key :: "timers \<Rightarrow> addr \<Rightarrow> u64" where
  "timer_key s x = tm_expiration (tm_node s x)"

definition timer_list :: "timers \<Rightarrow> addr list \<Rightarrow> bool" where
  "timer_list s xs \<longleftrightarrow> sll (\<lambda>x. tm_next (tm_node s x)) (timer_head s) xs \<and> distinct xs \<and>
     sorted (map (timer_key s) xs)"

lemma timer_walk_eq:
  "sll (\<lambda>x. tm_next (tm_node s x)) (tm_next (tm_node s c)) xs \<Longrightarrow>
   timer_walk e c s = Some (walk_stop (timer_key s) e c xs)"
proof (induction xs arbitrary: c)
  case Nil
  then show ?case by (subst timer_walk.simps) simp
next
  case (Cons x xs)
  then show ?case by (subst timer_walk.simps) (auto simp flip: timer_key_def)
qed

lemma timer_insert_ok:
  assumes l: "timer_list s xs" and n: "n \<notin> set xs"
  shows "\<exists>r s'. timer_insert n s = Some (r, s') \<and> timer_list s' (insert_before (timer_key s) n xs) \<and>
     (r \<longleftrightarrow> timer_head s' = Some n) \<and> timer_head s' \<noteq> None \<and>
     (\<forall>x. tm_expiration (tm_node s' x) = tm_expiration (tm_node s x) \<and>
          tm_callback (tm_node s' x) = tm_callback (tm_node s x)) \<and>
     tm_heap s' = tm_heap s \<and> tm_mem s' = tm_mem s \<and> need_schedule s' = need_schedule s \<and>
     tm_reads s' = tm_reads s"
proof -
  let ?nx = "\<lambda>x. tm_next (tm_node s x)" and ?ys = "insert_before (timer_key s) n xs"
  have c: "sll ?nx (timer_head s) xs" "distinct xs" "sorted (map (timer_key s) xs)"
    using l by (auto simp: timer_list_def)
  have d: "distinct ?ys" "sorted (map (timer_key s) ?ys)"
    using c n by (auto intro: insert_before_distinct insert_before_sorted)
  have "\<exists>r s'. timer_insert n s = Some (r, s') \<and> sll (\<lambda>x. tm_next (tm_node s' x)) (timer_head s') ?ys \<and>
     (r \<longleftrightarrow> timer_head s' = Some n) \<and> timer_head s' \<noteq> None \<and>
     (\<forall>x. tm_expiration (tm_node s' x) = tm_expiration (tm_node s x) \<and>
          tm_callback (tm_node s' x) = tm_callback (tm_node s x)) \<and>
     tm_heap s' = tm_heap s \<and> tm_mem s' = tm_mem s \<and> need_schedule s' = need_schedule s \<and>
     tm_reads s' = tm_reads s"
  proof (cases "xs = [] \<or> timer_key s n \<le> timer_key s (hd xs)")
    case True
    obtain s' where s': "timer_insert n s = Some (True, s')"
      using True c(1) by (cases xs) (auto simp: timer_insert_def timer_key_def Let_def)
    then have f: "tm_next (tm_node s' x) = (if x = n then timer_head s else ?nx x)" "timer_head s' = Some n"
      "tm_expiration (tm_node s' x) = tm_expiration (tm_node s x)"
      "tm_callback (tm_node s' x) = tm_callback (tm_node s x)"
      "tm_heap s' = tm_heap s" "tm_mem s' = tm_mem s" "need_schedule s' = need_schedule s"
      "tm_reads s' = tm_reads s" for x
      using True c(1) by (cases xs; auto simp: timer_insert_def timer_key_def Let_def)+
    have "sll (\<lambda>x. tm_next (tm_node s' x)) (Some n) ?ys"
      by (rule sll_insert_head [OF c(1) n True]) (use f(1) n in auto)
    then show ?thesis using s' f by auto
  next
    case False
    then obtain h zs where xs: "xs = h # zs" and k: "timer_key s h < timer_key s n" by (cases xs) auto
    let ?c = "walk_stop (timer_key s) (timer_key s n) h zs"
    have hd: "timer_head s = Some h" using c(1) xs by simp
    have cn: "?c \<noteq> n" using walk_stop_in [of "timer_key s" "timer_key s n" h zs] n xs by auto
    have hn: "h \<noteq> n" using n xs by auto
    have w: "timer_walk (tm_expiration (tm_node s n)) h s = Some ?c"
      using timer_walk_eq [of s h zs "timer_key s n"] c(1) xs by (simp add: timer_key_def)
    have k': "\<not> tm_expiration (tm_node s n) \<le> tm_expiration (tm_node s h)"
      using k by (simp add: timer_key_def not_le)
    obtain s' where s': "timer_insert n s = Some (False, s')"
      using hd k' w cn by (simp add: timer_insert_def timer_key_def Let_def)
    then have f: "tm_next (tm_node s' x) = (if x = ?c then Some n else if x = n then ?nx ?c else ?nx x)"
      "timer_head s' = timer_head s"
      "tm_expiration (tm_node s' x) = tm_expiration (tm_node s x)"
      "tm_callback (tm_node s' x) = tm_callback (tm_node s x)"
      "tm_heap s' = tm_heap s" "tm_mem s' = tm_mem s" "need_schedule s' = need_schedule s"
      "tm_reads s' = tm_reads s" for x
      using hd k' w cn by (auto simp: timer_insert_def timer_key_def Let_def)
    have "sll (\<lambda>x. tm_next (tm_node s' x)) (Some h) (insert_before (timer_key s) n (h # zs))"
      by (rule sll_insert_walk [of ?nx]) (use c(1,2) n k f(1) xs in auto)
    then show ?thesis using s' f(2-8) hd hn xs by auto
  qed
  then obtain r s' where s': "timer_insert n s = Some (r, s')"
      "sll (\<lambda>x. tm_next (tm_node s' x)) (timer_head s') ?ys"
      "(r \<longleftrightarrow> timer_head s' = Some n) \<and> timer_head s' \<noteq> None"
      "\<And>x. tm_expiration (tm_node s' x) = tm_expiration (tm_node s x)"
      "\<And>x. tm_callback (tm_node s' x) = tm_callback (tm_node s x)"
      "tm_heap s' = tm_heap s \<and> tm_mem s' = tm_mem s \<and> need_schedule s' = need_schedule s \<and>
       tm_reads s' = tm_reads s" by blast
  have "timer_key s' = timer_key s" using s'(4) by (simp add: timer_key_def fun_eq_iff)
  then have "timer_list s' ?ys" using s'(2) d by (simp add: timer_list_def)
  then show ?thesis using s' by blast
qed

lemma timer_take_ok:
  assumes "timer_list s (x # xs)"
  shows "\<exists>s'. timer_take s = Some (x, s') \<and> timer_list s' xs \<and>
     (\<forall>y. tm_expiration (tm_node s' y) = tm_expiration (tm_node s y) \<and>
          tm_callback (tm_node s' y) = tm_callback (tm_node s y)) \<and>
     tm_heap s' = tm_heap s \<and> tm_mem s' = tm_mem s \<and> need_schedule s' = need_schedule s \<and>
     tm_reads s' = tm_reads s"
proof -
  have c: "timer_head s = Some x" "sll (\<lambda>y. tm_next (tm_node s y)) (tm_next (tm_node s x)) xs" "distinct xs"
    "sorted (map (timer_key s) xs)" using assms by (auto simp: timer_list_def)
  obtain s' where s': "timer_take s = Some (x, s')" by (simp add: timer_take_def c(1) Let_def)
  have f: "tm_next (tm_node s' y) = tm_next (tm_node s y)"
    "tm_expiration (tm_node s' y) = tm_expiration (tm_node s y)"
    "tm_callback (tm_node s' y) = tm_callback (tm_node s y)"
    "tm_heap s' = tm_heap s" "tm_mem s' = tm_mem s" "need_schedule s' = need_schedule s"
    "tm_reads s' = tm_reads s" "timer_head s' = tm_next (tm_node s x)" for y
    using s' by (auto simp: timer_take_def c(1) Let_def split: option.splits)
  have "timer_key s' = timer_key s" using f by (simp add: timer_key_def fun_eq_iff)
  then have "timer_list s' xs" using c f by (simp add: timer_list_def)
  then show ?thesis using s' f by blast
qed

lemma timer_key_cong: "(\<And>x. tm_expiration (tm_node s' x) = tm_expiration (tm_node s x)) \<Longrightarrow>
    timer_key s' = timer_key s"
  by (simp add: timer_key_def fun_eq_iff)

interpretation timer_queue: prio_list timer_list timer_key
  "\<lambda>n s. map_option snd (timer_insert n s)" timer_take
proof
  show "sorted (map (timer_key s) xs) \<and> distinct xs" if "timer_list s xs" for s xs
    using that by (simp add: timer_list_def)
  show "\<exists>s'. map_option snd (timer_insert n s) = Some s' \<and>
      timer_list s' (insert_before (timer_key s) n xs) \<and> timer_key s' = timer_key s"
    if "timer_list s xs" "n \<notin> set xs" for s xs n
    using timer_insert_ok [OF that] timer_key_cong by fastforce
  show "\<exists>s'. timer_take s = Some (x, s') \<and> timer_list s' xs \<and> timer_key s' = timer_key s"
    if "timer_list s (x # xs)" for s x xs
    using timer_take_ok [OF that] timer_key_cong by fastforce
qed

subsection \<open>With the heap\<close>

text \<open>
  \<open>timers_ok\<close>: the list holds the timers \<open>xs\<close>, memory held from the allocator; the bytes at address 0,
  which \<open>keep_schedule\<close> and \<open>print_uptime\<close> pass as the message \<open>NULL\<close>, are a string that fits in \<open>msg\<close>
  and lie in no page of the allocator.
\<close>

definition short_string :: "nat set \<Rightarrow> mem \<Rightarrow> addr \<Rightarrow> byte list \<Rightarrow> bool" where
  "short_string M m p z \<longleftrightarrow> cstr m p z \<and> length z < TIMER_MSG_SIZE \<and>
     (\<forall>i \<le> length z. p + i \<notin> page_bytes M)"

text \<open>What is left alone: memory outside the allocator's pages \<open>M\<close> and in the regions \<open>P\<close>; the regions of others than the timers \<open>xs\<close>.\<close>

definition mem_kept :: "region set \<Rightarrow> nat set \<Rightarrow> mem \<Rightarrow> mem \<Rightarrow> bool" where
  "mem_kept P M m m' \<longleftrightarrow> (\<forall>a. a \<notin> page_bytes M \<or> (\<exists>r \<in> P. a \<in> bytes r) \<longrightarrow> m' a = m a)"

lemma mem_kept_refl [simp]: "mem_kept P M m m"
  by (simp add: mem_kept_def)

lemma mem_kept_trans: "mem_kept P M m m' \<Longrightarrow> mem_kept P' M m' m'' \<Longrightarrow> P \<subseteq> P' \<Longrightarrow> mem_kept P M m m''"
  unfolding mem_kept_def by (metis subsetD)

lemma mem_kept_sub: "mem_kept P' M m m' \<Longrightarrow> P \<subseteq> P' \<Longrightarrow> mem_kept P M m m'"
  unfolding mem_kept_def by blast

definition others :: "region list \<Rightarrow> addr list \<Rightarrow> region set" where
  "others R xs = {r \<in> set R. 0 < snd r \<and> fst r \<notin> set xs}"

definition timers_ok :: "layout \<Rightarrow> nat set \<Rightarrow> timers \<Rightarrow> region list \<Rightarrow> addr list \<Rightarrow> bool" where
  "timers_ok L M s R xs \<longleftrightarrow> heap_inv L M (tm_heap s) R \<and> timer_list s xs \<and>
     set xs \<subseteq> fst ` {r \<in> set R. 0 < snd r} \<and> (\<exists>z. short_string M (tm_mem s) NULL z)"

lemma timers_ok_cong:
  assumes "timers_ok L M s R xs" "tm_heap s' = tm_heap s" "tm_mem s' = tm_mem s" "tm_node s' = tm_node s"
    "timer_head s' = timer_head s"
  shows "timers_ok L M s' R xs"
proof -
  have "timer_key s' = timer_key s" by (rule timer_key_cong) (simp add: assms(4))
  then show ?thesis using assms by (simp add: timers_ok_def timer_list_def)
qed

lemma short_string_copy:
  assumes z: "short_string M m p z" and d: "\<And>i. i \<le> length z \<Longrightarrow> d + i \<in> page_bytes M"
  defines "m' \<equiv> memcpy d p (of_nat (length z) + 1) m"
  shows "cstr m' d z" and "a \<notin> page_bytes M \<Longrightarrow> m' a = m a" and "a < d \<or> d + Suc (length z) \<le> a \<Longrightarrow> m' a = m a"
proof -
  let ?n = "Suc (length z)"
  have "unat (of_nat (length z) + 1 :: u32) = unat (of_nat (Suc (length z)) :: u32)"
    by (simp add: add.commute)
  also have "\<dots> = ?n" unfolding unat_of_nat using z by (simp add: short_string_def)
  finally have u: "unat (of_nat (length z) + 1 :: u32) = ?n" .
  have far: "d + ?n \<le> p \<or> p + ?n \<le> d"
  proof (rule ccontr)
    assume "\<not> (d + ?n \<le> p \<or> p + ?n \<le> d)"
    then have lt: "p \<le> d + length z" "d \<le> p + length z" by auto
    show False
    proof (cases "p \<le> d")
      case True
      then show False using z d [of 0] lt(2) unfolding short_string_def
        by (metis add_0_right le_Suc_ex nat_add_left_cancel_le zero_le)
    next
      case False
      then show False using z d [of "p - d"] lt(1) unfolding short_string_def
        by (metis add_0_right le_add_diff_inverse le_diff_conv2 nat_le_linear zero_le add.commute diff_diff_cancel diff_le_mono le_diff_conv)
    qed
  qed
  have e: "m' b = (if d \<le> b \<and> b < d + ?n then m (p + (b - d)) else m b)" for b
    unfolding m'_def memcpy_def u by (rule memcpy_loop_eq [OF far])
  have "cstr m p z" using z by (simp add: short_string_def)
  then show "cstr m' d z" by (auto simp: cstr_def e)
  show "m' a = m a" if "a < d \<or> d + Suc (length z) \<le> a" using that by (auto simp: e)
  show "m' a = m a" if "a \<notin> page_bytes M"
  proof -
    have "\<not> (d \<le> a \<and> a < d + ?n)"
    proof
      assume "d \<le> a \<and> a < d + ?n"
      then have "a - d \<le> length z" "d + (a - d) = a" by auto
      then show False using d [of "a - d"] that by simp
    qed
    then show ?thesis unfolding e by (rule if_not_P)
  qed
qed

lemma add_timer_ok:
  assumes ok: "timers_ok L M s R xs" and z: "short_string M (tm_mem s) msg z"
  shows "\<exists>s'. add_timer clk cb msg tick s = Some s' \<and> need_schedule s' = need_schedule s \<and>
     (\<forall>a. a \<notin> page_bytes M \<longrightarrow> tm_mem s' a = tm_mem s a) \<and> mem_kept (set R) M (tm_mem s) (tm_mem s') \<and>
     tm_heap s' = snd (the (alloc TIMER_SIZE (tm_heap s))) \<and>
     (\<forall>x \<in> set xs. tm_callback (tm_node s' x) = tm_callback (tm_node s x)) \<and>
     (fst (the (alloc TIMER_SIZE (tm_heap s))) = NULL \<and> timers_ok L M s' R xs \<and> timer_key s' = timer_key s \<and> tm_reads s' = tm_reads s \<or>
      (\<exists>n l. n = fst (the (alloc TIMER_SIZE (tm_heap s))) \<and> n \<noteq> NULL \<and> n \<notin> set xs \<and> 0 < l \<and> timers_ok L M s' ((n, l) # R) (insert_before (timer_key s') n xs) \<and>
         timer_key s' = (timer_key s)(n := clk (tm_reads s) + tick) \<and>
         tm_callback (tm_node s' n) = cb \<and> cstr (tm_mem s') (n + MSG_OFFSET) z \<and>
         tm_irq s' \<and> (timer_head s' = Some n \<longrightarrow> tm_tval s' = tick) \<and>
         tm_reads s' = Suc (tm_reads s)))"
proof -
  have h: "heap_inv L M (tm_heap s) R" "timer_list s xs" "set xs \<subseteq> fst ` {r \<in> set R. 0 < snd r}"
    using ok by (auto simp: timers_ok_def)
  obtain z0 where z0: "short_string M (tm_mem s) NULL z0" using ok by (auto simp: timers_ok_def)
  obtain n g where a: "alloc TIMER_SIZE (tm_heap s) = Some (n, g)"
    using heap_inv_alloc [OF h(1), of TIMER_SIZE] by blast
  show ?thesis
  proof (cases "n = NULL")
    case True
    then have "heap_inv L M g R" using heap_inv_alloc [OF h(1), of TIMER_SIZE] a by auto
    moreover have k: "timer_key (s\<lparr>tm_heap := g\<rparr>) = timer_key s" by (rule timer_key_cong) simp
    ultimately have "timers_ok L M (s\<lparr>tm_heap := g\<rparr>) R xs"
      using ok by (simp add: timers_ok_def timer_list_def)
    then show ?thesis using a True k by (simp add: add_timer_def)
  next
    case False
    obtain l where l: "96 \<le> l" "heap_inv L M g ((n, l) # R)"
      using heap_inv_alloc [OF h(1), of TIMER_SIZE] a False by auto
    have nx: "n \<notin> set xs"
    proof
      assume "n \<in> set xs"
      then obtain k where "(n, k) \<in> set R" "0 < k" using h(3) by auto
      then show False using heap_alloc.inv_apart [OF l(2)] l(1) by (auto simp: apart_def bytes_def)
    qed
    have ar: "bytes (n, l) \<subseteq> page_bytes M" using heap_alloc.inv_arena [OF l(2), of "(n, l)"] by simp
    have dst: "n + MSG_OFFSET + i \<in> page_bytes M" if "i \<le> length z" for i
      using that ar l(1) z by (auto simp: bytes_def short_string_def)
    define mm where "mm = memcpy (n + MSG_OFFSET) msg (of_nat (length z) + 1) (tm_mem s)"
    note cp = short_string_copy [OF z dst, folded mm_def]
    let ?e = "clk (tm_reads s) + tick"
    define t where "t = timer_disable_irq (upd_timer n (\<lambda>t. t\<lparr>tm_expiration := ?e, tm_callback := cb\<rparr>)
      (s\<lparr>tm_heap := g, tm_reads := Suc (tm_reads s), tm_mem := mm\<rparr>))"
    have tf: "tm_heap t = g" "tm_mem t = mm" "timer_head t = timer_head s" "tm_reads t = Suc (tm_reads s)"
      "need_schedule t = need_schedule s" "tm_next (tm_node t x) = tm_next (tm_node s x)"
      "tm_expiration (tm_node t x) = (if x = n then ?e else tm_expiration (tm_node s x))"
      "tm_callback (tm_node t x) = (if x = n then cb else tm_callback (tm_node s x))" for x
      by (simp_all add: t_def timer_disable_irq_def)
    have tk: "timer_key t = (timer_key s)(n := ?e)" by (auto simp: timer_key_def tf fun_eq_iff)
    have "map (timer_key t) xs = map (timer_key s) xs" unfolding tk using nx by simp
    then have "timer_list t xs" using h(2) unfolding timer_list_def tf by (simp only:)
    from timer_insert_ok [OF this nx] obtain r u where
      u: "timer_insert n t = Some (r, u)" "timer_list u (insert_before (timer_key t) n xs)"
        "r \<longleftrightarrow> timer_head u = Some n" "timer_head u \<noteq> None"
        "\<And>x. tm_expiration (tm_node u x) = tm_expiration (tm_node t x)"
        "\<And>x. tm_callback (tm_node u x) = tm_callback (tm_node t x)"
        "tm_heap u = g" "tm_mem u = mm" "need_schedule u = need_schedule s"
        "tm_reads u = Suc (tm_reads s)" using tf by auto
    define v where "v = timer_enable_irq (if r then
        (case timer_head u of None \<Rightarrow> u
         | Some h \<Rightarrow> set_timer_irq (tm_expiration (tm_node u h) - clk (tm_reads s)) u) else u)"
    have vf: "tm_heap v = g" "tm_mem v = mm" "timer_head v = timer_head u" "tm_node v = tm_node u"
      "need_schedule v = need_schedule s" "tm_reads v = Suc (tm_reads s)" "tm_irq v"
      using u(7-10) by (auto simp: v_def timer_enable_irq_def set_timer_irq_def split: option.split)
    have tv: "tm_tval v = tick" if "timer_head v = Some n"
      using that u(3,5) tf(7) [of n] unfolding vf
      by (simp add: v_def timer_enable_irq_def set_timer_irq_def)
    have "strlen (tm_mem s) msg = Some (of_nat (length z))"
      using z by (intro strlen_eq) (simp add: short_string_def)
    then have "add_timer clk cb msg tick s = Some v"
      using a False u(1) by (simp add: add_timer_def get_tick_def t_def v_def mm_def
          cong: option.case_cong)
    moreover have vk: "timer_key v = (timer_key s)(n := ?e)"
      using u(5) tk by (simp add: timer_key_def vf fun_eq_iff)
    moreover have "timers_ok L M v ((n, l) # R) (insert_before (timer_key v) n xs)"
    proof -
      have "timer_list v (insert_before (timer_key v) n xs)"
        using u(2) unfolding timer_list_def vf vk tk [symmetric]
        using u(5) by (simp add: timer_key_def [abs_def])
      moreover have "n \<in> fst ` {r \<in> set ((n, l) # R). 0 < snd r}"
        by (rule image_eqI [of _ _ "(n, l)"]) (use l(1) in auto)
      then have "insert n (set xs) \<subseteq> fst ` {r \<in> set ((n, l) # R). 0 < snd r}" using h(3) by auto
      moreover have "short_string M mm NULL z0"
        using z0 cp(2) unfolding short_string_def by (auto intro: cstr_cong)
      ultimately show ?thesis using l(2) by (auto simp: timers_ok_def vf)
    qed
    moreover have "tm_callback (tm_node v n) = cb" using u(6) [of n] tf(8) [of n] by (simp add: vf)
    moreover have "0 < l" using l(1) by simp
    moreover have "mem_kept (set R) M (tm_mem s) mm"
    proof -
      have "mm a = tm_mem s a" if r: "r \<in> set R" "a \<in> bytes r" for r a
      proof -
        have "a \<notin> bytes (n, l)" using heap_alloc.inv_apart [OF l(2)] r by (auto simp: apart_def)
        then show ?thesis using cp(3) [of a] l(1) z by (auto simp: bytes_def short_string_def)
      qed
      then show ?thesis using cp(2) by (auto simp: mem_kept_def)
    qed
    moreover have "tm_heap v = snd (the (alloc TIMER_SIZE (tm_heap s)))" "fst (the (alloc TIMER_SIZE (tm_heap s))) = n" using a vf(1) by simp_all
    moreover have "\<forall>x \<in> set xs. tm_callback (tm_node v x) = tm_callback (tm_node s x)" using u(6) tf(8) nx by (auto simp: vf(4))
    ultimately show ?thesis using False nx cp(1,2) vf tv
      by - (rule exI [of _ v], simp, rule exI [of _ l], simp)
  qed
qed

subsection \<open>The handler ends, and runs exactly the expired timers\<close>

text \<open>
  The hardware: the counter never goes back and stays far enough below \<open>2 ^ 64\<close>; the frequency is at
  least 256 Hz (it is some 19 MHz on the board), so that no period of \<open>keep_schedule\<close> is 0.
\<close>

definition clock_ok :: "(nat \<Rightarrow> u64) \<Rightarrow> u64 \<Rightarrow> bool" where
  "clock_ok clk freq \<longleftrightarrow> mono clk \<and> 256 \<le> freq \<and> (\<forall>i. unat (clk i) + 2 * unat freq < 2 ^ 64)"

lemma later:
  assumes c: "clock_ok clk freq" and now: "cur \<le> clk i" and d: "d = 2 * freq \<or> d = drop_bit 8 freq"
  shows "cur < clk i + d"
proof -
  have b: "unat (clk i) + 2 * unat freq < 2 ^ 64" "256 \<le> unat freq"
    using c by (auto simp: clock_ok_def word_le_nat_alt)
  have "0 < unat d \<and> unat d \<le> 2 * unat freq"
    using d
  proof
    assume "d = 2 * freq"
    moreover have "2 * unat freq < 2 ^ LENGTH(64)" using b(1) by simp
    then have "unat (2 * freq) = 2 * unat freq" by (subst unat_mult_lem [THEN iffD1]) simp_all
    ultimately show ?thesis using b(2) by simp
  next
    assume "d = drop_bit 8 freq"
    then have "unat d = unat freq div 256" by (simp add: drop_bit_eq_div unat_div_distrib)
    moreover have "0 < unat freq div 256" using b(2) by (simp add: div_greater_zero_iff)
    moreover have "unat freq div 256 \<le> unat freq" by (rule div_le_dividend)
    ultimately show ?thesis by simp
  qed
  moreover from this have "unat (clk i + d) = unat (clk i) + unat d"
    using b(1) by (subst unat_add_lem [THEN iffD1]) simp_all
  ultimately have "unat (clk i) < unat (clk i + d)" by simp
  then show ?thesis using now by (simp add: word_less_nat_alt word_le_nat_alt)
qed

text \<open>What the parts of the handler do to \<open>need_schedule\<close> and the record of calls.\<close>

lemma timer_sel [simp]: "need_schedule (upd_timer x f s) = need_schedule s" "need_schedule (set_timer_irq t s) = need_schedule s"
  "need_schedule (timer_enable_irq s) = need_schedule s" "need_schedule (timer_disable_irq s) = need_schedule s"
  "tm_calls (set_timer_irq t s) = tm_calls s" "tm_calls (timer_enable_irq s) = tm_calls s" "tm_calls (timer_disable_irq s) = tm_calls s"
  by (simp_all add: upd_timer_def set_timer_irq_def timer_enable_irq_def timer_disable_irq_def)

lemma insert_need: "timer_insert n s = Some (b, s') \<Longrightarrow> need_schedule s' = need_schedule s \<and> tm_calls s' = tm_calls s"
  by (auto simp: timer_insert_def Let_def split: option.splits if_splits)

lemma add_timer_need: "add_timer clk cb msg tick s = Some s' \<Longrightarrow> need_schedule s' = need_schedule s \<and> tm_calls s' = tm_calls s"
  by (auto simp: add_timer_def Let_def get_tick_def Option.bind_eq_Some_conv split: if_splits option.splits dest!: insert_need)

lemma timer_run_need:
  "timer_run clk freq cb msg s = Some s' \<Longrightarrow>
     (need_schedule s' \<longleftrightarrow> need_schedule s \<or> cb = Keep_schedule) \<and> tm_calls s' = tm_calls s @ [(cb, msg)]"
  by (auto simp: timer_run_def get_tick_def Let_def split: timer_callback.splits dest: add_timer_need)

lemma timer_take_need: "timer_take s = Some (c, s') \<Longrightarrow> need_schedule s' = need_schedule s \<and> tm_calls s' = tm_calls s"
  by (auto simp: timer_take_def Let_def split: option.splits)

text \<open>A callback adds at most one timer, which expires later than now.\<close>

lemma timer_run_ok:
  assumes ok: "timers_ok L M s R xs" and c: "clock_ok clk freq" and now: "cur \<le> clk (tm_reads s)"
  shows "\<exists>s' R' ys. timer_run clk freq cb msg s = Some s' \<and> timers_ok L M s' (R' @ R) ys \<and>
     tm_reads s \<le> tm_reads s' \<and> mem_kept (set R) M (tm_mem s) (tm_mem s') \<and> (\<forall>x \<in> set xs. timer_key s' x = timer_key s x \<and> tm_callback (tm_node s' x) = tm_callback (tm_node s x)) \<and>
     ((ys = xs \<and> R' = []) \<or> (\<exists>n l. n \<notin> set xs \<and> 0 < l \<and> R' = [(n, l)] \<and> ys = insert_before (timer_key s') n xs \<and>
        cur < timer_key s' n))"
proof -
  have step: "\<exists>s' R' ys. add_timer clk cb' NULL d t = Some s' \<and> timers_ok L M s' (R' @ R) ys \<and>
     tm_reads t \<le> tm_reads s' \<and> mem_kept (set R) M (tm_mem t) (tm_mem s') \<and> (\<forall>x \<in> set xs. timer_key s' x = timer_key t x \<and> tm_callback (tm_node s' x) = tm_callback (tm_node t x)) \<and>
     ((ys = xs \<and> R' = []) \<or> (\<exists>n l. n \<notin> set xs \<and> 0 < l \<and> R' = [(n, l)] \<and> ys = insert_before (timer_key s') n xs \<and>
        cur < timer_key s' n))"
    if t: "timers_ok L M t R xs" "cur \<le> clk (tm_reads t)" "d = 2 * freq \<or> d = drop_bit 8 freq" for cb' d t
  proof -
    obtain z where "short_string M (tm_mem t) NULL z" using t(1) by (auto simp: timers_ok_def)
    from add_timer_ok [OF t(1) this, of clk cb' d] obtain s' where
      s': "add_timer clk cb' NULL d t = Some s'" "mem_kept (set R) M (tm_mem t) (tm_mem s')"
        "\<forall>x \<in> set xs. tm_callback (tm_node s' x) = tm_callback (tm_node t x)"
        "timers_ok L M s' R xs \<and> timer_key s' = timer_key t \<and> tm_reads s' = tm_reads t \<or>
         (\<exists>n l. n \<notin> set xs \<and> 0 < l \<and> timers_ok L M s' ((n, l) # R) (insert_before (timer_key s') n xs) \<and>
           timer_key s' = (timer_key t)(n := clk (tm_reads t) + d) \<and> tm_reads s' = Suc (tm_reads t))"
      by blast
    from s'(4) show ?thesis
    proof
      assume "timers_ok L M s' R xs \<and> timer_key s' = timer_key t \<and> tm_reads s' = tm_reads t"
      then show ?thesis using s'(1-3)
        by (intro exI [of _ s'] exI [of _ "[]"] exI [of _ xs]) auto
    next
      assume "\<exists>n l. n \<notin> set xs \<and> 0 < l \<and> timers_ok L M s' ((n, l) # R) (insert_before (timer_key s') n xs) \<and>
           timer_key s' = (timer_key t)(n := clk (tm_reads t) + d) \<and> tm_reads s' = Suc (tm_reads t)"
      then obtain n l where n: "n \<notin> set xs" "timers_ok L M s' ((n, l) # R) (insert_before (timer_key s') n xs)"
        "timer_key s' = (timer_key t)(n := clk (tm_reads t) + d)" "tm_reads s' = Suc (tm_reads t)" "0 < l"
        by blast
      have "timer_key s' n = clk (tm_reads t) + d" "timer_key s' x = timer_key t x" if "x \<in> set xs" for x
        using that n(1) by (auto simp: n(3))
      moreover have "timer_key s' n = clk (tm_reads t) + d" by (simp add: n(3))
      ultimately show ?thesis using s'(1-3) n(1,2,4,5) later [OF c t(2,3)]
        by (intro exI [of _ s'] exI [of _ "[(n, l)]"] exI [of _ "insert_before (timer_key s') n xs"]) auto
    qed
  qed
  let ?s = "s\<lparr>tm_calls := tm_calls s @ [(cb, msg)]\<rparr>"
  let ?t = "snd (get_tick clk ?s)"
  have t: "timers_ok L M ?t R xs" "timers_ok L M ?s R xs" by (rule timers_ok_cong [OF ok]; simp add: get_tick_def)+
  have tk: "timer_key ?t = timer_key s" "timer_key ?s = timer_key s" by (rule timer_key_cong; simp add: get_tick_def)+
  have rd: "tm_reads ?t = Suc (tm_reads s)" by (simp add: get_tick_def)
  have tn: "cur \<le> clk (tm_reads ?t)"
    using now c unfolding rd clock_ok_def mono_def by (meson le_SucI order_refl order_trans)
  have tc: "tm_node ?t = tm_node s" "tm_node ?s = tm_node s" by (simp_all add: get_tick_def)
  show ?thesis
  proof (cases cb)
    case Print_msg
    then show ?thesis using t(1) tk(1) rd
      by (intro exI [of _ ?t] exI [of _ "[]"] exI [of _ xs]) (simp add: timer_run_def, simp add: get_tick_def)
  next
    case Print_uptime
    from step [OF t(1) tn, of "2 * freq" Print_uptime] obtain s' R' ys where
      s': "add_timer clk Print_uptime NULL (2 * freq) ?t = Some s'" "timers_ok L M s' (R' @ R) ys"
        "tm_reads ?t \<le> tm_reads s' \<and> mem_kept (set R) M (tm_mem ?t) (tm_mem s')"
        "\<forall>x \<in> set xs. timer_key s' x = timer_key s x \<and> tm_callback (tm_node s' x) = tm_callback (tm_node s x)"
        "(ys = xs \<and> R' = []) \<or> (\<exists>n l. n \<notin> set xs \<and> 0 < l \<and> R' = [(n, l)] \<and>
           ys = insert_before (timer_key s') n xs \<and> cur < timer_key s' n)" unfolding tk tc by blast
    have "timer_run clk freq cb msg s = Some s'" using s'(1) Print_uptime by (simp add: timer_run_def)
    moreover have "tm_reads s \<le> tm_reads s' \<and> mem_kept (set R) M (tm_mem s) (tm_mem s')" using s'(3) rd by (simp add: get_tick_def)
    ultimately show ?thesis using s'(2,4,5) by blast
  next
    case Keep_schedule
    have "cur \<le> clk (tm_reads ?s)" and sm: "tm_reads ?s = tm_reads s" "tm_mem ?s = tm_mem s" using now by simp_all
    from step [OF t(2) this(1), of "drop_bit 8 freq" Keep_schedule] obtain s' R' ys where
      s': "add_timer clk Keep_schedule NULL (drop_bit 8 freq) ?s = Some s'" "timers_ok L M s' (R' @ R) ys"
        "tm_reads s \<le> tm_reads s' \<and> mem_kept (set R) M (tm_mem s) (tm_mem s')"
        "\<forall>x \<in> set xs. timer_key s' x = timer_key s x \<and> tm_callback (tm_node s' x) = tm_callback (tm_node s x)"
        "(ys = xs \<and> R' = []) \<or> (\<exists>n l. n \<notin> set xs \<and> 0 < l \<and> R' = [(n, l)] \<and>
           ys = insert_before (timer_key s') n xs \<and> cur < timer_key s' n)" unfolding tk tc sm by blast
    let ?u = "s'\<lparr>need_schedule := True\<rparr>"
    have u: "timers_ok L M ?u (R' @ R) ys" by (rule timers_ok_cong [OF s'(2)]) simp_all
    have uk: "timer_key ?u = timer_key s'" "tm_node ?u = tm_node s'" by (rule timer_key_cong) simp_all
    have "timer_run clk freq cb msg s = Some ?u" using s'(1) Keep_schedule by (simp add: timer_run_def)
    moreover have "tm_reads s \<le> tm_reads ?u \<and> mem_kept (set R) M (tm_mem s) (tm_mem ?u)" using s'(3) by simp
    ultimately show ?thesis using u s'(4,5) unfolding uk [symmetric] by blast
  qed
qed

lemma late_insert:
  assumes "cur < key n"
  shows "takeWhile (\<lambda>y. key y \<le> cur) (insert_before key n xs) = takeWhile (\<lambda>y. key y \<le> cur) xs"
    and "set (dropWhile (\<lambda>y. key y \<le> cur) xs) \<subseteq> set (dropWhile (\<lambda>y. key y \<le> cur) (insert_before key n xs))"
  using assms by (induction xs) (auto simp: insert_before_Cons dest: set_dropWhileD)

text \<open>What the callback of one expired timer does to the list behind it.\<close>

lemma expired_prefix:
  fixes key key' :: "addr \<Rightarrow> u64"
  assumes "\<forall>y \<in> set zs. key y = key' y"
    "(ys = zs \<and> P) \<or> (\<exists>n l. n \<notin> set zs \<and> 0 < l \<and> Q n l \<and> ys = insert_before key n zs \<and> cur < key n)"
  shows "takeWhile (\<lambda>y. key y \<le> cur) ys = takeWhile (\<lambda>y. key' y \<le> cur) zs"
    and "set (dropWhile (\<lambda>y. key' y \<le> cur) zs) \<subseteq> set (dropWhile (\<lambda>y. key y \<le> cur) ys)"
proof -
  have "takeWhile (\<lambda>y. key' y \<le> cur) zs = takeWhile (\<lambda>y. key y \<le> cur) zs"
    "dropWhile (\<lambda>y. key' y \<le> cur) zs = dropWhile (\<lambda>y. key y \<le> cur) zs"
    by (rule takeWhile_cong dropWhile_cong; use assms(1) in simp)+
  moreover have "takeWhile (\<lambda>y. key y \<le> cur) ys = takeWhile (\<lambda>y. key y \<le> cur) zs \<and>
    set (dropWhile (\<lambda>y. key y \<le> cur) zs) \<subseteq> set (dropWhile (\<lambda>y. key y \<le> cur) ys)"
    using assms(2) late_insert [of cur key _ zs] by blast
  ultimately show "takeWhile (\<lambda>y. key y \<le> cur) ys = takeWhile (\<lambda>y. key' y \<le> cur) zs"
    "set (dropWhile (\<lambda>y. key' y \<le> cur) zs) \<subseteq> set (dropWhile (\<lambda>y. key y \<le> cur) ys)" by auto
qed

text \<open>The call that the timer \<open>x\<close> stands for.\<close>

definition timer_call :: "timers \<Rightarrow> addr \<Rightarrow> timer_callback \<times> addr" where
  "timer_call s x = (tm_callback (tm_node s x), x + MSG_OFFSET)"

lemma expire_loop_ok:
  assumes ok: "timers_ok L M s R xs" and c: "clock_ok clk freq" and now: "cur \<le> clk (tm_reads s)"
  shows "\<exists>s' R' ys. expire_loop L clk freq cur fired s =
       Some (fired @ takeWhile (\<lambda>x. timer_key s x \<le> cur) xs, s') \<and>
     timers_ok L M s' R' ys \<and> (\<forall>y \<in> set ys. cur < timer_key s' y) \<and>
     set (dropWhile (\<lambda>x. timer_key s x \<le> cur) xs) \<subseteq> set ys \<and>
     others R xs \<subseteq> others R' ys \<and> mem_kept (others R xs) M (tm_mem s) (tm_mem s') \<and>
     tm_calls s' = tm_calls s @ map (timer_call s) (takeWhile (\<lambda>x. timer_key s x \<le> cur) xs) \<and>
     (need_schedule s' \<longleftrightarrow> need_schedule s \<or> (\<exists>x \<in> set (takeWhile (\<lambda>x. timer_key s x \<le> cur) xs). tm_callback (tm_node s x) = Keep_schedule))"
  using ok now
proof (induction "length (takeWhile (\<lambda>x. timer_key s x \<le> cur) xs)" arbitrary: s R xs fired)
  case 0
  then have tl: "timer_list s xs" by (simp add: timers_ok_def)
  have tw: "takeWhile (\<lambda>x. timer_key s x \<le> cur) xs = []" using 0 by simp
  have "expire_loop L clk freq cur fired s = Some (fired, s)"
    using tl tw by (cases xs; subst expire_loop.simps) (auto simp: timer_list_def timer_key_def split: if_splits)
  moreover have "cur < timer_key s y" if "y \<in> set xs" for y
    using tl tw that by (cases xs) (auto simp: timer_list_def not_le split: if_splits dest: order_less_le_trans)
  moreover have "set (dropWhile (\<lambda>x. timer_key s x \<le> cur) xs) \<subseteq> set xs" by (auto dest: set_dropWhileD)
  ultimately show ?case using 0 tw by (intro exI [of _ s] exI [of _ R] exI [of _ xs]) simp
next
  case (Suc k)
  then obtain x zs where xs: "xs = x # zs" and x: "timer_key s x \<le> cur"
    by (cases xs) (auto split: if_splits)
  have h: "heap_inv L M (tm_heap s) R" "timer_list s (x # zs)" "x \<in> fst ` {r \<in> set R. 0 < snd r}"
    "set zs \<subseteq> fst ` {r \<in> set R. 0 < snd r}"
    using Suc.prems(1) xs by (auto simp: timers_ok_def)
  have hd: "timer_head s = Some x" using h(2) by (simp add: timer_list_def)
  have so: "sorted (map (timer_key s) (x # zs))" "x \<notin> set zs" using h(2) by (auto simp: timer_list_def)
  obtain s1 where s1: "timer_take s = Some (x, s1)" "timer_list s1 zs" "timer_key s1 = timer_key s"
    "tm_heap s1 = tm_heap s" "tm_mem s1 = tm_mem s" "tm_reads s1 = tm_reads s"
    "\<And>y. tm_callback (tm_node s1 y) = tm_callback (tm_node s y)" "need_schedule s1 = need_schedule s" "tm_calls s1 = tm_calls s"
    using timer_take_ok [OF h(2)] timer_key_cong timer_take_need by metis
  have ok1: "timers_ok L M s1 R zs" using Suc.prems(1) s1 h(4) by (simp add: timers_ok_def)
  obtain s2 R2 ys where s2: "timer_run clk freq (tm_callback (tm_node s1 x)) (x + MSG_OFFSET) s1 = Some s2"
    "timers_ok L M s2 (R2 @ R) ys" "tm_reads s \<le> tm_reads s2 \<and> mem_kept (set R) M (tm_mem s) (tm_mem s2)" "\<forall>y \<in> set zs. timer_key s2 y = timer_key s y \<and> tm_callback (tm_node s2 y) = tm_callback (tm_node s y)"
    "(ys = zs \<and> R2 = []) \<or> (\<exists>n l. n \<notin> set zs \<and> 0 < l \<and> R2 = [(n, l)] \<and> ys = insert_before (timer_key s2) n zs \<and>
        cur < timer_key s2 n)"
    using timer_run_ok [OF ok1 c, of cur "tm_callback (tm_node s1 x)" "x + MSG_OFFSET"] Suc.prems(2) unfolding s1(3,5,6,7) by blast
  have h2: "timer_list s2 ys" "heap_inv L M (tm_heap s2) (R2 @ R)"
    "set ys \<subseteq> fst ` {r \<in> set (R2 @ R). 0 < snd r}" using s2(2) by (auto simp: timers_ok_def)
  obtain i where i: "i < length (R2 @ R)" "fst ((R2 @ R) ! i) = x" "0 < snd ((R2 @ R) ! i)"
  proof -
    from h(3) obtain r where "r \<in> set (R2 @ R)" "fst r = x" "0 < snd r" by auto
    then show ?thesis using that by (metis in_set_conv_nth)
  qed
  have xy: "x \<notin> set ys"
  proof
    assume "x \<in> set ys"
    then obtain l where l: "R2 = [(x, l)]" "0 < l" using s2(5) so(2) by auto
    from h(3) obtain k where "(x, k) \<in> set R" "0 < k" by auto
    then show False using heap_alloc.inv_apart [OF h2(2)] l by (auto simp: apart_def bytes_def)
  qed
  have oth: "others R xs \<subseteq> others (drop_nth i (R2 @ R)) ys"
  proof
    fix r assume "r \<in> others R xs"
    then have r: "r \<in> set R" "0 < snd r" "fst r \<noteq> x" "fst r \<notin> set zs" by (auto simp: others_def xs)
    have "r \<noteq> (R2 @ R) ! i" using r(3) i(2) by auto
    then have "r \<in> set (drop_nth i (R2 @ R))" using in_drop_nth [of r "R2 @ R" i] r(1) i(1) by simp
    moreover have "fst r \<notin> set ys"
    proof
      assume "fst r \<in> set ys"
      then obtain l where l: "R2 = [(fst r, l)]" "0 < l" using s2(5) r(4) by auto
      then show False using heap_alloc.inv_apart [OF h2(2)] r(1,2) by (cases r) (auto simp: apart_def bytes_def)
    qed
    ultimately show "r \<in> others (drop_nth i (R2 @ R)) ys" using r(2) by (simp add: others_def)
  qed
  obtain g where g: "free L x (tm_heap s2) = Some g" "heap_inv L M g (drop_nth i (R2 @ R))"
    using heap_inv_free [OF h2(2) i(1)] i(2) by auto
  let ?s = "s2\<lparr>tm_heap := g\<rparr>"
  have e: "expire_loop L clk freq cur fired s = expire_loop L clk freq cur (fired @ [x]) ?s"
    using hd x s1(1) s2(1) g(1) by (subst expire_loop.simps) (simp add: timer_key_def)
  have k3: "timer_key ?s = timer_key s2" by (rule timer_key_cong) simp
  have ok3: "timers_ok L M ?s (drop_nth i (R2 @ R)) ys"
  proof -
    have "set ys \<subseteq> fst ` {r \<in> set (drop_nth i (R2 @ R)). 0 < snd r}"
    proof
      fix y assume y: "y \<in> set ys"
      then obtain r where r: "r \<in> set (R2 @ R)" "fst r = y" "0 < snd r" using h2(3) by blast
      then have "r \<noteq> (R2 @ R) ! i" using i(2) xy y by auto
      then have "r \<in> set (drop_nth i (R2 @ R))" using in_drop_nth [OF r(1) i(1)] by blast
      then show "y \<in> fst ` {r \<in> set (drop_nth i (R2 @ R)). 0 < snd r}" using r(2,3) by blast
    qed
    then show ?thesis using s2(2) g(2) k3 by (simp add: timers_ok_def timer_list_def)
  qed
  have tw: "takeWhile (\<lambda>y. timer_key ?s y \<le> cur) ys = takeWhile (\<lambda>y. timer_key s y \<le> cur) zs"
    and dw: "set (dropWhile (\<lambda>y. timer_key s y \<le> cur) zs) \<subseteq> set (dropWhile (\<lambda>y. timer_key ?s y \<le> cur) ys)"
    unfolding k3 by (rule expired_prefix [OF _ s2(5)], use s2(4) in blast)+
  have "\<exists>s' R' zs'. expire_loop L clk freq cur (fired @ [x]) ?s =
      Some ((fired @ [x]) @ takeWhile (\<lambda>y. timer_key ?s y \<le> cur) ys, s') \<and>
      timers_ok L M s' R' zs' \<and> (\<forall>y \<in> set zs'. cur < timer_key s' y) \<and>
      set (dropWhile (\<lambda>y. timer_key ?s y \<le> cur) ys) \<subseteq> set zs' \<and>
      others (drop_nth i (R2 @ R)) ys \<subseteq> others R' zs' \<and> mem_kept (others (drop_nth i (R2 @ R)) ys) M (tm_mem ?s) (tm_mem s') \<and>
      tm_calls s' = tm_calls ?s @ map (timer_call ?s) (takeWhile (\<lambda>y. timer_key ?s y \<le> cur) ys) \<and>
      (need_schedule s' \<longleftrightarrow> need_schedule ?s \<or> (\<exists>y \<in> set (takeWhile (\<lambda>y. timer_key ?s y \<le> cur) ys). tm_callback (tm_node ?s y) = Keep_schedule))"
  proof (rule Suc.hyps(1) [OF _ ok3])
    show "k = length (takeWhile (\<lambda>y. timer_key ?s y \<le> cur) ys)" unfolding tw using Suc.hyps(2) x xs by simp
    have "mono clk" using c by (simp add: clock_ok_def)
    then have "clk (tm_reads s) \<le> clk (tm_reads s2)" using s2(3) by (auto dest: monoD)
    then show "cur \<le> clk (tm_reads ?s)" using Suc.prems(2) by simp
  qed
  then obtain s' R' zs' where r: "expire_loop L clk freq cur fired s = Some ((fired @ [x]) @ takeWhile (\<lambda>y. timer_key s y \<le> cur) zs, s')"
      "timers_ok L M s' R' zs'" "\<forall>y \<in> set zs'. cur < timer_key s' y" "set (dropWhile (\<lambda>y. timer_key ?s y \<le> cur) ys) \<subseteq> set zs'"
      "others (drop_nth i (R2 @ R)) ys \<subseteq> others R' zs'" "mem_kept (others (drop_nth i (R2 @ R)) ys) M (tm_mem s2) (tm_mem s')"
      "tm_calls s' = tm_calls s2 @ map (timer_call ?s) (takeWhile (\<lambda>y. timer_key s y \<le> cur) zs)"
      "need_schedule s' \<longleftrightarrow> need_schedule s2 \<or> (\<exists>y \<in> set (takeWhile (\<lambda>y. timer_key s y \<le> cur) zs). tm_callback (tm_node s2 y) = Keep_schedule)"
    unfolding e tw by auto
  have "mem_kept (others R xs) M (tm_mem s) (tm_mem s2)" using s2(3) by (auto intro: mem_kept_sub simp: others_def)
  then have "mem_kept (others R xs) M (tm_mem s) (tm_mem s')" by (rule mem_kept_trans [OF _ r(6) oth])
  moreover have "others R xs \<subseteq> others R' zs'" using oth r(5) by (rule order_trans)
  moreover have "set (dropWhile (\<lambda>y. timer_key s y \<le> cur) xs) \<subseteq> set zs'" using dw r(4) x unfolding xs by auto
  moreover have cb: "tm_callback (tm_node s2 y) = tm_callback (tm_node s y)" if "y \<in> set (takeWhile (\<lambda>y. timer_key s y \<le> cur) zs)" for y
    using set_takeWhileD [OF that] s2(4) by blast
  moreover have "tm_calls s' = tm_calls s @ map (timer_call s) (takeWhile (\<lambda>y. timer_key s y \<le> cur) xs)"
    using r(7) timer_run_need [OF s2(1)] s1(7,9) cb x unfolding xs by (simp add: timer_call_def)
  moreover have "need_schedule s' \<longleftrightarrow> need_schedule s \<or> (\<exists>y \<in> set (takeWhile (\<lambda>y. timer_key s y \<le> cur) xs). tm_callback (tm_node s y) = Keep_schedule)"
    using r(8) timer_run_need [OF s2(1)] s1(7,8) cb x unfolding xs by auto
  ultimately show ?case using r(1-3) x unfolding xs
    by - (rule exI [of _ s'], rule exI [of _ R'], rule exI [of _ zs'], simp)
qed

lemma sorted_expired: "sorted (map f xs) \<Longrightarrow> set (takeWhile (\<lambda>x. f x \<le> k) xs) = {x \<in> set xs. f x \<le> k}"
  for f :: "'a \<Rightarrow> u64"
  by (induction xs) (auto intro: order_trans)

lemma handler_frame:
  assumes ok: "timers_ok L M s R xs" and c: "clock_ok clk freq"
  defines "now \<equiv> clk (tm_reads s)"
  shows "\<exists>b s' R' ys. core_timer_handler L clk freq s = Some (b, s') \<and> timers_ok L M s' R' ys \<and>
     (\<forall>y \<in> set ys. now < timer_key s' y) \<and> {x \<in> set xs. now < timer_key s x} \<subseteq> set ys \<and>
     \<not> need_schedule s' \<and>
     (if ys \<noteq> [] \<and> (\<exists>x \<in> set xs. timer_key s x \<le> now)
      then tm_irq s' \<and> tm_tval s' = timer_key s' (hd ys) - now else True) \<and>
     others R xs \<subseteq> others R' ys \<and> mem_kept (others R xs) M (tm_mem s) (tm_mem s') \<and>
     tm_calls s' = tm_calls s @ map (timer_call s) (takeWhile (\<lambda>x. timer_key s x \<le> now) xs) \<and>
     (b \<longleftrightarrow> need_schedule s \<or> (\<exists>x \<in> set xs. timer_key s x \<le> now \<and> tm_callback (tm_node s x) = Keep_schedule))"
proof -
  let ?t = "timer_disable_irq (snd (get_tick clk s))"
  have t: "timers_ok L M ?t R xs"
    by (rule timers_ok_cong [OF ok]) (simp_all add: get_tick_def timer_disable_irq_def)
  have tk: "timer_key ?t = timer_key s"
    by (rule timer_key_cong) (simp add: get_tick_def timer_disable_irq_def)
  have rd: "tm_reads ?t = Suc (tm_reads s)" by (simp add: get_tick_def timer_disable_irq_def)
  have tn: "timer_call ?t = timer_call s" "tm_node ?t = tm_node s" "tm_calls ?t = tm_calls s" "need_schedule ?t = need_schedule s"
    by (simp_all add: timer_call_def fun_eq_iff get_tick_def timer_disable_irq_def)
  have "now \<le> clk (tm_reads ?t)" using c unfolding rd now_def by (simp add: clock_ok_def mono_def)
  from expire_loop_ok [OF t c this, of "[]"] obtain u R' ys where
    u: "expire_loop L clk freq now [] ?t = Some (takeWhile (\<lambda>x. timer_key s x \<le> now) xs, u)"
      "timers_ok L M u R' ys" "\<And>y. y \<in> set ys \<Longrightarrow> now < timer_key u y"
      "set (dropWhile (\<lambda>x. timer_key s x \<le> now) xs) \<subseteq> set ys"
      "others R xs \<subseteq> others R' ys" "mem_kept (others R xs) M (tm_mem ?t) (tm_mem u)"
      "tm_calls u = tm_calls s @ map (timer_call s) (takeWhile (\<lambda>x. timer_key s x \<le> now) xs)"
      "need_schedule u \<longleftrightarrow> need_schedule s \<or> (\<exists>x \<in> set (takeWhile (\<lambda>x. timer_key s x \<le> now) xs). tm_callback (tm_node s x) = Keep_schedule)"
    unfolding tk tn by auto
  let ?fired = "takeWhile (\<lambda>x. timer_key s x \<le> now) xs"
  have so: "sorted (map (timer_key s) xs)" using ok by (simp add: timers_ok_def timer_list_def)
  have fired: "?fired \<noteq> [] \<longleftrightarrow> (\<exists>x \<in> set xs. timer_key s x \<le> now)"
    using so by (cases xs) (auto intro: order_trans)
  have sub: "{x \<in> set xs. now < timer_key s x} \<subseteq> set ys"
  proof
    fix x assume "x \<in> {x \<in> set xs. now < timer_key s x}"
    then have x: "x \<in> set xs" "now < timer_key s x" by auto
    then have "x \<notin> set ?fired" by (auto dest: set_takeWhileD simp: not_le)
    then have "x \<in> set (dropWhile (\<lambda>x. timer_key s x \<le> now) xs)"
      using x(1) by (metis Un_iff set_append takeWhile_dropWhile_id)
    then show "x \<in> set ys" using u(4) by blast
  qed
  have hd: "timer_head u = (case ys of [] \<Rightarrow> None | y # _ \<Rightarrow> Some y)"
    using u(2) by (cases ys) (auto simp: timers_ok_def timer_list_def)
  define v where "v = (case timer_head u of
      Some h \<Rightarrow> if ?fired \<noteq> [] then
          timer_enable_irq (set_timer_irq (tm_expiration (tm_node u h) - now) u) else u
    | None \<Rightarrow> u)"
  define w where "w = v\<lparr>need_schedule := False\<rparr>"
  have "core_timer_handler L clk freq s =
      Some (if need_schedule v then (True, w) else (False, v))"
    using u(1) unfolding core_timer_handler_def v_def w_def now_def
    by (simp add: get_tick_def Let_def)
  moreover have "v = w" if "\<not> need_schedule v" using that by (cases v) (simp add: w_def)
  ultimately have e: "core_timer_handler L clk freq s = Some (need_schedule v, w)" by simp
  have wf: "tm_heap w = tm_heap u" "tm_mem w = tm_mem u" "tm_node w = tm_node u" "timer_head w = timer_head u"
    by (auto simp: w_def v_def timer_enable_irq_def set_timer_irq_def split: option.split)
  have wk: "timer_key w = timer_key u" by (rule timer_key_cong) (simp add: wf)
  have "timers_ok L M w R' ys" by (rule timers_ok_cong [OF u(2) wf])
  moreover have "tm_irq w \<and> tm_tval w = timer_key w (hd ys) - now" if "ys \<noteq> []" "?fired \<noteq> []"
    using that hd unfolding wk
    by (cases ys) (auto simp: w_def v_def timer_enable_irq_def set_timer_irq_def timer_key_def)
  moreover have "\<not> need_schedule w" by (simp add: w_def)
  moreover have "mem_kept (others R xs) M (tm_mem s) (tm_mem w)" using u(6) wf(2) by (simp add: get_tick_def timer_disable_irq_def)
  moreover have "need_schedule v = need_schedule u" "tm_calls w = tm_calls u" by (auto simp: w_def v_def split: option.split)
  then have "tm_calls w = tm_calls s @ map (timer_call s) ?fired"
    "need_schedule v \<longleftrightarrow> need_schedule s \<or> (\<exists>x \<in> set xs. timer_key s x \<le> now \<and> tm_callback (tm_node s x) = Keep_schedule)"
    using u(7,8) unfolding sorted_expired [OF so] by auto
  ultimately show ?thesis using e u(3,5) sub unfolding fired [symmetric] wk [symmetric]
    by - (rule exI [of _ "need_schedule v"], rule exI [of _ w], rule exI [of _ R'], rule exI [of _ ys], simp)
qed

lemma handler_spurious:
  assumes ok: "timers_ok L M s R xs" and none: "\<forall>x \<in> set xs. clk (tm_reads s) < timer_key s x" and need: "\<not> need_schedule s"
  shows "\<exists>s'. core_timer_handler L clk freq s = Some (False, s') \<and> \<not> tm_irq s' \<and> timers_ok L M s' R xs \<and> tm_calls s' = tm_calls s"
proof -
  let ?t = "timer_disable_irq (snd (get_tick clk s))"
  have "expire_loop L clk freq (clk (tm_reads s)) [] ?t = Some ([], ?t)"
    using ok none by (cases xs; subst expire_loop.simps)
      (auto simp: timers_ok_def timer_list_def get_tick_def timer_disable_irq_def timer_key_def not_le
        split: option.splits)
  then have "core_timer_handler L clk freq s = Some (False, ?t)"
    using need by (auto simp: core_timer_handler_def get_tick_def timer_disable_irq_def Let_def split: option.splits)
  moreover have "timers_ok L M ?t R xs" by (rule timers_ok_cong [OF ok]) (simp_all add: get_tick_def timer_disable_irq_def)
  ultimately show ?thesis by (simp add: get_tick_def timer_disable_irq_def)
qed

end
