(* ===== verification/Board.thy ===== *)
theory Board
  imports Room Cstring Tasks Timer
begin

section \<open>Concrete states\<close>

text \<open>
  A board as the witnesses of the properties use it: the page allocator before and after
  \<open>mm_init\<close>, a memory layout with a 1 MiB kernel, an initramfs and a device tree, and
  the heap that \<open>main\<close> sets up on it.
\<close>

definition blank_mm :: mm where
  "blank_mm = \<lparr>free_list = (\<lambda>_. None), page_list = (\<lambda>_. zero_page), memory_start = 0\<rparr>"

lemma bsplit_zero: "bsplit b i 0 fl = (\<lambda>k. if k < i then (b + 2 ^ k) # fl k else fl k)"
  by (induction i arbitrary: fl) (auto simp: fun_eq_iff less_Suc_eq)

lemma bscan_top:
  assumes "fl 13 = b # bs" "\<And>j. j < 13 \<Longrightarrow> fl j = []" "i \<le> 13"
  shows "bscan i order fl = (Some b, bsplit b 13 order (fl(13 := bs)))"
  using assms(3)
proof (induction "13 - i" arbitrary: i)
  case 0
  then show ?case using assms(1) by (subst bscan.simps) simp
next
  case (Suc n)
  then have "bscan (i + 1) order fl = (Some b, bsplit b 13 order (fl(13 := bs)))" by (intro Suc.hyps(1)) auto
  then show ?case using assms(2) [of i] Suc.hyps(2) by (simp add: bscan.simps [of i])
qed

definition fresh_fl :: flists where
  "fresh_fl = (\<lambda>k. if k < 13 then [237568 + 2 ^ k] else init_fl 29 k)"

lemma balloc_init: "balloc 0 (init_fl 30) = (Some 237568, fresh_fl)"
proof -
  have "init_fl 30 = (init_fl 29)(13 := 237568 # init_fl 29 13)" using init_fl_Suc [of 29] by simp
  then have "balloc 0 (init_fl 30) = (Some 237568, bsplit 237568 13 0 (init_fl 29))"
    unfolding balloc_def
    by (subst bscan_top [of _ 237568 "init_fl 29 13"]) (simp_all add: fun_upd_triv, simp add: init_fl_def)
  then show ?thesis by (simp add: bsplit_zero fresh_fl_def init_fl_def fun_eq_iff)
qed

definition board :: layout where
  "board = \<lparr>bss_end = 0x98000, stack_top = 0xA8000\<rparr>"

definition blank_heap :: heap where
  "blank_heap = \<lparr>h_mm = blank_mm, heap_ptr = 0, kmem_caches = (\<lambda>_. \<lparr>cache_size = 0, cache_list = None\<rparr>),
     entries = (\<lambda>_. \<lparr>ke_prev = None, ke_next = None\<rparr>)\<rparr>"

definition board_pages :: "nat set" where
  "board_pages = free_at_boot board 0x8000000 0x8040000 0x2EFF7000 0x7000"

definition board_heap :: heap where
  "board_heap = kernel_memory_init board 0x8000000 0x8040000 0x2EFF7000 0x7000 blank_heap"

lemma board_layout: "boot_layout_ok board 0x8000000 0x8040000 0x2EFF7000 0x7000"
  by (simp add: boot_layout_ok_def boot_ranges_def board_def)

lemma board_heap_inv: "heap_inv board board_pages board_heap []"
  unfolding board_pages_def board_heap_def by (rule kernel_memory_init_ok [OF board_layout])

lemma board_pages_card: "16384 \<le> card board_pages"
proof -
  have "{0x1000 ..< 0x5000} \<subseteq> board_pages"
    by (auto simp: board_pages_def free_at_boot_def boot_ranges_def board_def pages_def PAGE_NUM_eq)
  then have "card {0x1000 ..< 0x5000 :: nat} \<le> card board_pages"
    by (rule card_mono [rotated]) (simp add: board_pages_def free_at_boot_def)
  then show ?thesis by simp
qed

lemma board_left: "pages_left (h_mm board_heap) 16000"
  unfolding board_heap_def
  by (rule boot_left [OF board_layout]) (use board_pages_card in \<open>simp add: board_pages_def\<close>)

text \<open>Blocks of at most a page can be had on the board.\<close>

lemma board_alloc:
  assumes "0 < sz" "unat sz \<le> 4096"
  shows "\<exists>p k s. alloc sz board_heap = Some (p, s) \<and> p \<noteq> NULL \<and> unat sz \<le> k \<and>
     heap_inv board board_pages s [(p, k)] \<and> pages_left (h_mm s) 15999"
proof -
  have "pages_left (h_mm board_heap) (Suc 15999)" using board_left by simp
  from alloc_left [OF board_heap_inv this assms(1)] assms(2) show ?thesis by simp
qed

lemma board_alloc_some: "0 < sz \<Longrightarrow> unat sz \<le> 4096 \<Longrightarrow> fst (the (alloc sz board_heap)) \<noteq> NULL"
  using board_alloc [of sz] by auto

lemma board_page_0: "0 \<notin> page_bytes board_pages"
  by (simp add: page_bytes_def board_pages_def free_at_boot_def boot_ranges_def pages_def)

text \<open>A heap on which \<open>n\<close> blocks of a page are held.\<close>

lemma board_blocks:
  "n \<le> 16000 \<Longrightarrow> \<exists>h R. length R = n \<and> heap_inv board board_pages h R \<and> pages_left (h_mm h) (16000 - n) \<and>
     (\<forall>r \<in> set R. 4096 \<le> fst r \<and> 4096 \<le> snd r)"
proof (induction n)
  case 0
  then show ?case using board_heap_inv board_left by auto
next
  case (Suc n)
  then obtain h R where h: "length R = n" "heap_inv board board_pages h R" "pages_left (h_mm h) (16000 - n)"
    "\<forall>r \<in> set R. 4096 \<le> fst r \<and> 4096 \<le> snd r" by auto
  have "16000 - n = Suc (16000 - Suc n)" using Suc.prems by simp
  then obtain p k h' where p: "p \<noteq> NULL" "4096 \<le> k" "heap_inv board board_pages h' ((p, k) # R)"
    "pages_left (h_mm h') (16000 - Suc n)" using alloc_left [OF h(2), of "16000 - Suc n" 4096] h(3) by auto
  have "bytes (p, k) \<subseteq> page_bytes board_pages" using heap_alloc.inv_arena [OF p(3)] by simp
  then have "p \<in> page_bytes board_pages" using p(2) by (auto simp: bytes_def)
  then have "p div PAGE_SIZE \<noteq> 0" using board_page_0
    by (metis div_0 mem_Collect_eq page_bytes_def)
  then have "4096 \<le> p" by (auto simp: div_eq_0_iff)
  then show ?case using h(1,4) p(2-4) by (intro exI [of _ h'] exI [of _ "(p, k) # R"]) auto
qed

text \<open>A page taken from the fresh page allocator, the block it comes from being the last one.\<close>

definition one_page_mm :: mm where
  "one_page_mm = snd (mm_alloc 4096 (mm_init blank_mm))"

lemma one_page: "mm_alloc 4096 (mm_init blank_mm) = (237568 * PAGE_SIZE, one_page_mm) \<and>
    mm_ok one_page_mm fresh_fl {(237568, 0)}"
  using mm_alloc_refines [OF mm_init_ok [of blank_mm], of 4096] balloc_init
  by (auto simp: one_page_mm_def)

definition board_tasks :: tasks where
  "board_tasks = \<lparr>tk_heap = board_heap,
     tk_node = (\<lambda>_. \<lparr>t_prev = None, t_next = None, t_callback = 0, t_priority = 0\<rparr>), task_head = None\<rparr>"

lemma board_tasks_ok: "tasks_ok board board_pages board_tasks [] []"
  using board_heap_inv by (simp add: tasks_ok_def board_tasks_def task_list_def)

definition board_timers :: timers where
  "board_timers = \<lparr>tm_heap = board_heap, tm_mem = (\<lambda>_. 0),
     tm_node = (\<lambda>_. \<lparr>tm_prev = None, tm_next = None, tm_callback = Print_msg, tm_expiration = 0\<rparr>),
     timer_head = None, need_schedule = False, tm_irq = False, tm_tval = 0, tm_reads = 0, tm_calls = []\<rparr>"

lemma board_timers_ok: "timers_ok board board_pages board_timers [] []"
proof -
  have "short_string board_pages (\<lambda>_. 0) NULL []"
    using board_page_0 by (simp add: short_string_def)
  then show ?thesis
    using board_heap_inv by (auto simp: timers_ok_def board_timers_def timer_list_def)
qed

end
