(* ===== verification/Utils.thy ===== *)
theory Utils
  imports Cstring
begin

section \<open>Number conversions (src/utils.c)\<close>

text \<open>
  \<open>hex_to_uint\<close>, \<open>atoi\<close>, \<open>itoa\<close>, \<open>be2le_u32\<close> and \<open>align\<close>. A signed overflow, undefined in C, is the result
  \<open>None\<close>; \<open>itoa\<close> writes into its static 12-byte buffer, here a list of bytes.
\<close>

subsection \<open>Reading numbers\<close>

definition hex_digit :: "byte \<Rightarrow> u32" where
  "hex_digit c =
     (if 0x30 \<le> c \<and> c \<le> 0x39 then ucast c - 0x30
      else if 0x61 \<le> c \<and> c \<le> 0x66 then ucast c - 0x61 + 10
      else if 0x41 \<le> c \<and> c \<le> 0x46 then ucast c - 0x41 + 10
      else 0)"

primrec hex_loop :: "nat \<Rightarrow> mem \<Rightarrow> addr \<Rightarrow> u32 \<Rightarrow> u32" where
  "hex_loop 0 m p result = result"
| "hex_loop (Suc n) m p result = hex_loop n m (p + 1) (push_bit 4 result + hex_digit (m p))"

definition hex_to_uint :: "mem \<Rightarrow> addr \<Rightarrow> u32 \<Rightarrow> u32" where
  "hex_to_uint m hex_str len = hex_loop (unat len) m hex_str 0"

definition in_s32 :: "int \<Rightarrow> bool" where
  "in_s32 x \<longleftrightarrow> - (2 ^ 31) \<le> x \<and> x < 2 ^ 31"

partial_function (option) atoi_loop :: "mem \<Rightarrow> addr \<Rightarrow> int \<Rightarrow> int option" where
  "atoi_loop m str result =
     (if m str = 0 then Some result
      else if in_s32 (result * 10) \<and> in_s32 (result * 10 + uint (m str)) \<and>
              in_s32 (result * 10 + uint (m str) - 0x30)
      then atoi_loop m (str + 1) (result * 10 + uint (m str) - 0x30)
      else None)"

definition atoi :: "mem \<Rightarrow> addr \<Rightarrow> int option" where
  "atoi m str = atoi_loop m str 0"

subsection \<open>Writing numbers\<close>

function itoa_digits :: "int \<Rightarrow> nat \<Rightarrow> byte list \<Rightarrow> nat \<times> byte list" where
  "itoa_digits num i buf =
     (if 0 < num then itoa_digits (num sdiv 10) (i + 1) (buf[i := of_int (num smod 10 + 0x30)])
      else (i, buf))"
  by pat_completeness auto
termination
  by (relation "measure (\<lambda>(num, _). nat num)") (auto simp: sdiv_nonneg)

declare itoa_digits.simps [simp del]

primrec itoa_reverse :: "nat \<Rightarrow> nat \<Rightarrow> byte list \<Rightarrow> byte list" where
  "itoa_reverse 0 i buf = buf"
| "itoa_reverse (Suc n) i buf =
     (let b = itoa_reverse n i buf; temp = b ! n; b1 = b[n := b ! (i - n - 1)]
      in b1[i - n - 1 := temp])"

definition itoa :: "int \<Rightarrow> byte list \<Rightarrow> byte list option" where
  "itoa num buf =
     (if num = - (2 ^ 31) then None
      else
        let is_negative = num < 0;
            num' = (if num < 0 then - num else num);
            (i, buf1) =
              (if num' = 0 then (1, buf[0 := 0x30])
               else case itoa_digits num' 0 buf of (i, b) \<Rightarrow>
                 if is_negative then (i + 1, b[i := 0x2D]) else (i, b));
            buf2 = buf1[i := 0]
        in Some (itoa_reverse (i div 2) i buf2))"

subsection \<open>Words\<close>

definition be2le_u32 :: "u32 \<Rightarrow> u32" where
  "be2le_u32 be = push_bit 24 (be AND 0xFF) OR push_bit 8 (be AND 0xFF00) OR
                  drop_bit 8 (be AND 0xFF0000) OR drop_bit 24 (be AND 0xFF000000)"

definition align :: "u32 \<Rightarrow> u32 \<Rightarrow> u32" where
  "align n alignment = (n + alignment - 1) AND NOT (alignment - 1)"

subsection \<open>What they compute\<close>

definition hex_value :: "byte list \<Rightarrow> nat" where
  "hex_value s = foldl (\<lambda>a c. 16 * a + unat (hex_digit c)) 0 s"

lemma hex_loop_eq:
  "(\<forall>i < length s. m (p + i) = s ! i) \<Longrightarrow>
   hex_loop (length s) m p (of_nat a) = of_nat (foldl (\<lambda>a c. 16 * a + unat (hex_digit c)) a s)"
proof (induction s arbitrary: p a)
  case (Cons c s)
  have e: "push_bit 4 (of_nat a) + hex_digit c = (of_nat (16 * a + unat (hex_digit c)) :: u32)"
    by (simp add: push_bit_eq_mult)
  have "\<forall>i < length s. m (p + 1 + i) = s ! i" "m p = c" using Cons.prems by (auto simp: All_less_Suc2)
  with Cons.IH [of "p + 1"] show ?case by (simp add: e del: of_nat_add of_nat_mult)
qed simp

lemma hex_to_uint_eq:
  "(\<forall>i < length s. m (p + i) = s ! i) \<Longrightarrow> length s < 2 ^ 32 \<Longrightarrow>
   hex_to_uint m p (of_nat (length s)) = of_nat (hex_value s)"
  using hex_loop_eq [of s m p 0] by (simp add: hex_to_uint_def hex_value_def unat_of_nat)

lemma hex_digit_less: "unat (hex_digit c) < 16"
proof -
  consider "0x30 \<le> c \<and> c \<le> 0x39" | "0x61 \<le> c \<and> c \<le> 0x66" | "0x41 \<le> c \<and> c \<le> 0x46"
    | "hex_digit c = 0" by (metis hex_digit_def)
  then have "\<exists>k < 16. hex_digit c = of_nat k"
  proof cases
    case 1
    then show ?thesis
      by (intro exI [of _ "unat c - 0x30"]) (auto simp: hex_digit_def word_le_nat_alt of_nat_diff)
  next
    case 2
    then show ?thesis
      by (intro exI [of _ "unat c - 0x57"]) (auto simp: hex_digit_def word_le_nat_alt of_nat_diff)
  next
    case 3
    then show ?thesis
      by (intro exI [of _ "unat c - 0x37"]) (auto simp: hex_digit_def word_le_nat_alt of_nat_diff)
  next
    case 4
    then show ?thesis by (intro exI [of _ 0]) simp
  qed
  then show ?thesis by (auto simp: unat_of_nat)
qed

lemma hex_value_bound: "hex_value s < 16 ^ length s"
proof -
  have "foldl (\<lambda>a c. 16 * a + unat (hex_digit c)) a s < (a + 1) * 16 ^ length s" for a
  proof (induction s arbitrary: a)
    case (Cons c s)
    have "foldl (\<lambda>a c. 16 * a + unat (hex_digit c)) a (c # s) < (16 * a + unat (hex_digit c) + 1) * 16 ^ length s"
      using Cons.IH by simp
    also have "\<dots> \<le> ((a + 1) * 16) * 16 ^ length s"
      using hex_digit_less [of c] by (intro mult_le_mono1) simp
    finally show ?case by (simp add: algebra_simps)
  qed simp
  from this [of 0] show ?thesis by (simp add: hex_value_def)
qed

text \<open>Decimal strings.\<close>

fun decimal :: "nat \<Rightarrow> byte list" where
  "decimal n = (if n < 10 then [of_nat (n + 0x30)] else decimal (n div 10) @ [of_nat (n mod 10 + 0x30)])"

declare decimal.simps [simp del]

definition int_string :: "int \<Rightarrow> byte list" where
  "int_string n = (if n < 0 then 0x2D # decimal (nat (- n)) else decimal (nat n))"

lemma decimal_length: "n < 10 ^ Suc k \<Longrightarrow> length (decimal n) \<le> Suc k"
proof (induction k arbitrary: n)
  case 0
  then show ?case by (subst decimal.simps) simp
next
  case (Suc k)
  then have "n div 10 < 10 ^ Suc k" by (simp add: div_less_iff_less_mult mult.commute)
  from Suc.IH [OF this] show ?case by (subst decimal.simps) simp
qed

lemma decimal_nonempty [simp]: "decimal n \<noteq> []"
  by (subst decimal.simps) simp

lemma digits_eq:
  "0 < n \<Longrightarrow> i + length (decimal n) \<le> length buf \<Longrightarrow>
   itoa_digits (int n) i buf =
     (i + length (decimal n), take i buf @ rev (decimal n) @ drop (i + length (decimal n)) buf)"
proof (induction n arbitrary: i buf rule: less_induct)
  case (less n)
  let ?b = "buf[i := of_nat (n mod 10 + 0x30)]"
  have "int n smod 10 = int (n mod 10)" by (simp add: smod_nonneg zmod_int)
  then have "of_int (int n smod 10 + 0x30) = (of_nat (n mod 10 + 0x30) :: byte)" by simp
  moreover have "int n sdiv 10 = int (n div 10)" by (simp add: sdiv_nonneg zdiv_int)
  ultimately have step: "itoa_digits (int n) i buf = itoa_digits (int (n div 10)) (i + 1) ?b"
    using less.prems(1) by (subst itoa_digits.simps) simp
  have i: "i < length buf" using less.prems(2) by (cases "decimal n") auto
  have tk: "take (Suc i) ?b = take i buf @ [of_nat (n mod 10 + 0x30)]"
    using i by (simp add: take_Suc_conv_app_nth)
  show ?case
  proof (cases "n < 10")
    case True
    then have d: "decimal n = [of_nat (n + 0x30)]" by (simp add: decimal.simps)
    have "?b = take i buf @ of_nat (n + 0x30) # drop (Suc i) buf"
      using i True by (simp add: upd_conv_take_nth_drop)
    then show ?thesis using True unfolding step d by (simp add: itoa_digits.simps)
  next
    case False
    then have d: "decimal n = decimal (n div 10) @ [of_nat (n mod 10 + 0x30)]" by (subst decimal.simps) simp
    have "itoa_digits (int (n div 10)) (i + 1) ?b =
      (i + 1 + length (decimal (n div 10)),
       take (i + 1) ?b @ rev (decimal (n div 10)) @ drop (i + 1 + length (decimal (n div 10))) ?b)"
      using False less.prems(2) d by (intro less.IH) auto
    then show ?thesis unfolding step d by (simp add: tk del: of_nat_add)
  qed
qed

lemma reverse_loop:
  assumes "i \<le> length buf" "n \<le> i div 2"
  shows "length (itoa_reverse n i buf) = length buf \<and>
    (\<forall>k < length buf. itoa_reverse n i buf ! k =
       (if k < n \<or> i - n \<le> k \<and> k < i then buf ! (i - Suc k) else buf ! k))"
  using assms
proof (induction n)
  case (Suc n)
  then have IH: "length (itoa_reverse n i buf) = length buf"
    "\<And>k. k < length buf \<Longrightarrow> itoa_reverse n i buf ! k =
       (if k < n \<or> i - n \<le> k \<and> k < i then buf ! (i - Suc k) else buf ! k)" by auto
  have n: "Suc n + n < i \<or> Suc n + n = i" "n < i" using Suc.prems(2) by auto
  show ?case
    using IH n Suc.prems by (auto simp: Let_def nth_list_update)
qed auto

lemma reverse_eq:
  assumes "i \<le> length buf"
  shows "itoa_reverse (i div 2) i buf = rev (take i buf) @ drop i buf"
proof (rule nth_equalityI)
  note r = reverse_loop [OF assms order_refl]
  show "length (itoa_reverse (i div 2) i buf) = length (rev (take i buf) @ drop i buf)"
    using r assms by simp
  fix k assume "k < length (itoa_reverse (i div 2) i buf)"
  then have k: "k < length buf" using r by simp
  have mid: "\<not> (k < i div 2 \<or> i - i div 2 \<le> k \<and> k < i) \<Longrightarrow> k < i \<Longrightarrow> i - Suc k = k" by linarith
  show "itoa_reverse (i div 2) i buf ! k = (rev (take i buf) @ drop i buf) ! k"
    using r k assms mid by (auto simp: nth_append rev_nth)
qed

lemma itoa_eq:
  assumes n: "- (2 ^ 31) < n" "n < 2 ^ 31" and buf: "length buf = 12"
  shows "length (int_string n) \<le> 11"
    and "itoa n buf = Some (int_string n @ 0 # drop (Suc (length (int_string n))) buf)"
proof -
  let ?k = "nat \<bar>n\<bar>" and ?d = "decimal (nat \<bar>n\<bar>)"
  have "?k < 10 ^ Suc 9" using n by simp
  then have d: "length ?d \<le> 10" using decimal_length by fastforce
  then show "length (int_string n) \<le> 11" by (auto simp: int_string_def)
  show "itoa n buf = Some (int_string n @ 0 # drop (Suc (length (int_string n))) buf)"
  proof (cases "n = 0")
    case True
    have "itoa 0 buf = Some (buf[0 := 0x30, Suc 0 := 0])" by (simp add: itoa_def)
    moreover have "decimal 0 = [0x30]" by (simp add: decimal.simps)
    moreover obtain a b r where "buf = a # b # r" using buf by (auto simp: length_Suc_conv numeral_eq_Suc)
    ultimately show ?thesis using True by (simp add: int_string_def)
  next
    case False
    have dg: "itoa_digits (int ?k) 0 buf = (length ?d, rev ?d @ drop (length ?d) buf)"
      using digits_eq [of ?k 0 buf] False d buf by simp
    obtain x y r where r: "drop (length ?d) buf = x # y # r"
    proof -
      have "2 \<le> length (drop (length ?d) buf)" using d buf by simp
      then show ?thesis using that unfolding numeral_2_eq_2 Suc_le_length_iff by blast
    qed
    have r1: "drop (Suc (length ?d)) buf = y # r" and r2: "drop (Suc (Suc (length ?d))) buf = r"
      using r by (metis drop_Suc list.sel(3) tl_drop)+
    show ?thesis
    proof (cases "n < 0")
      case True
      have "itoa n buf = Some (itoa_reverse (Suc (length ?d) div 2) (Suc (length ?d)) (rev ?d @ 0x2D # 0 # r))"
        using True n(1) dg r by (simp add: itoa_def Let_def list_update_append)
      also have "\<dots> = Some (0x2D # ?d @ 0 # r)" by (subst reverse_eq) simp_all
      finally show ?thesis using True r2 by (simp add: int_string_def)
    next
      case pos: False
      have "itoa n buf = Some (itoa_reverse (length ?d div 2) (length ?d) (rev ?d @ 0 # y # r))"
        using pos False dg r by (simp add: itoa_def Let_def list_update_append)
      also have "\<dots> = Some (?d @ 0 # y # r)" by (subst reverse_eq) simp_all
      finally show ?thesis using pos r1 by (simp add: int_string_def)
    qed
  qed
qed

lemma atoi_decimal:
  assumes "cstr m p (decimal n @ s)" "n < 2 ^ 31 - 48"
  shows "atoi_loop m p 0 = atoi_loop m (p + length (decimal n)) (int n)"
  using assms
proof (induction n arbitrary: s rule: less_induct)
  case (less n)
  have u: "uint (of_nat (k + 0x30) :: byte) = int k + 0x30" if "k < 10" for k
    using that by (simp add: uint_nat unat_of_nat flip: of_nat_add)
  have nz: "(of_nat (k + 0x30) :: byte) \<noteq> 0" if "k < 10" for k using u [OF that] by auto
  show ?case
  proof (cases "n < 10")
    case True
    then have d: "decimal n = [of_nat (n + 0x30)]" by (simp add: decimal.simps)
    then have "m p = of_nat (n + 0x30)" using less.prems(1) by simp
    then show ?thesis using u [OF True] nz [OF True] True
      by (subst atoi_loop.simps) (simp add: d in_s32_def)
  next
    case False
    let ?q = "n div 10" and ?c = "of_nat (n mod 10 + 0x30) :: byte"
    have d: "decimal n = decimal ?q @ [?c]" using False by (subst decimal.simps) simp
    have "atoi_loop m p 0 = atoi_loop m (p + length (decimal ?q)) (int ?q)"
      using False less.prems by (intro less.IH [of ?q "?c # s"]) (auto simp: d)
    moreover have c: "m (p + length (decimal ?q)) = ?c"
      using less.prems(1) unfolding d by (simp add: cstr_append)
    have m10: "n mod 10 < 10" by simp
    have n: "int n = int ?q * 10 + int (n mod 10)" by presburger
    have b: "in_s32 (int ?q * 10)" "in_s32 (int ?q * 10 + (int (n mod 10) + 48))" "in_s32 (int n)"
      using less.prems(2) n unfolding in_s32_def by auto
    have "atoi_loop m (p + length (decimal ?q)) (int ?q) = atoi_loop m (p + length (decimal ?q) + 1) (int n)"
      using b n nz [OF m10] u [OF m10] c
      by (subst atoi_loop.simps) (simp add: algebra_simps)
    ultimately show ?thesis by (simp add: d)
  qed
qed

lemma atoi_eq:
  assumes "cstr m p (decimal n)" "n < 2 ^ 31 - 48"
  shows "atoi m p = Some (int n)"
proof -
  have "m (p + length (decimal n)) = 0" using assms(1) by (simp add: cstr_def)
  then have "atoi_loop m (p + length (decimal n)) (int n) = Some (int n)" by (simp add: atoi_loop.simps)
  then show ?thesis using atoi_decimal [of m p n "[]"] assms by (simp add: atoi_def)
qed

subsection \<open>Byte order and alignment\<close>

text \<open>Byte \<open>i\<close> of the result is byte \<open>3 - i\<close> of the argument.\<close>

lemma be2le_bit:
  assumes "n < 32"
  shows "bit (be2le_u32 x) n = bit x (8 * (3 - n div 8) + n mod 8)"
proof -
  have m: "(0xFF :: u32) = mask 8" "(0xFF00 :: u32) = push_bit 8 (mask 8)"
    "(0xFF0000 :: u32) = push_bit 16 (mask 8)" "(0xFF000000 :: u32) = push_bit 24 (mask 8)"
    by (simp_all add: mask_eq_exp_minus_1 push_bit_eq_mult)
  define j where "j = n mod 8"
  have j: "j < 8" by (simp add: j_def)
  have n: "n = 8 * (n div 8) + j" by (simp add: j_def)
  consider "n div 8 = 0" | "n div 8 = 1" | "n div 8 = 2" | "n div 8 = 3" using assms by linarith
  then consider "n = j" "n div 8 = 0" | "n = 8 + j" "n div 8 = 1" | "n = 16 + j" "n div 8 = 2"
    | "n = 24 + j" "n div 8 = 3"
    using n by cases auto
  then have "bit (be2le_u32 x) n = bit x (8 * (3 - n div 8) + j)"
  proof cases
    case 1
    then show ?thesis using j unfolding be2le_u32_def m by (simp add: bit_simps)
  next
    case 2
    then show ?thesis using j unfolding be2le_u32_def m by (simp add: bit_simps)
  next
    case 3
    then show ?thesis using j unfolding be2le_u32_def m by (simp add: bit_simps)
  next
    case 4
    then show ?thesis using j unfolding be2le_u32_def m by (simp add: bit_simps)
  qed
  then show ?thesis by (simp add: j_def)
qed

lemma be2le_involution: "be2le_u32 (be2le_u32 x) = x"
proof (rule bit_word_eqI)
  fix n assume "n < LENGTH(32)"
  then have n: "n < 32" by simp
  let ?n = "8 * (3 - n div 8) + n mod 8"
  have q: "n div 8 \<le> 3" "n mod 8 < 8" using n by linarith+
  have "?n div 8 = 3 - n div 8" "?n mod 8 = n mod 8" using q(2) by simp_all
  moreover have "?n < 32" using q by linarith
  ultimately have "bit (be2le_u32 (be2le_u32 x)) n = bit x (8 * (3 - (3 - n div 8)) + n mod 8)"
    using be2le_bit [OF n] be2le_bit [of ?n] by simp
  also have "8 * (3 - (3 - n div 8)) + n mod 8 = n" using q by simp
  finally show "bit (be2le_u32 (be2le_u32 x)) n = bit x n" .
qed

lemma align_eq:
  assumes "k < 32" "unat n + 2 ^ k \<le> 2 ^ 32"
  shows "unat (align n (2 ^ k)) = (unat n + 2 ^ k - 1) div 2 ^ k * 2 ^ k"
proof -
  let ?x = "n + 2 ^ k - 1"
  have k: "(2 ^ k :: u32) - 1 = mask k" by (simp add: mask_eq_exp_minus_1)
  have "?x AND NOT (mask k) = push_bit k (drop_bit k ?x)"
    by (rule bit_word_eqI) (auto simp: bit_simps)
  then have "align n (2 ^ k) = push_bit k (drop_bit k ?x)" by (simp add: align_def k)
  moreover have u: "unat ?x = unat n + 2 ^ k - 1"
  proof -
    have "1 \<le> unat n + 2 ^ k" by (simp add: Suc_le_eq)
    then have "?x = of_nat (unat n + 2 ^ k - 1)" by (simp only: of_nat_diff) simp
    then have "unat ?x = (unat n + 2 ^ k - 1) mod 2 ^ 32" by (simp only: unat_of_nat len_num1 len_bit0 len_bit1) simp
    moreover have "0 < (2::nat) ^ k" by simp
    then have "unat n + 2 ^ k - 1 < 2 ^ 32" using assms(2) by linarith
    ultimately show ?thesis by simp
  qed
  have "unat (push_bit k (drop_bit k ?x)) = unat ?x div 2 ^ k * 2 ^ k"
  proof -
    have "unat (push_bit k (drop_bit k ?x)) = take_bit 32 (push_bit k (unat (drop_bit k ?x)))"
      by (simp add: unsigned_push_bit_eq)
    also have "unat (drop_bit k ?x) = unat ?x div 2 ^ k" 
      using take_bit_nat_eq_self [of "unat ?x" 32] unsigned_less [of ?x, where 'a = nat]
      by (subst unsigned_drop_bit_eq) (simp add: drop_bit_eq_div)
    also have "take_bit 32 (push_bit k (unat ?x div 2 ^ k)) = unat ?x div 2 ^ k * 2 ^ k"
    proof -
      have "unat ?x div 2 ^ k * 2 ^ k \<le> unat ?x" by simp
      also have "unat ?x < 2 ^ 32" using unsigned_less [of ?x] by simp
      finally show ?thesis by (simp add: push_bit_eq_mult take_bit_nat_eq_self)
    qed
    finally show ?thesis .
  qed
  ultimately show ?thesis by (simp only: u)
qed

text \<open>The least multiple of the alignment that is not below \<open>n\<close>.\<close>

lemma align_least:
  assumes "k < 32" "unat n + 2 ^ k \<le> 2 ^ 32"
  shows "2 ^ k dvd unat (align n (2 ^ k))" and "unat n \<le> unat (align n (2 ^ k))"
    and "unat (align n (2 ^ k)) < unat n + 2 ^ k"
proof -
  let ?a = "unat n + 2 ^ k - 1"
  have e: "unat (align n (2 ^ k)) = ?a div 2 ^ k * 2 ^ k" by (rule align_eq [OF assms])
  show "2 ^ k dvd unat (align n (2 ^ k))" unfolding e by simp
  have pos: "0 < (2::nat) ^ k" by simp
  have "?a div 2 ^ k * 2 ^ k + ?a mod 2 ^ k = ?a" by (rule div_mult_mod_eq)
  moreover have "?a mod 2 ^ k < 2 ^ k" using pos by (rule mod_less_divisor)
  ultimately show "unat n \<le> unat (align n (2 ^ k))" "unat (align n (2 ^ k)) < unat n + 2 ^ k"
    unfolding e using pos by linarith+
qed

end
