(* ===== verification/Fifo.thy ===== *)
theory Fifo
  imports Prelude
begin

section \<open>The contract of a queue\<close>

text \<open>
  The receive and transmit rings of the UART (src/uart.c) and the thread queues (src/sched.c) are
  queues: what is put in and accepted comes out, in order, once. \<open>fifo\<close> is that contract for one
  \<open>put\<close>, one \<open>get\<close> and one internal step \<open>tick\<close> (an interrupt that moves items along); its client's
  theorem is about any interleaving of them, as an interrupt handler and the code it interrupts
  produce. \<open>fits\<close> says which contents the queue can have. A \<open>get\<close> may report that nothing is there
  yet; in a \<open>prompt_fifo\<close> it only does so when the queue is empty.
\<close>

datatype 'a fifo_op = Fput 'a | Fget | Ftick

text \<open>The items accepted, the items taken out, and the final state of a run.\<close>

fun fifo_run :: "('a \<Rightarrow> 's \<Rightarrow> bool \<times> 's) \<Rightarrow> ('s \<Rightarrow> 'a option \<times> 's) \<Rightarrow> ('s \<Rightarrow> 's) \<Rightarrow> 'a fifo_op list \<Rightarrow> 's \<Rightarrow>
    'a list \<times> 'a list \<times> 's" where
  "fifo_run put get tick [] s = ([], [], s)"
| "fifo_run put get tick (Fput a # ops) s =
     (case put a s of (ok, s1) \<Rightarrow>
        case fifo_run put get tick ops s1 of (ins, outs, s2) \<Rightarrow> ((if ok then a # ins else ins), outs, s2))"
| "fifo_run put get tick (Fget # ops) s =
     (case get s of (r, s1) \<Rightarrow>
        case fifo_run put get tick ops s1 of (ins, outs, s2) \<Rightarrow>
          (ins, (case r of None \<Rightarrow> outs | Some a \<Rightarrow> a # outs), s2))"
| "fifo_run put get tick (Ftick # ops) s = fifo_run put get tick ops (tick s)"

fun puts :: "'a fifo_op list \<Rightarrow> 'a list" where
  "puts [] = []"
| "puts (Fput a # ops) = a # puts ops"
| "puts (Fget # ops) = puts ops"
| "puts (Ftick # ops) = puts ops"

lemma puts_replicate [simp]: "puts (replicate n Fget) = []"
  by (induction n) simp_all

locale fifo =
  fixes holds :: "'s \<Rightarrow> 'a list \<Rightarrow> bool"
    and fits :: "'a list \<Rightarrow> bool"
    and put :: "'a \<Rightarrow> 's \<Rightarrow> bool \<times> 's"
    and get :: "'s \<Rightarrow> 'a option \<times> 's"
    and tick :: "'s \<Rightarrow> 's"
  assumes fits_drop: "fits (xs @ a # ys) \<Longrightarrow> fits (xs @ ys)"
    and put_ok: "holds s xs \<Longrightarrow> fits (xs @ [a]) \<Longrightarrow> put a s = (ok, s') \<Longrightarrow>
                   holds s' (if ok then xs @ [a] else xs)"
    and get_none: "holds s xs \<Longrightarrow> get s = (None, s') \<Longrightarrow> holds s' xs"
    and get_some: "holds s xs \<Longrightarrow> get s = (Some x, s') \<Longrightarrow> \<exists>ys. xs = x # ys \<and> holds s' ys"
    and tick_ok: "holds s xs \<Longrightarrow> holds (tick s) xs"
begin

lemma fits_suffix: "fits (xs @ ys) \<Longrightarrow> fits xs"
proof (induction ys)
  case (Cons a ys)
  then show ?case using fits_drop by blast
qed simp

lemma run_ok:
  assumes "holds s xs" "fits (xs @ puts ops)" "fifo_run put get tick ops s = (ins, outs, s')"
  shows "\<exists>ys. holds s' ys \<and> xs @ ins = outs @ ys"
  using assms
proof (induction ops arbitrary: s xs ins outs s')
  case Nil
  then show ?case by auto
next
  case (Cons p ops)
  show ?case
  proof (cases p)
    case (Fput a)
    obtain ok s1 where p1: "put a s = (ok, s1)" by (cases "put a s")
    obtain ins1 outs1 s2 where r: "fifo_run put get tick ops s1 = (ins1, outs1, s2)"
      by (cases "fifo_run put get tick ops s1") auto
    have e: "ins = (if ok then a # ins1 else ins1)" "outs = outs1" "s2 = s'"
      using Cons.prems(3) Fput p1 r by auto
    have f: "fits (xs @ a # puts ops)" using Cons.prems(2) Fput by simp
    then have "fits (xs @ [a])" using fits_suffix [of "xs @ [a]" "puts ops"] by simp
    then have "holds s1 (if ok then xs @ [a] else xs)" using put_ok [OF Cons.prems(1) _ p1] by blast
    moreover have "fits ((if ok then xs @ [a] else xs) @ puts ops)"
      using f fits_drop by auto
    ultimately obtain ys where "holds s2 ys" "(if ok then xs @ [a] else xs) @ ins1 = outs1 @ ys"
      using Cons.IH [OF _ _ r] by blast
    then show ?thesis using e by (cases ok) auto
  next
    case Fget
    obtain r s1 where p1: "get s = (r, s1)" by (cases "get s")
    obtain ins1 outs1 s2 where rr: "fifo_run put get tick ops s1 = (ins1, outs1, s2)"
      by (cases "fifo_run put get tick ops s1") auto
    have e: "ins = ins1" "outs = (case r of None \<Rightarrow> outs1 | Some a \<Rightarrow> a # outs1)" "s2 = s'"
      using Cons.prems(3) Fget p1 rr by auto
    show ?thesis
    proof (cases r)
      case None
      then have "holds s1 xs" using get_none [OF Cons.prems(1)] p1 by simp
      then show ?thesis using Cons.IH [OF _ _ rr, of xs] Cons.prems(2) Fget e None by auto
    next
      case (Some x)
      then obtain zs where h: "xs = x # zs" "holds s1 zs" using get_some [OF Cons.prems(1)] p1 by blast
      have "fits (zs @ puts ops)" using fits_drop [of "[]" x "zs @ puts ops"] Cons.prems(2) h(1) Fget by simp
      then obtain ys where "holds s2 ys" "zs @ ins1 = outs1 @ ys" using Cons.IH [OF h(2) _ rr] by blast
      then show ?thesis using e h(1) Some by auto
    qed
  next
    case Ftick
    then show ?thesis using Cons.IH [OF tick_ok [OF Cons.prems(1)], of ins outs s'] Cons.prems(2,3) by simp
  qed
qed

text \<open>From the empty queue: what comes out is a prefix of what was accepted.\<close>

lemma run_prefix:
  assumes "holds s []" "fits (puts ops)" "fifo_run put get tick ops s = (ins, outs, s')"
  shows "prefix outs ins" and "holds s' (drop (length outs) ins)"
proof -
  obtain ys where "holds s' ys" "ins = outs @ ys" using run_ok [OF assms(1) _ assms(3)] assms(2) by auto
  then show "prefix outs ins" "holds s' (drop (length outs) ins)" by auto
qed

end

locale prompt_fifo = fifo +
  assumes get_ready: "holds s (x # xs) \<Longrightarrow> fst (get s) = Some x"
begin

text \<open>As many \<open>get\<close>s as there are items empty the queue.\<close>

lemma drain:
  assumes "holds s xs"
  shows "\<exists>s'. fifo_run put get tick (replicate (length xs) Fget) s = ([], xs, s') \<and> holds s' []"
  using assms
proof (induction xs arbitrary: s)
  case (Cons x xs)
  obtain s1 where s1: "get s = (Some x, s1)" using get_ready [OF Cons.prems] by (cases "get s") auto
  then have "holds s1 xs" using get_some [OF Cons.prems] by blast
  then show ?case using Cons.IH s1 by fastforce
qed simp

end

subsection \<open>Ring buffers\<close>

text \<open>
  The bytes between \<open>tail\<close> and \<open>head\<close> of a ring of \<open>n\<close> cells, one of which stays empty: the ring is
  full when the head is one before the tail.
\<close>

definition ring :: "nat \<Rightarrow> (nat \<Rightarrow> 'a) \<Rightarrow> nat \<Rightarrow> nat \<Rightarrow> 'a list \<Rightarrow> bool" where
  "ring n buf head tail xs \<longleftrightarrow> head < n \<and> tail < n \<and> length xs < n \<and> head = (tail + length xs) mod n \<and>
     (\<forall>i < length xs. buf ((tail + i) mod n) = xs ! i)"

lemma ring_full_iff: "ring n buf head tail xs \<Longrightarrow> (head + 1) mod n = tail \<longleftrightarrow> Suc (length xs) = n"
  unfolding ring_def
  by (cases "tail + length xs < n"; cases "tail + length xs + 1 < n")
     (auto simp: mod_if le_mod_geq split: if_splits)

lemma ring_empty_iff: "ring n buf head tail xs \<Longrightarrow> head = tail \<longleftrightarrow> xs = []"
  unfolding ring_def by (cases "tail + length xs < n") (auto simp: mod_if)

lemma mod_add_neq:
  fixes t i j n :: nat
  assumes "i < j" "j < n"
  shows "(t + i) mod n \<noteq> (t + j) mod n"
proof
  assume "(t + i) mod n = (t + j) mod n"
  then have "n dvd (t + j) - (t + i)" using assms(1) mod_eq_dvd_iff_nat [of "t + i" "t + j" n] by simp
  then have "n dvd j - i" by simp
  then show False using assms by (auto dest: dvd_imp_le)
qed

lemma ring_put:
  assumes r: "ring n buf head tail xs" and "Suc (length xs) < n"
  shows "ring n (buf(head := c)) ((head + 1) mod n) tail (xs @ [c])"
  unfolding ring_def
proof (intro conjI allI impI)
  have h: "head = (tail + length xs) mod n" "tail < n" using r by (auto simp: ring_def)
  show "(head + 1) mod n < n" "tail < n" "length (xs @ [c]) < n" using assms(2) h(2) by auto
  show "(head + 1) mod n = (tail + length (xs @ [c])) mod n" unfolding h(1) by (simp add: mod_simps)
  fix i assume "i < length (xs @ [c])"
  then consider "i < length xs" | "i = length xs" by fastforce
  then show "(buf(head := c)) ((tail + i) mod n) = (xs @ [c]) ! i"
  proof cases
    case 1
    then have "(tail + i) mod n \<noteq> head" using mod_add_neq [of i "length xs" n tail] assms(2) h(1) by simp
    then show ?thesis using r 1 by (simp add: ring_def nth_append)
  next
    case 2
    then show ?thesis using h(1) by simp
  qed
qed

lemma ring_get:
  assumes "ring n buf head tail (x # xs)"
  shows "buf tail = x" and "ring n buf head ((tail + 1) mod n) xs"
proof -
  have h: "head < n" "tail < n" "Suc (length xs) < n" "head = (tail + Suc (length xs)) mod n"
    "\<And>i. i < Suc (length xs) \<Longrightarrow> buf ((tail + i) mod n) = (x # xs) ! i"
    using assms by (auto simp: ring_def)
  show "buf tail = x" using h(5) [of 0] h(2) by simp
  have "buf (((tail + 1) mod n + i) mod n) = xs ! i" if "i < length xs" for i
    using h(5) [of "Suc i"] that by (simp add: mod_simps)
  then show "ring n buf head ((tail + 1) mod n) xs"
    unfolding ring_def using h by (auto simp: mod_simps)
qed

end
