(* ===== verification/Uart.thy ===== *)
theory Uart
  imports Tasks Utils Fifo
begin

section \<open>The mini UART driver (src/uart.c)\<close>

text \<open>
  The two ring buffers live in memory, at \<open>rx_buffer\<close> and \<open>tx_buffer\<close>; their indices are the
  code's \<open>unsigned long\<close>s, which stay below \<open>BUFFER_SIZE\<close>. Of the hardware, \<open>line_in\<close> are the
  bytes that have arrived and have not been read from the data register, \<open>line_out\<close> those written to it;
  \<open>line_idle\<close> is what the data register reads when nothing has arrived. The data-ready bit of the
  status register says whether \<open>line_in\<close> is empty. The transmitter is taken to become ready
  eventually, so waiting for it does not show; waiting for a byte that never arrives is \<open>None\<close>.
\<close>

definition BUFFER_SIZE :: nat where "BUFFER_SIZE = 4096"

record uart =
  u_mem :: mem
  rx_buffer :: addr
  tx_buffer :: addr
  rx_buffer_head :: nat
  rx_buffer_tail :: nat
  tx_buffer_head :: nat
  tx_buffer_tail :: nat
  AUX_MU_IER :: u32
  ENABLE_IRQS_1 :: u32
  line_in :: "byte list"
  line_out :: "byte list"
  line_idle :: byte

subsection \<open>The registers\<close>

definition AUX_MU_LSR :: "uart \<Rightarrow> u32" where
  "AUX_MU_LSR s = (if line_in s = [] then 0x20 else 0x21)"

definition io_read :: "uart \<Rightarrow> byte \<times> uart" where
  "io_read s = (case line_in s of [] \<Rightarrow> (line_idle s, s) | c # cs \<Rightarrow> (c, s\<lparr>line_in := cs\<rparr>))"

definition io_write :: "byte \<Rightarrow> uart \<Rightarrow> uart" where
  "io_write c s = s\<lparr>line_out := line_out s @ [c]\<rparr>"

definition uart_enable_irq :: "uart \<Rightarrow> uart" where
  "uart_enable_irq s = s\<lparr>AUX_MU_IER := AUX_MU_IER s OR 0x03, ENABLE_IRQS_1 := ENABLE_IRQS_1 s OR push_bit 29 1\<rparr>"

definition uart_enable_rx_irq :: "uart \<Rightarrow> uart" where
  "uart_enable_rx_irq s = s\<lparr>AUX_MU_IER := AUX_MU_IER s OR 0x01, ENABLE_IRQS_1 := ENABLE_IRQS_1 s OR push_bit 29 1\<rparr>"

definition uart_enable_tx_irq :: "uart \<Rightarrow> uart" where
  "uart_enable_tx_irq s = s\<lparr>AUX_MU_IER := AUX_MU_IER s OR 0x02, ENABLE_IRQS_1 := ENABLE_IRQS_1 s OR push_bit 29 1\<rparr>"

definition uart_disable_irq :: "uart \<Rightarrow> uart" where
  "uart_disable_irq s = s\<lparr>AUX_MU_IER := AUX_MU_IER s AND NOT 0x03,
     ENABLE_IRQS_1 := ENABLE_IRQS_1 s AND NOT (push_bit 29 1)\<rparr>"

definition uart_disable_rx_irq :: "uart \<Rightarrow> uart" where
  "uart_disable_rx_irq s = s\<lparr>AUX_MU_IER := AUX_MU_IER s AND NOT 0x01\<rparr>"

definition uart_disable_tx_irq :: "uart \<Rightarrow> uart" where
  "uart_disable_tx_irq s = s\<lparr>AUX_MU_IER := AUX_MU_IER s AND NOT 0x02\<rparr>"

lemmas uart_irq_defs = uart_enable_irq_def uart_enable_rx_irq_def uart_enable_tx_irq_def
  uart_disable_irq_def uart_disable_rx_irq_def uart_disable_tx_irq_def

subsection \<open>Initialisation\<close>

text \<open>The remaining registers, which only \<open>init_uart\<close> touches.\<close>

record uart_setup =
  AUXENB :: u32
  AUX_MU_CNTL :: u32
  AUX_MU_LCR :: u32
  AUX_MU_MCR :: u32
  AUX_MU_BAUD :: u32
  AUX_MU_IIR_W :: u32
  GPFSEL1 :: u32
  GPPUD :: u32
  GPPUDCLK0 :: "u32 list"

text \<open>\<open>GPPUDCLK0\<close> is the list of the values written: the pulse is what matters.\<close>

definition init_registers :: "uart_setup \<Rightarrow> uart_setup" where
  "init_registers r =
     (let r1 = r\<lparr>AUXENB := AUXENB r OR 1, AUX_MU_CNTL := 0, AUX_MU_LCR := 3, AUX_MU_MCR := 0,
                 AUX_MU_BAUD := 270, AUX_MU_IIR_W := 6\<rparr>;
          selector = GPFSEL1 r1 AND (NOT (push_bit 12 7) OR NOT (push_bit 15 7));
          selector' = selector OR (push_bit 12 2 OR push_bit 15 2)
      in r1\<lparr>GPFSEL1 := selector', GPPUD := 0,
            GPPUDCLK0 := GPPUDCLK0 r1 @ [push_bit 14 1 OR push_bit 15 1, 0], AUX_MU_CNTL := 3\<rparr>)"

definition init_uart :: "heap \<times> uart_setup \<times> uart \<Rightarrow> (heap \<times> uart_setup \<times> uart) option" where
  "init_uart hrs = (case hrs of (h, r, s) \<Rightarrow> do {
     let r1 = init_registers r;
     let s1 = s\<lparr>AUX_MU_IER := 0\<rparr>;
     (rx, h1) \<leftarrow> alloc (of_nat BUFFER_SIZE) h;
     let s2 = s1\<lparr>rx_buffer := rx\<rparr>;
     (tx, h2) \<leftarrow> alloc (of_nat BUFFER_SIZE) h1;
     Some (h2, r1, s2\<lparr>tx_buffer := tx\<rparr>)
   })"

subsection \<open>Polled input and output\<close>

text \<open>The two loops of \<open>uart_flush\<close> are \<open>uart_flush_rx\<close> and \<open>uart_flush_tx\<close>.\<close>

function uart_flush_rx :: "uart \<Rightarrow> uart" where
  "uart_flush_rx s = (if AUX_MU_LSR s AND 0x01 \<noteq> 0 then uart_flush_rx (snd (io_read s)) else s)"
  by auto
termination
  by (relation "measure (\<lambda>s. length (line_in s))")
     (auto simp: AUX_MU_LSR_def io_read_def split: list.splits if_splits)

declare uart_flush_rx.simps [simp del]

definition uart_getc :: "uart \<Rightarrow> (byte \<times> uart) option" where
  "uart_getc s = (if AUX_MU_LSR s AND 0x1 = 0 then None else Some (io_read s))"

definition uart_putc :: "byte \<Rightarrow> uart \<Rightarrow> uart" where
  "uart_putc ch s = io_write ch s"

partial_function (option) uart_puts :: "addr \<Rightarrow> uart \<Rightarrow> uart option" where
  "uart_puts str s =
     (if u_mem s str \<noteq> 0 then
        uart_puts (str + 1)
          (if u_mem s str = 0x0A then uart_putc 0x0A (uart_putc 0x0D s) else uart_putc (u_mem s str) s)
      else Some s)"

text \<open>A string literal is not in the modelled memory; writing one is \<open>uart_puts\<close> on its characters.\<close>

fun uart_puts_lit :: "byte list \<Rightarrow> uart \<Rightarrow> uart" where
  "uart_puts_lit [] s = s"
| "uart_puts_lit (c # cs) s =
     uart_puts_lit cs (if c = 0x0A then uart_putc 0x0A (uart_putc 0x0D s) else uart_putc c s)"

function gets_loop :: "addr \<Rightarrow> uart \<Rightarrow> (addr \<times> uart) option" where
  "gets_loop ptr s =
     (case uart_getc s of
        None \<Rightarrow> None
      | Some (ch, s1) \<Rightarrow>
          if ch = 0x0D then Some (ptr, s1)
          else (let s2 = uart_putc ch s1 in gets_loop (ptr + 1) (s2\<lparr>u_mem := (u_mem s2)(ptr := ch)\<rparr>)))"
  by pat_completeness auto
termination
  by (relation "measure (\<lambda>(ptr, s). length (line_in s))")
     (auto simp: uart_getc_def AUX_MU_LSR_def io_read_def uart_putc_def io_write_def
           split: list.splits if_splits)

declare gets_loop.simps [simp del]

definition uart_gets :: "addr \<Rightarrow> uart \<Rightarrow> (addr \<times> uart) option" where
  "uart_gets buffer s =
     (case gets_loop buffer s of
        None \<Rightarrow> None
      | Some (ptr, s1) \<Rightarrow>
          let s2 = uart_puts_lit [0x0D, 0x0A] s1 in Some (buffer, s2\<lparr>u_mem := (u_mem s2)(ptr := 0)\<rparr>))"

primrec getn_loop :: "nat \<Rightarrow> addr \<Rightarrow> uart \<Rightarrow> (addr \<times> uart) option" where
  "getn_loop 0 ptr s = Some (ptr, s)"
| "getn_loop (Suc n) ptr s =
     (case uart_getc s of
        None \<Rightarrow> None
      | Some (ch, s1) \<Rightarrow> getn_loop n (ptr + 1) (s1\<lparr>u_mem := (u_mem s1)(ptr := ch)\<rparr>))"

definition uart_getn :: "addr \<Rightarrow> u32 \<Rightarrow> uart \<Rightarrow> (u32 \<times> uart) option" where
  "uart_getn buffer n s =
     (case getn_loop (unat n) buffer s of
        None \<Rightarrow> None
      | Some (ptr, s1) \<Rightarrow> Some (n, s1\<lparr>u_mem := (u_mem s1)(ptr := 0)\<rparr>))"

primrec putn_loop :: "nat \<Rightarrow> addr \<Rightarrow> uart \<Rightarrow> uart" where
  "putn_loop 0 str s = s"
| "putn_loop (Suc n) str s = putn_loop n (str + 1) (uart_putc (u_mem s str) s)"

definition uart_putn :: "addr \<Rightarrow> u32 \<Rightarrow> uart \<Rightarrow> u32 \<times> uart" where
  "uart_putn str n s = (n, putn_loop (unat n) str s)"

text \<open>\<open>k\<close> digits are left: \<open>c = 4 * (k - 1)\<close>.\<close>

primrec hex_out :: "nat \<Rightarrow> u32 \<Rightarrow> uart \<Rightarrow> uart" where
  "hex_out 0 d s = s"
| "hex_out (Suc k) d s =
     (let n = drop_bit (4 * k) d AND 0xF in
      hex_out k d (if n \<le> 9 then uart_putc (ucast (n + 0x30)) s else uart_putc (ucast (n - 10 + 0x61)) s))"

definition uart_hex :: "u32 \<Rightarrow> uart \<Rightarrow> uart" where
  "uart_hex d s = hex_out 8 d (uart_puts_lit [0x30, 0x78] s)"

text \<open>
  \<open>uart_int\<close> fills \<open>str[12]\<close> from the front and writes it backwards. The negation of the least
  \<open>int\<close> and a write beyond the array are \<open>None\<close>.
\<close>

function int_digits :: "int \<Rightarrow> nat \<Rightarrow> byte list \<Rightarrow> nat \<times> byte list" where
  "int_digits d i str =
     (let str' = str[i := of_int (d smod 10 + 0x30)]; d' = d sdiv 10
      in if 0 < d' then int_digits d' (i + 1) str' else (i + 1, str'))"
  by pat_completeness auto
termination
proof (relation "measure (\<lambda>(d, _). nat d)")
  fix d :: int and i :: nat and x y :: "byte list" and d'
  assume "d' = d sdiv 10" "0 < d'"
  moreover from this have "0 < d" by (cases "d < 0") (auto simp: signed_divide_int_def sgn_if split: if_splits)
  ultimately show "((d', i + 1, x), d, i, y) \<in> measure (\<lambda>(d, _). nat d)" by (auto simp: sdiv_nonneg)
qed simp

declare int_digits.simps [simp del]

primrec int_out :: "nat \<Rightarrow> byte list \<Rightarrow> uart \<Rightarrow> uart" where
  "int_out 0 str s = s"
| "int_out (Suc i) str s = int_out i str (uart_putc (str ! i) s)"

definition uart_int :: "int \<Rightarrow> uart \<Rightarrow> uart option" where
  "uart_int d s =
     (if d = - (2 ^ 31) then None
      else
        let s1 = (if d < 0 then uart_putc 0x2D s else s);
            (i, str) = int_digits (if d < 0 then - d else d) 0 (replicate 12 0)
        in if 12 < i then None else Some (int_out i str s1))"

subsection \<open>Buffered input and output\<close>

definition rx_full :: "uart \<Rightarrow> bool" where
  "rx_full s \<longleftrightarrow> (rx_buffer_head s + 1) mod BUFFER_SIZE = rx_buffer_tail s"

definition tx_full :: "uart \<Rightarrow> bool" where
  "tx_full s \<longleftrightarrow> (tx_buffer_head s + 1) mod BUFFER_SIZE = tx_buffer_tail s"

definition uart_irq_rx_handler :: "uart \<Rightarrow> uart" where
  "uart_irq_rx_handler s =
     (if rx_full s then uart_disable_rx_irq s
      else
        let (c, s1) = io_read s;
            s2 = s1\<lparr>u_mem := (u_mem s1)(rx_buffer s1 + rx_buffer_head s1 := c)\<rparr>
        in s2\<lparr>rx_buffer_head := (rx_buffer_head s2 + 1) mod BUFFER_SIZE\<rparr>)"

definition uart_irq_tx_handler :: "uart \<Rightarrow> uart" where
  "uart_irq_tx_handler s =
     (if tx_buffer_head s = tx_buffer_tail s then uart_disable_tx_irq s
      else
        let s1 = io_write (u_mem s (tx_buffer s + tx_buffer_tail s)) s
        in s1\<lparr>tx_buffer_tail := (tx_buffer_tail s1 + 1) mod BUFFER_SIZE\<rparr>)"

text \<open>\<open>None\<close>: the code returns 0; \<open>Some c\<close>: it returns 1 and stores \<open>c\<close>.\<close>

definition uart_async_getc :: "uart \<Rightarrow> byte option \<times> uart" where
  "uart_async_getc s =
     (if rx_buffer_head s = rx_buffer_tail s then (None, s\<lparr>AUX_MU_IER := AUX_MU_IER s OR 0x01\<rparr>)
      else (Some (u_mem s (rx_buffer s + rx_buffer_tail s)),
            s\<lparr>rx_buffer_tail := (rx_buffer_tail s + 1) mod BUFFER_SIZE\<rparr>))"

definition tx_push :: "byte \<Rightarrow> uart \<Rightarrow> uart" where
  "tx_push c s =
     (let s1 = s\<lparr>u_mem := (u_mem s)(tx_buffer s + tx_buffer_head s := c)\<rparr>
      in s1\<lparr>tx_buffer_head := (tx_buffer_head s1 + 1) mod BUFFER_SIZE\<rparr>)"

definition uart_async_putc :: "byte \<Rightarrow> uart \<Rightarrow> bool \<times> uart" where
  "uart_async_putc ch s =
     (if tx_full s then (False, uart_enable_tx_irq s)
      else
        let s1 = (if ch = 0x0D then tx_push 0x0A (tx_push 0x0D s) else tx_push ch s)
        in (True, uart_enable_tx_irq s1))"

text \<open>The string is read from the same memory the transmit buffer is written to.\<close>

partial_function (option) uart_async_puts :: "addr \<Rightarrow> uart \<Rightarrow> (bool \<times> uart) option" where
  "uart_async_puts str s =
     (if u_mem s str = 0 then Some (True, s)
      else if u_mem s str = 0x0A then
        (case uart_async_putc 0x0D s of (ret, s1) \<Rightarrow>
           if \<not> ret then Some (False, s1)
           else case uart_async_putc 0x0A s1 of (ret, s2) \<Rightarrow>
             if \<not> ret then Some (False, s2) else uart_async_puts (str + 1) s2)
      else
        (case uart_async_putc (u_mem s str) s of (ret, s1) \<Rightarrow>
           if \<not> ret then Some (False, s1) else uart_async_puts (str + 1) s1))"

subsection \<open>Interrupts\<close>

text \<open>
  The handler queues a task for each pending cause and runs the queue's first task. The interrupt
  identification register is hardware: \<open>iir\<close> gives its value in a state. \<open>UART_RX\<close> and
  \<open>UART_TX\<close> stand for the two handlers' addresses; \<open>run\<close> is what the other callbacks do.
\<close>

definition UART_RX :: nat where "UART_RX = 1"
definition UART_TX :: nat where "UART_TX = 2"

definition uart_run :: "(nat \<Rightarrow> tasks \<times> uart \<Rightarrow> (tasks \<times> uart) option) \<Rightarrow> nat \<Rightarrow> tasks \<times> uart \<Rightarrow>
    (tasks \<times> uart) option" where
  "uart_run run cb sw =
     (if cb = UART_RX then Some (fst sw, uart_irq_rx_handler (snd sw))
      else if cb = UART_TX then Some (fst sw, uart_irq_tx_handler (snd sw))
      else run cb sw)"

definition uart_irq_cause :: "layout \<Rightarrow> (nat \<Rightarrow> tasks \<times> uart \<Rightarrow> (tasks \<times> uart) option) \<Rightarrow> nat \<Rightarrow>
    tasks \<times> uart \<Rightarrow> (tasks \<times> uart) option" where
  "uart_irq_cause L run cb sw =
     (case add_task cb 0 (fst sw) of
        None \<Rightarrow> None
      | Some s1 \<Rightarrow> execute_task L (uart_run run) (s1, snd sw))"

definition uart_irq_handler :: "layout \<Rightarrow> (uart \<Rightarrow> u32) \<Rightarrow> (nat \<Rightarrow> tasks \<times> uart \<Rightarrow> (tasks \<times> uart) option) \<Rightarrow>
    tasks \<times> uart \<Rightarrow> (tasks \<times> uart) option" where
  "uart_irq_handler L iir run sw =
     (case (if iir (snd sw) AND 0x04 \<noteq> 0 then uart_irq_cause L run UART_RX sw else Some sw) of
        None \<Rightarrow> None
      | Some sw1 \<Rightarrow> if iir (snd sw1) AND 0x02 \<noteq> 0 then uart_irq_cause L run UART_TX sw1 else Some sw1)"

end
