(* ===== verification/UartQueue.thy ===== *)
theory UartQueue
  imports Uart
begin

section \<open>What the UART driver guarantees\<close>

text \<open>
  The rings are queues: the interrupt handler and the code it interrupts may run in any order. The
  receive side holds the bytes in the ring followed by those still on the line, the transmit side
  the bytes in the ring. The two rings lie apart, so neither disturbs the other.
\<close>

definition rx_ring :: "uart \<Rightarrow> byte list \<Rightarrow> bool" where
  "rx_ring s xs \<longleftrightarrow> ring BUFFER_SIZE (\<lambda>i. u_mem s (rx_buffer s + i)) (rx_buffer_head s) (rx_buffer_tail s) xs"

definition tx_ring :: "uart \<Rightarrow> byte list \<Rightarrow> bool" where
  "tx_ring s xs \<longleftrightarrow> ring BUFFER_SIZE (\<lambda>i. u_mem s (tx_buffer s + i)) (tx_buffer_head s) (tx_buffer_tail s) xs"

definition rings_apart :: "uart \<Rightarrow> bool" where
  "rings_apart s \<longleftrightarrow> rx_buffer s + BUFFER_SIZE \<le> tx_buffer s \<or> tx_buffer s + BUFFER_SIZE \<le> rx_buffer s"

definition uart_ok :: "uart \<Rightarrow> byte list \<Rightarrow> byte list \<Rightarrow> bool" where
  "uart_ok s rxs txs \<longleftrightarrow> rx_ring s rxs \<and> tx_ring s txs \<and> rings_apart s"

lemma ring_length: "ring n buf h t xs \<Longrightarrow> length xs < n"
  by (simp add: ring_def)

lemma ring_cong: "ring n buf h t xs \<Longrightarrow> (\<And>i. i < n \<Longrightarrow> buf' i = buf i) \<Longrightarrow> ring n buf' h t xs"
  by (simp add: ring_def)

lemma ring_bounds: "ring n buf h t xs \<Longrightarrow> h < n \<and> t < n"
  by (simp add: ring_def)

lemma ring_cell: "ring n (\<lambda>i. m (b + i)) h t xs \<Longrightarrow>
    ring n (\<lambda>i. (m(b + h := c)) (b + i)) h t' xs' = ring n ((\<lambda>i. m (b + i))(h := c)) h t' xs'"
  by (simp add: ring_def)

lemma ring_write: 
  assumes "ring n (\<lambda>i. m (b + i)) h t xs" "Suc (length xs) < n"
  shows "ring n (\<lambda>i. (m(b + h := c)) (b + i)) ((h + 1) mod n) t (xs @ [c])"
proof -
  have "ring n ((\<lambda>i. m (b + i))(h := c)) ((h + 1) mod n) t (xs @ [c])" by (rule ring_put [OF assms])
  then show ?thesis by (rule ring_cong) simp
qed

lemma ring_write_other:
  assumes "ring n (\<lambda>i. m (b + i)) h t xs" "b + n \<le> x \<or> x < b"
  shows "ring n (\<lambda>i. (m(x := c)) (b + i)) h t xs"
  by (rule ring_cong [OF assms(1)]) (use assms(2) in auto)

subsection \<open>Receiving\<close>

lemma rx_full_iff: "rx_ring s xs \<Longrightarrow> rx_full s \<longleftrightarrow> Suc (length xs) = BUFFER_SIZE"
  unfolding rx_ring_def rx_full_def by (rule ring_full_iff)

lemma tx_full_iff: "tx_ring s xs \<Longrightarrow> tx_full s \<longleftrightarrow> Suc (length xs) = BUFFER_SIZE"
  unfolding tx_ring_def tx_full_def by (rule ring_full_iff)

text \<open>The receive interrupt moves one byte from the line into the ring, and masks itself when the ring is full.\<close>

lemma rx_handler_ok:
  assumes "uart_ok s rxs txs" "line_in s = c # cs"
  shows "if Suc (length rxs) = BUFFER_SIZE
         then uart_irq_rx_handler s = uart_disable_rx_irq s \<and> uart_ok (uart_irq_rx_handler s) rxs txs
         else uart_ok (uart_irq_rx_handler s) (rxs @ [c]) txs \<and> line_in (uart_irq_rx_handler s) = cs \<and>
              line_out (uart_irq_rx_handler s) = line_out s"
proof -
  have r: "rx_ring s rxs" "tx_ring s txs" "rings_apart s" using assms(1) by (auto simp: uart_ok_def)
  have h: "rx_buffer_head s < BUFFER_SIZE" using r(1) by (simp add: rx_ring_def ring_def)
  show ?thesis
  proof (cases "Suc (length rxs) = BUFFER_SIZE")
    case True
    then have "uart_irq_rx_handler s = uart_disable_rx_irq s"
      using rx_full_iff [OF r(1)] by (simp add: uart_irq_rx_handler_def)
    then show ?thesis using True r
      by (simp add: uart_ok_def uart_disable_rx_irq_def rx_ring_def tx_ring_def rings_apart_def)
  next
    case False
    then have len: "Suc (length rxs) < BUFFER_SIZE" using ring_length [OF r(1) [unfolded rx_ring_def]] by simp
    let ?s = "uart_irq_rx_handler s" and ?m = "(u_mem s)(rx_buffer s + rx_buffer_head s := c)"
    have e: "u_mem ?s = ?m" "rx_buffer ?s = rx_buffer s" "tx_buffer ?s = tx_buffer s"
      "rx_buffer_head ?s = (rx_buffer_head s + 1) mod BUFFER_SIZE" "rx_buffer_tail ?s = rx_buffer_tail s"
      "tx_buffer_head ?s = tx_buffer_head s" "tx_buffer_tail ?s = tx_buffer_tail s"
      "line_in ?s = cs" "line_out ?s = line_out s"
      using False rx_full_iff [OF r(1)] assms(2) by (auto simp: uart_irq_rx_handler_def io_read_def Let_def)
    have "rx_ring ?s (rxs @ [c])"
      unfolding rx_ring_def e by (rule ring_write [OF r(1) [unfolded rx_ring_def] len])
    moreover have "tx_ring ?s txs"
      unfolding tx_ring_def e
      by (rule ring_write_other [OF r(2) [unfolded tx_ring_def]]) (use r(3) h in \<open>auto simp: rings_apart_def\<close>)
    moreover have "rings_apart ?s" using r(3) by (simp add: rings_apart_def e)
    ultimately show ?thesis using False e by (simp add: uart_ok_def)
  qed
qed

lemma async_getc_ok:
  assumes "uart_ok s rxs txs"
  shows "case rxs of
      [] \<Rightarrow> uart_async_getc s = (None, s\<lparr>AUX_MU_IER := AUX_MU_IER s OR 0x01\<rparr>) \<and>
            uart_ok (snd (uart_async_getc s)) [] txs
    | x # ys \<Rightarrow> fst (uart_async_getc s) = Some x \<and> uart_ok (snd (uart_async_getc s)) ys txs"
proof -
  have r: "rx_ring s rxs" "tx_ring s txs" "rings_apart s" using assms by (auto simp: uart_ok_def)
  show ?thesis
  proof (cases rxs)
    case Nil
    then have "rx_buffer_head s = rx_buffer_tail s"
      using ring_empty_iff [OF r(1) [unfolded rx_ring_def]] by simp
    then show ?thesis using Nil r
      by (simp add: uart_async_getc_def uart_ok_def rx_ring_def tx_ring_def rings_apart_def)
  next
    case (Cons x ys)
    then have n: "rx_buffer_head s \<noteq> rx_buffer_tail s"
      using ring_empty_iff [OF r(1) [unfolded rx_ring_def]] by simp
    note g = ring_get [OF r(1) [unfolded rx_ring_def Cons]]
    show ?thesis using n g r Cons
      by (simp add: uart_async_getc_def uart_ok_def rx_ring_def tx_ring_def rings_apart_def)
  qed
qed

lemma async_getc_frame: "line_in (snd (uart_async_getc s)) = line_in s"
  "line_out (snd (uart_async_getc s)) = line_out s"
  by (simp_all add: uart_async_getc_def)

text \<open>
  The receive queue: a byte arrives on the line; the interrupt is taken only if it is enabled and
  a byte is waiting; the reader polls \<open>uart_async_getc\<close>.
\<close>

definition rx_holds :: "uart \<Rightarrow> byte list \<Rightarrow> bool" where
  "rx_holds s xs \<longleftrightarrow> (\<exists>rxs txs. uart_ok s rxs txs \<and> xs = rxs @ line_in s)"

text \<open>A byte comes in. The line keeps what has not been read without bound: no overrun of the hardware's own queue.\<close>

definition rx_arrive :: "byte \<Rightarrow> uart \<Rightarrow> bool \<times> uart" where
  "rx_arrive c s = (True, s\<lparr>line_in := line_in s @ [c]\<rparr>)"

definition rx_interrupt :: "uart \<Rightarrow> uart" where
  "rx_interrupt s = (if AUX_MU_IER s AND 1 \<noteq> 0 \<and> line_in s \<noteq> [] then uart_irq_rx_handler s else s)"

lemma uart_ok_line [simp]:
  "uart_ok (s\<lparr>line_in := xs\<rparr>) = uart_ok s" "uart_ok (s\<lparr>line_out := ys\<rparr>) = uart_ok s"
  "uart_ok (s\<lparr>AUX_MU_IER := i\<rparr>) = uart_ok s" "uart_ok (s\<lparr>ENABLE_IRQS_1 := j\<rparr>) = uart_ok s"
  by (simp_all add: fun_eq_iff uart_ok_def rx_ring_def tx_ring_def rings_apart_def)

lemma rx_interrupt_holds: "rx_holds s xs \<Longrightarrow> rx_holds (rx_interrupt s) xs"
proof -
  assume "rx_holds s xs"
  then obtain rxs txs where u: "uart_ok s rxs txs" "xs = rxs @ line_in s" by (auto simp: rx_holds_def)
  show "rx_holds (rx_interrupt s) xs"
  proof (cases "AUX_MU_IER s AND 1 \<noteq> 0 \<and> line_in s \<noteq> []")
    case True
    then obtain c cs where c: "line_in s = c # cs" by (cases "line_in s") auto
    show ?thesis using rx_handler_ok [OF u(1) c] True u c
      by (auto simp: rx_interrupt_def rx_holds_def uart_disable_rx_irq_def split: if_splits)
  next
    case False
    then show ?thesis using u by (auto simp: rx_interrupt_def rx_holds_def)
  qed
qed

interpretation rx_queue: fifo rx_holds "\<lambda>_. True" rx_arrive uart_async_getc rx_interrupt
proof
  show "rx_holds s' (if ok then xs @ [a] else xs)" if "rx_holds s xs" "True" "rx_arrive a s = (ok, s')" for s xs a ok s'
    using that by (auto simp: rx_holds_def rx_arrive_def)
  show "rx_holds s' xs" if "rx_holds s xs" "uart_async_getc s = (None, s')" for s xs s'
  proof -
    note h = that
    obtain rxs txs where u: "uart_ok s rxs txs" "xs = rxs @ line_in s" using h(1) by (auto simp: rx_holds_def)
    show ?thesis using async_getc_ok [OF u(1)] async_getc_frame [of s] u that(2)
      by (cases rxs) (auto simp: rx_holds_def)
  qed
  show "\<exists>ys. xs = x # ys \<and> rx_holds s' ys" if "rx_holds s xs" "uart_async_getc s = (Some x, s')" for s xs x s'
  proof -
    note h = that
    obtain rxs txs where u: "uart_ok s rxs txs" "xs = rxs @ line_in s" using h(1) by (auto simp: rx_holds_def)
    show ?thesis using async_getc_ok [OF u(1)] async_getc_frame [of s] u that(2)
      by (cases rxs) (auto simp: rx_holds_def)
  qed
qed (auto intro: rx_interrupt_holds)

text \<open>With the interrupt enabled, a waiting byte is never stuck: polling and interrupts deliver it.\<close>

lemma rx_progress:
  assumes "uart_ok s [] txs" "line_in s = c # cs"
  shows "fst (uart_async_getc (rx_interrupt (snd (uart_async_getc s)))) = Some c"
proof -
  let ?s = "snd (uart_async_getc s)"
  have g: "?s = s\<lparr>AUX_MU_IER := AUX_MU_IER s OR 1\<rparr>" using async_getc_ok [OF assms(1)] by simp
  have ok: "uart_ok ?s [] txs" "line_in ?s = c # cs" using assms g by simp_all
  have "AUX_MU_IER ?s AND 1 = 1" unfolding g by (rule bit_word_eqI) (auto simp: bit_simps)
  then have i: "rx_interrupt ?s = uart_irq_rx_handler ?s" using ok by (simp add: rx_interrupt_def)
  have "uart_ok (rx_interrupt ?s) [c] txs"
    using rx_handler_ok [OF ok] unfolding i by (simp add: BUFFER_SIZE_def)
  from async_getc_ok [OF this] show ?thesis by simp
qed

subsection \<open>Transmitting\<close>

lemma tx_push_ok:
  assumes "uart_ok s rxs txs" "Suc (length txs) < BUFFER_SIZE"
  shows "uart_ok (tx_push c s) rxs (txs @ [c])"
proof -
  have r: "rx_ring s rxs" "tx_ring s txs" "rings_apart s" using assms(1) by (auto simp: uart_ok_def)
  have h: "tx_buffer_head s < BUFFER_SIZE" using r(2) by (simp add: tx_ring_def ring_def)
  let ?s = "tx_push c s" and ?m = "(u_mem s)(tx_buffer s + tx_buffer_head s := c)"
  have e: "u_mem ?s = ?m" "rx_buffer ?s = rx_buffer s" "tx_buffer ?s = tx_buffer s"
    "tx_buffer_head ?s = (tx_buffer_head s + 1) mod BUFFER_SIZE" "tx_buffer_tail ?s = tx_buffer_tail s"
    "rx_buffer_head ?s = rx_buffer_head s" "rx_buffer_tail ?s = rx_buffer_tail s"
    by (auto simp: tx_push_def Let_def)
  have "tx_ring ?s (txs @ [c])"
    unfolding tx_ring_def e by (rule ring_write [OF r(2) [unfolded tx_ring_def] assms(2)])
  moreover have "rx_ring ?s rxs"
    unfolding rx_ring_def e
    by (rule ring_write_other [OF r(1) [unfolded rx_ring_def]]) (use r(3) h in \<open>auto simp: rings_apart_def\<close>)
  moreover have "rings_apart ?s" using r(3) by (simp add: rings_apart_def e)
  ultimately show ?thesis by (simp add: uart_ok_def)
qed

lemma uart_ok_enable_tx [simp]: "uart_ok (uart_enable_tx_irq s) = uart_ok s"
  by (simp add: uart_enable_tx_irq_def)

lemma async_putc_ok:
  assumes "uart_ok s rxs txs"
  shows "if Suc (length txs) = BUFFER_SIZE then uart_async_putc c s = (False, uart_enable_tx_irq s)
         else fst (uart_async_putc c s) \<and>
           (c \<noteq> 0x0D \<longrightarrow> uart_ok (snd (uart_async_putc c s)) rxs (txs @ [c])) \<and>
           (c = 0x0D \<longrightarrow> Suc (Suc (length txs)) < BUFFER_SIZE \<longrightarrow>
              uart_ok (snd (uart_async_putc c s)) rxs (txs @ [0x0D, 0x0A]))"
proof -
  have t: "tx_ring s txs" using assms by (simp add: uart_ok_def)
  have len: "length txs < BUFFER_SIZE" using ring_length [OF t [unfolded tx_ring_def]] .
  have two: "uart_ok (tx_push 0x0A (tx_push 0x0D s)) rxs (txs @ [0x0D, 0x0A])"
    if "Suc (Suc (length txs)) < BUFFER_SIZE"
    using tx_push_ok [OF tx_push_ok [OF assms, of "0x0D"], of "0x0A"] that by simp
  show ?thesis
    using tx_full_iff [OF t] len tx_push_ok [OF assms] two by (auto simp: uart_async_putc_def Let_def)
qed

text \<open>A carriage return with one cell free is two bytes too many by one: the ring becomes empty.\<close>

lemma async_putc_cr_overflow:
  assumes "uart_ok s rxs txs" "Suc (Suc (length txs)) = BUFFER_SIZE"
  shows "fst (uart_async_putc 0x0D s)"
    and "tx_buffer_head (snd (uart_async_putc 0x0D s)) = tx_buffer_tail (snd (uart_async_putc 0x0D s))"
proof -
  have t: "tx_ring s txs" using assms(1) by (simp add: uart_ok_def)
  have f: "\<not> tx_full s" using tx_full_iff [OF t] assms(2) by simp
  then show "fst (uart_async_putc 0x0D s)" by (simp add: uart_async_putc_def Let_def)
  have one: "uart_ok (tx_push 0x0D s) rxs (txs @ [0x0D])" using tx_push_ok [OF assms(1)] assms(2) by simp
  then have "tx_full (tx_push 0x0D s)"
    using tx_full_iff [of "tx_push 0x0D s" "txs @ [0x0D]"] assms(2) by (simp add: uart_ok_def)
  then have "(tx_buffer_head (tx_push 0x0D s) + 1) mod BUFFER_SIZE = tx_buffer_tail (tx_push 0x0D s)"
    by (simp add: tx_full_def)
  then show "tx_buffer_head (snd (uart_async_putc 0x0D s)) = tx_buffer_tail (snd (uart_async_putc 0x0D s))"
    using f by (simp add: uart_async_putc_def Let_def uart_enable_tx_irq_def tx_push_def)
qed

lemma tx_handler_ok:
  assumes "uart_ok s rxs txs"
  shows "case txs of
      [] \<Rightarrow> uart_irq_tx_handler s = uart_disable_tx_irq s \<and> uart_ok (uart_irq_tx_handler s) rxs []
    | x # ys \<Rightarrow> line_out (uart_irq_tx_handler s) = line_out s @ [x] \<and> uart_ok (uart_irq_tx_handler s) rxs ys"
proof -
  have r: "rx_ring s rxs" "tx_ring s txs" "rings_apart s" using assms by (auto simp: uart_ok_def)
  show ?thesis
  proof (cases txs)
    case Nil
    then have "tx_buffer_head s = tx_buffer_tail s"
      using ring_empty_iff [OF r(2) [unfolded tx_ring_def]] by simp
    then show ?thesis using Nil assms by (simp add: uart_irq_tx_handler_def uart_disable_tx_irq_def)
  next
    case (Cons x ys)
    then have n: "tx_buffer_head s \<noteq> tx_buffer_tail s"
      using ring_empty_iff [OF r(2) [unfolded tx_ring_def]] by simp
    note g = ring_get [OF r(2) [unfolded tx_ring_def Cons]]
    show ?thesis using n g r Cons
      by (simp add: uart_irq_tx_handler_def io_write_def uart_ok_def rx_ring_def tx_ring_def rings_apart_def)
  qed
qed

text \<open>What one transmit interrupt puts on the line.\<close>

definition tx_interrupt :: "uart \<Rightarrow> byte option \<times> uart" where
  "tx_interrupt s =
     (let s' = uart_irq_tx_handler s
      in (if line_out s' = line_out s then None else Some (last (line_out s')), s'))"

definition tx_holds :: "uart \<Rightarrow> byte list \<Rightarrow> bool" where
  "tx_holds s xs \<longleftrightarrow> (\<exists>rxs. uart_ok s rxs xs)"

interpretation tx_queue: prompt_fifo tx_holds "\<lambda>xs. 0x0D \<notin> set xs" uart_async_putc tx_interrupt "\<lambda>s. s"
proof
  show "tx_holds s' (if ok then xs @ [a] else xs)"
    if "tx_holds s xs" "0x0D \<notin> set (xs @ [a])" "uart_async_putc a s = (ok, s')" for s xs a ok s'
  proof -
    note h = that
    obtain rxs where "uart_ok s rxs xs" using h(1) by (auto simp: tx_holds_def)
    from async_putc_ok [OF this, of a] this that(2,3) show ?thesis
      by (auto simp: tx_holds_def split: if_splits)
  qed
  show "tx_holds s' xs" if "tx_holds s xs" "tx_interrupt s = (None, s')" for s xs s'
  proof -
    note h = that
    obtain rxs where "uart_ok s rxs xs" using h(1) by (auto simp: tx_holds_def)
    from tx_handler_ok [OF this] this that(2) show ?thesis
      by (cases xs) (auto simp: tx_holds_def tx_interrupt_def Let_def split: if_splits)
  qed
  show "\<exists>ys. xs = x # ys \<and> tx_holds s' ys" if "tx_holds s xs" "tx_interrupt s = (Some x, s')" for s xs x s'
  proof -
    note h = that
    obtain rxs where "uart_ok s rxs xs" using h(1) by (auto simp: tx_holds_def)
    from tx_handler_ok [OF this] that(2) show ?thesis
      by (cases xs) (auto simp: tx_holds_def tx_interrupt_def Let_def uart_disable_tx_irq_def split: if_splits)
  qed
  show "fst (tx_interrupt s) = Some x" if "tx_holds s (x # xs)" for s x xs
  proof -
    note h = that
    obtain rxs where "uart_ok s rxs (x # xs)" using h(1) by (auto simp: tx_holds_def)
    from tx_handler_ok [OF this] show ?thesis by (simp add: tx_interrupt_def Let_def)
  qed
qed auto

subsection \<open>Writing a string to the transmit ring\<close>

fun async_bytes :: "byte list \<Rightarrow> byte list" where
  "async_bytes [] = []"
| "async_bytes (c # cs) =
     (if c = 0x0A then [0x0D, 0x0A, 0x0A] else if c = 0x0D then [0x0D, 0x0A] else [c]) @ async_bytes cs"

lemma async_putc_mem:
  assumes "uart_ok s rxs txs" "x < tx_buffer s \<or> tx_buffer s + BUFFER_SIZE \<le> x"
  shows "u_mem (snd (uart_async_putc c s)) x = u_mem s x"
    and "tx_buffer (snd (uart_async_putc c s)) = tx_buffer s"
proof -
  have h: "tx_buffer_head s < BUFFER_SIZE" using assms(1) by (simp add: uart_ok_def tx_ring_def ring_def)
  have "(k::nat) mod BUFFER_SIZE < BUFFER_SIZE" for k by (simp add: BUFFER_SIZE_def)
  then have "tx_buffer s + k mod BUFFER_SIZE \<noteq> x" for k using assms(2) by (metis add_strict_left_mono le_add1 not_le)
  then show "u_mem (snd (uart_async_putc c s)) x = u_mem s x"
    using h assms(2) by (auto simp: uart_async_putc_def Let_def uart_enable_tx_irq_def tx_push_def)
  show "tx_buffer (snd (uart_async_putc c s)) = tx_buffer s"
    by (auto simp: uart_async_putc_def Let_def uart_enable_tx_irq_def tx_push_def)
qed

lemma async_putc_room:
  assumes "uart_ok s rxs txs" "length txs + length (async_bytes [c]) < BUFFER_SIZE" "c \<noteq> 0x0A"
  shows "\<exists>s1. uart_async_putc c s = (True, s1) \<and> uart_ok s1 rxs (txs @ async_bytes [c])"
proof -
  have "Suc (length txs) \<noteq> BUFFER_SIZE" using assms(2) by (auto split: if_splits)
  then have "fst (uart_async_putc c s)" "uart_ok (snd (uart_async_putc c s)) rxs (txs @ async_bytes [c])"
    using async_putc_ok [OF assms(1), of c] assms(2,3) by (auto split: if_splits)
  then show ?thesis by (metis prod.collapse)
qed

lemma async_putc_newline:
  assumes "uart_ok s rxs txs" "Suc (length txs) < BUFFER_SIZE"
  shows "\<exists>s1. uart_async_putc 0x0A s = (True, s1) \<and> uart_ok s1 rxs (txs @ [0x0A])"
  using async_putc_ok [OF assms(1), of "0x0A"] assms(2)
  by (cases "uart_async_putc 0x0A s") (auto split: if_splits)

lemma async_puts_ok:
  assumes "uart_ok s rxs txs" "cstr (u_mem s) p str" "length txs + length (async_bytes str) < BUFFER_SIZE"
    and "p + length str < tx_buffer s \<or> tx_buffer s + BUFFER_SIZE \<le> p"
  shows "\<exists>s'. uart_async_puts p s = Some (True, s') \<and> uart_ok s' rxs (txs @ async_bytes str)"
  using assms
proof (induction str arbitrary: s p txs)
  case Nil
  then show ?case by (subst uart_async_puts.simps) simp
next
  case (Cons c cs)
  have c: "u_mem s p = c" "c \<noteq> 0" "cstr (u_mem s) (Suc p) cs" using Cons.prems(2) by auto
  have out: "Suc p + i < tx_buffer s \<or> tx_buffer s + BUFFER_SIZE \<le> Suc p + i" if "i \<le> length cs" for i
    using Cons.prems(4) that by auto
  have rest: "\<exists>s'. uart_async_puts (p + 1) s1 = Some (True, s') \<and> uart_ok s' rxs (txs1 @ async_bytes cs)"
    if "uart_ok s1 rxs txs1" "length txs1 + length (async_bytes cs) < BUFFER_SIZE"
      "\<And>i. i \<le> length cs \<Longrightarrow> u_mem s1 (Suc p + i) = u_mem s (Suc p + i)" "tx_buffer s1 = tx_buffer s" for s1 txs1
  proof -
    have "cstr (u_mem s1) (Suc p) cs" using c(3) that(3) by (rule cstr_cong)
    then show ?thesis using Cons.IH [OF that(1), of "Suc p"] that(2,4) Cons.prems(4) by auto
  qed
  show ?case
  proof (cases "c = 0x0A")
    case True
    have "uart_ok s rxs txs" "length txs + length (async_bytes [0x0D]) < BUFFER_SIZE"
      using Cons.prems(1,3) True by auto
    from async_putc_room [OF this] obtain s1 where s1: "uart_async_putc 0x0D s = (True, s1)"
      "uart_ok s1 rxs (txs @ [0x0D, 0x0A])" by auto
    have "Suc (length (txs @ [0x0D, 0x0A])) < BUFFER_SIZE" using Cons.prems(3) True by simp
    from async_putc_newline [OF s1(2) this] obtain s2 where s2: "uart_async_putc 0x0A s1 = (True, s2)"
      "uart_ok s2 rxs ((txs @ [0x0D, 0x0A]) @ [0x0A])" by blast
    have f: "u_mem s2 (Suc p + i) = u_mem s (Suc p + i)" "tx_buffer s2 = tx_buffer s" if "i \<le> length cs" for i
      using async_putc_mem [OF Cons.prems(1) out [OF that], of "0x0D"]
        async_putc_mem [OF s1(2), of "Suc p + i" "0x0A"] out [OF that] s1(1) s2(1) by auto
    obtain s' where "uart_async_puts (p + 1) s2 = Some (True, s')"
      "uart_ok s' rxs ((txs @ [0x0D, 0x0A, 0x0A]) @ async_bytes cs)"
      using rest [of s2 "txs @ [0x0D, 0x0A, 0x0A]"] s2(2) f Cons.prems(3) True by fastforce
    then show ?thesis using c True s1 s2 by (subst uart_async_puts.simps) simp
  next
    case False
    then obtain s1 where s1: "uart_async_putc c s = (True, s1)" "uart_ok s1 rxs (txs @ async_bytes [c])"
      using async_putc_room [OF Cons.prems(1), of c] Cons.prems(3) by fastforce
    have f: "u_mem s1 (Suc p + i) = u_mem s (Suc p + i)" "tx_buffer s1 = tx_buffer s" if "i \<le> length cs" for i
      using async_putc_mem [OF Cons.prems(1) out [OF that], of c] s1(1) by auto
    have "length (txs @ async_bytes [c]) + length (async_bytes cs) < BUFFER_SIZE" using Cons.prems(3) by simp
    then obtain s' where "uart_async_puts (p + 1) s1 = Some (True, s')"
      "uart_ok s' rxs ((txs @ async_bytes [c]) @ async_bytes cs)"
      using rest [OF s1(2)] f by blast
    then show ?thesis using c False s1 by (subst uart_async_puts.simps) simp
  qed
qed

subsection \<open>Polled output\<close>

fun poll_bytes :: "byte list \<Rightarrow> byte list" where
  "poll_bytes [] = []"
| "poll_bytes (c # cs) = (if c = 0x0A then [0x0D, 0x0A] else [c]) @ poll_bytes cs"

lemma putc_eq: "uart_putc c s = s\<lparr>line_out := line_out s @ [c]\<rparr>"
  by (simp add: uart_putc_def io_write_def)

lemma puts_eq:
  "cstr (u_mem s) p str \<Longrightarrow> uart_puts p s = Some (s\<lparr>line_out := line_out s @ poll_bytes str\<rparr>)"
proof (induction str arbitrary: s p)
  case Nil
  then show ?case by (subst uart_puts.simps) simp
next
  case (Cons c cs)
  let ?s = "s\<lparr>line_out := line_out s @ poll_bytes [c]\<rparr>"
  have "uart_puts (p + 1) ?s = Some (?s\<lparr>line_out := line_out ?s @ poll_bytes cs\<rparr>)"
    using Cons.prems by (intro Cons.IH) simp
  then show ?case using Cons.prems by (subst uart_puts.simps) (auto simp: putc_eq)
qed

lemma puts_lit_eq: "uart_puts_lit str s = s\<lparr>line_out := line_out s @ poll_bytes str\<rparr>"
  by (induction str arbitrary: s) (auto simp: putc_eq)

lemma putn_eq:
  "(\<And>i. i < length bs \<Longrightarrow> u_mem s (p + i) = bs ! i) \<Longrightarrow>
   putn_loop (length bs) p s = s\<lparr>line_out := line_out s @ bs\<rparr>"
proof (induction bs arbitrary: s p)
  case (Cons b bs)
  have "u_mem s p = b" using Cons.prems [of 0] by simp
  moreover have "u_mem s (Suc p + i) = bs ! i" if "i < length bs" for i using Cons.prems [of "Suc i"] that by simp
  ultimately show ?case using Cons.IH [of "uart_putc b s" "Suc p"] by (simp add: putc_eq)
qed simp

definition nibble_char :: "u32 \<Rightarrow> byte" where
  "nibble_char n = (if n \<le> 9 then ucast (n + 0x30) else ucast (n - 10 + 0x61))"

lemma nibble_cases: 
  assumes "(n :: u32) < 16" shows "n \<in> {0,1,2,3,4,5,6,7,8,9,10,11,12,13,14,15}"
proof -
  define k where "k = unat n"
  have "k < 16" using assms by (simp add: k_def word_less_nat_alt)
  then have "k = 0 \<or> k = 1 \<or> k = 2 \<or> k = 3 \<or> k = 4 \<or> k = 5 \<or> k = 6 \<or> k = 7 \<or> k = 8 \<or> k = 9 \<or> k = 10 \<or>
    k = 11 \<or> k = 12 \<or> k = 13 \<or> k = 14 \<or> k = 15" by presburger
  moreover have "n = of_nat k" by (simp add: k_def)
  ultimately show ?thesis by (elim disjE) simp_all
qed

lemma hex_digit_nibble: "n < 16 \<Longrightarrow> hex_digit (nibble_char n) = n"
  by (drule nibble_cases, elim insertE) (simp_all add: nibble_char_def hex_digit_def)

lemma hex_value_Cons: "hex_value (c # s) = unat (hex_digit c) * 16 ^ length s + hex_value s"
proof -
  have "foldl (\<lambda>a c. 16 * a + unat (hex_digit c)) a s =
      a * 16 ^ length s + foldl (\<lambda>a c. 16 * a + unat (hex_digit c)) 0 s" for a
  proof (induction s arbitrary: a)
    case (Cons c s)
    show ?case using Cons.IH [of "16 * a + unat (hex_digit c)"] Cons.IH [of "unat (hex_digit c)"]
      by (simp add: algebra_simps)
  qed simp
  from this [of "unat (hex_digit c)"] show ?thesis by (simp add: hex_value_def)
qed

lemma hex_out_eq:
  "\<exists>ds. hex_out k d s = s\<lparr>line_out := line_out s @ ds\<rparr> \<and> length ds = k \<and>
     hex_value ds = unat d mod 16 ^ k"
proof (induction k arbitrary: s)
  case 0
  then show ?case by (intro exI [of _ "[]"]) (simp add: hex_value_def)
next
  case (Suc k)
  let ?n = "drop_bit (4 * k) d AND 0xF"
  obtain ds where ds: "hex_out k d (uart_putc (nibble_char ?n) s) =
      (uart_putc (nibble_char ?n) s)\<lparr>line_out := line_out (uart_putc (nibble_char ?n) s) @ ds\<rparr>"
    "length ds = k" "hex_value ds = unat d mod 16 ^ k" using Suc.IH by blast
  have m: "?n = take_bit 4 (drop_bit (4 * k) d)" by (simp add: take_bit_eq_mask mask_eq_exp_minus_1)
  have u: "unat ?n = unat d div 16 ^ k mod 16"
    proof -
    have "take_bit 32 (unat d) = unat d" using unsigned_less [of d, where 'a = nat] by (simp add: take_bit_nat_eq_self)
    then have "unat (take_bit 4 (drop_bit (4 * k) d)) = take_bit 4 (drop_bit (4 * k) (unat d))"
      by (simp add: unsigned_take_bit_eq unsigned_drop_bit_eq)
    then show ?thesis unfolding m by (simp add: take_bit_eq_mod drop_bit_eq_div power_mult)
  qed
  then have "?n < 16" by (simp add: word_less_nat_alt)
  then have h: "hex_digit (nibble_char ?n) = ?n" by (rule hex_digit_nibble)
  have "hex_value (nibble_char ?n # ds) = unat ?n * 16 ^ k + hex_value ds"
    using h ds(2) by (simp add: hex_value_Cons)
  also have "\<dots> = unat d mod 16 ^ Suc k"
    unfolding u ds(3) using mod_mult2_eq [of "unat d" "16 ^ k" 16] by (simp add: mult.commute)
  finally show ?case using ds by (intro exI [of _ "nibble_char ?n # ds"]) (auto simp: putc_eq Let_def nibble_char_def)
qed

lemma hex_eq:
  "\<exists>ds. uart_hex d s = s\<lparr>line_out := line_out s @ 0x30 # 0x78 # ds\<rparr> \<and> length ds = 8 \<and> hex_value ds = unat d"
proof -
  have "unat d < 16 ^ 8" using unsigned_less [of d] by simp
  then show ?thesis
    using hex_out_eq [of 8 d "s\<lparr>line_out := line_out s @ [0x30, 0x78]\<rparr>"]
    by (auto simp: uart_hex_def puts_lit_eq)
qed

lemma int_digits_step: "0 < d \<Longrightarrow> int_digits d i str = itoa_digits d i str"
proof (induction d i str rule: int_digits.induct)
  case (1 d i str)
  show ?case
  proof (cases "0 < d sdiv 10")
    case True
    then show ?thesis using 1 by (subst int_digits.simps, subst itoa_digits.simps) (simp add: Let_def)
  next
    case False
    then show ?thesis using 1(2)
      by (subst int_digits.simps, subst itoa_digits.simps) (simp add: Let_def itoa_digits.simps)
  qed
qed

lemma int_digits_eq:
  assumes "length (decimal n) \<le> length str"
  shows "int_digits (int n) 0 str =
     (length (decimal n), rev (decimal n) @ drop (length (decimal n)) str)"
proof (cases "n = 0")
  case True
  have d: "decimal 0 = [0x30]" by (simp add: decimal.simps)
  have "str \<noteq> []" using assms by (auto simp: True d)
  then show ?thesis unfolding True d by (subst int_digits.simps) (cases str; simp add: Let_def)
next
  case False
  then show ?thesis using digits_eq [of n 0 str] assms by (simp add: int_digits_step)
qed

lemma int_out_eq: "i \<le> length str \<Longrightarrow> int_out i str s = s\<lparr>line_out := line_out s @ rev (take i str)\<rparr>"
  by (induction i arbitrary: s) (simp_all add: putc_eq take_Suc_conv_app_nth)

lemma int_eq:
  assumes "- (2 ^ 31) < d" "d < 2 ^ 31"
  shows "uart_int d s = Some (s\<lparr>line_out := line_out s @ int_string d\<rparr>)"
proof -
  let ?n = "nat \<bar>d\<bar>"
  have "?n < 10 ^ Suc 9" using assms by simp
  from decimal_length [OF this] have l: "length (decimal ?n) \<le> 10" by simp
  have "int_digits (int ?n) 0 (replicate 12 0) =
      (length (decimal ?n), rev (decimal ?n) @ drop (length (decimal ?n)) (replicate 12 0))"
    using l by (intro int_digits_eq) simp
  moreover have "(if d < 0 then - d else d) = int ?n" by simp
  ultimately show ?thesis
    using assms l by (auto simp: uart_int_def int_out_eq putc_eq int_string_def)
qed

subsection \<open>Polled input\<close>

lemma getc_eq: "line_in s = c # cs \<Longrightarrow> uart_getc s = Some (c, s\<lparr>line_in := cs\<rparr>)"
  by (simp add: uart_getc_def AUX_MU_LSR_def io_read_def)

lemma flush_rx_eq: "uart_flush_rx s = s\<lparr>line_in := []\<rparr>"
proof (induction "line_in s" arbitrary: s)
  case Nil
  then show ?case by (subst uart_flush_rx.simps) (simp add: AUX_MU_LSR_def)
next
  case (Cons c cs)
  from Cons.hyps(1) [of "s\<lparr>line_in := cs\<rparr>"] Cons.hyps(2) [symmetric] show ?case
    by (subst uart_flush_rx.simps) (simp add: AUX_MU_LSR_def io_read_def)
qed

text \<open>Writing a byte string to memory.\<close>

fun put_bytes :: "byte list \<Rightarrow> addr \<Rightarrow> mem \<Rightarrow> mem" where
  "put_bytes [] p m = m"
| "put_bytes (b # bs) p m = put_bytes bs (p + 1) (m(p := b))"

lemma put_bytes_at: "put_bytes bs p m x = (if p \<le> x \<and> x < p + length bs then bs ! (x - p) else m x)"
  by (induction bs arbitrary: p m) (auto simp: nth_Cons')

lemma gets_loop_eq:
  "line_in s = str @ 0x0D # rest \<Longrightarrow> 0x0D \<notin> set str \<Longrightarrow>
   gets_loop p s = Some (p + length str,
     s\<lparr>line_in := rest, line_out := line_out s @ str, u_mem := put_bytes str p (u_mem s)\<rparr>)"
proof (induction str arbitrary: s p)
  case Nil
  then show ?case by (subst gets_loop.simps) (simp add: getc_eq)
next
  case (Cons c cs)
  let ?s = "s\<lparr>line_in := cs @ 0x0D # rest, line_out := line_out s @ [c], u_mem := (u_mem s)(p := c)\<rparr>"
  have "gets_loop (p + 1) ?s = Some (p + 1 + length cs,
      ?s\<lparr>line_in := rest, line_out := line_out ?s @ cs, u_mem := put_bytes cs (p + 1) (u_mem ?s)\<rparr>)"
    using Cons.prems by (intro Cons.IH) simp_all
  then show ?case using Cons.prems by (subst gets_loop.simps) (simp add: getc_eq putc_eq Let_def)
qed

lemma gets_eq:
  assumes "line_in s = str @ 0x0D # rest" "0x0D \<notin> set str"
  shows "uart_gets p s = Some (p,
     s\<lparr>line_in := rest, line_out := line_out s @ str @ [0x0D, 0x0D, 0x0A],
       u_mem := (put_bytes str p (u_mem s))(p + length str := 0)\<rparr>)"
  using gets_loop_eq [OF assms, of p] by (simp add: uart_gets_def puts_lit_eq Let_def)

lemma getn_loop_eq:
  "line_in s = bs @ rest \<Longrightarrow>
   getn_loop (length bs) p s = Some (p + length bs, s\<lparr>line_in := rest, u_mem := put_bytes bs p (u_mem s)\<rparr>)"
proof (induction bs arbitrary: s p)
  case (Cons b bs)
  let ?s = "s\<lparr>line_in := bs @ rest, u_mem := (u_mem s)(p := b)\<rparr>"
  have "getn_loop (length bs) (p + 1) ?s =
      Some (p + 1 + length bs, ?s\<lparr>line_in := rest, u_mem := put_bytes bs (p + 1) (u_mem ?s)\<rparr>)"
    by (rule Cons.IH) simp
  then show ?case using Cons.prems by (simp add: getc_eq)
qed simp

text \<open>Fewer bytes than asked for: the code waits for ever.\<close>

lemma getn_loop_short: "length (line_in s) < n \<Longrightarrow> getn_loop n p s = None"
proof (induction n arbitrary: s p)
  case (Suc n)
  show ?case
  proof (cases "line_in s")
    case Nil
    then show ?thesis by (simp add: uart_getc_def AUX_MU_LSR_def)
  next
    case (Cons c cs)
    then show ?thesis using Suc.prems Suc.IH by (simp add: getc_eq)
  qed
qed simp

subsection \<open>Initialisation and interrupts\<close>

text \<open>\<open>init_uart\<close> on a heap gives two empty rings that lie apart, when both allocations succeed.\<close>

lemma init_uart_ok:
  assumes h: "heap_inv L M h R" and z: "rx_buffer_head s = 0" "rx_buffer_tail s = 0"
      "tx_buffer_head s = 0" "tx_buffer_tail s = 0"
  shows "\<exists>h' r' s'. init_uart (h, r, s) = Some (h', r', s') \<and>
     (rx_buffer s' \<noteq> NULL \<longrightarrow> tx_buffer s' \<noteq> NULL \<longrightarrow>
        uart_ok s' [] [] \<and> (\<exists>l1 l2. heap_inv L M h' ((tx_buffer s', l2) # (rx_buffer s', l1) # R)))"
proof -
  let ?n = "of_nat BUFFER_SIZE :: u32"
  have n: "unat ?n = BUFFER_SIZE" by (simp add: BUFFER_SIZE_def)
  obtain rx h1 where a1: "alloc ?n h = Some (rx, h1)" "rx = NULL \<longrightarrow> heap_inv L M h1 R"
    "rx \<noteq> NULL \<longrightarrow> (\<exists>l \<ge> unat ?n. heap_inv L M h1 ((rx, l) # R))"
    using heap_inv_alloc [OF h, of ?n] by blast
  from a1(2,3) obtain R1 where R1: "heap_inv L M h1 R1" by blast
  obtain tx h2 where a2: "alloc ?n h1 = Some (tx, h2)"
    using heap_inv_alloc [OF R1, of ?n] by blast
  let ?s = "s\<lparr>AUX_MU_IER := 0, rx_buffer := rx, tx_buffer := tx\<rparr>"
  have e: "init_uart (h, r, s) = Some (h2, init_registers r, ?s)"
    using a1(1) a2 by (simp add: init_uart_def Let_def)
  have "uart_ok ?s [] [] \<and> (\<exists>l1 l2. heap_inv L M h2 ((tx, l2) # (rx, l1) # R))"
    if nz: "rx \<noteq> NULL" "tx \<noteq> NULL"
  proof -
    obtain l1 where l1: "BUFFER_SIZE \<le> l1" "heap_inv L M h1 ((rx, l1) # R)" using a1(3) nz n by auto
    obtain l2 where l2: "BUFFER_SIZE \<le> l2" "heap_inv L M h2 ((tx, l2) # (rx, l1) # R)"
      using heap_inv_alloc [OF l1(2), of ?n] a2 nz n by auto
    have "apart (tx, l2) (rx, l1)" using heap_alloc.inv_apart [OF l2(2)] by simp
    then have "rings_apart ?s"
      using l1(1) l2(1) by (auto simp: rings_apart_def apart_def bytes_def BUFFER_SIZE_def)
    moreover have "ring BUFFER_SIZE b 0 0 []" for b :: "nat \<Rightarrow> byte" by (simp add: ring_def BUFFER_SIZE_def)
    ultimately show ?thesis using l2(2) z by (auto simp: uart_ok_def rx_ring_def tx_ring_def)
  qed
  then show ?thesis using e by auto
qed

text \<open>One interrupt cause: its task is queued, runs at once before what is waiting, and its memory is given back.\<close>

lemma uart_irq_cause_ok:
  assumes ok: "tasks_ok L M s R xs" and prio: "\<forall>x \<in> set xs. 0 \<le> task_prio s x"
    and mem: "alloc TASK_SIZE (tk_heap s) = Some (p, h)" "p \<noteq> NULL"
    and cb: "uart_run run cb = (\<lambda>(s, w). Some (s, f w))"
  shows "\<exists>s'. uart_irq_cause L run cb (s, w) = Some (s', f w) \<and> tasks_ok L M s' R xs \<and> free L p h = Some (tk_heap s')"
proof -
  obtain s1 l where s1: "add_task cb 0 s = Some s1" "p \<notin> set xs" "tk_heap s1 = h"
    "tasks_ok L M s1 ((p, l) # R) (insert_before (task_prio s1) p xs)"
    "task_prio s1 = (task_prio s)(p := 0)" "t_callback (tk_node s1 p) = cb" "0 < l"
    using add_task_ok [OF ok, of cb 0] mem by auto
  have "insert_before (task_prio s1) p xs = p # xs"
    using prio s1(2,5) by (cases xs) (auto simp: insert_before_Cons)
  then have t: "tasks_ok L M s1 ((p, l) # R) (p # xs)" using s1(4) by simp
  then have "task_list s1 (p # xs)" by (simp add: tasks_ok_def)
  from task_take_ok [OF this] obtain s2 where "task_take s1 = Some (p, s2)" "tk_heap s2 = h" "t_callback (tk_node s2 p) = cb"
    using s1(3,6) by auto
  moreover have "\<exists>s' w2 R' ys. execute_task L (uart_run run) (s1, w) = Some (s', w2) \<and> tasks_ok L M s' (R' @ R) ys \<and>
      (w2 = f w \<and> R' = [] \<and> ys = xs)"
    by (rule execute_task_ok [OF t s1(7)]) (use s1(2,6) cb in \<open>auto intro: exI [of _ "[]"]\<close>)
  ultimately show ?thesis using s1(1) cb by (auto simp: uart_irq_cause_def execute_task_def)
qed

text \<open>Out of memory with no task waiting, the handler dereferences \<open>NULL\<close>.\<close>

lemma uart_irq_cause_oom:
  assumes "task_list s []" "alloc TASK_SIZE (tk_heap s) = Some (NULL, h)"
  shows "uart_irq_cause L run cb (s, w) = None"
  using assms by (simp add: uart_irq_cause_def add_task_def execute_task_def task_take_def task_list_def Let_def)

end
