(* ===== verification/Fs.thy ===== *)
theory Fs
  imports Uart "HOL-Library.Monad_Syntax"
begin

section \<open>The objects of the file system (src/include/fs_vfs.h, src/include/fs_tmpfs.h)\<close>

text \<open>
  The structs the file system is made of, each kind in a store of its own: vnodes, file
  handles, mounts, file system types and the nodes behind the vnodes. They live on the heap, whose
  state is part of the record, and so are the files' contents and the callers' buffers, which are bytes of
  the memory \<open>u_mem\<close>. A pointer to a table of operations is a value of an enumeration; \<open>struct file\<close> is the record \<open>vfile\<close>. Strings the
  code only reads (path names, component names, the names in nodes) are the lists of their characters.

  \<open>None\<close> is undefined behaviour (a \<open>NULL\<close> pointer followed, a write past an array) or a loop that
  does not end; the results of the operations are the code's negative error numbers and 0.
\<close>

definition ENOENT_VFS :: int where [simp]: "ENOENT_VFS = -2"
definition ENOMEM_VFS :: int where [simp]: "ENOMEM_VFS = -3"
definition EINVAL_VFS :: int where [simp]: "EINVAL_VFS = -4"
definition ENOSYS_VFS :: int where [simp]: "ENOSYS_VFS = -5"
definition EACCES_VFS :: int where [simp]: "EACCES_VFS = -6"
definition EEXIST_VFS :: int where [simp]: "EEXIST_VFS = -7"
definition EINTERR_VFS :: int where [simp]: "EINTERR_VFS = -8"
definition ENODEV_VFS :: int where [simp]: "ENODEV_VFS = -9"
definition EBUSY_VFS :: int where [simp]: "EBUSY_VFS = -11"

definition O_CREAT :: int where "O_CREAT = 0x40"
definition SEEK_SET :: int where [simp]: "SEEK_SET = 0"
definition SEEK_CUR :: int where [simp]: "SEEK_CUR = 1"
definition SEEK_END :: int where [simp]: "SEEK_END = 2"

definition MAX_FILE_NAME :: nat where "MAX_FILE_NAME = 64"
definition MAX_CHILDREN :: nat where "MAX_CHILDREN = 16"
definition DEFAULT_FILE_SIZE :: u64 where "DEFAULT_FILE_SIZE = 4096"
definition MAX_FILESYSTEMS :: nat where "MAX_FILESYSTEMS = 10"

text \<open>The tables of operations.\<close>

datatype vops = V_NULL | TMPFS_V | INITRAMFS_V
datatype fops = F_NULL | TMPFS_F | INITRAMFS_F | UART_F | FRAMEBUFFER_F
datatype mountop = M_NULL | TMPFS_M | INITRAMFS_M

record vnode =
  v_mount :: addr
  v_ops :: vops
  f_ops :: fops
  internal :: addr
  v_parent :: addr
  parent_is_mount :: bool

record vfile =
  f_vnode :: addr
  f_pos :: u64
  f_fops :: fops
  f_flags :: int

record mount =
  m_root :: addr
  m_fs :: addr

record filesystem =
  fs_name :: "byte list"
  setup_mount :: mountop

datatype node_type = NODE_FILE | NODE_DIRECTORY

text \<open>\<open>struct tmpfs_node\<close> and \<open>struct initramfs_node\<close> have the same fields.\<close>

record fs_node =
  n_name :: "byte list"
  n_type :: node_type
  n_parent :: addr
  n_data :: addr
  n_size :: u64
  n_capacity :: u64
  n_children :: "nat \<Rightarrow> addr"
  num_children :: nat

text \<open>The sizes of the structs.\<close>

definition VNODE_SIZE :: u32 where "VNODE_SIZE = 48"
definition FILE_SIZE :: u32 where "FILE_SIZE = 32"
definition MOUNT_SIZE :: u32 where "MOUNT_SIZE = 16"
definition FILESYSTEM_SIZE :: u32 where "FILESYSTEM_SIZE = 16"
definition NODE_SIZE :: u32 where "NODE_SIZE = 240"

text \<open>
  The frame buffer's variables are those of src/dev_framebuffer.c. \<open>current\<close> is the running
  thread (\<open>get_current()\<close>), and \<open>cwd\<close> and \<open>fd_table\<close> are the fields of \<open>struct ThreadTask\<close> the file system uses.
\<close>

record fs =
  fs_heap :: heap
  fs_uart :: uart
  vnodes :: "addr \<Rightarrow> vnode"
  files :: "addr \<Rightarrow> vfile"
  mounts :: "addr \<Rightarrow> mount"
  fstypes :: "addr \<Rightarrow> filesystem"
  fsnodes :: "addr \<Rightarrow> fs_node"
  rootfs :: addr
  filesystems :: "nat \<Rightarrow> addr"
  num_filesystems :: nat
  current :: addr
  cwd :: "addr \<Rightarrow> addr"
  fd_table :: "addr \<Rightarrow> nat \<Rightarrow> addr"
  lfb :: addr
  fb_info :: "u32 \<times> u32 \<times> u32 \<times> u32"

definition fs_mem :: "fs \<Rightarrow> mem" where
  "fs_mem s = u_mem (fs_uart s)"

definition put_mem :: "mem \<Rightarrow> fs \<Rightarrow> fs" where
  "put_mem m s = s\<lparr>fs_uart := (fs_uart s)\<lparr>u_mem := m\<rparr>\<rparr>"

definition upd_vnode :: "addr \<Rightarrow> (vnode \<Rightarrow> vnode) \<Rightarrow> fs \<Rightarrow> fs" where
  "upd_vnode a f s = s\<lparr>vnodes := (vnodes s)(a := f (vnodes s a))\<rparr>"

definition upd_file :: "addr \<Rightarrow> (vfile \<Rightarrow> vfile) \<Rightarrow> fs \<Rightarrow> fs" where
  "upd_file a f s = s\<lparr>files := (files s)(a := f (files s a))\<rparr>"

definition upd_mount :: "addr \<Rightarrow> (mount \<Rightarrow> mount) \<Rightarrow> fs \<Rightarrow> fs" where
  "upd_mount a f s = s\<lparr>mounts := (mounts s)(a := f (mounts s a))\<rparr>"

definition upd_node :: "addr \<Rightarrow> (fs_node \<Rightarrow> fs_node) \<Rightarrow> fs \<Rightarrow> fs" where
  "upd_node a f s = s\<lparr>fsnodes := (fsnodes s)(a := f (fsnodes s a))\<rparr>"

text \<open>Allocation and release in the file system's state.\<close>

definition fs_alloc :: "u32 \<Rightarrow> fs \<Rightarrow> (addr \<times> fs) option" where
  "fs_alloc n s = map_option (\<lambda>(p, h). (p, s\<lparr>fs_heap := h\<rparr>)) (alloc n (fs_heap s))"

definition fs_free :: "layout \<Rightarrow> addr \<Rightarrow> fs \<Rightarrow> fs option" where
  "fs_free L p s = map_option (\<lambda>h. s\<lparr>fs_heap := h\<rparr>) (free L p (fs_heap s))"

subsection \<open>File system types\<close>

text \<open>\<open>register_filesystem\<close> of src/fs_vfs.c; \<open>strcmp\<close> of two names is 0 when they are equal.\<close>

definition register_filesystem :: "addr \<Rightarrow> fs \<Rightarrow> int \<times> fs" where
  "register_filesystem f s =
     (if f = NULL then (EINVAL_VFS, s)
      else if num_filesystems s < MAX_FILESYSTEMS then
        if \<exists>i < num_filesystems s. filesystems s i \<noteq> NULL \<and> fs_name (fstypes s (filesystems s i)) = fs_name (fstypes s f)
        then (EEXIST_VFS, s)
        else (0, s\<lparr>filesystems := (filesystems s)(num_filesystems s := f), num_filesystems := num_filesystems s + 1\<rparr>)
      else (ENOMEM_VFS, s))"

text \<open>The allocation of a \<open>struct filesystem\<close>; without memory the code writes through \<open>NULL\<close>.\<close>

definition register_new :: "byte list \<Rightarrow> mountop \<Rightarrow> fs \<Rightarrow> (int \<times> fs) option" where
  "register_new name m s =
     (case fs_alloc FILESYSTEM_SIZE s of
        None \<Rightarrow> None
      | Some (f, s1) \<Rightarrow>
          if f = NULL then None
          else Some (register_filesystem f
                 (s1\<lparr>fstypes := (fstypes s1)(f := \<lparr>fs_name = name, setup_mount = m\<rparr>)\<rparr>)))"

subsection \<open>Positions in files\<close>

text \<open>
  \<open>lseek64\<close> is the same function of the position, the end and the arguments in every file
  system; \<open>None\<close> is \<open>EINVAL_VFS\<close>. The arithmetic is that of \<open>long\<close> and \<open>size_t\<close>.
\<close>

definition seek :: "u64 \<Rightarrow> u64 \<Rightarrow> u64 \<Rightarrow> int \<Rightarrow> u64 option" where
  "seek pos end offset whence =
     (let new_pos = (if whence = SEEK_SET then Some offset
                     else if whence = SEEK_CUR then Some (pos + offset)
                     else if whence = SEEK_END then Some (end + offset)
                     else None)
      in case new_pos of None \<Rightarrow> None | Some p \<Rightarrow> if sint p < 0 then None else Some p)"

text \<open>A length returned as \<open>int\<close>.\<close>

definition ret_len :: "u64 \<Rightarrow> int" where
  "ret_len len = to_s32 (uint len)"

end
