(* ===== verification/Tmpfs.thy ===== *)
theory Tmpfs
  imports Fs
begin

section \<open>The in-memory file system (src/fs_tmpfs.c)\<close>

text \<open>
  Directories hold up to \<open>MAX_CHILDREN\<close> vnodes; a file's contents are a block of \<open>n_capacity\<close> bytes that
  doubles when a write goes past its end. Operations that give back a vnode return it as a pair with
  the result; the caller stores it.
\<close>

subsection \<open>Nodes\<close>

definition tmpfs_create_internal_node :: "layout \<Rightarrow> byte list \<Rightarrow> node_type \<Rightarrow> addr \<Rightarrow> fs \<Rightarrow> (addr \<times> fs) option" where
  "tmpfs_create_internal_node L name type parent s = do {
     (new_node, s1) \<leftarrow> fs_alloc NODE_SIZE s;
     if new_node = NULL then Some (NULL, s1)
     else if MAX_FILE_NAME \<le> length name then None
     else do {
       let s2 = upd_node new_node (\<lambda>n. n\<lparr>n_name := name, n_type := type, n_parent := parent,
                  n_data := NULL, n_size := 0, n_capacity := 0, num_children := 0,
                  n_children := \<lambda>i. if i < MAX_CHILDREN then NULL else n_children n i\<rparr>) s1;
       if type = NODE_FILE then do {
         (data, s3) \<leftarrow> fs_alloc (ucast DEFAULT_FILE_SIZE) s2;
         let s4 = upd_node new_node (\<lambda>n. n\<lparr>n_data := data\<rparr>) s3;
         if data = NULL then map_option (\<lambda>t. (NULL, t)) (fs_free L new_node s4)
         else Some (new_node, upd_node new_node (\<lambda>n. n\<lparr>n_capacity := DEFAULT_FILE_SIZE\<rparr>) s4)
       }
       else Some (new_node, s2)
     }
   }"

text \<open>The release of a node that got no vnode.\<close>

definition tmpfs_drop_node :: "layout \<Rightarrow> addr \<Rightarrow> fs \<Rightarrow> fs option" where
  "tmpfs_drop_node L n s = do {
     s1 \<leftarrow> (if n_data (fsnodes s n) \<noteq> NULL then fs_free L (n_data (fsnodes s n)) s else Some s);
     fs_free L n s1
   }"

definition register_tmpfs :: "fs \<Rightarrow> (int \<times> fs) option" where
  "register_tmpfs s = register_new [0x74, 0x6D, 0x70, 0x66, 0x73] TMPFS_M s"

text \<open>The field \<open>parent\<close> of the root is not written here.\<close>

definition tmpfs_setup_mount :: "layout \<Rightarrow> addr \<Rightarrow> addr \<Rightarrow> fs \<Rightarrow> (int \<times> fs) option" where
  "tmpfs_setup_mount L fsys mnt s =
     (if fsys = NULL \<or> mnt = NULL then Some (EINVAL_VFS, s)
      else do {
        (tmpfs_root, s1) \<leftarrow> tmpfs_create_internal_node L [0x2F] NODE_DIRECTORY NULL s;
        if tmpfs_root = NULL then Some (ENOMEM_VFS, s1)
        else do {
          let s2 = upd_mount mnt (\<lambda>m. m\<lparr>m_fs := fsys\<rparr>) s1;
          (root, s3) \<leftarrow> fs_alloc VNODE_SIZE s2;
          let s4 = upd_mount mnt (\<lambda>m. m\<lparr>m_root := root\<rparr>) s3;
          if root = NULL then map_option (\<lambda>t. (ENOMEM_VFS, t)) (tmpfs_drop_node L tmpfs_root s4)
          else Some (0, upd_vnode root (\<lambda>v. v\<lparr>v_mount := NULL, v_ops := TMPFS_V, f_ops := TMPFS_F,
                          internal := tmpfs_root, parent_is_mount := True\<rparr>) s4)
        }
      })"

subsection \<open>Directories\<close>

definition children :: "fs_node \<Rightarrow> addr list" where
  "children n = map (n_children n) [0..<num_children n]"

text \<open>The loop over the children, here over the vnodes it visits.\<close>

fun find_child :: "fs \<Rightarrow> byte list \<Rightarrow> addr list \<Rightarrow> addr option" where
  "find_child s name [] = None"
| "find_child s name (v # vs) =
     (if n_name (fsnodes s (internal (vnodes s v))) = name then Some v else find_child s name vs)"

definition tmpfs_lookup :: "addr \<Rightarrow> byte list \<Rightarrow> fs \<Rightarrow> int \<times> addr" where
  "tmpfs_lookup dir_node name s =
     (if dir_node = NULL \<or> internal (vnodes s dir_node) = NULL then (EINVAL_VFS, NULL)
      else
        let parent_internal = fsnodes s (internal (vnodes s dir_node)) in
        if n_type parent_internal \<noteq> NODE_DIRECTORY then (EACCES_VFS, NULL)
        else (case find_child s name (children parent_internal) of
                None \<Rightarrow> (ENOENT_VFS, NULL)
              | Some v \<Rightarrow> (0, v)))"

definition tmpfs_create_or_mkdir :: "layout \<Rightarrow> addr \<Rightarrow> byte list \<Rightarrow> node_type \<Rightarrow> fs \<Rightarrow> (int \<times> addr \<times> fs) option" where
  "tmpfs_create_or_mkdir L dir_node name type s =
     (if dir_node = NULL \<or> internal (vnodes s dir_node) = NULL \<or> name = [] then Some (EINVAL_VFS, NULL, s)
      else
        let parent = internal (vnodes s dir_node); parent_internal = fsnodes s parent in
        if n_type parent_internal \<noteq> NODE_DIRECTORY then Some (EACCES_VFS, NULL, s)
        else if MAX_FILE_NAME \<le> length name then Some (EINVAL_VFS, NULL, s)
        else if find_child s name (children parent_internal) \<noteq> None then Some (EEXIST_VFS, NULL, s)
        else if MAX_CHILDREN \<le> num_children parent_internal then Some (ENOMEM_VFS, NULL, s)
        else do {
          (new_internal, s1) \<leftarrow> tmpfs_create_internal_node L name type parent s;
          if new_internal = NULL then Some (ENOMEM_VFS, NULL, s1)
          else do {
            (new_vnode, s2) \<leftarrow> fs_alloc VNODE_SIZE s1;
            if new_vnode = NULL then map_option (\<lambda>t. (ENOMEM_VFS, NULL, t)) (tmpfs_drop_node L new_internal s2)
            else do {
              let s3 = upd_vnode new_vnode (\<lambda>v. v\<lparr>v_mount := v_mount (vnodes s2 dir_node), v_ops := TMPFS_V,
                         f_ops := TMPFS_F, internal := new_internal, v_parent := dir_node,
                         parent_is_mount := False\<rparr>) s2;
              let s4 = upd_node parent (\<lambda>n. n\<lparr>n_children := (n_children n)(num_children n := new_vnode),
                         num_children := num_children n + 1\<rparr>) s3;
              Some (0, new_vnode, s4)
            }
          }
        })"

definition tmpfs_create :: "layout \<Rightarrow> addr \<Rightarrow> byte list \<Rightarrow> fs \<Rightarrow> (int \<times> addr \<times> fs) option" where
  "tmpfs_create L dir_node name s = tmpfs_create_or_mkdir L dir_node name NODE_FILE s"

definition tmpfs_mkdir :: "layout \<Rightarrow> addr \<Rightarrow> byte list \<Rightarrow> fs \<Rightarrow> (int \<times> addr \<times> fs) option" where
  "tmpfs_mkdir L dir_node name s = tmpfs_create_or_mkdir L dir_node name NODE_DIRECTORY s"

subsection \<open>File handles\<close>

text \<open>\<open>tmpfs_open\<close> fills in the handle \<open>vfs_open\<close> has allocated.\<close>

definition tmpfs_open :: "addr \<Rightarrow> addr \<Rightarrow> fs \<Rightarrow> int \<times> fs" where
  "tmpfs_open file_node handle s =
     (if file_node = NULL \<or> handle = NULL then (EINVAL_VFS, s)
      else (0, upd_file handle (\<lambda>f. f\<lparr>f_pos := 0, f_vnode := file_node, f_fops := f_ops (vnodes s file_node)\<rparr>) s))"

definition tmpfs_close :: "addr \<Rightarrow> fs \<Rightarrow> int \<times> fs" where
  "tmpfs_close fp s =
     (if fp = NULL then (EINVAL_VFS, s)
      else (0, upd_file fp (\<lambda>f. f\<lparr>f_vnode := NULL, f_pos := 0, f_fops := F_NULL, f_flags := 0\<rparr>) s))"

text \<open>The doubling of the capacity; \<open>None\<close>: it wraps round to 0 and never reaches the size required.\<close>

partial_function (option) grow :: "u64 \<Rightarrow> u64 \<Rightarrow> u64 option" where
  "grow required new_capacity =
     (if new_capacity < required then grow required (new_capacity * 2) else Some new_capacity)"

definition tmpfs_reserve :: "layout \<Rightarrow> addr \<Rightarrow> u64 \<Rightarrow> fs \<Rightarrow> (bool \<times> fs) option" where
  "tmpfs_reserve L n required s =
     (let node = fsnodes s n in
      if required \<le> n_capacity node then Some (True, s)
      else do {
        new_capacity \<leftarrow> grow required (if 0 < n_capacity node then n_capacity node else DEFAULT_FILE_SIZE);
        if new_capacity \<le> n_capacity node then Some (True, s)
        else do {
          (new_data, s1) \<leftarrow> fs_alloc (ucast new_capacity) s;
          if new_data = NULL then Some (False, s1)
          else do {
            s2 \<leftarrow> (if n_data node \<noteq> NULL
                  then fs_free L (n_data node)
                         (put_mem (memcpy new_data (n_data node) (ucast (n_size node)) (fs_mem s1)) s1)
                  else Some s1);
            Some (True, upd_node n (\<lambda>k. k\<lparr>n_data := new_data, n_capacity := new_capacity\<rparr>) s2)
          }
        }
      })"

definition bad_handle :: "addr \<Rightarrow> fs \<Rightarrow> bool" where
  "bad_handle fp s \<longleftrightarrow> fp = NULL \<or> f_vnode (files s fp) = NULL \<or> internal (vnodes s (f_vnode (files s fp))) = NULL"

definition file_node :: "addr \<Rightarrow> fs \<Rightarrow> addr" where
  "file_node fp s = internal (vnodes s (f_vnode (files s fp)))"

definition tmpfs_write :: "layout \<Rightarrow> addr \<Rightarrow> addr \<Rightarrow> u64 \<Rightarrow> fs \<Rightarrow> (int \<times> fs) option" where
  "tmpfs_write L fp buf len s =
     (if bad_handle fp s \<or> buf = NULL then Some (EINVAL_VFS, s)
      else if len = 0 then Some (0, s)
      else
        let n = file_node fp s in
        if n_type (fsnodes s n) \<noteq> NODE_FILE then Some (EACCES_VFS, s)
        else do {
          (ok, s1) \<leftarrow> tmpfs_reserve L n (f_pos (files s fp) + len) s;
          if \<not> ok then Some (ENOMEM_VFS, s1)
          else
            let pos = f_pos (files s1 fp);
                s2 = put_mem (memcpy (n_data (fsnodes s1 n) + unat pos) buf (ucast len) (fs_mem s1)) s1;
                s3 = upd_file fp (\<lambda>f. f\<lparr>f_pos := pos + len\<rparr>) s2;
                s4 = (if n_size (fsnodes s3 n) < pos + len then upd_node n (\<lambda>k. k\<lparr>n_size := pos + len\<rparr>) s3 else s3)
            in Some (ret_len len, s4)
        })"

text \<open>\<open>tmpfs_read\<close> and \<open>initramfs_read\<close> are the same but for the names.\<close>

definition tmpfs_read :: "addr \<Rightarrow> addr \<Rightarrow> u64 \<Rightarrow> fs \<Rightarrow> int \<times> fs" where
  "tmpfs_read fp buf len s =
     (if bad_handle fp s \<or> buf = NULL then (EINVAL_VFS, s)
      else if len = 0 then (0, s)
      else
        let node = fsnodes s (file_node fp s); pos = f_pos (files s fp) in
        if n_type node \<noteq> NODE_FILE then (EACCES_VFS, s)
        else if n_size node \<le> pos then (0, s)
        else
          let readable_len = (if n_size node < pos + len then n_size node - pos else len);
              s1 = put_mem (memcpy buf (n_data node + unat pos) (ucast readable_len) (fs_mem s)) s
          in (ret_len readable_len, upd_file fp (\<lambda>f. f\<lparr>f_pos := pos + readable_len\<rparr>) s1))"

definition tmpfs_lseek64 :: "addr \<Rightarrow> u64 \<Rightarrow> int \<Rightarrow> fs \<Rightarrow> int \<times> fs" where
  "tmpfs_lseek64 fp offset whence s =
     (if bad_handle fp s then (EINVAL_VFS, s)
      else if n_type (fsnodes s (file_node fp s)) \<noteq> NODE_FILE then (EINVAL_VFS, s)
      else (case seek (f_pos (files s fp)) (n_size (fsnodes s (file_node fp s))) offset whence of
              None \<Rightarrow> (EINVAL_VFS, s)
            | Some p \<Rightarrow> (sint p, upd_file fp (\<lambda>f. f\<lparr>f_pos := p\<rparr>) s)))"

end
