(* ===== verification/Cpio.thy ===== *)
theory Cpio
  imports UartQueue
begin

section \<open>The initial RAM disk (src/cpio.c)\<close>

text \<open>
  The archive is read from memory at \<open>cpio_addr\<close>. The five loops over it in src/cpio.c and
  src/fs_initramfs.c start with the same statements, here \<open>cpio_step\<close>. The two magic arrays have no NUL, so
  \<open>strcmp\<close> goes on behind them when all six characters agree; what it returns then is the parameter \<open>pad\<close>.
  \<open>archive\<close> says what a well-formed archive is, and the lemmas relate the loops to the list of its entries.
\<close>

definition HEADER_SIZE :: u32 where [simp]: "HEADER_SIZE = 110"

text \<open>\<open>"070701"\<close> and \<open>"TRAILER!!!"\<close>\<close>

definition cpio_magic :: "byte list" where
  "cpio_magic = [0x30, 0x37, 0x30, 0x37, 0x30, 0x31]"

definition trailer :: "byte list" where
  "trailer = [0x54, 0x52, 0x41, 0x49, 0x4C, 0x45, 0x52, 0x21, 0x21, 0x21]"

definition mem_bytes :: "mem \<Rightarrow> addr \<Rightarrow> nat \<Rightarrow> byte list" where
  "mem_bytes m a n = map (\<lambda>i. m (a + i)) [0..<n]"

lemma length_mem_bytes [simp]: "length (mem_bytes m a n) = n"
  by (simp add: mem_bytes_def)

lemma nth_mem_bytes [simp]: "i < n \<Longrightarrow> mem_bytes m a n ! i = m (a + i)"
  by (simp add: mem_bytes_def)

lemma mem_bytes_eqI: "(\<And>i. i < n \<Longrightarrow> m (a + i) = m' (b + i)) \<Longrightarrow> mem_bytes m a n = mem_bytes m' b n"
  by (simp add: mem_bytes_def)

text \<open>\<open>strcmp(magic, header_magic) == 0\<close>\<close>

definition magic_ok :: "int \<Rightarrow> mem \<Rightarrow> addr \<Rightarrow> bool" where
  "magic_ok pad m header \<longleftrightarrow> mem_bytes m header 6 = cpio_magic \<and> pad = 0"

datatype cpio_item =
    Invalid
  | Trailer
  | Entry "byte list" addr u32 addr  \<comment> \<open>name, address of the data, its size, next header\<close>

text \<open>
  \<open>filename\<close> has 256 bytes; a longer name or one without a NUL is undefined behaviour. The field
  offsets are those of \<open>struct cpio_newc_header\<close>.
\<close>

definition c_filesize :: nat where "c_filesize = 54"
definition c_namesize :: nat where "c_namesize = 94"

definition cpio_step :: "int \<Rightarrow> mem \<Rightarrow> addr \<Rightarrow> cpio_item option" where
  "cpio_step pad m header =
     (if \<not> magic_ok pad m header then Some Invalid
      else
        let filename_addr = header + unat HEADER_SIZE;
            filenamesize = hex_to_uint m (header + c_namesize) 8;
            filesize = hex_to_uint m (header + c_filesize) 8;
            filename = mem_bytes m filename_addr (unat filenamesize)
        in if 256 < filenamesize \<or> 0 \<notin> set filename then None
           else
             let name = takeWhile (\<lambda>c. c \<noteq> 0) filename in
             if name = trailer then Some Trailer
             else
               let data = header + unat (align (HEADER_SIZE + filenamesize) 4);
                   filenamesize' = align (HEADER_SIZE + filenamesize) 4 - HEADER_SIZE;
                   filesize' = align filesize 4
               in Some (Entry name data filesize
                         (header + unat HEADER_SIZE + unat filenamesize' + unat filesize')))"

text \<open>Literals that are printed.\<close>

definition crlf :: "byte list" where "crlf = [0x0D, 0x0A]"

definition not_found_msg :: "byte list" where
  "not_found_msg = [0x3A, 0x20, 0x20, 0x4E, 0x6F, 0x20, 0x73, 0x75, 0x63, 0x68, 0x20, 0x66, 0x69, 0x6C, 0x65,
     0x20, 0x6F, 0x72, 0x20, 0x64, 0x69, 0x72, 0x65, 0x63, 0x74, 0x6F, 0x72, 0x79, 0x0D, 0x0A]"

definition invalid_msg :: "byte list" where
  "invalid_msg = [0x49, 0x6E, 0x76, 0x61, 0x6C, 0x69, 0x64, 0x20, 0x63, 0x70, 0x69, 0x6F, 0x20, 0x68, 0x65, 0x61,
     0x64, 0x65, 0x72, 0x0D, 0x0A]"

text \<open>The message of the other loops ends with the six characters of the header instead.\<close>

definition invalid_header_msg :: "mem \<Rightarrow> addr \<Rightarrow> byte list" where
  "invalid_header_msg m header = butlast (butlast invalid_msg) @ [0x3A, 0x20] @ mem_bytes m header 6 @ crlf"

partial_function (option) cpio_list_from :: "int \<Rightarrow> addr \<Rightarrow> uart \<Rightarrow> uart option" where
  "cpio_list_from pad header s =
     (case cpio_step pad (u_mem s) header of
        None \<Rightarrow> None
      | Some Invalid \<Rightarrow> Some (uart_puts_lit invalid_msg s)
      | Some Trailer \<Rightarrow> Some s
      | Some (Entry name data sz next) \<Rightarrow> cpio_list_from pad next (uart_puts_lit crlf (uart_puts_lit name s)))"

definition cpio_list :: "int \<Rightarrow> addr \<Rightarrow> uart \<Rightarrow> uart option" where
  "cpio_list pad cpio_addr s = cpio_list_from pad cpio_addr s"

partial_function (option) cpio_cat_from :: "int \<Rightarrow> byte list \<Rightarrow> addr \<Rightarrow> uart \<Rightarrow> uart option" where
  "cpio_cat_from pad target header s =
     (case cpio_step pad (u_mem s) header of
        None \<Rightarrow> None
      | Some Invalid \<Rightarrow> Some (uart_puts_lit (invalid_header_msg (u_mem s) header) s)
      | Some Trailer \<Rightarrow> Some (uart_puts_lit not_found_msg (uart_puts_lit target s))
      | Some (Entry name data sz next) \<Rightarrow>
          if name = target then Some (uart_puts_lit crlf (putn_loop (unat sz) data s))
          else cpio_cat_from pad target next s)"

definition cpio_cat :: "int \<Rightarrow> addr \<Rightarrow> byte list \<Rightarrow> uart \<Rightarrow> uart option" where
  "cpio_cat pad cpio_addr target s = cpio_cat_from pad target cpio_addr s"

text \<open>
  The loop of \<open>cpio_get_exec\<close> and \<open>cpio_get_file_size\<close>, without what it prints: the entry found.
\<close>

partial_function (option) cpio_find :: "int \<Rightarrow> mem \<Rightarrow> byte list \<Rightarrow> addr \<Rightarrow> (addr \<times> u32) option option" where
  "cpio_find pad m target header =
     (case cpio_step pad m header of
        None \<Rightarrow> None
      | Some Invalid \<Rightarrow> Some None
      | Some Trailer \<Rightarrow> Some None
      | Some (Entry name data sz next) \<Rightarrow>
          if name = target then Some (Some (data, sz)) else cpio_find pad m target next)"

text \<open>Without an entry of that name the code returns no value: \<open>None\<close>.\<close>

definition cpio_get_exec :: "int \<Rightarrow> addr \<Rightarrow> byte list \<Rightarrow> addr \<Rightarrow> mem \<Rightarrow> (addr option \<times> mem) option" where
  "cpio_get_exec pad cpio_addr target exec_addr m =
     (case cpio_find pad m target cpio_addr of
        None \<Rightarrow> None
      | Some None \<Rightarrow> Some (None, m)
      | Some (Some (data, sz)) \<Rightarrow> Some (Some data, if exec_addr \<noteq> NULL then memcpy exec_addr data sz m else m))"

definition cpio_get_file_size :: "int \<Rightarrow> addr \<Rightarrow> byte list \<Rightarrow> mem \<Rightarrow> u32 option" where
  "cpio_get_file_size pad cpio_addr target m =
     (case cpio_find pad m target cpio_addr of
        None \<Rightarrow> None
      | Some None \<Rightarrow> Some 0
      | Some (Some (data, sz)) \<Rightarrow> Some sz)"

subsection \<open>Well-formed archives\<close>

text \<open>
  The archive at \<open>h\<close> has the entries \<open>es\<close>, each a name without NUL and its contents, padded to
  multiples of four as the format says, and ends with the trailer.
\<close>

definition pad4 :: "nat \<Rightarrow> nat" where
  "pad4 n = (n + 3) div 4 * 4"

definition header_at :: "mem \<Rightarrow> addr \<Rightarrow> byte list \<Rightarrow> nat \<Rightarrow> bool" where
  "header_at m h name sz \<longleftrightarrow> mem_bytes m h 6 = cpio_magic \<and>
     hex_value (mem_bytes m (h + 94) 8) = length name + 1 \<and> hex_value (mem_bytes m (h + 54) 8) = sz \<and>
     length name < 256 \<and> 0 \<notin> set name \<and> mem_bytes m (h + 110) (length name + 1) = name @ [0]"

fun archive :: "mem \<Rightarrow> addr \<Rightarrow> (byte list \<times> byte list) list \<Rightarrow> bool" where
  "archive m h [] \<longleftrightarrow> header_at m h trailer 0"
| "archive m h ((name, content) # es) \<longleftrightarrow>
     header_at m h name (length content) \<and> name \<noteq> trailer \<and> length content < 2 ^ 31 \<and>
     mem_bytes m (h + pad4 (111 + length name)) (length content) = content \<and>
     archive m (h + pad4 (111 + length name) + pad4 (length content)) es"

lemma align4: "unat n < 2 ^ 32 - 4 \<Longrightarrow> unat (align n 4) = pad4 (unat n)"
  using align_eq [of 2 n] by (simp add: pad4_def)

lemma hex8: "hex_to_uint m a 8 = of_nat (hex_value (mem_bytes m a 8))"
  using hex_to_uint_eq [of "mem_bytes m a 8" m a] by simp

lemma pad4_le: "n \<le> pad4 n" "pad4 n < n + 4"
proof -
  have "(n + 3) div 4 * 4 + (n + 3) mod 4 = n + 3" "(n + 3) mod 4 < 4" by simp_all
  then show "n \<le> pad4 n" "pad4 n < n + 4" unfolding pad4_def by linarith+
qed

lemma step_entry:
  assumes h: "header_at m h name sz" and sz: "sz < 2 ^ 31"
  shows "cpio_step 0 m h = Some (if name = trailer then Trailer
     else Entry name (h + pad4 (111 + length name)) (of_nat sz) (h + pad4 (111 + length name) + pad4 sz))"
proof -
  let ?n = "of_nat (length name + 1) :: u32" and ?s = "of_nat sz :: u32"
  have len: "length name < 256" and nz: "0 \<notin> set name" using h by (auto simp: header_at_def)
  have n: "hex_to_uint m (h + c_namesize) 8 = ?n" "hex_to_uint m (h + c_filesize) 8 = ?s"
    using h by (simp_all add: header_at_def hex8 c_namesize_def c_filesize_def)
  have un: "unat ?n = length name + 1" using len by (simp only: unat_of_nat) simp
  have us: "unat ?s = sz" using sz by (simp add: unat_of_nat)
  have fn: "mem_bytes m (h + unat HEADER_SIZE) (unat ?n) = name @ [0]"
    using h unfolding un by (simp add: header_at_def)
  have tk: "takeWhile (\<lambda>c. c \<noteq> 0) (name @ [0]) = name"
    using nz by (subst takeWhile_append2) auto
  have uh: "unat (HEADER_SIZE + ?n) = 111 + length name"
  proof -
    have "HEADER_SIZE + ?n = of_nat (111 + length name)" by simp
    then show ?thesis using len by (simp only: unat_of_nat) simp
  qed
  have a1: "unat (align (HEADER_SIZE + ?n) 4) = pad4 (111 + length name)"
    using align4 [of "HEADER_SIZE + ?n"] uh len by simp
  have a2: "unat (align ?s 4) = pad4 sz" using align4 [of ?s] us sz by simp
  have "HEADER_SIZE \<le> align (HEADER_SIZE + ?n) 4"
    using a1 pad4_le(1) [of "111 + length name"] by (simp add: word_le_nat_alt)
  then have a3: "unat HEADER_SIZE + unat (align (HEADER_SIZE + ?n) 4 - HEADER_SIZE) = pad4 (111 + length name)"
    using a1 pad4_le(1) [of "111 + length name"] by (simp add: unat_sub)
  have le: "\<not> 256 < ?n" using un len by (simp add: word_less_nat_alt)
  have ok: "magic_ok 0 m h" using h by (simp add: magic_ok_def header_at_def)
  have "0 \<in> set (name @ [0])" by simp
  then show ?thesis
    using ok le a1 a2 a3 by (simp only: cpio_step_def Let_def n fn tk if_False if_True not_True_eq_False
      simp_thms add.assoc [symmetric] split: if_splits) auto
qed

subsection \<open>The loops on a well-formed archive\<close>

text \<open>Where the contents of the first entry of a given name are.\<close>

fun locate :: "addr \<Rightarrow> (byte list \<times> byte list) list \<Rightarrow> byte list \<Rightarrow> (addr \<times> nat) option" where
  "locate h [] target = None"
| "locate h ((name, content) # es) target =
     (if name = target then Some (h + pad4 (111 + length name), length content)
      else locate (h + pad4 (111 + length name) + pad4 (length content)) es target)"

lemma locate_map_of: "archive m h es \<Longrightarrow>
    (case locate h es target of
       None \<Rightarrow> map_of es target = None
     | Some (a, n) \<Rightarrow> n < 2 ^ 31 \<and> map_of es target = Some (mem_bytes m a n))"
  by (induction h es target rule: locate.induct) (auto split: option.splits)

lemma find_eq:
  "archive m h es \<Longrightarrow> cpio_find 0 m target h = Some (map_option (\<lambda>(a, n). (a, of_nat n)) (locate h es target))"
proof (induction h es target rule: locate.induct)
  case (1 h target)
  then show ?case using step_entry [of m h trailer 0] by (subst cpio_find.simps) simp
next
  case (2 h name content es target)
  then show ?case
    using step_entry [of m h name "length content"] by (subst cpio_find.simps) (auto split: option.splits)
qed

lemma file_size_eq:
  assumes "archive m h es"
  shows "cpio_get_file_size 0 h target m =
     Some (case map_of es target of None \<Rightarrow> 0 | Some content \<Rightarrow> of_nat (length content))"
  using find_eq [OF assms, of target] locate_map_of [OF assms, of target]
  by (auto simp: cpio_get_file_size_def split: option.splits prod.splits)

text \<open>\<open>memcpy\<close> to a place that does not overlap the source.\<close>

lemma memcpy_loop_at:
  "d + n \<le> s \<or> s + n \<le> d \<Longrightarrow> memcpy_loop n d s m x = (if d \<le> x \<and> x < d + n then m (s + (x - d)) else m x)"
proof (induction n arbitrary: d s m)
  case (Suc n)
  have "memcpy_loop n (Suc d) (Suc s) (m(d := m s)) x =
      (if Suc d \<le> x \<and> x < Suc d + n then (m(d := m s)) (Suc s + (x - Suc d)) else (m(d := m s)) x)"
    using Suc.prems by (intro Suc.IH) auto
  then show ?case using Suc.prems by (cases "x = d") (auto simp: Suc_diff_Suc)
qed auto

lemma memcpy_at:
  "d + unat n \<le> s \<or> s + unat n \<le> d \<Longrightarrow>
   memcpy d s n m x = (if d \<le> x \<and> x < d + unat n then m (s + (x - d)) else m x)"
  by (simp add: memcpy_def memcpy_loop_at)

lemma memcpy_bytes:
  assumes "d + unat n \<le> s \<or> s + unat n \<le> d"
  shows "mem_bytes (memcpy d s n m) d (unat n) = mem_bytes m s (unat n)"
  by (rule mem_bytes_eqI) (simp add: memcpy_at [OF assms])

lemma get_exec_eq:
  assumes a: "archive m h es" and c: "map_of es target = Some content"
    and apart: "dst + length content \<le> h" and nn: "dst \<noteq> NULL"
  shows "\<exists>p m'. cpio_get_exec 0 h target dst m = Some (Some p, m') \<and>
     mem_bytes m p (length content) = content \<and> mem_bytes m' dst (length content) = content"
proof -
  obtain p n where p: "locate h es target = Some (p, n)" "n < 2 ^ 31" "mem_bytes m p n = content"
    using locate_map_of [OF a, of target] c by (auto split: option.splits)
  have n: "n = length content" using p(3) by auto
  have u: "unat (of_nat n :: u32) = n" using p(2) by (simp add: unat_of_nat)
  have "h \<le> p" using p(1)
  proof (induction h es target rule: locate.induct)
    case (2 h name content es target)
    then show ?case by (auto split: if_splits)
  qed simp
  then have "mem_bytes (memcpy dst p (of_nat n) m) dst n = content"
    using memcpy_bytes [of dst "of_nat n" p m] apart p(3) u n by simp
  then show ?thesis using find_eq [OF a, of target] p(1,3) nn n by (auto simp: cpio_get_exec_def)
qed

text \<open>\<open>cpio_list\<close> prints every name on a line of its own.\<close>

lemma list_eq:
  "archive (u_mem s) h es \<Longrightarrow>
   cpio_list 0 h s = Some (s\<lparr>line_out := line_out s @ concat (map (\<lambda>(name, _). poll_bytes (name @ crlf)) es)\<rparr>)"
  unfolding cpio_list_def
proof (induction es arbitrary: h s)
  case Nil
  then show ?case using step_entry [of "u_mem s" h trailer 0] by (subst cpio_list_from.simps) simp
next
  case (Cons e es)
  obtain name content where e: "e = (name, content)" by (cases e)
  have poll: "poll_bytes (xs @ ys) = poll_bytes xs @ poll_bytes ys" for xs ys by (induction xs) auto
  let ?s = "s\<lparr>line_out := line_out s @ poll_bytes (name @ crlf)\<rparr>"
  let ?next = "h + pad4 (111 + length name) + pad4 (length content)"
  have "cpio_list_from 0 ?next ?s =
      Some (?s\<lparr>line_out := line_out ?s @ concat (map (\<lambda>(name, _). poll_bytes (name @ crlf)) es)\<rparr>)"
    using Cons.prems e by (intro Cons.IH) simp
  then show ?case
    using Cons.prems step_entry [of "u_mem s" h name "length content"]
    by (subst cpio_list_from.simps) (simp add: e puts_lit_eq poll)
qed

end
