(* ===== verification/Initramfs.thy ===== *)
theory Initramfs
  imports Tmpfs Cpio
begin

section \<open>The read-only file system of the initial RAM disk (src/fs_initramfs.c)\<close>

text \<open>
  A flat directory with one file for each entry of the archive; reading and seeking are those of
  src/fs_tmpfs.c on the same fields.
\<close>

definition register_initramfs :: "fs \<Rightarrow> (int \<times> fs) option" where
  "register_initramfs s = register_new [0x69, 0x6E, 0x69, 0x74, 0x72, 0x61, 0x6D, 0x66, 0x73] INITRAMFS_M s"

text \<open>The root node is not initialised: its fields are what the store holds at the new address.\<close>

definition initramfs_setup_mount :: "layout \<Rightarrow> addr \<Rightarrow> addr \<Rightarrow> fs \<Rightarrow> (int \<times> fs) option" where
  "initramfs_setup_mount L fsys mnt s =
     (if fsys = NULL \<or> mnt = NULL then Some (EINVAL_VFS, s)
      else do {
        (initramfs_root, s1) \<leftarrow> fs_alloc NODE_SIZE s;
        if initramfs_root = NULL then Some (ENOMEM_VFS, s1)
        else do {
          let s2 = upd_mount mnt (\<lambda>m. m\<lparr>m_fs := fsys\<rparr>) s1;
          (root, s3) \<leftarrow> fs_alloc VNODE_SIZE s2;
          let s4 = upd_mount mnt (\<lambda>m. m\<lparr>m_root := root\<rparr>) s3;
          if root = NULL then map_option (\<lambda>t. (ENOMEM_VFS, t)) (tmpfs_drop_node L initramfs_root s4)
          else Some (0, upd_vnode root (\<lambda>v. v\<lparr>v_mount := NULL, v_ops := INITRAMFS_V, f_ops := INITRAMFS_F,
                          internal := initramfs_root, parent_is_mount := True\<rparr>) s4)
        }
      })"

text \<open>
  One file of the archive: its node, its data and its vnode, appended to the root's children. A name
  that does not fit its array, an allocation that fails and a seventeenth child are undefined.
\<close>

definition initramfs_add :: "addr \<Rightarrow> byte list \<Rightarrow> u32 \<Rightarrow> addr \<Rightarrow> u32 \<Rightarrow> fs \<Rightarrow> fs option" where
  "initramfs_add rootvnode name namesize data sz s = do {
     (new_node, s1) \<leftarrow> fs_alloc NODE_SIZE s;
     if new_node = NULL \<or> MAX_FILE_NAME \<le> unat namesize then None
     else do {
       (d, s2) \<leftarrow> fs_alloc sz s1;
       if d = NULL \<and> sz \<noteq> 0 then None
       else do {
         let s3 = put_mem (memcpy d data sz (fs_mem s2)) s2;
         let s4 = upd_node new_node (\<lambda>n. n\<lparr>n_name := name, n_type := NODE_FILE, n_parent := NULL, n_size := ucast sz,
                    n_data := d, n_capacity := ucast sz, num_children := 0,
                    n_children := \<lambda>i. if i < MAX_CHILDREN then NULL else n_children n i\<rparr>) s3;
         (new_vnode, s5) \<leftarrow> fs_alloc VNODE_SIZE s4;
         if new_vnode = NULL then None
         else do {
           let s6 = upd_vnode new_vnode (\<lambda>v. v\<lparr>v_mount := NULL, v_ops := INITRAMFS_V, f_ops := INITRAMFS_F,
                      internal := new_node, v_parent := rootvnode, parent_is_mount := False\<rparr>) s5;
           let root = internal (vnodes s6 rootvnode);
           if MAX_CHILDREN \<le> num_children (fsnodes s6 root) then None
           else Some (upd_node root (\<lambda>n. n\<lparr>n_children := (n_children n)(num_children n := new_vnode),
                        num_children := num_children n + 1\<rparr>) s6)
         }
       }
     }
   }"

partial_function (option) initramfs_fill :: "int \<Rightarrow> addr \<Rightarrow> addr \<Rightarrow> fs \<Rightarrow> fs option" where
  "initramfs_fill pad rootvnode header s =
     (case cpio_step pad (fs_mem s) header of
        None \<Rightarrow> None
      | Some Invalid \<Rightarrow> Some s
      | Some Trailer \<Rightarrow> Some s
      | Some (Entry name data sz next) \<Rightarrow>
          (case initramfs_add rootvnode name (hex_to_uint (fs_mem s) (header + c_namesize) 8) data sz s of
             None \<Rightarrow> None
           | Some s1 \<Rightarrow> initramfs_fill pad rootvnode next s1))"

definition initramfs_init :: "int \<Rightarrow> addr \<Rightarrow> addr \<Rightarrow> fs \<Rightarrow> fs option" where
  "initramfs_init pad cpio_addr rootvnode s =
     initramfs_fill pad rootvnode cpio_addr
       (upd_node (internal (vnodes s rootvnode)) (\<lambda>n. n\<lparr>n_type := NODE_DIRECTORY\<rparr>) s)"

definition initramfs_lookup :: "addr \<Rightarrow> byte list \<Rightarrow> fs \<Rightarrow> int \<times> addr" where
  "initramfs_lookup dir_node name s =
     (if dir_node = NULL \<or> internal (vnodes s dir_node) = NULL then (EINVAL_VFS, NULL)
      else
        let parent_internal = fsnodes s (internal (vnodes s dir_node)) in
        if n_type parent_internal \<noteq> NODE_DIRECTORY then (EACCES_VFS, NULL)
        else (case find_child s name (children parent_internal) of
                None \<Rightarrow> (ENOENT_VFS, NULL)
              | Some v \<Rightarrow> (0, v)))"

definition initramfs_create :: "addr \<Rightarrow> byte list \<Rightarrow> fs \<Rightarrow> int \<times> addr \<times> fs" where
  "initramfs_create dir_node name s = (EACCES_VFS, NULL, s)"

definition initramfs_mkdir :: "addr \<Rightarrow> byte list \<Rightarrow> fs \<Rightarrow> int \<times> addr \<times> fs" where
  "initramfs_mkdir dir_node name s = (EACCES_VFS, NULL, s)"

definition initramfs_open :: "addr \<Rightarrow> addr \<Rightarrow> fs \<Rightarrow> int \<times> fs" where
  "initramfs_open vn handle s =
     (if vn = NULL \<or> handle = NULL then (EINVAL_VFS, s)
      else (0, upd_file handle (\<lambda>f. f\<lparr>f_pos := 0, f_vnode := vn, f_fops := f_ops (vnodes s vn)\<rparr>) s))"

definition initramfs_close :: "addr \<Rightarrow> fs \<Rightarrow> int \<times> fs" where
  "initramfs_close fp s =
     (if fp = NULL then (EINVAL_VFS, s)
      else (0, upd_file fp (\<lambda>f. f\<lparr>f_vnode := NULL, f_pos := 0, f_fops := F_NULL, f_flags := 0\<rparr>) s))"

definition initramfs_write :: "addr \<Rightarrow> addr \<Rightarrow> u64 \<Rightarrow> fs \<Rightarrow> int \<times> fs" where
  "initramfs_write fp buf len s = (EACCES_VFS, s)"

definition initramfs_read :: "addr \<Rightarrow> addr \<Rightarrow> u64 \<Rightarrow> fs \<Rightarrow> int \<times> fs" where
  "initramfs_read fp buf len s =
     (if bad_handle fp s \<or> buf = NULL then (EINVAL_VFS, s)
      else if len = 0 then (0, s)
      else
        let node = fsnodes s (file_node fp s); pos = f_pos (files s fp) in
        if n_type node \<noteq> NODE_FILE then (EACCES_VFS, s)
        else if n_size node \<le> pos then (0, s)
        else
          let readable_len = (if n_size node < pos + len then n_size node - pos else len);
              s1 = put_mem (memcpy buf (n_data node + unat pos) (ucast readable_len) (fs_mem s)) s
          in (ret_len readable_len, upd_file fp (\<lambda>f. f\<lparr>f_pos := pos + readable_len\<rparr>) s1))"

definition initramfs_lseek64 :: "addr \<Rightarrow> u64 \<Rightarrow> int \<Rightarrow> fs \<Rightarrow> int \<times> fs" where
  "initramfs_lseek64 fp offset whence s =
     (if bad_handle fp s then (EINVAL_VFS, s)
      else if n_type (fsnodes s (file_node fp s)) \<noteq> NODE_FILE then (EINVAL_VFS, s)
      else (case seek (f_pos (files s fp)) (n_size (fsnodes s (file_node fp s))) offset whence of
              None \<Rightarrow> (EINVAL_VFS, s)
            | Some p \<Rightarrow> (sint p, upd_file fp (\<lambda>f. f\<lparr>f_pos := p\<rparr>) s)))"

end
