(* ===== verification/Devices.thy ===== *)
theory Devices
  imports Fs
begin

section \<open>The device files (src/dev_uart.c, src/dev_framebuffer.c, src/mailbox.c)\<close>

text \<open>
  The console and the frame buffer as files. Opening one allocates a handle of its own in place of the
  one \<open>vfs_open\<close> has prepared. The video core behind the mailbox is a parameter: \<open>reply\<close> gives, for the
  message written and the contents of the message buffer, the response register and the buffer afterwards.
\<close>

subsection \<open>Opening, closing, seeking\<close>

definition dev_open :: "fops \<Rightarrow> addr \<Rightarrow> fs \<Rightarrow> (int \<times> addr \<times> fs) option" where
  "dev_open ops vn s =
     (case fs_alloc FILE_SIZE s of
        None \<Rightarrow> None
      | Some (h, s1) \<Rightarrow>
          if h = NULL then Some (ENOMEM_VFS, NULL, s1)
          else Some (0, h, upd_file h (\<lambda>f. f\<lparr>f_vnode := vn, f_pos := 0, f_fops := ops\<rparr>) s1))"

definition dev_uart_open :: "addr \<Rightarrow> addr \<Rightarrow> fs \<Rightarrow> (int \<times> addr \<times> fs) option" where
  "dev_uart_open vn handle s =
     (if vn = NULL then Some (EINVAL_VFS, handle, s) else dev_open UART_F vn s)"

definition dev_framebuffer_open :: "addr \<Rightarrow> addr \<Rightarrow> fs \<Rightarrow> (int \<times> addr \<times> fs) option" where
  "dev_framebuffer_open vn handle s =
     (if vn = NULL then Some (EINVAL_VFS, handle, s) else dev_open FRAMEBUFFER_F vn s)"

definition dev_uart_close :: "layout \<Rightarrow> addr \<Rightarrow> fs \<Rightarrow> (int \<times> fs) option" where
  "dev_uart_close L fp s =
     (if fp = NULL then Some (EINVAL_VFS, s) else map_option (\<lambda>t. (0, t)) (fs_free L fp s))"

definition dev_framebuffer_close :: "layout \<Rightarrow> addr \<Rightarrow> fs \<Rightarrow> (int \<times> fs) option" where
  "dev_framebuffer_close L fp s =
     (if fp = NULL then Some (EINVAL_VFS, s) else map_option (\<lambda>t. (0, t)) (fs_free L fp s))"

text \<open>A device has no end: \<open>SEEK_END\<close> keeps the position and ignores the offset.\<close>

definition dev_seek :: "addr \<Rightarrow> u64 \<Rightarrow> int \<Rightarrow> fs \<Rightarrow> int \<times> fs" where
  "dev_seek fp offset whence s =
     (if fp = NULL then (EINVAL_VFS, s)
      else
        let pos = f_pos (files s fp);
            new_pos = (if whence = SEEK_SET then Some offset
                       else if whence = SEEK_CUR then Some (pos + offset)
                       else if whence = SEEK_END then Some pos
                       else None)
        in case new_pos of
             None \<Rightarrow> (EINVAL_VFS, s)
           | Some p \<Rightarrow> if sint p < 0 then (EINVAL_VFS, s) else (sint p, upd_file fp (\<lambda>f. f\<lparr>f_pos := p\<rparr>) s))"

definition dev_uart_lseek64 :: "addr \<Rightarrow> u64 \<Rightarrow> int \<Rightarrow> fs \<Rightarrow> int \<times> fs" where
  "dev_uart_lseek64 = dev_seek"

definition dev_framebuffer_lseek64 :: "addr \<Rightarrow> u64 \<Rightarrow> int \<Rightarrow> fs \<Rightarrow> int \<times> fs" where
  "dev_framebuffer_lseek64 = dev_seek"

subsection \<open>The console\<close>

definition dev_uart_write :: "addr \<Rightarrow> addr \<Rightarrow> u64 \<Rightarrow> fs \<Rightarrow> int \<times> fs" where
  "dev_uart_write fp buf len s =
     (if fp = NULL \<or> buf = NULL \<or> len = 0 then (EINVAL_VFS, s)
      else
        let s1 = s\<lparr>fs_uart := putn_loop (unat len) buf (fs_uart s)\<rparr>
        in (ret_len len, upd_file fp (\<lambda>f. f\<lparr>f_pos := f_pos f + len\<rparr>) s1))"

text \<open>Up to \<open>n\<close> bytes, ending early at a NUL, which is consumed; the count and the state.\<close>

primrec dev_read_loop :: "nat \<Rightarrow> addr \<Rightarrow> nat \<Rightarrow> uart \<Rightarrow> (nat \<times> uart) option" where
  "dev_read_loop 0 p k s = Some (k, s)"
| "dev_read_loop (Suc n) p k s =
     (case uart_getc s of
        None \<Rightarrow> None
      | Some (ch, s1) \<Rightarrow>
          if ch = 0 then Some (k, s1)
          else dev_read_loop n (p + 1) (k + 1) (s1\<lparr>u_mem := (u_mem s1)(p := ch)\<rparr>))"

definition dev_uart_read :: "addr \<Rightarrow> addr \<Rightarrow> u64 \<Rightarrow> fs \<Rightarrow> (int \<times> fs) option" where
  "dev_uart_read fp buf len s =
     (if fp = NULL \<or> buf = NULL \<or> len = 0 then Some (EINVAL_VFS, s)
      else
        (case dev_read_loop (unat len) buf 0 (fs_uart s) of
           None \<Rightarrow> None
         | Some (k, u) \<Rightarrow>
             Some (ret_len (of_nat k), upd_file fp (\<lambda>f. f\<lparr>f_pos := f_pos f + of_nat k\<rparr>) (s\<lparr>fs_uart := u\<rparr>))))"

subsection \<open>The mailbox and the frame buffer\<close>

definition REQUEST_SUCCEED :: u32 where "REQUEST_SUCCEED = 0x80000000"

definition mailbox_call :: "(u32 \<Rightarrow> u32 list \<Rightarrow> u32 \<times> u32 list) \<Rightarrow> addr \<Rightarrow> byte \<Rightarrow> u32 list \<Rightarrow> bool \<times> u32 list" where
  "mailbox_call reply mbox channel msgs =
     (let msg = (of_nat mbox AND NOT 0xF) OR (ucast channel AND 0xF);
          (res, msgs') = reply msg msgs
      in (msg = res \<and> msgs' ! 1 AND REQUEST_SUCCEED \<noteq> 0, msgs'))"

definition dev_framebuffer_write :: "addr \<Rightarrow> addr \<Rightarrow> u64 \<Rightarrow> fs \<Rightarrow> int \<times> fs" where
  "dev_framebuffer_write fp buf len s =
     (if fp = NULL \<or> buf = NULL \<or> len = 0 then (EINVAL_VFS, s)
      else
        let s1 = put_mem (memcpy (lfb s + unat (f_pos (files s fp))) buf (ucast len) (fs_mem s)) s
        in (ret_len len, upd_file fp (\<lambda>f. f\<lparr>f_pos := f_pos f + len\<rparr>) s1))"

definition dev_framebuffer_read :: "addr \<Rightarrow> addr \<Rightarrow> u64 \<Rightarrow> fs \<Rightarrow> int \<times> fs" where
  "dev_framebuffer_read fp buf len s = (-1, s)"

text \<open>The request of \<open>dev_framebuffer_ioctl\<close>; the last of the 36 words is not written.\<close>

definition fb_request :: "u32 list" where
  "fb_request = [35 * 4, 0,
     0x48003, 8, 8, 1024, 768,
     0x48004, 8, 8, 1024, 768,
     0x48009, 8, 8, 0, 0,
     0x48005, 4, 4, 32,
     0x48006, 4, 4, 1,
     0x40001, 8, 8, 4096, 0,
     0x40008, 4, 4, 0,
     0]"

definition dev_framebuffer_ioctl :: "(u32 \<Rightarrow> u32 list \<Rightarrow> u32 \<times> u32 list) \<Rightarrow> addr \<Rightarrow> addr \<Rightarrow> fs \<Rightarrow> int \<times> fs" where
  "dev_framebuffer_ioctl reply mbox info_p s =
     (if info_p = NULL then (EINVAL_VFS, s)
      else
        let (ok, msgs) = mailbox_call reply mbox 8 fb_request;
            s1 = (if ok \<and> msgs ! 20 = 32 \<and> msgs ! 28 \<noteq> 0
                  then s\<lparr>fb_info := (msgs ! 5, msgs ! 6, msgs ! 33, msgs ! 24),
                         lfb := unat (msgs ! 28 AND 0x3FFFFFFF)\<rparr>
                  else s);
            (width, height, pitch, isrgb) = fb_info s1
        in (0, put_mem (put_u32 (info_p + 12) isrgb (put_u32 (info_p + 8) pitch
                 (put_u32 (info_p + 4) height (put_u32 info_p width (fs_mem s1))))) s1))"

end
