(* ===== verification/Vfs.thy ===== *)
theory Vfs
  imports Initramfs Devices
begin

section \<open>The virtual file system (src/fs_vfs.c)\<close>

text \<open>
  Path resolution, opening and creating, mounting, and the dispatch to the operations of the file
  systems. A path the code only reads is the list of its characters; the copy it makes of a path is
  an allocation that is released before the return. A parameter \<open>struct vnode** target\<close> that points to a
  local variable is a further result; \<open>put\<close> is the store through it where it may point into the
  state. Messages are not modelled.
\<close>

subsection \<open>The tables of operations\<close>

text \<open>\<open>None\<close>: a call through \<open>NULL\<close>.\<close>

definition vop_lookup :: "addr \<Rightarrow> byte list \<Rightarrow> fs \<Rightarrow> int \<times> addr" where
  "vop_lookup v name s =
     (case v_ops (vnodes s v) of
        V_NULL \<Rightarrow> (ENOSYS_VFS, NULL)
      | TMPFS_V \<Rightarrow> tmpfs_lookup v name s
      | INITRAMFS_V \<Rightarrow> initramfs_lookup v name s)"

text \<open>
  \<open>vnode\<close> is what the caller's variable holds: tmpfs clears it once it has checked its arguments, the RAM disk leaves it alone.
\<close>

definition vop_create :: "layout \<Rightarrow> addr \<Rightarrow> addr \<Rightarrow> byte list \<Rightarrow> fs \<Rightarrow> (int \<times> addr \<times> fs) option" where
  "vop_create L v vnode name s =
     (case v_ops (vnodes s v) of
        V_NULL \<Rightarrow> None
      | TMPFS_V \<Rightarrow>
          if v = NULL \<or> internal (vnodes s v) = NULL \<or> name = [] then Some (EINVAL_VFS, vnode, s) else tmpfs_create L v name s
      | INITRAMFS_V \<Rightarrow> (case initramfs_create v name s of (r, _, t) \<Rightarrow> Some (r, vnode, t)))"

definition vop_mkdir :: "layout \<Rightarrow> addr \<Rightarrow> byte list \<Rightarrow> fs \<Rightarrow> (int \<times> addr \<times> fs) option" where
  "vop_mkdir L v name s =
     (case v_ops (vnodes s v) of
        V_NULL \<Rightarrow> None
      | TMPFS_V \<Rightarrow> tmpfs_mkdir L v name s
      | INITRAMFS_V \<Rightarrow> Some (initramfs_mkdir v name s))"

text \<open>\<open>open\<close> is given the handle and may replace it.\<close>

definition fop_open :: "addr \<Rightarrow> addr \<Rightarrow> fs \<Rightarrow> (int \<times> addr \<times> fs) option" where
  "fop_open v handle s =
     (case f_ops (vnodes s v) of
        F_NULL \<Rightarrow> None
      | TMPFS_F \<Rightarrow> (case tmpfs_open v handle s of (r, t) \<Rightarrow> Some (r, handle, t))
      | INITRAMFS_F \<Rightarrow> (case initramfs_open v handle s of (r, t) \<Rightarrow> Some (r, handle, t))
      | UART_F \<Rightarrow> dev_uart_open v handle s
      | FRAMEBUFFER_F \<Rightarrow> dev_framebuffer_open v handle s)"

definition setup_mount_call :: "layout \<Rightarrow> addr \<Rightarrow> addr \<Rightarrow> fs \<Rightarrow> (int \<times> fs) option" where
  "setup_mount_call L fsys mnt s =
     (case setup_mount (fstypes s fsys) of
        M_NULL \<Rightarrow> None
      | TMPFS_M \<Rightarrow> tmpfs_setup_mount L fsys mnt s
      | INITRAMFS_M \<Rightarrow> initramfs_setup_mount L fsys mnt s)"

subsection \<open>Path names\<close>

text \<open>\<open>get_next_component\<close>: the next component and what follows it; \<open>None\<close> is the end of the path.\<close>

definition get_next_component :: "byte list \<Rightarrow> (byte list \<times> byte list) option" where
  "get_next_component path =
     (let c = dropWhile (\<lambda>x. x = 0x2F) path
      in if c = [] then None
         else Some (takeWhile (\<lambda>x. x \<noteq> 0x2F) c, drop 1 (dropWhile (\<lambda>x. x \<noteq> 0x2F) c)))"

lemma next_component_shorter: "get_next_component path = Some (c, rest) \<Longrightarrow> length rest < length path"
proof -
  assume a: "get_next_component path = Some (c, rest)"
  let ?d = "dropWhile (\<lambda>x. x = 0x2F) path"
  have d: "?d \<noteq> []" "rest = drop 1 (dropWhile (\<lambda>x. x \<noteq> 0x2F) ?d)"
    using a by (auto simp: get_next_component_def Let_def split: if_splits)
  have "length (dropWhile (\<lambda>x. x \<noteq> 0x2F) ?d) \<le> length ?d" by (rule length_dropWhile_le)
  moreover have "length ?d \<le> length path" by (rule length_dropWhile_le)
  moreover have "length ?d > 0" using d(1) by simp
  moreover have "length (dropWhile (\<lambda>x. x \<noteq> 0x2F) ?d) < length ?d"
  proof -
    obtain x xs where x: "?d = x # xs" using d(1) by (cases ?d) auto
    have "x \<noteq> 0x2F" using hd_dropWhile [OF d(1)] x by simp
    then show ?thesis using x length_dropWhile_le [of "\<lambda>x. x \<noteq> 0x2F" xs] by simp
  qed
  ultimately show ?thesis using d(2) by simp
qed

definition the_root :: "fs \<Rightarrow> addr" where
  "the_root s = m_root (mounts s (rootfs s))"

text \<open>\<open>"."\<close> and \<open>".."\<close>\<close>

abbreviation dot :: "byte list" where "dot \<equiv> [0x2E]"
abbreviation dotdot :: "byte list" where "dotdot \<equiv> [0x2E, 0x2E]"

text \<open>One step of \<open>".."\<close>; \<open>None\<close> is \<open>EINTERR_VFS\<close>.\<close>

definition go_up :: "fs \<Rightarrow> addr \<Rightarrow> addr option" where
  "go_up s cur =
     (if cur = the_root s then Some cur
      else if v_parent (vnodes s cur) = NULL then None
      else
        let vfs_p = v_parent (vnodes s cur) in
        if v_mount (vnodes s vfs_p) \<noteq> NULL \<and> m_root (mounts s (v_mount (vnodes s vfs_p))) = cur then
          if vfs_p = the_root s then Some (the_root s)
          else if v_parent (vnodes s vfs_p) \<noteq> NULL then Some (v_parent (vnodes s vfs_p))
          else None
        else Some vfs_p)"

text \<open>A vnode that is a mount point stands for the root mounted on it.\<close>

definition enter_mount :: "fs \<Rightarrow> addr \<Rightarrow> addr" where
  "enter_mount s v = (if v_mount (vnodes s v) \<noteq> NULL then m_root (mounts s (v_mount (vnodes s v))) else v)"

text \<open>
  The loop of \<open>vfs_lookup\<close>: the result, and what \<open>*target\<close> holds then. \<open>tgt\<close> is what it holds so far:
  it is written at each \<open>".."\<close> and at the end.
\<close>

function lookup_walk :: "fs \<Rightarrow> byte list \<Rightarrow> addr \<Rightarrow> addr \<Rightarrow> int \<times> addr" where
  "lookup_walk s path cur tgt =
     (case get_next_component path of
        None \<Rightarrow> (0, cur)
      | Some (c, rest) \<Rightarrow>
          if c = dot then lookup_walk s rest cur tgt
          else if c = dotdot then
            (if cur = the_root s then lookup_walk s rest cur tgt
             else (case go_up s cur of
                     None \<Rightarrow> (EINTERR_VFS, tgt)
                   | Some p \<Rightarrow> lookup_walk s rest p p))
          else
            (let cur' = enter_mount s cur; (result, next) = vop_lookup cur' c s
             in if result \<noteq> 0 then (result, tgt) else lookup_walk s rest (enter_mount s next) tgt))"
  by pat_completeness auto
termination
  by (relation "measure (\<lambda>(s, path, cur, tgt). length path)") (auto dest: next_component_shorter)

declare lookup_walk.simps [simp del]

text \<open>
  \<open>*target\<close> is cleared before the working directory is read, and written before the return. A relative path follows
  \<open>get_current()\<close>, which is \<open>None\<close> without a current thread.
\<close>

definition vfs_lookup :: "layout \<Rightarrow> (addr \<Rightarrow> fs \<Rightarrow> fs) \<Rightarrow> byte list \<Rightarrow> fs \<Rightarrow> (int \<times> addr \<times> fs) option" where
  "vfs_lookup L put pathname s = do {
     let s1 = put NULL s;
     (copy, s2) \<leftarrow> fs_alloc (of_nat (length pathname + 1)) s1;
     if copy = NULL then Some (ENOMEM_VFS, NULL, s2)
     else do {
       let absolute = (pathname \<noteq> [] \<and> hd pathname = 0x2F);
       let start = (if absolute then the_root s2 else cwd s2 (current s2));
       if \<not> absolute \<and> current s2 = NULL then None
       else do {
         let (result, tgt) =
           (if \<not> absolute \<and> start = NULL then (EINTERR_VFS, NULL)
            else if pathname = [0x2F] then (0, the_root s2)
            else if pathname = [] \<or> pathname = dot then (0, start)
            else lookup_walk s2 pathname start NULL);
         s3 \<leftarrow> fs_free L copy (put tgt s2);
         Some (result, tgt, s3)
       }
     }
   }"

text \<open>For a target that is a local variable.\<close>

abbreviation local_target :: "addr \<Rightarrow> fs \<Rightarrow> fs" where "local_target \<equiv> \<lambda>_ s. s"

text \<open>The position of the last slash of a path.\<close>

fun last_slash :: "byte list \<Rightarrow> int" where
  "last_slash [] = -1"
| "last_slash (c # cs) =
     (if last_slash cs = -1 then (if c = 0x2F then 0 else -1) else last_slash cs + 1)"

subsection \<open>Opening and creating\<close>

text \<open>
  The directory a new file or directory goes to, and its name: relative to the working directory, the
  root, or the directory named by the path up to its last slash.
\<close>

definition parent_dir :: "layout \<Rightarrow> addr \<Rightarrow> byte list \<Rightarrow> fs \<Rightarrow> (int \<times> addr \<times> fs) option" where
  "parent_dir L dir path s =
     (let i = last_slash path in
      if i = -1 then Some (0, dir, s)
      else if i = 0 then vfs_lookup L local_target [0x2F] s
      else vfs_lookup L local_target (take (nat i) path) s)"

definition basename :: "byte list \<Rightarrow> byte list" where
  "basename path = drop (nat (last_slash path + 1)) path"

text \<open>
  The creation in \<open>vfs_open\<close>: \<open>Inl r\<close> is an early return; otherwise what the variable \<open>vnode\<close> holds then, since the result of
  \<open>create\<close> is not looked at.
\<close>

definition open_create :: "layout \<Rightarrow> byte list \<Rightarrow> addr \<Rightarrow> fs \<Rightarrow> ((int + addr) \<times> fs) option" where
  "open_create L pathname vnode s = do {
     (copy, s1) \<leftarrow> fs_alloc (of_nat (length pathname + 1)) s;
     if copy = NULL then Some (Inl ENOMEM_VFS, s1)
     else if last_slash pathname = -1 \<and> current s1 = NULL then None
     else do {
       let dir = (if cwd s1 (current s1) \<noteq> NULL then cwd s1 (current s1) else the_root s1);
       (r, parent, s2) \<leftarrow> parent_dir L dir pathname s1;
       if r \<noteq> 0 then map_option (\<lambda>t. (Inl r, t)) (fs_free L copy s2)
       else if parent = NULL \<or> v_ops (vnodes s2 parent) = V_NULL then
         map_option (\<lambda>t. (Inl EACCES_VFS, t)) (fs_free L copy s2)
       else do {
         (r', v, s3) \<leftarrow> vop_create L parent vnode (basename pathname) s2;
         map_option (\<lambda>t. (Inr v, t)) (fs_free L copy s3)
       }
     }
   }"

definition creating :: "int \<Rightarrow> bool" where
  "creating flags \<longleftrightarrow> flags AND O_CREAT \<noteq> 0"

text \<open>The handle for a vnode; \<open>put\<close> stores it through \<open>target\<close>. A vnode \<open>NULL\<close> is dereferenced.\<close>

definition open_vnode :: "layout \<Rightarrow> (addr \<Rightarrow> fs \<Rightarrow> fs) \<Rightarrow> addr \<Rightarrow> int \<Rightarrow> fs \<Rightarrow> (int \<times> addr \<times> fs) option" where
  "open_vnode L put v flags s = do {
     (h, s1) \<leftarrow> fs_alloc FILE_SIZE s;
     let s2 = put h s1;
     if v = NULL then None
     else do {
       (r, h', s3) \<leftarrow> fop_open v h s2;
       let s4 = put h' s3;
       if r \<noteq> 0 then map_option (\<lambda>t. (r, h', t)) (fs_free L h' s4)
       else Some (0, h', upd_file h' (\<lambda>f. f\<lparr>f_flags := flags\<rparr>) s4)
     }
   }"

definition vfs_open :: "layout \<Rightarrow> (addr \<Rightarrow> fs \<Rightarrow> fs) \<Rightarrow> byte list \<Rightarrow> int \<Rightarrow> fs \<Rightarrow> (int \<times> addr \<times> fs) option" where
  "vfs_open L put pathname flags s = do {
     (lookup_result, v, s1) \<leftarrow> vfs_lookup L local_target pathname (put NULL s);
     if lookup_result = 0 then open_vnode L put v flags s1
     else if creating flags then do {
       (r, s2) \<leftarrow> open_create L pathname v s1;
       (case r of
          Inl e \<Rightarrow> Some (e, NULL, s2)
        | Inr v' \<Rightarrow> open_vnode L put v' flags s2)
     }
     else Some (lookup_result, NULL, s1)
   }"

subsection \<open>The operations on handles\<close>

definition vfs_close :: "layout \<Rightarrow> addr \<Rightarrow> fs \<Rightarrow> (int \<times> fs) option" where
  "vfs_close L fp s =
     (if fp = NULL then Some (EINVAL_VFS, s)
      else (case f_fops (files s fp) of
              F_NULL \<Rightarrow> Some (ENOSYS_VFS, s)
            | TMPFS_F \<Rightarrow> Some (tmpfs_close fp s)
            | INITRAMFS_F \<Rightarrow> Some (initramfs_close fp s)
            | UART_F \<Rightarrow> dev_uart_close L fp s
            | FRAMEBUFFER_F \<Rightarrow> dev_framebuffer_close L fp s))"

text \<open>The calls through \<open>file->f_ops\<close>, which the system calls make too.\<close>

definition fop_write :: "layout \<Rightarrow> addr \<Rightarrow> addr \<Rightarrow> u64 \<Rightarrow> fs \<Rightarrow> (int \<times> fs) option" where
  "fop_write L fp buf len s =
     (case f_fops (files s fp) of
        F_NULL \<Rightarrow> None
      | TMPFS_F \<Rightarrow> tmpfs_write L fp buf len s
      | INITRAMFS_F \<Rightarrow> Some (initramfs_write fp buf len s)
      | UART_F \<Rightarrow> Some (dev_uart_write fp buf len s)
      | FRAMEBUFFER_F \<Rightarrow> Some (dev_framebuffer_write fp buf len s))"

definition fop_read :: "addr \<Rightarrow> addr \<Rightarrow> u64 \<Rightarrow> fs \<Rightarrow> (int \<times> fs) option" where
  "fop_read fp buf len s =
     (case f_fops (files s fp) of
        F_NULL \<Rightarrow> None
      | TMPFS_F \<Rightarrow> Some (tmpfs_read fp buf len s)
      | INITRAMFS_F \<Rightarrow> Some (initramfs_read fp buf len s)
      | UART_F \<Rightarrow> dev_uart_read fp buf len s
      | FRAMEBUFFER_F \<Rightarrow> Some (dev_framebuffer_read fp buf len s))"

definition vfs_write :: "layout \<Rightarrow> addr \<Rightarrow> addr \<Rightarrow> u64 \<Rightarrow> fs \<Rightarrow> (int \<times> fs) option" where
  "vfs_write L fp buf len s =
     (if fp = NULL \<or> buf = NULL then Some (EINVAL_VFS, s)
      else if len = 0 then Some (0, s)
      else if f_fops (files s fp) = F_NULL then Some (ENOSYS_VFS, s)
      else fop_write L fp buf len s)"

definition vfs_read :: "addr \<Rightarrow> addr \<Rightarrow> u64 \<Rightarrow> fs \<Rightarrow> (int \<times> fs) option" where
  "vfs_read fp buf len s =
     (if fp = NULL \<or> buf = NULL then Some (EINVAL_VFS, s)
      else if len = 0 then Some (0, s)
      else if f_fops (files s fp) = F_NULL then Some (ENOSYS_VFS, s)
      else fop_read fp buf len s)"

text \<open>The position is returned as \<open>int\<close>.\<close>

definition vfs_lseek64 :: "addr \<Rightarrow> u64 \<Rightarrow> int \<Rightarrow> fs \<Rightarrow> int \<times> fs" where
  "vfs_lseek64 fp offset whence s =
     (if fp = NULL then (EINVAL_VFS, s)
      else (case f_fops (files s fp) of
              F_NULL \<Rightarrow> (ENOSYS_VFS, s)
            | TMPFS_F \<Rightarrow> map_prod to_s32 id (tmpfs_lseek64 fp offset whence s)
            | INITRAMFS_F \<Rightarrow> map_prod to_s32 id (initramfs_lseek64 fp offset whence s)
            | UART_F \<Rightarrow> map_prod to_s32 id (dev_uart_lseek64 fp offset whence s)
            | FRAMEBUFFER_F \<Rightarrow> map_prod to_s32 id (dev_framebuffer_lseek64 fp offset whence s)))"

subsection \<open>Directories, devices and mounts\<close>

text \<open>\<open>vfs_mkdir\<close> follows \<open>get_current()\<close> whatever the path.\<close>

definition vfs_mkdir :: "layout \<Rightarrow> byte list \<Rightarrow> fs \<Rightarrow> (int \<times> fs) option" where
  "vfs_mkdir L pathname s = do {
     (copy, s1) \<leftarrow> fs_alloc (of_nat (length pathname + 1)) s;
     if copy = NULL then Some (ENOMEM_VFS, s1)
     else if current s1 = NULL then None
     else do {
       let dir = cwd s1 (current s1);
       if last_slash pathname = -1 \<and> dir = NULL then map_option (\<lambda>t. (EINTERR_VFS, t)) (fs_free L copy s1)
       else do {
         (r, parent, s2) \<leftarrow> parent_dir L dir pathname s1;
         if r \<noteq> 0 then map_option (\<lambda>t. (r, t)) (fs_free L copy s2)
         else if basename pathname = [] then map_option (\<lambda>t. (EINVAL_VFS, t)) (fs_free L copy s2)
         else if parent = NULL \<or> v_ops (vnodes s2 parent) = V_NULL then
           map_option (\<lambda>t. (EACCES_VFS, t)) (fs_free L copy s2)
         else do {
           (r', v, s3) \<leftarrow> vop_mkdir L parent (basename pathname) s2;
           map_option (\<lambda>t. (r', t)) (fs_free L copy s3)
         }
       }
     }
   }"

definition vfs_mknod :: "layout \<Rightarrow> byte list \<Rightarrow> fops \<Rightarrow> fs \<Rightarrow> (int \<times> fs) option" where
  "vfs_mknod L pathname ops s = do {
     (ret, dev, s1) \<leftarrow> vfs_open L local_target pathname O_CREAT s;
     if ret \<noteq> 0 then Some (ret, s1)
     else vfs_close L dev (upd_vnode (f_vnode (files s1 dev)) (\<lambda>v. v\<lparr>f_ops := ops\<rparr>) s1)
   }"

fun find_filesystem :: "fs \<Rightarrow> byte list \<Rightarrow> addr list \<Rightarrow> addr" where
  "find_filesystem s name [] = NULL"
| "find_filesystem s name (f # fs) = (if fs_name (fstypes s f) = name then f else find_filesystem s name fs)"

definition vfs_mount :: "layout \<Rightarrow> byte list \<Rightarrow> byte list \<Rightarrow> fs \<Rightarrow> (int \<times> fs) option" where
  "vfs_mount L target_pathname filesystem_name s =
     (let fsys = find_filesystem s filesystem_name (map (filesystems s) [0..<num_filesystems s]) in
      if fsys = NULL then Some (ENODEV_VFS, s)
      else do {
        (lookup_result, v, s1) \<leftarrow> vfs_lookup L local_target target_pathname s;
        if lookup_result \<noteq> 0 then Some (lookup_result, s1)
        else if v_ops (vnodes s1 v) = V_NULL then Some (ENOSYS_VFS, s1)
        else if v_mount (vnodes s1 v) \<noteq> NULL \<or> parent_is_mount (vnodes s1 v) then Some (EBUSY_VFS, s1)
        else do {
          (new_mount, s2) \<leftarrow> fs_alloc MOUNT_SIZE s1;
          if new_mount = NULL then Some (ENOMEM_VFS, s2)
          else do {
            let s3 = upd_mount new_mount (\<lambda>m. m\<lparr>m_fs := fsys, m_root := NULL\<rparr>) s2;
            let s4 = upd_vnode v (\<lambda>v. v\<lparr>v_mount := new_mount\<rparr>) s3;
            if setup_mount (fstypes s4 fsys) = M_NULL then
              map_option (\<lambda>t. (ENOSYS_VFS, t)) (fs_free L new_mount s4)
            else do {
              (setup_result, s5) \<leftarrow> setup_mount_call L fsys new_mount s4;
              if setup_result \<noteq> 0 then
                map_option (\<lambda>t. (setup_result, t))
                  (fs_free L new_mount (upd_vnode v (\<lambda>v. v\<lparr>v_mount := NULL\<rparr>) s5))
              else Some (0, upd_vnode (m_root (mounts s5 new_mount)) (\<lambda>r. r\<lparr>v_parent := v\<rparr>) s5)
            }
          }
        }
      })"

text \<open>
  The boot-time tree: a tmpfs root, the RAM disk on \<open>/initramfs\<close> and the devices in \<open>/dev\<close>. Without
  memory for the root mount the function returns; a root that is not set up is dereferenced.
\<close>

definition path_initramfs :: "byte list" where
  "path_initramfs = [0x2F, 0x69, 0x6E, 0x69, 0x74, 0x72, 0x61, 0x6D, 0x66, 0x73]"

definition path_dev :: "byte list" where "path_dev = [0x2F, 0x64, 0x65, 0x76]"

definition path_dev_uart :: "byte list" where
  "path_dev_uart = path_dev @ [0x2F, 0x75, 0x61, 0x72, 0x74]"

definition path_dev_framebuffer :: "byte list" where
  "path_dev_framebuffer = path_dev @ [0x2F, 0x66, 0x72, 0x61, 0x6D, 0x65, 0x62, 0x75, 0x66, 0x66, 0x65, 0x72]"

definition vfs_init :: "layout \<Rightarrow> int \<Rightarrow> addr \<Rightarrow> fs \<Rightarrow> fs option" where
  "vfs_init L pad cpio_addr s = do {
     (r0, s1) \<leftarrow> register_tmpfs s;
     (root, s2) \<leftarrow> fs_alloc MOUNT_SIZE s1;
     let s3 = s2\<lparr>rootfs := root\<rparr>;
     if root = NULL then Some s3
     else do {
       (r1, s4) \<leftarrow> setup_mount_call L (filesystems s3 0) root s3;
       if the_root s4 = NULL then None
       else do {
         let s5 = upd_vnode (the_root s4) (\<lambda>v. v\<lparr>v_parent := NULL\<rparr>) s4;
         (r2, s6) \<leftarrow> vfs_mkdir L path_initramfs s5;
         (r3, s7) \<leftarrow> register_initramfs s6;
         (r4, s8) \<leftarrow> vfs_mount L path_initramfs (drop 1 path_initramfs) s7;
         (r5, v, s9) \<leftarrow> vfs_lookup L local_target path_initramfs s8;
         if v = NULL then None
         else do {
           s10 \<leftarrow> initramfs_init pad cpio_addr v s9;
           (r6, s11) \<leftarrow> vfs_mkdir L path_dev s10;
           (r7, s12) \<leftarrow> vfs_mknod L path_dev_uart UART_F s11;
           (r8, s13) \<leftarrow> vfs_mknod L path_dev_framebuffer FRAMEBUFFER_F s12;
           Some s13
         }
       }
     }
   }"

end
