(* ===== verification/Sched.thy ===== *)
theory Sched
  imports Vfs
begin

section \<open>Threads and the scheduler (src/sched.c, src/sched_asm.S)\<close>

text \<open>
  A thread is a \<open>struct ThreadTask\<close> on the heap; the three queues are linked through its \<open>next\<close>
  field. Its fields \<open>cwd\<close> and \<open>fd_table\<close> are in the file system's record, as is \<open>current\<close>, the
  register \<open>tpidr_el1\<close> that names the running thread. Code addresses (the entry point, the signal handlers) are
  numbers. \<open>None\<close> is a \<open>NULL\<close> pointer followed or a walk round a cyclic queue.
\<close>

record cpu_context =
  x19_x28 :: "nat \<Rightarrow> u64"
  fp_reg :: u64
  lr_reg :: u64
  sp_reg :: u64

text \<open>\<open>TASK_READY\<close>, \<open>TASK_RUNNING\<close>, \<open>TASK_BLOCKED\<close>, \<open>TASK_EXITED\<close>; the field is a \<open>long\<close>.\<close>

definition TASK_READY :: int where "TASK_READY = 0"
definition TASK_RUNNING :: int where "TASK_RUNNING = 1"
definition TASK_BLOCKED :: int where "TASK_BLOCKED = 2"
definition TASK_EXITED :: int where "TASK_EXITED = 3"

lemmas task_states = TASK_READY_def TASK_RUNNING_def TASK_BLOCKED_def TASK_EXITED_def

definition DEFAULT_PRIORITY :: int where "DEFAULT_PRIORITY = 10"
definition THREAD_STACK_SIZE :: u32 where "THREAD_STACK_SIZE = 0x1000"
definition THREAD_MAX_FD :: nat where "THREAD_MAX_FD = 16"
definition THREAD_SIZE :: u32 where "THREAD_SIZE = 576"
definition TRAPFRAME_SIZE :: u32 where "TRAPFRAME_SIZE = 272"
definition SIG_NUM :: nat where "SIG_NUM = 32"
definition SIGKILL :: nat where "SIGKILL = 9"

record ThreadTask =
  cpu_ctx :: cpu_context
  th_id :: u32
  th_state :: int
  th_counter :: int
  th_priority :: int
  preempt_count :: int
  kernel_stack :: addr
  user_stack :: addr
  pending_sig :: u32
  sig_handlers :: "nat \<Rightarrow> addr"
  sig_frame :: addr
  th_next :: "addr option"

record kern =
  k_fs :: fs
  threads :: "addr \<Rightarrow> ThreadTask"
  ready_queue :: "addr option"
  wait_queue :: "addr option"
  zombie_queue :: "addr option"
  thread_cnt :: u32
  cpu :: cpu_context
  irq_el1 :: bool
  timer_irq :: bool

definition upd_thread :: "addr \<Rightarrow> (ThreadTask \<Rightarrow> ThreadTask) \<Rightarrow> (addr \<Rightarrow> ThreadTask) \<Rightarrow> addr \<Rightarrow> ThreadTask" where
  "upd_thread a f th = th(a := f (th a))"

lemma upd_thread_sel [simp]: "upd_thread a f th x = (if x = a then f (th a) else th x)"
  by (simp add: upd_thread_def)

definition get_current :: "kern \<Rightarrow> addr" where
  "get_current s = current (k_fs s)"

definition set_current :: "addr \<Rightarrow> kern \<Rightarrow> kern" where
  "set_current t s = s\<lparr>k_fs := (k_fs s)\<lparr>current := t\<rparr>\<rparr>"

subsection \<open>Queues\<close>

text \<open>The operations take the queue's head and the threads, and return them changed.\<close>

partial_function (option) last_thread :: "(addr \<Rightarrow> ThreadTask) \<Rightarrow> addr \<Rightarrow> addr option" where
  "last_thread th cur = (case th_next (th cur) of None \<Rightarrow> Some cur | Some n \<Rightarrow> last_thread th n)"

definition add_thread_task :: "addr option \<Rightarrow> addr \<Rightarrow> (addr \<Rightarrow> ThreadTask) \<Rightarrow> (addr option \<times> (addr \<Rightarrow> ThreadTask)) option" where
  "add_thread_task queue task th =
     (case queue of
        None \<Rightarrow> Some (Some task, upd_thread task (\<lambda>t. t\<lparr>th_next := None\<rparr>) th)
      | Some h \<Rightarrow>
          (case last_thread th h of
             None \<Rightarrow> None
           | Some cur \<Rightarrow>
               Some (queue, upd_thread task (\<lambda>t. t\<lparr>th_next := None\<rparr>)
                              (upd_thread cur (\<lambda>t. t\<lparr>th_next := Some task\<rparr>) th))))"

definition pop_thread_task :: "addr option \<Rightarrow> (addr \<Rightarrow> ThreadTask) \<Rightarrow> addr option \<times> addr option" where
  "pop_thread_task queue th =
     (case queue of None \<Rightarrow> (None, None) | Some t \<Rightarrow> (Some t, th_next (th t)))"

text \<open>The walk of \<open>rm_thread_task\<close>, with the node before the current one.\<close>

partial_function (option) rm_walk :: "addr \<Rightarrow> addr option \<Rightarrow> addr option \<Rightarrow> addr option \<Rightarrow> (addr \<Rightarrow> ThreadTask) \<Rightarrow>
    (addr option \<times> (addr \<Rightarrow> ThreadTask)) option" where
  "rm_walk task prev cur queue th =
     (case cur of
        None \<Rightarrow> Some (queue, th)
      | Some c \<Rightarrow>
          if c = task then
            (case prev of
               None \<Rightarrow> Some (th_next (th c), th)
             | Some p \<Rightarrow> Some (queue, upd_thread p (\<lambda>t. t\<lparr>th_next := th_next (th c)\<rparr>) th))
          else rm_walk task (Some c) (th_next (th c)) queue th)"

definition rm_thread_task :: "addr option \<Rightarrow> addr \<Rightarrow> (addr \<Rightarrow> ThreadTask) \<Rightarrow> (addr option \<times> (addr \<Rightarrow> ThreadTask)) option" where
  "rm_thread_task queue task th = rm_walk task None queue queue th"

partial_function (option) find_thread :: "u32 \<Rightarrow> addr option \<Rightarrow> (addr \<Rightarrow> ThreadTask) \<Rightarrow> addr option option" where
  "find_thread pid cur th =
     (case cur of
        None \<Rightarrow> Some None
      | Some c \<Rightarrow> if th_id (th c) = pid then Some (Some c) else find_thread pid (th_next (th c)) th)"

definition get_thread_task_by_id :: "u32 \<Rightarrow> kern \<Rightarrow> addr option option" where
  "get_thread_task_by_id pid s =
     (case find_thread pid (ready_queue s) (threads s) of
        None \<Rightarrow> None
      | Some (Some t) \<Rightarrow> Some (Some t)
      | Some None \<Rightarrow> find_thread pid (wait_queue s) (threads s))"

definition add_ready :: "addr \<Rightarrow> kern \<Rightarrow> kern option" where
  "add_ready t s =
     map_option (\<lambda>(q, th). s\<lparr>ready_queue := q, threads := th\<rparr>) (add_thread_task (ready_queue s) t (threads s))"

definition add_wait :: "addr \<Rightarrow> kern \<Rightarrow> kern option" where
  "add_wait t s =
     map_option (\<lambda>(q, th). s\<lparr>wait_queue := q, threads := th\<rparr>) (add_thread_task (wait_queue s) t (threads s))"

definition add_zombie :: "addr \<Rightarrow> kern \<Rightarrow> kern option" where
  "add_zombie t s =
     map_option (\<lambda>(q, th). s\<lparr>zombie_queue := q, threads := th\<rparr>) (add_thread_task (zombie_queue s) t (threads s))"

definition set_state :: "addr \<Rightarrow> int \<Rightarrow> kern \<Rightarrow> kern" where
  "set_state t st s = s\<lparr>threads := upd_thread t (\<lambda>k. k\<lparr>th_state := st\<rparr>) (threads s)\<rparr>"

subsection \<open>Switching\<close>

text \<open>The callee-saved registers go to the old thread and come from the new one, which becomes current.\<close>

definition cpu_switch_to :: "addr \<Rightarrow> addr \<Rightarrow> kern \<Rightarrow> kern" where
  "cpu_switch_to prev next s =
     (let th = upd_thread prev (\<lambda>t. t\<lparr>cpu_ctx := cpu s\<rparr>) (threads s)
      in set_current next (s\<lparr>threads := th, cpu := cpu_ctx (th next)\<rparr>))"

definition irqs_off :: "kern \<Rightarrow> kern" where
  "irqs_off s = s\<lparr>irq_el1 := False, timer_irq := False\<rparr>"

definition irqs_on :: "kern \<Rightarrow> kern" where
  "irqs_on s = s\<lparr>irq_el1 := True, timer_irq := True\<rparr>"

text \<open>Where the thread that was running goes; \<open>Some None\<close> is the invalid state, on which \<open>schedule\<close> returns.\<close>

definition park :: "addr \<Rightarrow> kern \<Rightarrow> kern option option" where
  "park prev s =
     (let st = th_state (threads s prev) in
      if st = TASK_RUNNING then map_option Some (add_ready prev (set_state prev TASK_READY s))
      else if st = TASK_BLOCKED then map_option Some (add_wait prev s)
      else if st = TASK_EXITED then map_option Some (add_zombie prev s)
      else if st = TASK_READY then Some (Some s)
      else Some None)"

definition schedule :: "kern \<Rightarrow> kern option" where
  "schedule s0 =
     (let s = irqs_off s0; prev = get_current s in
      if prev = NULL then
        (case ready_queue s of
           None \<Rightarrow> None
         | Some r \<Rightarrow> Some (set_current r (set_state r TASK_RUNNING s)))
      else
        (case ready_queue s of
           None \<Rightarrow> Some (irqs_on s)
         | Some next \<Rightarrow>
             if next = prev then Some (irqs_on s)
             else
               (case park prev s of
                  None \<Rightarrow> None
                | Some None \<Rightarrow> Some (irqs_on s)
                | Some (Some s1) \<Rightarrow>
                    let s2 = set_state next TASK_RUNNING s1 in
                    (case pop_thread_task (ready_queue s2) (threads s2) of
                       (None, _) \<Rightarrow> None
                     | (Some n, q) \<Rightarrow>
                         Some (cpu_switch_to prev n (s2\<lparr>ready_queue := q, timer_irq := True\<rparr>))))))"

subsection \<open>The life of a thread\<close>

text \<open>
  \<open>thread_create\<close> returns the pointer -1 when it fails. The three console handles are opened in the new
  thread's table; their results are not looked at. \<open>hdl\<close> and \<open>kill_hdl\<close> are the addresses of the default
  signal handlers.
\<close>

definition set_fd :: "addr \<Rightarrow> nat \<Rightarrow> addr \<Rightarrow> fs \<Rightarrow> fs" where
  "set_fd t i h s = s\<lparr>fd_table := (fd_table s)(t := (fd_table s t)(i := h))\<rparr>"

definition NEG1_PTR :: addr where "NEG1_PTR = 2 ^ 64 - 1"

definition open_console :: "layout \<Rightarrow> addr \<Rightarrow> nat \<Rightarrow> fs \<Rightarrow> fs option" where
  "open_console L t i s = map_option (\<lambda>(r, h, s'). s') (vfs_open L (set_fd t i) path_dev_uart 0 s)"

definition thread_create :: "layout \<Rightarrow> addr \<Rightarrow> addr \<Rightarrow> addr \<Rightarrow> kern \<Rightarrow> (addr \<times> kern) option" where
  "thread_create L hdl kill_hdl callback s = do {
     (task, f1) \<leftarrow> fs_alloc THREAD_SIZE (k_fs s);
     if task = NULL then Some (NEG1_PTR, s\<lparr>k_fs := f1\<rparr>)
     else do {
       let th1 = upd_thread task (\<lambda>t. t\<lparr>th_id := thread_cnt s, th_state := TASK_READY,
                   th_counter := DEFAULT_PRIORITY, th_priority := DEFAULT_PRIORITY, preempt_count := 1\<rparr>) (threads s);
       let s1 = s\<lparr>threads := th1, thread_cnt := thread_cnt s + 1\<rparr>;
       (ks, f2) \<leftarrow> fs_alloc THREAD_STACK_SIZE f1;
       if ks = NULL then map_option (\<lambda>f. (NEG1_PTR, s1\<lparr>k_fs := f\<rparr>)) (fs_free L task f2)
       else do {
         (us, f3) \<leftarrow> fs_alloc THREAD_STACK_SIZE f2;
         if us = NULL then do {
           f4 \<leftarrow> fs_free L ks f3;
           map_option (\<lambda>f. (NEG1_PTR, s1\<lparr>k_fs := f\<rparr>)) (fs_free L task f4)
         }
         else do {
           (frame, f4) \<leftarrow> fs_alloc TRAPFRAME_SIZE f3;
           let f5 = f4\<lparr>cwd := (cwd f4)(task := the_root f4),
                       fd_table := (fd_table f4)(task := \<lambda>i. if i < THREAD_MAX_FD then NULL else fd_table f4 task i)\<rparr>;
           f6 \<leftarrow> open_console L task 0 f5;
           f7 \<leftarrow> open_console L task 1 f6;
           f8 \<leftarrow> open_console L task 2 f7;
           let sp = of_nat us + ucast THREAD_STACK_SIZE;
           let th2 = upd_thread task (\<lambda>t. t\<lparr>kernel_stack := ks, user_stack := us, pending_sig := 0,
                       sig_handlers := \<lambda>i. if i < SIG_NUM then (if i = SIGKILL then kill_hdl else hdl) else sig_handlers t i,
                       sig_frame := frame, th_next := None,
                       cpu_ctx := \<lparr>x19_x28 = \<lambda>_. 0, fp_reg = sp, lr_reg = of_nat callback, sp_reg = sp\<rparr>\<rparr>) (threads s1);
           map_option (\<lambda>t. (task, t)) (add_ready task (s1\<lparr>k_fs := f8, threads := th2\<rparr>))
         }
       }
     }
   }"

text \<open>\<open>idle\<close> is the address of that function. \<open>idle_task\<close> itself is not initialised and put on no queue.\<close>

definition sched_init :: "layout \<Rightarrow> addr \<Rightarrow> addr \<Rightarrow> addr \<Rightarrow> kern \<Rightarrow> kern option" where
  "sched_init L hdl kill_hdl idle s =
     (let s0 = s\<lparr>ready_queue := None, wait_queue := None, zombie_queue := None, thread_cnt := 0\<rparr> in
      case fs_alloc THREAD_SIZE (k_fs s0) of
        None \<Rightarrow> None
      | Some (idle_task, f1) \<Rightarrow>
          if idle_task = NULL then Some (s0\<lparr>k_fs := f1\<rparr>)
          else map_option (\<lambda>(t, s1). set_state idle_task TASK_RUNNING (set_current idle_task s1))
                 (thread_create L hdl kill_hdl idle (s0\<lparr>k_fs := f1\<rparr>)))"

text \<open>Taking a thread off both queues it may be on.\<close>

definition unqueue :: "addr \<Rightarrow> kern \<Rightarrow> kern option" where
  "unqueue t s =
     (case rm_thread_task (ready_queue s) t (threads s) of
        None \<Rightarrow> None
      | Some (rq, th1) \<Rightarrow>
          (case rm_thread_task (wait_queue s) t th1 of
             None \<Rightarrow> None
           | Some (wq, th2) \<Rightarrow> Some (s\<lparr>ready_queue := rq, wait_queue := wq, threads := th2\<rparr>)))"

definition exit_thread :: "kern \<Rightarrow> kern option" where
  "exit_thread s =
     (let cur = get_current s in
      if cur = NULL then Some s
      else (case unqueue cur s of
              None \<Rightarrow> None
            | Some s1 \<Rightarrow> schedule (set_state cur TASK_EXITED s1)))"

definition kill_thread :: "u32 \<Rightarrow> kern \<Rightarrow> (int \<times> kern) option" where
  "kill_thread pid s =
     (case get_thread_task_by_id pid s of
        None \<Rightarrow> None
      | Some None \<Rightarrow> Some (-1, s)
      | Some (Some task) \<Rightarrow>
          (case unqueue task s of
             None \<Rightarrow> None
           | Some s1 \<Rightarrow>
               let s2 = set_state task TASK_EXITED s1 in
               map_option (\<lambda>t. (0, t)) (if get_current s2 = task then schedule s2 else add_zombie task s2)))"

text \<open>What a zombie gives back: its stacks and itself.\<close>

definition bury :: "layout \<Rightarrow> addr \<Rightarrow> kern \<Rightarrow> kern option" where
  "bury L z s = do {
     f1 \<leftarrow> fs_free L (kernel_stack (threads s z)) (k_fs s);
     f2 \<leftarrow> fs_free L (user_stack (threads s z)) f1;
     f3 \<leftarrow> fs_free L z f2;
     Some (s\<lparr>k_fs := f3\<rparr>)
   }"

partial_function (option) kill_zombies :: "layout \<Rightarrow> kern \<Rightarrow> kern option" where
  "kill_zombies L s =
     (case pop_thread_task (zombie_queue s) (threads s) of
        (None, q) \<Rightarrow> Some s
      | (Some z, q) \<Rightarrow>
          (case bury L z (s\<lparr>zombie_queue := q\<rparr>) of None \<Rightarrow> None | Some s1 \<Rightarrow> kill_zombies L s1))"

text \<open>One round of the loop of \<open>idle\<close>.\<close>

definition idle_round :: "layout \<Rightarrow> kern \<Rightarrow> kern option" where
  "idle_round L s = (case kill_zombies L s of None \<Rightarrow> None | Some s1 \<Rightarrow> schedule s1)"

end
