(* ===== verification/SchedInv.thy ===== *)
theory SchedInv
  imports Sched
begin

section \<open>What the scheduler guarantees\<close>

text \<open>
  The queues as lists: adding appends, popping takes the head, removing takes a thread out. The invariant
  \<open>sched_inv\<close> says which threads wait where and in which state; every scheduler operation keeps it. The
  running thread is on no queue, or it is still on the ready queue and marked ready, which is how the
  first shell thread and \<open>exec\<close> start.
\<close>

subsection \<open>Queues as lists\<close>

definition tq :: "(addr \<Rightarrow> ThreadTask) \<Rightarrow> addr option \<Rightarrow> addr list \<Rightarrow> bool" where
  "tq th q xs \<longleftrightarrow> sll (\<lambda>x. th_next (th x)) q xs \<and> distinct xs"

text \<open>Only the links of the threads \<open>A\<close> have changed.\<close>

definition relinked :: "addr set \<Rightarrow> (addr \<Rightarrow> ThreadTask) \<Rightarrow> (addr \<Rightarrow> ThreadTask) \<Rightarrow> bool" where
  "relinked A th th' \<longleftrightarrow> (\<forall>x. th' x = (th x)\<lparr>th_next := th_next (th' x)\<rparr>) \<and> (\<forall>x. x \<notin> A \<longrightarrow> th' x = th x)"

lemma relinked_sel:
  assumes "relinked A th th'"
  shows "th_state (th' x) = th_state (th x)" "th_id (th' x) = th_id (th x)"
    "kernel_stack (th' x) = kernel_stack (th x)" "user_stack (th' x) = user_stack (th x)"
    "cpu_ctx (th' x) = cpu_ctx (th x)" "pending_sig (th' x) = pending_sig (th x)"
proof -
  obtain v where "th' x = (th x)\<lparr>th_next := v\<rparr>" using assms unfolding relinked_def by blast
  then show "th_state (th' x) = th_state (th x)" "th_id (th' x) = th_id (th x)"
    "kernel_stack (th' x) = kernel_stack (th x)" "user_stack (th' x) = user_stack (th x)"
    "cpu_ctx (th' x) = cpu_ctx (th x)" "pending_sig (th' x) = pending_sig (th x)" by simp_all
qed

lemma relinked_refl: "relinked A th th"
  by (simp add: relinked_def)

lemma tq_cong: "tq th q xs \<Longrightarrow> (\<And>x. x \<in> set xs \<Longrightarrow> th_next (th' x) = th_next (th x)) \<Longrightarrow> tq th' q xs"
  unfolding tq_def by (auto intro: sll_cong)

lemma tq_relinked:
  assumes "tq th q xs" "relinked A th th'" "set xs \<inter> A = {}"
  shows "tq th' q xs"
  by (rule tq_cong [OF assms(1)]) (use assms(2,3) in \<open>auto simp: relinked_def disjoint_iff\<close>)

lemma last_thread_eq: "sll (\<lambda>x. th_next (th x)) (Some h) xs \<Longrightarrow> last_thread th h = Some (last xs)"
proof (induction xs arbitrary: h)
  case (Cons x xs)
  then show ?case
    by (subst last_thread.simps) (cases xs; auto split: option.splits)
qed simp

lemma add_ok:
  assumes q: "tq th q xs" and t: "t \<notin> set xs"
  shows "\<exists>q' th'. add_thread_task q t th = Some (q', th') \<and> tq th' q' (xs @ [t]) \<and>
     relinked (insert t (set xs)) th th'"
proof (cases xs)
  case Nil
  then show ?thesis using q by (auto simp: tq_def add_thread_task_def relinked_def)
next
  case (Cons x ys)
  have s: "sll (\<lambda>x. th_next (th x)) q xs" "distinct xs" using q by (auto simp: tq_def)
  have h: "q = Some x" using s(1) Cons by simp
  have l: "last_thread th x = Some (last xs)" using last_thread_eq s(1) h by blast
  have lx: "last xs \<in> set xs" "last xs \<noteq> t" using Cons t by auto
  let ?th = "upd_thread t (\<lambda>k. k\<lparr>th_next := None\<rparr>) (upd_thread (last xs) (\<lambda>k. k\<lparr>th_next := Some t\<rparr>) th)"
  have e: "(\<lambda>y. th_next (?th y)) = (\<lambda>y. th_next (th y))(last xs := Some t, t := None)"
    using lx by (auto simp: fun_eq_iff)
  have "sll (\<lambda>y. th_next (?th y)) q (xs @ [t])"
    unfolding e by (rule sll_append_node) (use s t Cons in auto)
  then show ?thesis using h l s(2) t lx by (auto simp: add_thread_task_def tq_def relinked_def)
qed

lemma rm_walk_ok:
  assumes "sll (\<lambda>x. th_next (th x)) q (ys @ zs)" "distinct (ys @ zs)" "t \<notin> set ys"
    and "sll (\<lambda>x. th_next (th x)) cur zs" and "prev = (if ys = [] then None else Some (last ys))"
  shows "\<exists>q' th'. rm_walk t prev cur q th = Some (q', th') \<and> tq th' q' (ys @ remove1 t zs) \<and>
     relinked (set (ys @ zs)) th th'"
  using assms
proof (induction zs arbitrary: ys cur prev)
  case Nil
  then show ?case by (subst rm_walk.simps) (auto simp: tq_def relinked_refl)
next
  case (Cons z zs)
  have cur: "cur = Some z" "sll (\<lambda>x. th_next (th x)) (th_next (th z)) zs" using Cons.prems(4) by auto
  show ?case
  proof (cases "z = t")
    case False
    have "\<exists>q' th'. rm_walk t (Some z) (th_next (th z)) q th = Some (q', th') \<and>
        tq th' q' ((ys @ [z]) @ remove1 t zs) \<and> relinked (set ((ys @ [z]) @ zs)) th th'"
      using Cons.prems False cur by (intro Cons.IH) auto
    then show ?thesis using False cur(1) by (subst rm_walk.simps) simp
  next
    case t: True
    show ?thesis
    proof (cases "ys = []")
      case True
      then show ?thesis using t cur Cons.prems by (subst rm_walk.simps) (auto simp: tq_def relinked_refl)
    next
      case False
      let ?p = "last ys"
      have p: "?p \<in> set ys" "?p \<notin> set (z # zs)" using last_in_set [OF False] Cons.prems(2) by auto
      let ?th = "upd_thread ?p (\<lambda>k. k\<lparr>th_next := th_next (th z)\<rparr>) th"
      have "sll (\<lambda>x. th_next (?th x)) q (ys @ zs)"
      proof -
        have e: "(\<lambda>x. th_next (?th x)) = (\<lambda>x. th_next (th x))(?p := th_next (th z))" by (auto simp: fun_eq_iff)
        show ?thesis unfolding e by (rule sll_unlink [OF Cons.prems(1) False Cons.prems(2)])
      qed
      then have "tq ?th q (ys @ zs)" using Cons.prems(2) by (simp add: tq_def)
      moreover have "relinked (set (ys @ z # zs)) th ?th" using p(1) by (simp add: relinked_def)
      moreover have "rm_walk t prev cur q th = Some (q, ?th)"
        using t cur(1) False Cons.prems(5) by (subst rm_walk.simps) simp
      ultimately show ?thesis using t by simp
    qed
  qed
qed

lemma rm_ok:
  assumes "tq th q xs"
  shows "\<exists>q' th'. rm_thread_task q t th = Some (q', th') \<and> tq th' q' (remove1 t xs) \<and> relinked (set xs) th th'"
  using rm_walk_ok [of th q "[]" xs t q None] assms by (simp add: rm_thread_task_def tq_def)

lemma find_ok: "sll (\<lambda>x. th_next (th x)) q xs \<Longrightarrow> find_thread pid q th = Some (find (\<lambda>x. th_id (th x) = pid) xs)"
proof (induction xs arbitrary: q)
  case Nil
  then show ?case by (subst find_thread.simps) simp
next
  case (Cons x xs)
  then show ?case by (subst find_thread.simps) simp
qed

text \<open>The ready queue is a queue of threads, each at most once.\<close>

definition ready_holds :: "kern \<Rightarrow> addr list \<Rightarrow> bool" where
  "ready_holds s xs \<longleftrightarrow> tq (threads s) (ready_queue s) xs"

definition ready_put :: "addr \<Rightarrow> kern \<Rightarrow> bool \<times> kern" where
  "ready_put t s = (case add_ready t s of None \<Rightarrow> (False, s) | Some s' \<Rightarrow> (True, s'))"

definition ready_get :: "kern \<Rightarrow> addr option \<times> kern" where
  "ready_get s = (case pop_thread_task (ready_queue s) (threads s) of (r, q) \<Rightarrow> (r, s\<lparr>ready_queue := q\<rparr>))"

lemma add_ready_ok:
  assumes "ready_holds s xs" "t \<notin> set xs"
  shows "\<exists>s'. add_ready t s = Some s' \<and> ready_holds s' (xs @ [t])"
  using add_ok [OF assms(1) [unfolded ready_holds_def] assms(2)] by (auto simp: add_ready_def ready_holds_def)

interpretation ready: prompt_fifo ready_holds distinct ready_put ready_get "\<lambda>s. s"
proof
  show "distinct (xs @ ys)" if "distinct (xs @ a # ys)" for xs ys :: "addr list" and a using that by auto
  show "ready_holds s' (if ok then xs @ [a] else xs)"
    if "ready_holds s xs" "distinct (xs @ [a])" "ready_put a s = (ok, s')" for s xs a ok s'
    using add_ready_ok [OF that(1), of a] that(2,3) by (auto simp: ready_put_def)
  show "ready_holds s' xs" if "ready_holds s xs" "ready_get s = (None, s')" for s xs s'
    using that by (auto simp: ready_get_def pop_thread_task_def ready_holds_def tq_def sll_None split: option.splits)
  show "\<exists>ys. xs = x # ys \<and> ready_holds s' ys" if "ready_holds s xs" "ready_get s = (Some x, s')" for s xs x s'
    using that by (cases xs) (auto simp: ready_get_def pop_thread_task_def ready_holds_def tq_def)
  show "fst (ready_get s) = Some x" if "ready_holds s (x # xs)" for s x xs
    using that by (auto simp: ready_get_def pop_thread_task_def ready_holds_def tq_def)
qed

subsection \<open>The invariant\<close>

definition queues_ok :: "kern \<Rightarrow> addr list \<Rightarrow> addr list \<Rightarrow> addr list \<Rightarrow> bool" where
  "queues_ok s rs ws zs \<longleftrightarrow>
     tq (threads s) (ready_queue s) rs \<and> tq (threads s) (wait_queue s) ws \<and> tq (threads s) (zombie_queue s) zs \<and>
     distinct (rs @ ws @ zs) \<and> NULL \<notin> set (rs @ ws @ zs) \<and>
     (\<forall>x \<in> set rs. th_state (threads s x) = TASK_READY) \<and>
     (\<forall>x \<in> set ws. th_state (threads s x) = TASK_BLOCKED) \<and>
     (\<forall>x \<in> set zs. th_state (threads s x) = TASK_EXITED)"

definition sched_inv :: "kern \<Rightarrow> addr list \<Rightarrow> addr list \<Rightarrow> addr list \<Rightarrow> bool" where
  "sched_inv s rs ws zs \<longleftrightarrow> queues_ok s rs ws zs \<and> get_current s \<noteq> NULL \<and>
     get_current s \<notin> set ws \<and> get_current s \<notin> set zs \<and>
     (get_current s \<notin> set rs \<longrightarrow>
        th_state (threads s (get_current s)) \<in> {TASK_RUNNING, TASK_BLOCKED, TASK_EXITED})"

text \<open>What the queue operations leave alone.\<close>

definition kept :: "kern \<Rightarrow> kern \<Rightarrow> bool" where
  "kept s s' \<longleftrightarrow> k_fs s' = k_fs s \<and> thread_cnt s' = thread_cnt s \<and> cpu s' = cpu s \<and> relinked UNIV (threads s) (threads s')"

lemma relinked_UNIV: "relinked A th th' \<Longrightarrow> relinked UNIV th th'"
  by (simp add: relinked_def)

lemma kept_current: "kept s s' \<Longrightarrow> get_current s' = get_current s"
  by (simp add: kept_def get_current_def)

lemma queues_tq:
  assumes "queues_ok s rs ws zs"
  shows "tq (threads s) (ready_queue s) rs" "tq (threads s) (wait_queue s) ws" "tq (threads s) (zombie_queue s) zs"
    "distinct (rs @ ws @ zs)"
  using assms by (auto simp: queues_ok_def)

lemma add_ready_queues:
  assumes q: "queues_ok s rs ws zs" and t: "t \<notin> set (rs @ ws @ zs)" "t \<noteq> NULL" "th_state (threads s t) = TASK_READY"
  shows "\<exists>s'. add_ready t s = Some s' \<and> queues_ok s' (rs @ [t]) ws zs \<and> kept s s'"
proof -
  obtain q' th' where a: "add_thread_task (ready_queue s) t (threads s) = Some (q', th')" "tq th' q' (rs @ [t])"
    "relinked (insert t (set rs)) (threads s) th'" using add_ok [OF queues_tq(1) [OF q], of t] t by auto
  have "tq th' (wait_queue s) ws" "tq th' (zombie_queue s) zs"
    using tq_relinked [OF queues_tq(2) [OF q] a(3)] tq_relinked [OF queues_tq(3) [OF q] a(3)]
      queues_tq(4) [OF q] t(1) by auto
  then show ?thesis
    using a q t relinked_sel(1) [OF a(3)]
    by (auto simp: add_ready_def queues_ok_def kept_def dest: relinked_UNIV)
qed

lemma add_wait_queues:
  assumes q: "queues_ok s rs ws zs" and t: "t \<notin> set (rs @ ws @ zs)" "t \<noteq> NULL" "th_state (threads s t) = TASK_BLOCKED"
  shows "\<exists>s'. add_wait t s = Some s' \<and> queues_ok s' rs (ws @ [t]) zs \<and> kept s s'"
proof -
  obtain q' th' where a: "add_thread_task (wait_queue s) t (threads s) = Some (q', th')" "tq th' q' (ws @ [t])"
    "relinked (insert t (set ws)) (threads s) th'" using add_ok [OF queues_tq(2) [OF q], of t] t by auto
  have "tq th' (ready_queue s) rs" "tq th' (zombie_queue s) zs"
    using tq_relinked [OF queues_tq(1) [OF q] a(3)] tq_relinked [OF queues_tq(3) [OF q] a(3)]
      queues_tq(4) [OF q] t(1) by auto
  then show ?thesis
    using a q t relinked_sel(1) [OF a(3)]
    by (auto simp: add_wait_def queues_ok_def kept_def dest: relinked_UNIV)
qed

lemma add_zombie_queues:
  assumes q: "queues_ok s rs ws zs" and t: "t \<notin> set (rs @ ws @ zs)" "t \<noteq> NULL" "th_state (threads s t) = TASK_EXITED"
  shows "\<exists>s'. add_zombie t s = Some s' \<and> queues_ok s' rs ws (zs @ [t]) \<and> kept s s'"
proof -
  obtain q' th' where a: "add_thread_task (zombie_queue s) t (threads s) = Some (q', th')" "tq th' q' (zs @ [t])"
    "relinked (insert t (set zs)) (threads s) th'" using add_ok [OF queues_tq(3) [OF q], of t] t by auto
  have "tq th' (ready_queue s) rs" "tq th' (wait_queue s) ws"
    using tq_relinked [OF queues_tq(1) [OF q] a(3)] tq_relinked [OF queues_tq(2) [OF q] a(3)]
      queues_tq(4) [OF q] t(1) by auto
  then show ?thesis
    using a q t relinked_sel(1) [OF a(3)]
    by (auto simp: add_zombie_def queues_ok_def kept_def dest: relinked_UNIV)
qed

lemma queues_irq [simp]:
  "queues_ok (irqs_off s) rs ws zs = queues_ok s rs ws zs" "queues_ok (irqs_on s) rs ws zs = queues_ok s rs ws zs"
  "get_current (irqs_off s) = get_current s" "get_current (irqs_on s) = get_current s"
  "threads (irqs_off s) = threads s" "ready_queue (irqs_off s) = ready_queue s"
  "threads (irqs_on s) = threads s" "ready_queue (irqs_on s) = ready_queue s"
  "k_fs (irqs_off s) = k_fs s" "cpu (irqs_off s) = cpu s" "thread_cnt (irqs_off s) = thread_cnt s"
  by (simp_all add: irqs_off_def irqs_on_def queues_ok_def get_current_def)

lemma queues_set_state:
  assumes "queues_ok s rs ws zs" "t \<notin> set (rs @ ws @ zs)"
  shows "queues_ok (set_state t st s) rs ws zs"
  using assms unfolding queues_ok_def set_state_def
  by (auto intro!: tq_cong [where th = "threads s"])

text \<open>Where the thread that stops running goes, by its state.\<close>

definition park_lists :: "int \<Rightarrow> addr \<Rightarrow> addr list \<Rightarrow> addr list \<Rightarrow> addr list \<Rightarrow> addr list \<times> addr list \<times> addr list" where
  "park_lists st c rs ws zs =
     (if st = TASK_RUNNING then (rs @ [c], ws, zs)
      else if st = TASK_BLOCKED then (rs, ws @ [c], zs)
      else if st = TASK_EXITED then (rs, ws, zs @ [c])
      else (rs, ws, zs))"

lemma park_ok:
  assumes inv: "sched_inv s rs ws zs"
  shows "\<exists>s'. park (get_current s) s = Some (Some s') \<and>
     (case park_lists (th_state (threads s (get_current s))) (get_current s) rs ws zs of
        (rs', ws', zs') \<Rightarrow> queues_ok s' rs' ws' zs') \<and>
     k_fs s' = k_fs s \<and> cpu s' = cpu s \<and> thread_cnt s' = thread_cnt s \<and>
     (\<forall>x. kernel_stack (threads s' x) = kernel_stack (threads s x) \<and> user_stack (threads s' x) = user_stack (threads s x) \<and>
          th_id (threads s' x) = th_id (threads s x) \<and> cpu_ctx (threads s' x) = cpu_ctx (threads s x))"
proof -
  let ?c = "get_current s"
  have q: "queues_ok s rs ws zs" "?c \<noteq> NULL" "?c \<notin> set ws" "?c \<notin> set zs" using inv by (auto simp: sched_inv_def)
  have fr: "kernel_stack (threads s' x) = kernel_stack (threads s x)" "user_stack (threads s' x) = user_stack (threads s x)"
    "th_id (threads s' x) = th_id (threads s x)" "cpu_ctx (threads s' x) = cpu_ctx (threads s x)" if "kept s s'" for s s' x
    using that relinked_sel by (auto simp: kept_def)
  show ?thesis
  proof (cases "?c \<in> set rs")
    case True
    then have "th_state (threads s ?c) = TASK_READY" using q(1) by (simp add: queues_ok_def)
    then show ?thesis using q(1) by (simp add: park_def park_lists_def task_states)
  next
    case False
    then have n: "?c \<notin> set (rs @ ws @ zs)" using q by simp
    consider (run) "th_state (threads s ?c) = TASK_RUNNING" | (block) "th_state (threads s ?c) = TASK_BLOCKED"
      | (exit) "th_state (threads s ?c) = TASK_EXITED" using inv False by (auto simp: sched_inv_def)
    then show ?thesis
    proof cases
      case run
      let ?s = "set_state ?c TASK_READY s"
      have "queues_ok ?s rs ws zs" by (rule queues_set_state [OF q(1) n])
      from add_ready_queues [OF this n q(2)] obtain s' where
        s': "add_ready ?c ?s = Some s'" "queues_ok s' (rs @ [?c]) ws zs" "kept ?s s'"
        by (auto simp: set_state_def)
      show ?thesis using run s' fr [OF s'(3)] by (simp add: park_def park_lists_def set_state_def kept_def)
    next
      case block
      from add_wait_queues [OF q(1) n q(2) block] obtain s' where
        s': "add_wait ?c s = Some s'" "queues_ok s' rs (ws @ [?c]) zs" "kept s s'" by blast
      show ?thesis using block s' fr [OF s'(3)]
        by (simp add: park_def park_lists_def kept_def task_states)
    next
      case exit
      from add_zombie_queues [OF q(1) n q(2) exit] obtain s' where
        s': "add_zombie ?c s = Some s'" "queues_ok s' rs ws (zs @ [?c])" "kept s s'" by blast
      show ?thesis using exit s' fr [OF s'(3)]
        by (simp add: park_def park_lists_def kept_def task_states)
    qed
  qed
qed

subsection \<open>Switching threads\<close>

text \<open>The threads' own memory and numbers, which the scheduler never changes.\<close>

definition same_threads :: "kern \<Rightarrow> kern \<Rightarrow> bool" where
  "same_threads s s' \<longleftrightarrow> (\<forall>x. kernel_stack (threads s' x) = kernel_stack (threads s x) \<and>
     user_stack (threads s' x) = user_stack (threads s x) \<and> th_id (threads s' x) = th_id (threads s x)) \<and>
     (\<exists>c. k_fs s' = (k_fs s)\<lparr>current := c\<rparr>) \<and> thread_cnt s' = thread_cnt s"

lemma same_threads_trans: "same_threads s t \<Longrightarrow> same_threads t u \<Longrightarrow> same_threads s u"
  by (auto simp: same_threads_def)

lemma same_fs_refl: "\<exists>c. f = f\<lparr>current := c\<rparr>"
  by (rule exI [of _ "current f"]) simp

lemma kept_same_threads: "kept s s' \<Longrightarrow> same_threads s s'"
  using relinked_sel(2-4) [of UNIV "threads s" "threads s'"] same_fs_refl by (auto simp: kept_def same_threads_def)

lemma sched_inv_irq [simp]: "sched_inv (irqs_off s) = sched_inv s" "sched_inv (irqs_on s) = sched_inv s"
  by (simp_all add: fun_eq_iff sched_inv_def)

lemma schedule_stay:
  assumes "sched_inv s rs ws zs" "rs = [] \<or> hd rs = get_current s"
  shows "schedule s = Some (irqs_on (irqs_off s))"
  using assms by (cases rs) (auto simp: schedule_def Let_def sched_inv_def queues_ok_def tq_def)

lemma schedule_switch:
  assumes inv: "sched_inv s (n # ns) ws zs" and n: "n \<noteq> get_current s"
    and lists: "park_lists (th_state (threads s (get_current s))) (get_current s) ns ws zs = (rs', ws', zs')"
  shows "\<exists>s'. schedule s = Some s' \<and> get_current s' = n \<and> sched_inv s' rs' ws' zs' \<and>
     th_state (threads s' n) = TASK_RUNNING \<and> same_threads s s' \<and>
     cpu_ctx (threads s' (get_current s)) = cpu s \<and> cpu s' = cpu_ctx (threads s n)"
proof -
  let ?s = "irqs_off s" and ?c = "get_current s"
  let ?st = "th_state (threads s ?c)"
  have "sched_inv ?s (n # ns) ws zs" using inv by simp
  from park_ok [OF this] obtain s1 where s1: "park ?c ?s = Some (Some s1)"
    "case park_lists ?st ?c (n # ns) ws zs of (rs', ws', zs') \<Rightarrow> queues_ok s1 rs' ws' zs'"
    "k_fs s1 = k_fs s" "cpu s1 = cpu s" "thread_cnt s1 = thread_cnt s"
    and fr: "\<And>x. kernel_stack (threads s1 x) = kernel_stack (threads s x) \<and>
      user_stack (threads s1 x) = user_stack (threads s x) \<and> th_id (threads s1 x) = th_id (threads s x) \<and>
      cpu_ctx (threads s1 x) = cpu_ctx (threads s x)"
    by auto
  have "park_lists ?st ?c (n # ns) ws zs = (n # rs', ws', zs')"
    using lists by (auto simp: park_lists_def split: if_splits)
  then have q1: "queues_ok s1 (n # rs') ws' zs'" using s1(2) by simp
  let ?s2 = "set_state n TASK_RUNNING s1"
  have r: "ready_queue s1 = Some n" "th_next (threads s1 n) = th_next (threads ?s2 n)"
    using q1 by (auto simp: queues_ok_def tq_def set_state_def)
  let ?s3 = "cpu_switch_to ?c n (?s2\<lparr>ready_queue := th_next (threads s1 n), timer_irq := True\<rparr>)"
  have h: "ready_queue s = Some n" "?c \<noteq> NULL" using inv by (auto simp: sched_inv_def queues_ok_def tq_def)
  have e: "schedule s = Some ?s3"
    using h n s1(1) r by (simp add: schedule_def Let_def pop_thread_task_def set_state_def)
  have th: "th_next (threads ?s3 x) = th_next (threads s1 x)" 
    "th_state (threads ?s3 x) = (if x = n then TASK_RUNNING else th_state (threads s1 x))" for x
    by (auto simp: cpu_switch_to_def set_state_def set_current_def)
  have "queues_ok ?s3 rs' ws' zs'"
  proof -
    have qs: "ready_queue ?s3 = th_next (threads s1 n)" "wait_queue ?s3 = wait_queue s1" "zombie_queue ?s3 = zombie_queue s1"
      by (simp_all add: cpu_switch_to_def set_current_def set_state_def)
    have "tq (threads s1) (th_next (threads s1 n)) rs'" using q1 by (simp add: queues_ok_def tq_def)
    then have "tq (threads ?s3) (ready_queue ?s3) rs'" unfolding qs by (rule tq_cong) (rule th(1))
    moreover have "tq (threads ?s3) (wait_queue ?s3) ws'" unfolding qs by (rule tq_cong [OF queues_tq(2) [OF q1]]) (rule th(1))
    moreover have "tq (threads ?s3) (zombie_queue ?s3) zs'" unfolding qs by (rule tq_cong [OF queues_tq(3) [OF q1]]) (rule th(1))
    ultimately show ?thesis using q1 th by (auto simp: queues_ok_def)
  qed
  moreover have cur: "get_current ?s3 = n" by (simp add: get_current_def cpu_switch_to_def set_current_def)
  moreover have "n \<notin> set rs'" "n \<notin> set ws'" "n \<notin> set zs'" "n \<noteq> NULL" using q1 by (auto simp: queues_ok_def)
  ultimately have "sched_inv ?s3 rs' ws' zs'" using th(2) by (simp add: sched_inv_def)
  moreover have "same_threads s ?s3"
    using fr s1(3,5) by (auto simp: same_threads_def cpu_switch_to_def set_current_def set_state_def)
  moreover have "cpu_ctx (threads ?s3 ?c) = cpu s" "cpu ?s3 = cpu_ctx (threads s n)"
    using n fr s1(4) by (auto simp: cpu_switch_to_def set_current_def set_state_def)
  moreover have "th_state (threads ?s3 n) = TASK_RUNNING" using th(2) [of n] by simp
  ultimately show ?thesis using e cur by blast
qed

text \<open>
  Round robin: with the running thread in front, \<open>schedule\<close> rotates the list of the threads that can
  run. \<open>yields\<close> is the running thread calling \<open>schedule\<close>, again and again.
\<close>

definition runnable :: "kern \<Rightarrow> addr list \<Rightarrow> bool" where
  "runnable s cs \<longleftrightarrow> (\<exists>c rs ws zs. cs = c # rs \<and> c = get_current s \<and> c \<notin> set rs \<and> sched_inv s rs ws zs \<and>
     th_state (threads s c) = TASK_RUNNING)"

lemma schedule_rotates:
  assumes "runnable s cs"
  shows "\<exists>s'. schedule s = Some s' \<and> runnable s' (rotate1 cs)"
proof -
  obtain c rs ws zs where r: "cs = c # rs" "c = get_current s" "c \<notin> set rs" "sched_inv s rs ws zs"
    "th_state (threads s c) = TASK_RUNNING" using assms by (auto simp: runnable_def)
  show ?thesis
  proof (cases rs)
    case Nil
    then have "runnable (irqs_on (irqs_off s)) cs" using r unfolding runnable_def by force
    then show ?thesis using schedule_stay [OF r(4)] Nil r(1) by simp
  next
    case (Cons n ns)
    have "park_lists (th_state (threads s (get_current s))) (get_current s) ns ws zs = (ns @ [c], ws, zs)"
      using r by (simp add: park_lists_def)
    from schedule_switch [OF r(4) [unfolded Cons] _ this] r(2,3) Cons obtain s' where
      s': "schedule s = Some s'" "get_current s' = n" "sched_inv s' (ns @ [c]) ws zs"
        "th_state (threads s' n) = TASK_RUNNING" by auto
    moreover have "n \<notin> set (ns @ [c])"
      using r(3,4) Cons by (auto simp: sched_inv_def queues_ok_def)
    ultimately have "runnable s' (n # ns @ [c])" unfolding runnable_def by blast
    then show ?thesis using s'(1) r(1) Cons by simp
  qed
qed

primrec yields :: "nat \<Rightarrow> kern \<Rightarrow> kern option" where
  "yields 0 s = Some s"
| "yields (Suc k) s = (case schedule s of None \<Rightarrow> None | Some s1 \<Rightarrow> yields k s1)"

lemma yields_rotate:
  "runnable s cs \<Longrightarrow> \<exists>s'. yields k s = Some s' \<and> runnable s' (rotate k cs)"
proof (induction k arbitrary: s cs)
  case (Suc k)
  obtain s1 where s1: "schedule s = Some s1" "runnable s1 (rotate1 cs)" using schedule_rotates [OF Suc.prems] by blast
  obtain s' where "yields k s1 = Some s'" "runnable s' (rotate k (rotate1 cs))" using Suc.IH [OF s1(2)] by blast
  then show ?case using s1(1) by (simp add: rotate1_rotate_swap)
qed simp

subsection \<open>Leaving\<close>

lemma unqueue_ok:
  assumes q: "queues_ok s rs ws zs"
  shows "\<exists>s'. unqueue t s = Some s' \<and> queues_ok s' (remove1 t rs) (remove1 t ws) zs \<and> kept s s'"
proof -
  obtain rq th1 where a: "rm_thread_task (ready_queue s) t (threads s) = Some (rq, th1)" "tq th1 rq (remove1 t rs)"
    "relinked (set rs) (threads s) th1" using rm_ok [OF queues_tq(1) [OF q]] by blast
  have w: "tq th1 (wait_queue s) ws"
    by (rule tq_relinked [OF queues_tq(2) [OF q] a(3)]) (use queues_tq(4) [OF q] in auto)
  obtain wq th2 where b: "rm_thread_task (wait_queue s) t th1 = Some (wq, th2)" "tq th2 wq (remove1 t ws)"
    "relinked (set ws) th1 th2" using rm_ok [OF w] by blast
  have r: "relinked (set rs \<union> set ws) (threads s) th2"
  proof -
    have "th2 x = (threads s x)\<lparr>th_next := th_next (th2 x)\<rparr>" for x
    proof -
      obtain u v where "th1 x = (threads s x)\<lparr>th_next := u\<rparr>" "th2 x = (th1 x)\<lparr>th_next := v\<rparr>"
        using a(3) b(3) unfolding relinked_def by blast
      then show ?thesis by simp
    qed
    moreover have "\<forall>x. x \<notin> set rs \<union> set ws \<longrightarrow> th2 x = threads s x"
      using a(3) b(3) by (simp add: relinked_def)
    ultimately show ?thesis unfolding relinked_def by blast
  qed
  have "tq th2 rq (remove1 t rs)"
    by (rule tq_relinked [OF a(2) b(3)]) (use queues_tq(4) [OF q] set_remove1_subset [of t rs] in fastforce)
  moreover have "tq th2 (zombie_queue s) zs"
    by (rule tq_relinked [OF queues_tq(3) [OF q] r]) (use queues_tq(4) [OF q] in auto)
  moreover have "distinct (remove1 t rs @ remove1 t ws @ zs)" "NULL \<notin> set (remove1 t rs @ remove1 t ws @ zs)"
    using q by (auto simp: queues_ok_def dest: notin_set_remove1 in_set_remove1 [THEN iffD1, rotated])
  ultimately have "queues_ok (s\<lparr>ready_queue := rq, wait_queue := wq, threads := th2\<rparr>) (remove1 t rs) (remove1 t ws) zs"
    using q b(2) relinked_sel(1) [OF r] by (auto simp: queues_ok_def dest: notin_set_remove1)
  then show ?thesis using a(1) b(1) r by (auto simp: unqueue_def kept_def dest: relinked_UNIV)
qed

text \<open>The thread that exits becomes a zombie and the first ready one runs; with none ready it runs on.\<close>

lemma exit_prepares:
  assumes inv: "sched_inv s rs ws zs"
  shows "\<exists>s1. exit_thread s = schedule s1 \<and> sched_inv s1 (remove1 (get_current s) rs) ws zs \<and>
     get_current s1 = get_current s \<and> th_state (threads s1 (get_current s)) = TASK_EXITED \<and> same_threads s s1"
proof -
  let ?c = "get_current s"
  have q: "queues_ok s rs ws zs" "?c \<noteq> NULL" "?c \<notin> set ws" "?c \<notin> set zs" using inv by (auto simp: sched_inv_def)
  obtain s1 where s1: "unqueue ?c s = Some s1" "queues_ok s1 (remove1 ?c rs) (remove1 ?c ws) zs" "kept s s1"
    using unqueue_ok [OF q(1)] by blast
  have w: "remove1 ?c ws = ws" using q(3) by (simp add: remove1_idem)
  have "distinct rs" using queues_tq(4) [OF q(1)] by simp
  then have n: "?c \<notin> set (remove1 ?c rs @ ws @ zs)" using q(3,4) by simp
  let ?s2 = "set_state ?c TASK_EXITED s1"
  have "queues_ok ?s2 (remove1 ?c rs) ws zs" using queues_set_state [OF s1(2)] n w by simp
  moreover have c2: "get_current ?s2 = ?c" using kept_current [OF s1(3)] by (simp add: set_state_def get_current_def)
  ultimately have "sched_inv ?s2 (remove1 ?c rs) ws zs" using q(2-4) by (simp add: sched_inv_def set_state_def)
  moreover have "exit_thread s = schedule ?s2" using q(2) s1(1) by (simp add: exit_thread_def Let_def)
  moreover have "same_threads s ?s2" using kept_same_threads [OF s1(3)] by (simp add: same_threads_def set_state_def)
  ultimately show ?thesis using c2 by (auto simp: set_state_def)
qed

lemma exit_ok:
  assumes inv: "sched_inv s rs ws zs" and rs: "remove1 (get_current s) rs = n # ns"
  shows "\<exists>s'. exit_thread s = Some s' \<and> get_current s' = n \<and> th_state (threads s' n) = TASK_RUNNING \<and>
     sched_inv s' ns ws (zs @ [get_current s]) \<and> same_threads s s'"
proof -
  let ?c = "get_current s"
  obtain s1 where s1: "exit_thread s = schedule s1" "sched_inv s1 (n # ns) ws zs" "get_current s1 = ?c"
    "th_state (threads s1 ?c) = TASK_EXITED" "same_threads s s1" using exit_prepares [OF inv] rs by auto
  have "distinct rs" using inv by (auto simp: sched_inv_def queues_ok_def)
  then have "?c \<notin> set (remove1 ?c rs)" by simp
  then have "n \<noteq> get_current s1" using rs s1(3) by auto
  moreover have "park_lists (th_state (threads s1 (get_current s1))) (get_current s1) ns ws zs = (ns, ws, zs @ [?c])"
    using s1(3,4) by (simp add: park_lists_def task_states)
  ultimately obtain s' where "schedule s1 = Some s'" "get_current s' = n" "sched_inv s' ns ws (zs @ [?c])"
    "th_state (threads s' n) = TASK_RUNNING" "same_threads s1 s'" using schedule_switch [OF s1(2)] by blast
  then show ?thesis using s1(1,5) same_threads_trans by auto
qed

lemma exit_alone:
  assumes inv: "sched_inv s rs ws zs" and rs: "remove1 (get_current s) rs = []"
  shows "\<exists>s'. exit_thread s = Some s' \<and> get_current s' = get_current s \<and>
     th_state (threads s' (get_current s)) = TASK_EXITED \<and> sched_inv s' [] ws zs \<and> same_threads s s'"
proof -
  obtain s1 where s1: "exit_thread s = schedule s1" "sched_inv s1 [] ws zs" "get_current s1 = get_current s"
    "th_state (threads s1 (get_current s)) = TASK_EXITED" "same_threads s s1" using exit_prepares [OF inv] rs by auto
  moreover have "same_threads s1 (irqs_on (irqs_off s1))" by (simp add: same_threads_def irqs_off_def irqs_on_def same_fs_refl)
  ultimately show ?thesis using schedule_stay [OF s1(2)] same_threads_trans by auto
qed

lemma get_by_id_eq:
  assumes "queues_ok s rs ws zs"
  shows "get_thread_task_by_id pid s = Some (find (\<lambda>x. th_id (threads s x) = pid) (rs @ ws))"
proof -
  let ?P = "\<lambda>x. th_id (threads s x) = pid"
  have "find_thread pid (ready_queue s) (threads s) = Some (find ?P rs)"
    "find_thread pid (wait_queue s) (threads s) = Some (find ?P ws)"
    using assms by (auto simp: queues_ok_def tq_def intro!: find_ok)
  moreover have "find ?P (xs @ ys) = (case find ?P xs of None \<Rightarrow> find ?P ys | Some x \<Rightarrow> Some x)" for xs ys
    by (induction xs) auto
  ultimately show ?thesis by (auto simp: get_thread_task_by_id_def split: option.splits)
qed

text \<open>\<open>_kill\<close> takes a waiting thread off its queue and makes it a zombie; it does not find the running one.\<close>

lemma kill_other:
  assumes inv: "sched_inv s rs ws zs" and t: "find (\<lambda>x. th_id (threads s x) = pid) (rs @ ws) = Some t"
    and nc: "t \<noteq> get_current s"
  shows "\<exists>s'. kill_thread pid s = Some (0, s') \<and> sched_inv s' (remove1 t rs) (remove1 t ws) (zs @ [t]) \<and>
     get_current s' = get_current s \<and> th_state (threads s' t) = TASK_EXITED \<and> same_threads s s'"
proof -
  have q: "queues_ok s rs ws zs" "get_current s \<noteq> NULL" "get_current s \<notin> set ws" "get_current s \<notin> set zs"
    using inv by (auto simp: sched_inv_def)
  have mem: "t \<in> set (rs @ ws)" using t unfolding find_Some_iff by (metis nth_mem)
  have d: "distinct (rs @ ws @ zs)" "NULL \<notin> set (rs @ ws @ zs)" using q(1) by (auto simp: queues_ok_def)
  obtain s1 where s1: "unqueue t s = Some s1" "queues_ok s1 (remove1 t rs) (remove1 t ws) zs" "kept s s1"
    using unqueue_ok [OF q(1)] by blast
  have n: "t \<notin> set (remove1 t rs @ remove1 t ws @ zs)" "t \<noteq> NULL" using d mem by auto
  let ?s2 = "set_state t TASK_EXITED s1"
  have q2: "queues_ok ?s2 (remove1 t rs) (remove1 t ws) zs" using queues_set_state [OF s1(2) n(1)] .
  obtain s3 where s3: "add_zombie t ?s2 = Some s3" "queues_ok s3 (remove1 t rs) (remove1 t ws) (zs @ [t])" "kept ?s2 s3"
    using add_zombie_queues [OF q2 n] by (auto simp: set_state_def)
  have c: "get_current ?s2 = get_current s" "get_current s3 = get_current s"
    using kept_current [OF s1(3)] kept_current [OF s3(3)] by (simp_all add: set_state_def get_current_def)
  have "kill_thread pid s = Some (0, s3)"
    using get_by_id_eq [OF q(1)] t s1(1) s3(1) c(1) nc by (simp add: kill_thread_def Let_def)
  moreover have st: "th_state (threads s3 x) = (if x = t then TASK_EXITED else th_state (threads s x))" for x
    using s1(3) s3(3) relinked_sel(1) [of UNIV "threads s" "threads s1"]
      relinked_sel(1) [of UNIV "threads ?s2" "threads s3"] by (auto simp: kept_def set_state_def)
  moreover have "sched_inv s3 (remove1 t rs) (remove1 t ws) (zs @ [t])"
  proof -
    have "get_current s \<notin> set rs" if "get_current s \<notin> set (remove1 t rs)" using that nc by (metis in_set_remove1)
    then show ?thesis using s3(2) c(2) q(2-4) nc st inv
      by (auto simp: sched_inv_def dest: notin_set_remove1)
  qed
  moreover have "same_threads s s3"
    using kept_same_threads [OF s1(3)] kept_same_threads [OF s3(3)] by (auto simp: same_threads_def set_state_def)
  ultimately show ?thesis using c(2) by auto
qed

lemma kill_unknown:
  assumes "sched_inv s rs ws zs" "\<forall>x \<in> set (rs @ ws). th_id (threads s x) \<noteq> pid"
  shows "kill_thread pid s = Some (-1, s)"
proof -
  have "find (\<lambda>x. th_id (threads s x) = pid) (rs @ ws) = None" using assms(2) by (auto simp: find_None_iff)
  then show ?thesis using assms(1) get_by_id_eq [of s rs ws zs pid]
    by (simp add: kill_thread_def sched_inv_def)
qed

subsection \<open>Zombies\<close>

text \<open>The blocks a zombie's record points to: its stacks and itself.\<close>

definition zombie_blocks :: "kern \<Rightarrow> addr list \<Rightarrow> region list \<Rightarrow> bool" where
  "zombie_blocks s zs R \<longleftrightarrow>
     map fst R = concat (map (\<lambda>z. [kernel_stack (threads s z), user_stack (threads s z), z]) zs)"

text \<open>Freeing several blocks, one after the other.\<close>

primrec free_all :: "layout \<Rightarrow> addr list \<Rightarrow> heap \<Rightarrow> heap option" where
  "free_all L [] h = Some h"
| "free_all L (p # ps) h = (case free L p h of None \<Rightarrow> None | Some h' \<Rightarrow> free_all L ps h')"

lemma fs_free_head:
  assumes "heap_inv L M (fs_heap f) (r # R)"
  shows "\<exists>h. fs_free L (fst r) f = Some (f\<lparr>fs_heap := h\<rparr>) \<and> free L (fst r) (fs_heap f) = Some h \<and> heap_inv L M h R"
  using heap_inv_free [OF assms, of 0] by (auto simp: fs_free_def drop_nth_def)

lemma kill_zombies_ok:
  assumes "queues_ok s rs ws zs" "zombie_blocks s zs Z" "heap_inv L M (fs_heap (k_fs s)) (Z @ R)"
  shows "\<exists>s' h. kill_zombies L s = Some s' \<and> queues_ok s' rs ws [] \<and> free_all L (map fst Z) (fs_heap (k_fs s)) = Some h \<and>
     k_fs s' = (k_fs s)\<lparr>fs_heap := h\<rparr> \<and> heap_inv L M h R \<and> threads s' = threads s"
  using assms
proof (induction zs arbitrary: s Z)
  case Nil
  then show ?case
    by (subst kill_zombies.simps) (auto simp: pop_thread_task_def zombie_blocks_def queues_ok_def tq_def)
next
  case (Cons z zs)
  obtain l1 l2 l3 Z' where Z: "Z = (kernel_stack (threads s z), l1) # (user_stack (threads s z), l2) # (z, l3) # Z'"
    "zombie_blocks s zs Z'" using Cons.prems(2) by (auto simp: zombie_blocks_def map_eq_Cons_conv)
  have zq: "zombie_queue s = Some z" "tq (threads s) (th_next (threads s z)) zs"
    using Cons.prems(1) by (auto simp: queues_ok_def tq_def)
  let ?s = "s\<lparr>zombie_queue := th_next (threads s z)\<rparr>" and ?f = "k_fs s"
  have "heap_inv L M (fs_heap ?f) ((kernel_stack (threads s z), l1) # (user_stack (threads s z), l2) # (z, l3) # Z' @ R)"
    using Cons.prems(3) Z(1) by simp
  from fs_free_head [OF this] obtain h1 where f1: "fs_free L (kernel_stack (threads s z)) ?f = Some (?f\<lparr>fs_heap := h1\<rparr>)"
    "free L (kernel_stack (threads s z)) (fs_heap ?f) = Some h1"
    "heap_inv L M (fs_heap (?f\<lparr>fs_heap := h1\<rparr>)) ((user_stack (threads s z), l2) # (z, l3) # Z' @ R)" by auto
  from fs_free_head [OF f1(3)] obtain h2 where f2: "fs_free L (user_stack (threads s z)) (?f\<lparr>fs_heap := h1\<rparr>) = Some (?f\<lparr>fs_heap := h2\<rparr>)"
    "free L (user_stack (threads s z)) h1 = Some h2" "heap_inv L M (fs_heap (?f\<lparr>fs_heap := h2\<rparr>)) ((z, l3) # Z' @ R)" by auto
  from fs_free_head [OF f2(3)] obtain h3 where f3: "fs_free L z (?f\<lparr>fs_heap := h2\<rparr>) = Some (?f\<lparr>fs_heap := h3\<rparr>)"
    "free L z h2 = Some h3" "heap_inv L M h3 (Z' @ R)" by auto
  let ?s1 = "?s\<lparr>k_fs := ?f\<lparr>fs_heap := h3\<rparr>\<rparr>"
  have b: "bury L z ?s = Some ?s1" using f1(1) f2(1) f3(1) by (simp add: bury_def)
  have "queues_ok ?s1 rs ws zs" using Cons.prems(1) zq by (auto simp: queues_ok_def)
  moreover have "zombie_blocks ?s1 zs Z'" using Z(2) by (simp add: zombie_blocks_def)
  ultimately obtain s' h where "kill_zombies L ?s1 = Some s'" "queues_ok s' rs ws []" "free_all L (map fst Z') h3 = Some h"
    "k_fs s' = ?f\<lparr>fs_heap := h\<rparr>" "heap_inv L M h R" "threads s' = threads s"
    using Cons.IH [of ?s1 Z'] f3(3) by auto
  then show ?case using zq(1) b f1(2) f2(2) f3(2) Z(1)
    by (subst kill_zombies.simps) (simp add: pop_thread_task_def)
qed

end
