(* ===== verification/Bootload.thy ===== *)
theory Bootload
  imports Cpio
begin

section \<open>The boot loader (bootloader/src/load.c)\<close>

text \<open>
  The kernel arrives over the UART: the characters \<open>BOOT\<close>, its size and checksum as four bytes each, least
  significant first, and the image, which is stored at 0x80000. The boot loader's UART functions are those
  of src/uart.c; what it prints is written to the line. The result says whether it jumps to the kernel.
\<close>

definition KERNEL_ADDR :: addr where "KERNEL_ADDR = 0x80000"

text \<open>From here on the addresses are those of device registers.\<close>

definition MMIO_BASE :: addr where "MMIO_BASE = 0x3F000000"

definition boot_magic :: "byte list" where "boot_magic = [0x42, 0x4F, 0x4F, 0x54]"

text \<open>The bytes up to the first that differs; whether all agreed.\<close>

fun read_magic :: "byte list \<Rightarrow> uart \<Rightarrow> (bool \<times> uart) option" where
  "read_magic [] s = Some (True, s)"
| "read_magic (c # cs) s =
     (case uart_getc s of
        None \<Rightarrow> None
      | Some (ch, s1) \<Rightarrow> if ch \<noteq> c then Some (False, s1) else read_magic cs s1)"

text \<open>\<open>n\<close> bytes of a word are left, \<open>i\<close> have been read.\<close>

primrec read_word :: "nat \<Rightarrow> nat \<Rightarrow> u32 \<Rightarrow> uart \<Rightarrow> (u32 \<times> uart) option" where
  "read_word 0 i w s = Some (w, s)"
| "read_word (Suc n) i w s =
     (case uart_getc s of
        None \<Rightarrow> None
      | Some (ch, s1) \<Rightarrow> read_word n (i + 1) (w OR push_bit (i * 8) (ucast ch)) s1)"

primrec sum_image :: "nat \<Rightarrow> nat \<Rightarrow> u32 \<Rightarrow> mem \<Rightarrow> u32" where
  "sum_image 0 i acc m = acc"
| "sum_image (Suc n) i acc m = sum_image n (i + 1) (acc + ucast (m (KERNEL_ADDR + i))) m"

text \<open>
  Messages: \<open>msgs\<close> are the texts the program prints, in the order of the code. Both loops over the image count with an \<open>int\<close>, which
  overflows if the size is \<open>2 ^ 31\<close> or more: \<open>None\<close>. The shift of a byte to the top of an \<open>int\<close> is taken as the compiler does it,
  in two's complement.
\<close>

definition load_kernel :: "(nat \<Rightarrow> byte list) \<Rightarrow> uart \<Rightarrow> (bool \<times> uart) option" where
  "load_kernel msgs s = do {
     (ok, s1) \<leftarrow> read_magic boot_magic s;
     if \<not> ok then Some (False, uart_puts_lit (msgs 0) s1)
     else do {
       (kernel_size, s2) \<leftarrow> read_word 4 0 0 (uart_puts_lit (msgs 1) s1);
       let s3 = uart_puts_lit crlf (uart_hex kernel_size (uart_puts_lit (msgs 2) s2));
       (chksum, s4) \<leftarrow> read_word 4 0 0 s3;
       let s5 = uart_puts_lit crlf (uart_hex chksum (uart_puts_lit (msgs 3) s4));
       if 2 ^ 31 \<le> unat kernel_size then None
       else do {
         (end, s6) \<leftarrow> getn_loop (unat kernel_size) KERNEL_ADDR s5;
         let s7 = uart_puts_lit (msgs 4) s6;
         let total = sum_image (unat kernel_size) 0 0 (u_mem s7);
         Some (if total = chksum then (True, uart_puts_lit (msgs 5) s7) else (False, uart_puts_lit (msgs 6) s7))
       }
     }
   }"

subsection \<open>What it accepts\<close>

definition le_bytes :: "u32 \<Rightarrow> byte list" where
  "le_bytes w = [ucast w, ucast (drop_bit 8 w), ucast (drop_bit 16 w), ucast (drop_bit 24 w)]"

definition checksum :: "byte list \<Rightarrow> u32" where
  "checksum bs = (\<Sum>b\<leftarrow>bs. ucast b)"

lemma read_magic_ok: "line_in s = cs @ rest \<Longrightarrow> read_magic cs s = Some (True, s\<lparr>line_in := rest\<rparr>)"
  by (induction cs arbitrary: s) (auto simp: getc_eq)

lemma read_word_le:
  assumes "line_in s = le_bytes w @ rest"
  shows "read_word 4 0 0 s = Some (w, s\<lparr>line_in := rest\<rparr>)"
proof -
  have e: "read_word 4 i a s = read_word (Suc (Suc (Suc (Suc 0)))) i a s" for i a s by (simp add: eval_nat_numeral)
  show ?thesis using assms word_of_bytes [of w] unfolding e by (simp add: le_bytes_def getc_eq or.assoc)
qed

lemma puts_lit_line: "line_in (uart_puts_lit m s) = line_in s" "u_mem (uart_puts_lit m s) = u_mem s"
  by (simp_all add: puts_lit_eq)

lemma hex_line: "line_in (uart_hex d s) = line_in s" "u_mem (uart_hex d s) = u_mem s"
  using hex_eq [of d s] by auto

lemma sum_image_eq:
  "(\<And>k. k < length bs \<Longrightarrow> m (KERNEL_ADDR + i + k) = bs ! k) \<Longrightarrow> sum_image (length bs) i a m = a + checksum bs"
proof (induction bs arbitrary: i a)
  case Nil
  then show ?case by (simp add: checksum_def)
next
  case (Cons b bs)
  have "m (KERNEL_ADDR + i) = b" using Cons.prems [of 0] by simp
  moreover have "m (KERNEL_ADDR + (i + 1) + k) = bs ! k" if "k < length bs" for k
    using Cons.prems [of "Suc k"] that by simp
  ultimately show ?case using Cons.IH [of "i + 1"] by (simp add: checksum_def add.assoc)
qed

text \<open>The header: the magic number, the size and the checksum, and what is printed about them.\<close>

lemma load_header:
  assumes l: "line_in s = boot_magic @ le_bytes n @ le_bytes chk @ rest"
  shows "\<exists>s5. line_in s5 = rest \<and> u_mem s5 = u_mem s \<and> load_kernel msgs s =
     (if 2 ^ 31 \<le> unat n then None else do {
        (end, s6) \<leftarrow> getn_loop (unat n) KERNEL_ADDR s5;
        let s7 = uart_puts_lit (msgs 4) s6;
        let total = sum_image (unat n) 0 0 (u_mem s7);
        Some (if total = chk then (True, uart_puts_lit (msgs 5) s7) else (False, uart_puts_lit (msgs 6) s7)) })"
proof -
  define s1 where "s1 = s\<lparr>line_in := le_bytes n @ le_bytes chk @ rest\<rparr>"
  have m: "read_magic boot_magic s = Some (True, s1)" using read_magic_ok [OF l] by (simp add: s1_def)
  define s2 where "s2 = (uart_puts_lit (msgs 1) s1)\<lparr>line_in := le_bytes chk @ rest\<rparr>"
  have w1: "read_word 4 0 0 (uart_puts_lit (msgs 1) s1) = Some (n, s2)"
    unfolding s2_def by (rule read_word_le) (simp add: puts_lit_line s1_def)
  define s3 where "s3 = uart_puts_lit crlf (uart_hex n (uart_puts_lit (msgs 2) s2))"
  define s4 where "s4 = s3\<lparr>line_in := rest\<rparr>"
  have w2: "read_word 4 0 0 s3 = Some (chk, s4)"
    unfolding s4_def by (rule read_word_le) (simp add: puts_lit_line hex_line s3_def s2_def)
  define s5 where "s5 = uart_puts_lit crlf (uart_hex chk (uart_puts_lit (msgs 3) s4))"
  have "line_in s5 = rest" "u_mem s5 = u_mem s"
    by (simp_all add: s5_def s4_def s3_def s2_def s1_def puts_lit_line hex_line)
  then show ?thesis
    by - (rule exI [of _ s5], simp add: load_kernel_def m w1 w2 Let_def s3_def [symmetric] s5_def [symmetric] del: One_nat_def)
qed

text \<open>An image as the sender frames it is stored and started exactly when its checksum is right.\<close>

lemma load_kernel_eq:
  assumes "line_in s = boot_magic @ le_bytes (of_nat (length img)) @ le_bytes chk @ img @ rest"
    and room: "KERNEL_ADDR + length img \<le> MMIO_BASE"
  shows "\<exists>s'. load_kernel msgs s = Some (chk = checksum img, s') \<and> line_in s' = rest \<and>
     mem_bytes (u_mem s') KERNEL_ADDR (length img) = img \<and>
     (\<forall>a. a < KERNEL_ADDR \<or> KERNEL_ADDR + length img \<le> a \<longrightarrow> u_mem s' a = u_mem s a)"
proof -
  let ?n = "of_nat (length img) :: u32"
  have len: "length img < 2 ^ 31" using room by (simp add: KERNEL_ADDR_def MMIO_BASE_def)
  then have n: "unat ?n = length img" by (simp add: unat_of_nat)
  from load_header [OF assms(1)] obtain s5 where s5: "line_in s5 = img @ rest" and mem: "u_mem s5 = u_mem s" and
    k: "load_kernel msgs s = (if 2 ^ 31 \<le> unat ?n then None else do {
        (end, s6) \<leftarrow> getn_loop (unat ?n) KERNEL_ADDR s5;
        let s7 = uart_puts_lit (msgs 4) s6;
        let total = sum_image (unat ?n) 0 0 (u_mem s7);
        Some (if total = chk then (True, uart_puts_lit (msgs 5) s7) else (False, uart_puts_lit (msgs 6) s7)) })" by blast
  define s6 where "s6 = s5\<lparr>line_in := rest, u_mem := put_bytes img KERNEL_ADDR (u_mem s5)\<rparr>"
  have g: "getn_loop (unat ?n) KERNEL_ADDR s5 = Some (KERNEL_ADDR + length img, s6)"
    unfolding s6_def n by (rule getn_loop_eq) (simp add: s5)
  let ?s7 = "uart_puts_lit (msgs 4) s6"
  have at: "u_mem ?s7 (KERNEL_ADDR + k) = img ! k" if "k < length img" for k
    using that by (simp add: puts_lit_line s6_def put_bytes_at)
  have "sum_image (unat ?n) 0 0 (u_mem ?s7) = checksum img"
    unfolding n by (subst sum_image_eq) (use at in simp_all)
  then have "load_kernel msgs s =
      Some (if checksum img = chk then (True, uart_puts_lit (msgs 5) ?s7) else (False, uart_puts_lit (msgs 6) ?s7))"
    using len by (simp add: k g [unfolded n] Let_def n)
  moreover have "mem_bytes (u_mem ?s7) KERNEL_ADDR (length img) = img"
    by (rule nth_equalityI) (use at in simp_all)
  moreover have "u_mem ?s7 a = u_mem s a" if "a < KERNEL_ADDR \<or> KERNEL_ADDR + length img \<le> a" for a
    using that mem by (auto simp: puts_lit_line s6_def put_bytes_at)
  moreover have "line_in ?s7 = rest" by (simp add: puts_lit_line s6_def)
  ultimately show ?thesis by (auto simp: puts_lit_line)
qed

end
