(* ===== verification/Devicetree.thy ===== *)
theory Devicetree
  imports Cpio
begin

section \<open>The flattened device tree (src/devicetree.c)\<close>

text \<open>
  The blob is a header and a stream of big-endian tokens. \<open>fdt_parse_node\<close> walks the stream and calls a
  function for each node start, node end and property; here the function transforms a state and says
  whether the walk stops. \<open>tokens_at\<close> is the format as a relation between memory and a list of tokens,
  and the walk is a fold over that list.
\<close>

record fdt =
  g_fdt_base :: addr
  g_fdt_structure :: addr
  g_fdt_strings :: addr
  fdt_total_size :: u32
  g_fdt_strings_size :: u32
  g_fdt_structure_size :: u32

definition be_u32 :: "mem \<Rightarrow> addr \<Rightarrow> u32" where
  "be_u32 m p = be2le_u32 (get_u32 m p)"

text \<open>The total size is kept as it is in the blob, big-endian.\<close>

definition fdt_init :: "mem \<Rightarrow> addr \<Rightarrow> fdt \<Rightarrow> int \<times> fdt" where
  "fdt_init m base s =
     (if base = NULL then (0, s)
      else
        let s1 = s\<lparr>g_fdt_base := base\<rparr> in
        if be_u32 m base \<noteq> 0xd00dfeed then (-1, s1)
        else (0, s1\<lparr>fdt_total_size := get_u32 m (base + 4),
                    g_fdt_structure := base + unat (be_u32 m (base + 8)),
                    g_fdt_strings := base + unat (be_u32 m (base + 12)),
                    g_fdt_strings_size := be_u32 m (base + 32),
                    g_fdt_structure_size := be_u32 m (base + 36)\<rparr>))"

datatype fdt_event =
    Ev_begin addr
  | Ev_end
  | Ev_prop addr addr u32  \<comment> \<open>name, data, size\<close>

text \<open>\<open>callback\<close> is \<open>None\<close> where the code passes \<open>NULL\<close>.\<close>

definition call_back :: "(fdt_event \<Rightarrow> 's \<Rightarrow> bool \<times> 's) option \<Rightarrow> fdt_event \<Rightarrow> 's \<Rightarrow> bool \<times> 's" where
  "call_back callback ev s = (case callback of None \<Rightarrow> (False, s) | Some f \<Rightarrow> f ev s)"

partial_function (option) fdt_parse_node ::
    "mem \<Rightarrow> addr \<Rightarrow> (fdt_event \<Rightarrow> 's \<Rightarrow> bool \<times> 's) option \<Rightarrow> addr \<Rightarrow> 's \<Rightarrow> (int \<times> addr \<times> 's) option" where
  "fdt_parse_node m strings callback ptr s =
     (let token = be_u32 m ptr; p = ptr + 4 in
      if token = 0x1 then
        (case strlen m p of
           None \<Rightarrow> None
         | Some n \<Rightarrow>
             (let p' = p + unat (align (n + 1) 4) in
              case call_back callback (Ev_begin p) s of
                (stop, s') \<Rightarrow> if stop then Some (-1, p', s') else fdt_parse_node m strings callback p' s'))
      else if token = 0x2 then
        (case call_back callback Ev_end s of
           (stop, s') \<Rightarrow> if stop then Some (-1, p, s') else fdt_parse_node m strings callback p s')
      else if token = 0x3 then
        (let len = be_u32 m p; nameoff = be_u32 m (p + 4); p' = p + 8 + unat (align len 4) in
         case call_back callback (Ev_prop (strings + unat nameoff) (p + 8) len) s of
           (stop, s') \<Rightarrow> if stop then Some (-1, p', s') else fdt_parse_node m strings callback p' s')
      else if token = 0x4 then fdt_parse_node m strings callback p s
      else if token = 0x9 then Some (0, p, s)
      else Some (-1, p, s))"

text \<open>The bitwise or of two truth values.\<close>

definition fdt_traverse :: "mem \<Rightarrow> fdt \<Rightarrow> (fdt_event \<Rightarrow> 's \<Rightarrow> bool \<times> 's) option \<Rightarrow> 's \<Rightarrow> (int \<times> 's) option" where
  "fdt_traverse m d callback s =
     (if g_fdt_base d = NULL \<or> g_fdt_structure d = NULL then Some (-1, s)
      else map_option (\<lambda>(r, p, s'). (r, s')) (fdt_parse_node m (g_fdt_strings d) callback (g_fdt_structure d) s))"

text \<open>\<open>strcmp\<close> of a string in memory with a literal is 0.\<close>

fun str_is :: "mem \<Rightarrow> addr \<Rightarrow> byte list \<Rightarrow> bool" where
  "str_is m p [] \<longleftrightarrow> m p = 0"
| "str_is m p (c # cs) \<longleftrightarrow> m p = c \<and> str_is m (p + 1) cs"

definition initrd_start :: "byte list" where
  "initrd_start = [0x6C, 0x69, 0x6E, 0x75, 0x78, 0x2C, 0x69, 0x6E, 0x69, 0x74, 0x72, 0x64, 0x2D, 0x73, 0x74, 0x61, 0x72, 0x74]"

definition initrd_end :: "byte list" where
  "initrd_end = [0x6C, 0x69, 0x6E, 0x75, 0x78, 0x2C, 0x69, 0x6E, 0x69, 0x74, 0x72, 0x64, 0x2D, 0x65, 0x6E, 0x64]"

text \<open>
  \<open>initramfs_callback\<close> on the pair \<open>cpio_addr\<close>, \<open>cpio_end\<close>. The name and data of an event that has none are
  \<open>NULL\<close>, and it looks there.
\<close>

definition ev_name :: "fdt_event \<Rightarrow> addr" where
  "ev_name ev = (case ev of Ev_begin p \<Rightarrow> p | Ev_end \<Rightarrow> NULL | Ev_prop p d n \<Rightarrow> p)"

definition ev_data :: "fdt_event \<Rightarrow> addr" where
  "ev_data ev = (case ev of Ev_begin p \<Rightarrow> NULL | Ev_end \<Rightarrow> NULL | Ev_prop p d n \<Rightarrow> d)"

definition initramfs_callback :: "mem \<Rightarrow> fdt_event \<Rightarrow> u32 \<times> u32 \<Rightarrow> bool \<times> (u32 \<times> u32)" where
  "initramfs_callback m ev ae =
     (if str_is m (ev_name ev) initrd_start then (False, (be_u32 m (ev_data ev), snd ae))
      else if str_is m (ev_name ev) initrd_end then (False, (fst ae, be_u32 m (ev_data ev)))
      else (False, ae))"

subsection \<open>The format\<close>

datatype fdt_token =
    Begin_node "byte list"
  | End_node
  | Prop "byte list" "byte list"  \<comment> \<open>name and value\<close>
  | Nop

fun tokens_at :: "mem \<Rightarrow> addr \<Rightarrow> addr \<Rightarrow> fdt_token list \<Rightarrow> bool" where
  "tokens_at m strings p [] \<longleftrightarrow> be_u32 m p = 0x9"
| "tokens_at m strings p (Begin_node name # ts) \<longleftrightarrow>
     be_u32 m p = 0x1 \<and> cstr m (p + 4) name \<and> length name < 2 ^ 31 \<and>
     tokens_at m strings (p + 4 + pad4 (length name + 1)) ts"
| "tokens_at m strings p (End_node # ts) \<longleftrightarrow> be_u32 m p = 0x2 \<and> tokens_at m strings (p + 4) ts"
| "tokens_at m strings p (Prop name v # ts) \<longleftrightarrow>
     be_u32 m p = 0x3 \<and> be_u32 m (p + 4) = of_nat (length v) \<and> length v < 2 ^ 31 \<and>
     cstr m (strings + unat (be_u32 m (p + 8))) name \<and> mem_bytes m (p + 12) (length v) = v \<and>
     tokens_at m strings (p + 12 + pad4 (length v)) ts"
| "tokens_at m strings p (Nop # ts) \<longleftrightarrow> be_u32 m p = 0x4 \<and> tokens_at m strings (p + 4) ts"

text \<open>The events of a stream.\<close>

fun events :: "mem \<Rightarrow> addr \<Rightarrow> addr \<Rightarrow> fdt_token list \<Rightarrow> fdt_event list" where
  "events m strings p [] = []"
| "events m strings p (Begin_node name # ts) = Ev_begin (p + 4) # events m strings (p + 4 + pad4 (length name + 1)) ts"
| "events m strings p (End_node # ts) = Ev_end # events m strings (p + 4) ts"
| "events m strings p (Prop name v # ts) =
     Ev_prop (strings + unat (be_u32 m (p + 8))) (p + 12) (of_nat (length v)) #
       events m strings (p + 12 + pad4 (length v)) ts"
| "events m strings p (Nop # ts) = events m strings (p + 4) ts"

lemma str_is_cstr: "cstr m p s \<Longrightarrow> 0 \<notin> set t \<Longrightarrow> str_is m p t \<longleftrightarrow> s = t"
proof (induction t arbitrary: p s)
  case Nil
  then show ?case by (cases s) auto
next
  case (Cons c t)
  then show ?case by (cases s) auto
qed

text \<open>A callback that never stops the walk is folded over the events.\<close>

lemma parse_fold:
  assumes cb: "\<And>ev s. call_back (Some f) ev s = (False, g ev s)" and "tokens_at m strings p ts"
  shows "\<exists>q. fdt_parse_node m strings (Some f) p s = Some (0, q, fold g (events m strings p ts) s)"
  using assms(2)
proof (induction m strings p ts arbitrary: s rule: tokens_at.induct)
  case (1 m strings p)
  then show ?case by (subst fdt_parse_node.simps) (simp add: Let_def)
next
  case (2 m strings p name ts)
  let ?n = "of_nat (length name) :: u32"
  have c: "strlen m (p + 4) = Some ?n" using 2 strlen_loop_eq [of m "p + 4" name 0] by (simp add: strlen_def)
  have "unat (?n + 1) = length name + 1"
  proof -
    have "?n + 1 = of_nat (length name + 1)" by simp
    then show ?thesis using 2 by (simp only: unat_of_nat) simp
  qed
  then have a: "unat (align (?n + 1) 4) = pad4 (length name + 1)" using align4 [of "?n + 1"] 2 by simp
  show ?case using 2 c a by (subst fdt_parse_node.simps) (simp add: Let_def cb)
next
  case (3 m strings p ts)
  then show ?case by (subst fdt_parse_node.simps) (simp add: Let_def cb)
next
  case (4 m strings p name v ts)
  let ?n = "of_nat (length v) :: u32"
  have "unat ?n = length v" using 4 by (simp add: unat_of_nat)
  then have a: "unat (align ?n 4) = pad4 (length v)" using align4 [of ?n] 4 by simp
  show ?case using 4 a
    by (subst fdt_parse_node.simps) (simp add: Let_def cb add.assoc)
next
  case (5 m strings p ts)
  then show ?case by (subst fdt_parse_node.simps) (simp add: Let_def)
qed

text \<open>
  The RAM disk's bounds: the values of the last properties of the two names, if \<open>NULL\<close> does not happen to
  hold one of them and no node is called like them.
\<close>

fun last_prop :: "byte list \<Rightarrow> fdt_token list \<Rightarrow> byte list option" where
  "last_prop name [] = None"
| "last_prop name (Prop n v # ts) =
     (case last_prop name ts of Some w \<Rightarrow> Some w | None \<Rightarrow> if n = name then Some v else None)"
| "last_prop name (t # ts) = last_prop name ts"

definition be_value :: "byte list \<Rightarrow> u32" where
  "be_value v = be2le_u32 (ucast (v ! 0) OR push_bit 8 (ucast (v ! 1)) OR push_bit 16 (ucast (v ! 2)) OR
     push_bit 24 (ucast (v ! 3)))"

lemma be_u32_value: "mem_bytes m p (length v) = v \<Longrightarrow> 4 \<le> length v \<Longrightarrow> be_u32 m p = be_value v"
proof -
  assume a: "mem_bytes m p (length v) = v" "4 \<le> length v"
  have "m (p + i) = v ! i" if "i < 4" for i using a that nth_mem_bytes [of i "length v" m p] by simp
  from this [of 0] this [of 1] this [of 2] this [of 3] show ?thesis by (simp add: be_u32_def get_u32_def be_value_def)
qed

definition plain_tokens :: "fdt_token list \<Rightarrow> bool" where
  "plain_tokens ts \<longleftrightarrow> (\<forall>name. Begin_node name \<in> set ts \<longrightarrow> name \<noteq> initrd_start \<and> name \<noteq> initrd_end) \<and>
     (\<forall>n v. Prop n v \<in> set ts \<longrightarrow> n \<in> {initrd_start, initrd_end} \<longrightarrow> 4 \<le> length v)"

lemma fold_initramfs:
  assumes "tokens_at m strings p ts" "plain_tokens ts" "\<not> str_is m NULL initrd_start" "\<not> str_is m NULL initrd_end"
  shows "fold (\<lambda>ev s. snd (initramfs_callback m ev s)) (events m strings p ts) (a, e) =
     (case last_prop initrd_start ts of None \<Rightarrow> a | Some v \<Rightarrow> be_value v,
      case last_prop initrd_end ts of None \<Rightarrow> e | Some v \<Rightarrow> be_value v)"
  using assms
proof (induction m strings p ts arbitrary: a e rule: tokens_at.induct)
  case (2 m strings p name ts)
  have nz: "0 \<notin> set initrd_start" "0 \<notin> set initrd_end" by (simp_all add: initrd_start_def initrd_end_def)
  have "\<not> str_is m (p + 4) initrd_start" "\<not> str_is m (p + 4) initrd_end"
    using 2 nz str_is_cstr by (auto simp: plain_tokens_def)
  moreover have "plain_tokens ts" using 2 by (auto simp: plain_tokens_def)
  ultimately show ?case using 2 by (simp add: initramfs_callback_def ev_name_def)
next
  case (3 m strings p ts)
  moreover have "plain_tokens ts" using 3 by (auto simp: plain_tokens_def)
  ultimately show ?case by (simp add: initramfs_callback_def ev_name_def)
next
  case (4 m strings p name v ts)
  have nz: "0 \<notin> set initrd_start" "0 \<notin> set initrd_end" by (simp_all add: initrd_start_def initrd_end_def)
  let ?q = "strings + unat (be_u32 m (p + 8))"
  have s: "str_is m ?q initrd_start \<longleftrightarrow> name = initrd_start" "str_is m ?q initrd_end \<longleftrightarrow> name = initrd_end"
    using 4 nz str_is_cstr by auto
  have d: "initrd_start \<noteq> initrd_end" by (simp add: initrd_start_def initrd_end_def)
  have v: "be_u32 m (p + 12) = be_value v" if "name \<in> {initrd_start, initrd_end}"
    using 4 that be_u32_value [of m "p + 12" v] by (auto simp: plain_tokens_def)
  have p: "plain_tokens ts" using 4 by (auto simp: plain_tokens_def)
  show ?case using 4 p s v d
    by (auto simp: initramfs_callback_def ev_name_def ev_data_def split: option.splits)
next
  case (5 m strings p ts)
  moreover have "plain_tokens ts" using 5 by (auto simp: plain_tokens_def)
  ultimately show ?case by simp
qed simp

lemma traverse_initramfs:
  assumes "tokens_at m (g_fdt_strings d) (g_fdt_structure d) ts" "plain_tokens ts"
    and "\<not> str_is m NULL initrd_start" "\<not> str_is m NULL initrd_end"
    and "g_fdt_base d \<noteq> NULL" "g_fdt_structure d \<noteq> NULL"
  shows "fdt_traverse m d (Some (initramfs_callback m)) (a, e) =
     Some (0, case last_prop initrd_start ts of None \<Rightarrow> a | Some v \<Rightarrow> be_value v,
              case last_prop initrd_end ts of None \<Rightarrow> e | Some v \<Rightarrow> be_value v)"
proof -
  have "call_back (Some (initramfs_callback m)) ev s = (False, snd (initramfs_callback m ev s))" for ev s
    by (simp add: call_back_def initramfs_callback_def)
  from parse_fold [of "initramfs_callback m" "\<lambda>ev s. snd (initramfs_callback m ev s)", OF this assms(1), of "(a, e)"] fold_initramfs [OF assms(1-4), of a e] show ?thesis
    using assms(5,6) by (auto simp: fdt_traverse_def)
qed

end
