(* ===== verification/Machine.thy ===== *)
theory Machine
  imports Board UartQueue SchedInv Bootload Devicetree
begin

section \<open>Concrete drivers and threads\<close>

text \<open>
  A UART whose rings are two pages of memory, a file system record around it, and a scheduler
  with three threads, as the witnesses use them.
\<close>

definition board_uart :: uart where
  "board_uart = \<lparr>u_mem = (\<lambda>_. 0), rx_buffer = 0x200000, tx_buffer = 0x201000,
     rx_buffer_head = 0, rx_buffer_tail = 0, tx_buffer_head = 0, tx_buffer_tail = 0,
     AUX_MU_IER = 0, ENABLE_IRQS_1 = 0, line_in = [], line_out = [], line_idle = 0\<rparr>"

lemma board_uart_ok: "uart_ok board_uart [] []"
  by (simp add: board_uart_def uart_ok_def rx_ring_def tx_ring_def rings_apart_def ring_def BUFFER_SIZE_def)

text \<open>The transmit ring with one free slot, its index wrapped round.\<close>

definition full_uart :: uart where
  "full_uart = board_uart\<lparr>tx_buffer_head := 4094\<rparr>"

lemma full_uart_ok: "uart_ok full_uart [] (replicate 4094 0)"
  unfolding full_uart_def board_uart_def uart_ok_def rx_ring_def tx_ring_def rings_apart_def ring_def BUFFER_SIZE_def
  by (auto simp: nth_replicate)

definition blank_fs :: fs where
  "blank_fs = \<lparr>fs_heap = board_heap, fs_uart = board_uart,
     vnodes = (\<lambda>_. \<lparr>v_mount = 0, v_ops = V_NULL, f_ops = F_NULL, internal = 0, v_parent = 0, parent_is_mount = False\<rparr>),
     files = (\<lambda>_. \<lparr>f_vnode = 0, f_pos = 0, f_fops = F_NULL, f_flags = 0\<rparr>),
     mounts = (\<lambda>_. \<lparr>m_root = 0, m_fs = 0\<rparr>), fstypes = (\<lambda>_. \<lparr>fs_name = [], setup_mount = M_NULL\<rparr>),
     fsnodes = (\<lambda>_. \<lparr>n_name = [], n_type = NODE_FILE, n_parent = 0, n_data = 0, n_size = 0, n_capacity = 0,
                    n_children = (\<lambda>_. 0), num_children = 0\<rparr>),
     rootfs = 0, filesystems = (\<lambda>_. 0), num_filesystems = 0, current = 0, cwd = (\<lambda>_. 0), fd_table = (\<lambda>_ _. 0),
     lfb = 0, fb_info = (0, 0, 0, 0)\<rparr>"

definition blank_thread :: ThreadTask where
  "blank_thread = \<lparr>cpu_ctx = \<lparr>x19_x28 = (\<lambda>_. 0), fp_reg = 0, lr_reg = 0, sp_reg = 0\<rparr>, th_id = 0, th_state = TASK_READY,
     th_counter = 10, th_priority = 10, preempt_count = 1, kernel_stack = 0, user_stack = 0, pending_sig = 0,
     sig_handlers = (\<lambda>_. 0), sig_frame = 0, th_next = None\<rparr>"

text \<open>Thread 1 runs, threads 2 and 3 are ready.\<close>

definition board_kern :: kern where
  "board_kern = \<lparr>k_fs = blank_fs\<lparr>current := 1\<rparr>,
     threads = (\<lambda>a. blank_thread\<lparr>th_id := of_nat a, th_state := (if a = 1 then TASK_RUNNING else TASK_READY),
                   th_next := (if a = 2 then Some 3 else None)\<rparr>),
     ready_queue = Some 2, wait_queue = None, zombie_queue = None, thread_cnt = 4,
     cpu = \<lparr>x19_x28 = (\<lambda>_. 0), fp_reg = 0, lr_reg = 0, sp_reg = 0\<rparr>, irq_el1 = True, timer_irq = True\<rparr>"

lemma board_sched_inv: "sched_inv board_kern [2, 3] [] []"
  by (simp add: board_kern_def sched_inv_def queues_ok_def tq_def get_current_def task_states blank_thread_def)

lemma board_runnable: "runnable board_kern [1, 2, 3]"
proof -
  have "get_current board_kern = 1" "th_state (threads board_kern 1) = TASK_RUNNING"
    by (simp_all add: board_kern_def get_current_def)
  then show ?thesis using board_sched_inv unfolding runnable_def
    by (intro exI [of _ 1] exI [of _ "[2, 3]"] exI [of _ "[]"]) simp
qed

text \<open>A memory that holds a list of bytes at an address, and zeros elsewhere.\<close>

definition mem_at :: "addr \<Rightarrow> byte list \<Rightarrow> mem" where
  "mem_at base bs a = (if base \<le> a \<and> a < base + length bs then bs ! (a - base) else 0)"

lemma mem_at_bytes:
  "k + n \<le> length bs \<Longrightarrow> mem_bytes (mem_at base bs) (base + k) n = take n (drop k bs)"
  by (rule nth_equalityI) (auto simp: mem_at_def)

text \<open>An archive with one file, \<open>a\<close>, that holds \<open>hi\<close>.\<close>

definition cpio_header :: "byte list \<Rightarrow> byte list \<Rightarrow> byte list" where
  "cpio_header filesize namesize =
     cpio_magic @ replicate 48 0x30 @ filesize @ replicate 32 0x30 @ namesize @ replicate 8 0x30"

definition small_archive :: "byte list" where
  "small_archive =
     cpio_header [0x30, 0x30, 0x30, 0x30, 0x30, 0x30, 0x30, 0x32] [0x30, 0x30, 0x30, 0x30, 0x30, 0x30, 0x30, 0x32] @ [0x61, 0] @
     [0x68, 0x69, 0, 0] @
     cpio_header (replicate 8 0x30) [0x30, 0x30, 0x30, 0x30, 0x30, 0x30, 0x30, 0x42] @ trailer @ [0, 0, 0, 0]"

lemma small_archive_at:
  assumes m: "\<And>k n. k + n \<le> 240 \<Longrightarrow> mem_bytes m (b + k) n = take n (drop k small_archive)"
  shows "archive m b [([0x61], [0x68, 0x69])]"
proof -
  have f: "take 6 (drop 0 small_archive) = cpio_magic" "take 2 (drop 110 small_archive) = [0x61, 0]"
    "take 2 (drop 112 small_archive) = [0x68, 0x69]" "take 6 (drop 116 small_archive) = cpio_magic"
    "take 11 (drop 226 small_archive) = trailer @ [0]" by code_simp+
  have v: "hex_value (take 8 (drop 54 small_archive)) = 2" "hex_value (take 8 (drop 94 small_archive)) = 2"
    "hex_value (take 8 (drop 170 small_archive)) = 0" "hex_value (take 8 (drop 210 small_archive)) = 11" by code_simp+
  have "mem_bytes m (b + 110) (Suc (Suc 0)) = [0x61, 0]"
    using m [of 110 2] f(2) by (simp add: numeral_2_eq_2)
  then have "header_at m b [0x61] 2"
    using m [of 0 6] m [of 94 8] m [of 54 8] f v by (simp add: header_at_def)
  moreover have "header_at m (b + 116) trailer 0"
  proof -
    have l: "length trailer = 10" "0 \<notin> set trailer" by (simp_all add: trailer_def)
    have e: "b + 116 + 94 = b + 210" "b + 116 + 54 = b + 170" "b + 116 + 110 = b + 226" by simp_all
    show ?thesis using m [of 116 6] m [of 210 8] m [of 170 8] m [of 226 11] f v l unfolding header_at_def e by simp
  qed
  moreover have "mem_bytes m (b + 112) 2 = [0x68, 0x69]" using m [of 112 2] f by simp
  ultimately have "header_at m b [0x61] (Suc (Suc 0))" "header_at m (b + 116) trailer 0"
    "mem_bytes m (b + 112) (Suc (Suc 0)) = [0x68, 0x69]"
    by (simp_all add: numeral_2_eq_2)
  then show ?thesis by (simp add: pad4_def trailer_def add.commute)
qed

lemma small_archive_length: "length small_archive = 240"
  by code_simp

lemma small_archive_ok: "archive (mem_at 0x10000 small_archive) 0x10000 [([0x61], [0x68, 0x69])]"
  by (rule small_archive_at, rule mem_at_bytes) (simp add: small_archive_length)

text \<open>A device tree with a node without a name that has the property \<open>linux,initrd-start\<close>.\<close>

definition small_strings :: "byte list" where "small_strings = initrd_start @ [0]"

definition small_tree :: "byte list" where
  "small_tree =
     [0, 0, 0, 1, 0, 0, 0, 0,
      0, 0, 0, 3, 0, 0, 0, 4, 0, 0, 0, 0, 8, 0, 0, 0,
      0, 0, 0, 2, 0, 0, 0, 9]"

definition small_fdt :: mem where
  "small_fdt a = (if a < 0x20000 then mem_at 0x10000 small_tree a else mem_at 0x20000 small_strings a)"

lemma small_fdt_ok: "tokens_at small_fdt 0x20000 0x10000 [Begin_node [], Prop initrd_start [8, 0, 0, 0], End_node]"
proof -
  have "0 \<notin> set initrd_start" by (simp add: initrd_start_def)
  then have n: "cstr small_fdt 0x20000 initrd_start"
    by (auto simp: cstr_def small_fdt_def mem_at_def small_strings_def nth_append)
  have m: "mem_bytes small_fdt (0x10000 + k) 4 = take 4 (drop k small_tree)" if "k \<le> 28" for k
  proof (rule nth_equalityI)
    have "length small_tree = 32" by (simp add: small_tree_def)
    then show "length (mem_bytes small_fdt (0x10000 + k) 4) = length (take 4 (drop k small_tree))"
      "\<And>i. i < length (mem_bytes small_fdt (0x10000 + k) 4) \<Longrightarrow>
         mem_bytes small_fdt (0x10000 + k) 4 ! i = take 4 (drop k small_tree) ! i"
      using that by (simp_all add: small_fdt_def mem_at_def)
  qed
  have w: "be_u32 small_fdt (0x10000 + k) = be_value (take 4 (drop k small_tree))" if "k \<le> 28" for k
  proof -
    have "length (take 4 (drop k small_tree)) = 4" using that by (simp add: small_tree_def)
    then show ?thesis using be_u32_value [of small_fdt "0x10000 + k" "take 4 (drop k small_tree)"] m [OF that] by simp
  qed
  have z: "be_value [0, 0, 0, 1] = 1" "be_value [0, 0, 0, 2] = 2" "be_value [0, 0, 0, 3] = 3"
    "be_value [0, 0, 0, 4] = 4" "be_value [0, 0, 0, 9] = 9" "be_value [0, 0, 0, 0] = 0" by code_simp+
  have b: "be_u32 small_fdt 0x10000 = 1" "be_u32 small_fdt 0x10008 = 3"
    "be_u32 small_fdt 0x1000C = 4" "be_u32 small_fdt 0x10010 = 0" "be_u32 small_fdt 0x10018 = 2"
    "be_u32 small_fdt 0x1001C = 9"
    using w [of 0] w [of 8] w [of 12] w [of 16] w [of 24] w [of 28] by (simp_all add: small_tree_def z)
  have v: "mem_bytes small_fdt 0x10014 4 = [8, 0, 0, 0]" using m [of 20] by (simp add: small_tree_def)
  have e: "small_fdt 0x10004 = 0" by (simp add: small_fdt_def mem_at_def small_tree_def)
  have l: "length [8, 0, 0, 0 :: byte] = 4" "pad4 (length ([] :: byte list) + 1) = 4" "pad4 4 = 4"
    by (simp_all add: pad4_def)
  show ?thesis
    unfolding tokens_at.simps l using n b v e by (simp del: list.size(4))
qed

end
