(* ===== verification/Syscall.thy ===== *)
theory Syscall
  imports Sched
begin

section \<open>System calls, signals and exec (src/syscall.c, src/signal.c, src/exec.c, src/exception.c)\<close>

text \<open>
  The trap frame of a thread, which the exception entry saves on its kernel stack, is kept in
  a store of its own, \<open>frames\<close>; a system call works on the frame of the thread that made it. Arguments are
  taken from the registers with the code's conversions, paths are read from memory. Code that follows a
  switch to another thread belongs to a later time and is not run here. Messages are not modelled; the
  user-side wrappers are in \<open>UserCalls\<close>.

  Parameters: \<open>hdl\<close> and \<open>kill_hdl\<close> are the addresses of the default signal handlers, \<open>wrapper\<close> that of
  \<open>sighander_user_wrapper\<close>, \<open>pad\<close> and \<open>cpio_addr\<close> belong to the archive, \<open>reply\<close> is the video core.
\<close>

record TrapFrame =
  regs :: "nat \<Rightarrow> u64"
  sp_el0 :: u64
  spsr_el1 :: u64
  elr_el1 :: u64

text \<open>\<open>sig_spill\<close>: the bytes behind a \<open>struct ThreadTask\<close>, as words, which \<open>handle_signal\<close> writes.\<close>

record sys =
  s_kern :: kern
  frames :: "addr \<Rightarrow> TrapFrame"
  sig_spill :: "addr \<Rightarrow> nat \<Rightarrow> u64"

record sys_env =
  e_layout :: layout
  e_hdl :: addr
  e_kill_hdl :: addr
  e_wrapper :: addr
  e_pad :: int
  e_cpio :: addr
  e_reply :: "u32 \<Rightarrow> u32 list \<Rightarrow> u32 \<times> u32 list"

definition s_fs :: "sys \<Rightarrow> fs" where
  "s_fs s = k_fs (s_kern s)"

definition put_fs :: "fs \<Rightarrow> sys \<Rightarrow> sys" where
  "put_fs f s = s\<lparr>s_kern := (s_kern s)\<lparr>k_fs := f\<rparr>\<rparr>"

definition cur_thread :: "sys \<Rightarrow> addr" where
  "cur_thread s = get_current (s_kern s)"

definition arg :: "addr \<Rightarrow> nat \<Rightarrow> sys \<Rightarrow> u64" where
  "arg t i s = regs (frames s t) i"

text \<open>\<open>trapframe->x[0] = v\<close>\<close>

definition ret :: "addr \<Rightarrow> u64 \<Rightarrow> sys \<Rightarrow> sys" where
  "ret t v s = s\<lparr>frames := (frames s)(t := (frames s t)\<lparr>regs := (regs (frames s t))(0 := v)\<rparr>)\<rparr>"

text \<open>Conversions of a register: to a pointer, to \<open>int\<close>; of an \<open>int\<close> result to a register.\<close>

definition ptr :: "u64 \<Rightarrow> addr" where "ptr w = unat w"
definition as_int :: "u64 \<Rightarrow> int" where "as_int w = sint (ucast w :: u32)"
definition reg_of :: "int \<Rightarrow> u64" where "reg_of i = of_int i"

definition c_string :: "mem \<Rightarrow> addr \<Rightarrow> byte list option" where
  "c_string m p = map_option (\<lambda>n. mem_bytes m p (unat n)) (strlen m p)"

primrec put_words :: "u32 list \<Rightarrow> addr \<Rightarrow> mem \<Rightarrow> mem" where
  "put_words [] a m = m"
| "put_words (w # ws) a m = put_words ws (a + 4) (put_u32 a w m)"

subsection \<open>Threads\<close>

definition sys_getpid :: "sys \<Rightarrow> sys" where
  "sys_getpid s =
     (let t = cur_thread s in if t = NULL then s else ret t (ucast (th_id (threads (s_kern s) t))) s)"

definition sys_exit :: "sys \<Rightarrow> sys option" where
  "sys_exit s = map_option (\<lambda>k. s\<lparr>s_kern := k\<rparr>) (exit_thread (s_kern s))"

definition sys_kill :: "sys \<Rightarrow> sys option" where
  "sys_kill s = map_option (\<lambda>(r, k). s\<lparr>s_kern := k\<rparr>) (kill_thread (ucast (arg (cur_thread s) 0 s)) (s_kern s))"

text \<open>
  \<open>sys_fork\<close>: the child gets copies of the parent's stacks, of its signal handlers and of the frame, with
  result 0; \<open>curr_sp\<close> is the stack pointer in the call, \<open>fork_end\<close> the label the child starts from. The child's
  working directory, file table and \<open>sig_frame\<close> are not set.
\<close>

definition sys_fork :: "sys_env \<Rightarrow> u64 \<Rightarrow> addr \<Rightarrow> sys \<Rightarrow> sys option" where
  "sys_fork E curr_sp fork_end s = (let p = cur_thread s; k = s_kern s; L = e_layout E in
     if p = NULL then Some s
     else do {
       (c, f1) \<leftarrow> fs_alloc THREAD_SIZE (k_fs k);
       if c = NULL then Some (ret p (reg_of (-1)) (put_fs f1 s))
       else do {
         let pt = threads k p;
         let k1 = k\<lparr>threads := upd_thread c (\<lambda>t. t\<lparr>th_id := thread_cnt k, th_state := TASK_READY,
                     th_counter := th_counter pt, th_priority := th_priority pt, preempt_count := preempt_count pt\<rparr>)
                     (threads k), thread_cnt := thread_cnt k + 1\<rparr>;
         (ks, f2) \<leftarrow> fs_alloc THREAD_STACK_SIZE f1;
         if ks = NULL then do {
           f3 \<leftarrow> fs_free L c f2;
           Some (ret p (reg_of (-1)) (s\<lparr>s_kern := k1\<lparr>k_fs := f3\<rparr>\<rparr>))
         }
         else do {
           (us, f3) \<leftarrow> fs_alloc THREAD_STACK_SIZE f2;
           if us = NULL then do {
             f4 \<leftarrow> fs_free L ks f3;
             f5 \<leftarrow> fs_free L c f4;
             Some (ret p (reg_of (-1)) (s\<lparr>s_kern := k1\<lparr>k_fs := f5\<rparr>\<rparr>))
           }
           else do {
             let f4 = put_mem (memcpy ks (kernel_stack pt) THREAD_STACK_SIZE
                        (memcpy us (user_stack pt) THREAD_STACK_SIZE (fs_mem f3))) f3;
             let sp = of_nat ks + (curr_sp - of_nat (kernel_stack pt));
             let k2 = k1\<lparr>k_fs := f4, threads := upd_thread c (\<lambda>t. t\<lparr>kernel_stack := ks, user_stack := us,
                        pending_sig := pending_sig pt,
                        sig_handlers := \<lambda>i. if i < SIG_NUM then sig_handlers pt i else sig_handlers t i,
                        th_next := None,
                        cpu_ctx := (cpu_ctx pt)\<lparr>sp_reg := sp, lr_reg := of_nat fork_end\<rparr>\<rparr>) (threads k1)\<rparr>;
             let fr = frames s p;
             let child = fr\<lparr>regs := (regs fr)(0 := 0),
                            sp_el0 := of_nat us + (sp_el0 fr - of_nat (user_stack pt))\<rparr>;
             k3 \<leftarrow> add_ready c k2;
             Some (ret p (ucast (th_id (threads k3 c))) (s\<lparr>s_kern := k3, frames := (frames s)(c := child)\<rparr>))
           }
         }
       }
     })"

text \<open>
  \<open>_exec\<close>: the program is copied to the heap and runs in a new thread, which becomes the
  current one at once. A failed \<open>thread_create\<close> gives the pointer -1, which is followed.
\<close>

definition exec_file :: "sys_env \<Rightarrow> byte list \<Rightarrow> kern \<Rightarrow> kern option" where
  "exec_file E filename k = do {
     exec_size \<leftarrow> cpio_get_file_size (e_pad E) (e_cpio E) filename (fs_mem (k_fs k));
     if exec_size = 0 then Some k
     else do {
       (exec_addr, f1) \<leftarrow> fs_alloc exec_size (k_fs k);
       if exec_addr = NULL then Some (k\<lparr>k_fs := f1\<rparr>)
       else do {
         (r, m) \<leftarrow> cpio_get_exec (e_pad E) (e_cpio E) filename exec_addr (fs_mem f1);
         (t, k1) \<leftarrow> thread_create (e_layout E) (e_hdl E) (e_kill_hdl E) exec_addr (k\<lparr>k_fs := put_mem m f1\<rparr>);
         if t = NEG1_PTR then None else Some (set_current t k1)
       }
     }
   }"

definition sys_exec :: "sys_env \<Rightarrow> sys \<Rightarrow> sys option" where
  "sys_exec E s =
     (let p = ptr (arg (cur_thread s) 0 s); m = fs_mem (s_fs s) in
      if p = NULL \<or> m p = 0 then Some s
      else do {
        name \<leftarrow> c_string m p;
        k \<leftarrow> exec_file E name (s_kern s);
        Some (s\<lparr>s_kern := k\<rparr>)
      })"

subsection \<open>Console and mailbox\<close>

definition sys_uart_read :: "sys \<Rightarrow> sys option" where
  "sys_uart_read s =
     (let t = cur_thread s; buf = ptr (arg t 0 s); sz = min (as_int (arg t 1 s)) 4096 in
      if sz \<le> 0 \<or> buf = NULL then Some s
      else (case uart_getn buf (of_int sz) (fs_uart (s_fs s)) of
              None \<Rightarrow> None
            | Some (n, u) \<Rightarrow> Some (ret t (ucast n) (put_fs ((s_fs s)\<lparr>fs_uart := u\<rparr>) s))))"

definition sys_uart_write :: "sys \<Rightarrow> sys" where
  "sys_uart_write s =
     (let t = cur_thread s; buf = ptr (arg t 0 s); sz = min (as_int (arg t 1 s)) 4096 in
      if sz \<le> 0 \<or> buf = NULL then s
      else (case uart_putn buf (of_int sz) (fs_uart (s_fs s)) of
              (n, u) \<Rightarrow> ret t (ucast n) (put_fs ((s_fs s)\<lparr>fs_uart := u\<rparr>) s)))"

text \<open>The message buffer has the number of bytes its first word says.\<close>

definition sys_mbox_call :: "sys_env \<Rightarrow> sys \<Rightarrow> sys" where
  "sys_mbox_call E s =
     (let t = cur_thread s; channel = ucast (arg t 0 s) :: byte; mbox = ptr (arg t 1 s); m = fs_mem (s_fs s) in
      if mbox = NULL \<or> 16 < channel then s
      else
        let msgs = map (\<lambda>i. get_u32 m (mbox + 4 * i)) [0..<unat (get_u32 m mbox) div 4];
            (ok, msgs') = mailbox_call (e_reply E) mbox channel msgs;
            s1 = put_fs (put_mem (put_words msgs' mbox m) (s_fs s)) s
        in if ok then ret t (ucast (msgs' ! 1)) s1 else s1)"

subsection \<open>Signals\<close>

definition sys_signal :: "sys \<Rightarrow> sys" where
  "sys_signal s =
     (let t = cur_thread s; sig = as_int (arg t 0 s); handler = ptr (arg t 1 s) in
      if t = NULL \<or> sig < 0 \<or> int SIG_NUM \<le> sig then s
      else
        let k = s_kern s; old = sig_handlers (threads k t) (nat sig)
        in ret t (of_nat old)
             (s\<lparr>s_kern := k\<lparr>threads := upd_thread t (\<lambda>h. h\<lparr>sig_handlers := (sig_handlers h)(nat sig := handler)\<rparr>) (threads k)\<rparr>\<rparr>))"

definition sys_sigkill :: "sys \<Rightarrow> sys option" where
  "sys_sigkill s =
     (let t = cur_thread s; pid = ucast (arg t 0 s); sig = as_int (arg t 1 s); k = s_kern s in
      case get_thread_task_by_id pid k of
        None \<Rightarrow> None
      | Some None \<Rightarrow> Some s
      | Some (Some task) \<Rightarrow>
          if sig < 0 \<or> int SIG_NUM \<le> sig then Some s
          else Some (s\<lparr>s_kern := k\<lparr>threads :=
                 upd_thread task (\<lambda>h. h\<lparr>pending_sig := set_bit (nat sig) (pending_sig h)\<rparr>) (threads k)\<rparr>\<rparr>))"

text \<open>
  The frame is saved with \<open>memcpy(&task->sig_frame, ...)\<close>: not to the block \<open>sig_frame\<close> points to, but
  over the field itself and what follows it, the fields \<open>cwd\<close>, \<open>fd_table\<close> and \<open>next\<close> and 15 words
  behind the struct. \<open>frame_word\<close> is the frame as 34 words.
\<close>

definition frame_word :: "TrapFrame \<Rightarrow> nat \<Rightarrow> u64" where
  "frame_word f i = (if i < 31 then regs f i else if i = 31 then sp_el0 f else if i = 32 then spsr_el1 f else elr_el1 f)"

definition to_link :: "addr \<Rightarrow> addr option" where
  "to_link a = (if a = NULL then None else Some a)"

definition save_frame :: "addr \<Rightarrow> TrapFrame \<Rightarrow> sys \<Rightarrow> sys" where
  "save_frame t f s =
     (let k = s_kern s; g = k_fs k;
          g' = g\<lparr>cwd := (cwd g)(t := ptr (frame_word f 1)),
                 fd_table := (fd_table g)(t := \<lambda>i. if i < THREAD_MAX_FD then ptr (frame_word f (i + 2)) else fd_table g t i)\<rparr>;
          th = upd_thread t (\<lambda>h. h\<lparr>sig_frame := ptr (frame_word f 0), th_next := to_link (ptr (frame_word f 18))\<rparr>) (threads k)
      in s\<lparr>s_kern := k\<lparr>k_fs := g', threads := th\<rparr>, sig_spill := (sig_spill s)(t := \<lambda>i. if i < 15 then frame_word f (i + 19) else sig_spill s t i)\<rparr>)"

text \<open>The words at the same place, as \<open>sys_sigreturn\<close> reads them.\<close>

definition saved_word :: "addr \<Rightarrow> sys \<Rightarrow> nat \<Rightarrow> u64" where
  "saved_word t s i =
     (if i = 0 then of_nat (sig_frame (threads (s_kern s) t))
      else if i = 1 then of_nat (cwd (s_fs s) t)
      else if i < 18 then of_nat (fd_table (s_fs s) t (i - 2))
      else if i = 18 then of_nat (case th_next (threads (s_kern s) t) of None \<Rightarrow> NULL | Some a \<Rightarrow> a)
      else sig_spill s t (i - 19))"

definition sys_sigreturn :: "sys_env \<Rightarrow> sys \<Rightarrow> sys option" where
  "sys_sigreturn E s =
     (let t = cur_thread s in
      if t = NULL then Some s
      else do {
        f \<leftarrow> fs_free (e_layout E) (unat (fp_reg (cpu_ctx (threads (s_kern s) t)) - ucast THREAD_STACK_SIZE)) (s_fs s);
        let s1 = put_fs f s;
        Some (s1\<lparr>frames := (frames s1)(t := \<lparr>regs = \<lambda>i. if i < 31 then saved_word t s1 i else regs (frames s1 t) i,
                   sp_el0 = saved_word t s1 31, spsr_el1 = saved_word t s1 32, elr_el1 = saved_word t s1 33\<rparr>)\<rparr>)
      })"

text \<open>
  The result says how the kernel goes on: as before, or by \<open>eret\<close> to the user at a program counter and
  stack pointer, with the argument in \<open>x0\<close>. The default handlers are told by their addresses.
\<close>

datatype resume = Resume | Enter_user u64 u64 u64

definition handle_signal :: "sys_env \<Rightarrow> addr \<Rightarrow> nat \<Rightarrow> sys \<Rightarrow> (resume \<times> sys) option" where
  "handle_signal E task sig s =
     (let h = sig_handlers (threads (s_kern s) task) sig in
      if h = NULL then Some (Resume, s)
      else if h = e_hdl E then Some (Resume, s)
      else if h = e_kill_hdl E then map_option (\<lambda>t. (Resume, t)) (sys_exit s)
      else do {
        let s1 = save_frame task (frames s task) s;
        (stack, f) \<leftarrow> fs_alloc THREAD_STACK_SIZE (s_fs s1);
        let sp = of_nat stack + ucast THREAD_STACK_SIZE;
        let s2 = put_fs f s1;
        let k = s_kern s2;
        let th = upd_thread task (\<lambda>t. t\<lparr>cpu_ctx := (cpu_ctx t)\<lparr>sp_reg := sp, fp_reg := sp, lr_reg := of_nat (e_wrapper E)\<rparr>\<rparr>) (threads k);
        Some (Enter_user (of_nat (e_wrapper E)) sp (of_nat h), s2\<lparr>s_kern := k\<lparr>threads := th\<rparr>\<rparr>)
      })"

text \<open>
  The loop over the signals: \<open>k\<close> are left. It ends with an \<open>eret\<close>, or when the thread has lost
  the processor.
\<close>

primrec pending_loop :: "nat \<Rightarrow> sys_env \<Rightarrow> addr \<Rightarrow> sys \<Rightarrow> (resume \<times> sys) option" where
  "pending_loop 0 E task s = Some (Resume, s)"
| "pending_loop (Suc n) E task s =
     (let sig = SIG_NUM - Suc n; k = s_kern s in
      if bit (pending_sig (threads k task)) sig then
        (let s1 = s\<lparr>s_kern := k\<lparr>threads := upd_thread task (\<lambda>t. t\<lparr>pending_sig := unset_bit sig (pending_sig t)\<rparr>) (threads k)\<rparr>\<rparr> in
         case handle_signal E task sig s1 of
           None \<Rightarrow> None
         | Some (Enter_user pc sp a, s2) \<Rightarrow> Some (Enter_user pc sp a, s2)
         | Some (Resume, s2) \<Rightarrow>
             if cur_thread s2 \<noteq> task then Some (Resume, s2) else pending_loop n E task s2)
      else pending_loop n E task s)"

definition check_pending_signals :: "sys_env \<Rightarrow> addr \<Rightarrow> sys \<Rightarrow> (resume \<times> sys) option" where
  "check_pending_signals E task s =
     (if pending_sig (threads (s_kern s) task) = 0 then Some (Resume, s) else pending_loop SIG_NUM E task s)"

subsection \<open>Files\<close>

definition sys_open :: "sys_env \<Rightarrow> sys \<Rightarrow> sys option" where
  "sys_open E s =
     (let t = cur_thread s; p = ptr (arg t 0 s); flags = as_int (arg t 1 s); m = fs_mem (s_fs s) in
      if p = NULL \<or> m p = 0 then Some (ret t (reg_of (-1)) s)
      else
        (case find (\<lambda>i. fd_table (s_fs s) t i = NULL) [0..<THREAD_MAX_FD] of
           None \<Rightarrow> Some s
         | Some i \<Rightarrow> do {
             path \<leftarrow> c_string m p;
             (r, h, f) \<leftarrow> vfs_open (e_layout E) (set_fd t i) path flags (s_fs s);
             let s1 = put_fs f s;
             Some (if r \<noteq> 0 then ret t (reg_of (- r)) s1 else ret t (of_nat i) s1)
           }))"

definition bad_fd :: "int \<Rightarrow> bool" where
  "bad_fd fd \<longleftrightarrow> fd < 0 \<or> int THREAD_MAX_FD \<le> fd"

definition sys_close :: "sys_env \<Rightarrow> sys \<Rightarrow> sys option" where
  "sys_close E s =
     (let t = cur_thread s; fd = as_int (arg t 0 s) in
      if bad_fd fd then Some (ret t (reg_of (-1)) s)
      else if t = NULL then Some s
      else do {
        (r, f) \<leftarrow> vfs_close (e_layout E) (fd_table (s_fs s) t (nat fd)) (s_fs s);
        Some (ret t (reg_of r) (put_fs (set_fd t (nat fd) NULL f) s))
      })"

text \<open>The length of \<open>sys_write\<close> is cut to 32 bits. The handle is followed without a test for \<open>NULL\<close>.\<close>

definition sys_write :: "sys_env \<Rightarrow> sys \<Rightarrow> sys option" where
  "sys_write E s =
     (let t = cur_thread s; fd = as_int (arg t 0 s); buf = ptr (arg t 1 s);
          count = ucast (ucast (arg t 2 s) :: u32) :: u64 in
      if bad_fd fd \<or> buf = NULL \<or> count = 0 \<or> t = NULL then Some (ret t (reg_of (-1)) s)
      else
        let file = fd_table (s_fs s) t (nat fd) in
        if file = NULL then None
        else if f_vnode (files (s_fs s) file) = NULL \<or> f_fops (files (s_fs s) file) = F_NULL then
          Some (ret t (reg_of (-1)) s)
        else do {
          (r, f) \<leftarrow> fop_write (e_layout E) file buf count (s_fs s);
          Some (ret t (reg_of r) (put_fs f s))
        })"

definition sys_read :: "sys \<Rightarrow> sys option" where
  "sys_read s =
     (let t = cur_thread s; fd = as_int (arg t 0 s); buf = ptr (arg t 1 s); count = arg t 2 s in
      if bad_fd fd \<or> t = NULL then Some (ret t (reg_of (-1)) s)
      else
        let file = fd_table (s_fs s) t (nat fd) in
        if file = NULL then None
        else if f_vnode (files (s_fs s) file) = NULL \<or> f_fops (files (s_fs s) file) = F_NULL then
          Some (ret t (reg_of (-1)) s)
        else do {
          (r, f) \<leftarrow> fop_read file buf count (s_fs s);
          Some (ret t (reg_of r) (put_fs f s))
        })"

definition sys_mkdir :: "sys_env \<Rightarrow> sys \<Rightarrow> sys option" where
  "sys_mkdir E s =
     (let t = cur_thread s; p = ptr (arg t 0 s); m = fs_mem (s_fs s) in
      if p = NULL \<or> m p = 0 then Some (ret t (reg_of (-1)) s)
      else do {
        path \<leftarrow> c_string m p;
        (r, f) \<leftarrow> vfs_mkdir (e_layout E) path (s_fs s);
        Some (ret t (reg_of (if r < 0 then r else 0)) (put_fs f s))
      })"

definition sys_mount :: "sys_env \<Rightarrow> sys \<Rightarrow> sys option" where
  "sys_mount E s =
     (let t = cur_thread s; p = ptr (arg t 1 s); q = ptr (arg t 2 s); m = fs_mem (s_fs s) in
      if p = NULL \<or> m p = 0 \<or> q = NULL \<or> m q = 0 then Some (ret t (reg_of (-1)) s)
      else do {
        target \<leftarrow> c_string m p;
        filesystem \<leftarrow> c_string m q;
        (r, f) \<leftarrow> vfs_mount (e_layout E) target filesystem (s_fs s);
        Some (ret t (reg_of (if r < 0 then r else 0)) (put_fs f s))
      })"

text \<open>\<open>vfs_lookup\<close> stores through a pointer to the thread's own \<open>cwd\<close>.\<close>

definition set_cwd :: "addr \<Rightarrow> addr \<Rightarrow> fs \<Rightarrow> fs" where
  "set_cwd t v f = f\<lparr>cwd := (cwd f)(t := v)\<rparr>"

definition sys_chdir :: "sys_env \<Rightarrow> sys \<Rightarrow> sys option" where
  "sys_chdir E s =
     (let t = cur_thread s; p = ptr (arg t 0 s); m = fs_mem (s_fs s) in
      if p = NULL \<or> m p = 0 \<or> t = NULL then Some (ret t (reg_of (-1)) s)
      else do {
        path \<leftarrow> c_string m p;
        (r, v, f) \<leftarrow> vfs_lookup (e_layout E) (set_cwd t) path (s_fs s);
        Some (ret t (reg_of (if r < 0 then r else 0)) (put_fs f s))
      })"

text \<open>The new position is not returned.\<close>

definition sys_lseek64 :: "sys \<Rightarrow> sys" where
  "sys_lseek64 s =
     (let t = cur_thread s; fd = as_int (arg t 0 s); offset = arg t 1 s; whence = as_int (arg t 2 s) in
      if bad_fd fd then ret t (reg_of (-1)) s
      else put_fs (snd (vfs_lseek64 (fd_table (s_fs s) t (nat fd)) offset whence (s_fs s))) s)"

definition sys_ioctl :: "sys_env \<Rightarrow> addr \<Rightarrow> sys \<Rightarrow> sys" where
  "sys_ioctl E mbox s =
     (let t = cur_thread s; argp = ptr (arg t 2 s) in
      case dev_framebuffer_ioctl (e_reply E) mbox argp (s_fs s) of
        (r, f) \<Rightarrow> ret t (reg_of (if r < 0 then r else 0)) (put_fs f s))"

subsection \<open>Dispatch\<close>

text \<open>
  \<open>curr_sp\<close>, \<open>fork_end\<close> and \<open>mbox\<close> are what the handlers of \<open>fork\<close> and \<open>ioctl\<close> find on the kernel stack; an
  unknown number is only reported.
\<close>

definition syscall_entry :: "sys_env \<Rightarrow> u64 \<Rightarrow> addr \<Rightarrow> addr \<Rightarrow> sys \<Rightarrow> sys option" where
  "syscall_entry E curr_sp fork_end mbox s =
     (let n = unat (arg (cur_thread s) 8 s) in
      if n = 0 then Some (sys_getpid s)
      else if n = 1 then sys_uart_read s
      else if n = 2 then Some (sys_uart_write s)
      else if n = 3 then sys_exec E s
      else if n = 4 then sys_fork E curr_sp fork_end s
      else if n = 5 then sys_exit s
      else if n = 6 then Some (sys_mbox_call E s)
      else if n = 7 then sys_kill s
      else if n = 8 then Some (sys_signal s)
      else if n = 9 then sys_sigkill s
      else if n = 10 then sys_sigreturn E s
      else if n = 11 then sys_open E s
      else if n = 12 then sys_close E s
      else if n = 13 then sys_write E s
      else if n = 14 then sys_read s
      else if n = 15 then sys_mkdir E s
      else if n = 16 then sys_mount E s
      else if n = 17 then sys_chdir E s
      else if n = 18 then Some (sys_lseek64 s)
      else if n = 19 then Some (sys_ioctl E mbox s)
      else Some s)"

text \<open>
  The synchronous exception of a user program: the call if the exception class says so, then the pending
  signals of the thread; not when the call has given the processor to another thread.
\<close>

definition el0_sync_entry :: "sys_env \<Rightarrow> u64 \<Rightarrow> addr \<Rightarrow> addr \<Rightarrow> u64 \<Rightarrow> sys \<Rightarrow> (resume \<times> sys) option" where
  "el0_sync_entry E curr_sp fork_end mbox esr_el1 s =
     (let ec = drop_bit 26 esr_el1 AND 0x3F in
      case (if ec = 0x15
            then syscall_entry E curr_sp fork_end mbox (s\<lparr>s_kern := (s_kern s)\<lparr>irq_el1 := True\<rparr>\<rparr>)
            else Some s) of
        None \<Rightarrow> None
      | Some s1 \<Rightarrow> if cur_thread s1 \<noteq> cur_thread s then Some (Resume, s1) else check_pending_signals E (cur_thread s1) s1)"

end
