(* ===== verification/Shell.thy ===== *)
theory Shell
  imports Syscall Timer
begin

section \<open>The shell (src/shell.c)\<close>

text \<open>
  A line is cut into words at spaces, by \<open>strtok\<close>, in place. The command names a builtin; what the builtins
  print is not modelled, so \<open>shell_command\<close> says which one a line selects and with which arguments.
\<close>

definition MAX_ARGS :: nat where "MAX_ARGS = 8"
definition MAX_CMD_LENGTH :: nat where "MAX_CMD_LENGTH = 64"

record Command =
  c_name :: addr
  c_args :: "addr list"

abbreviation space :: byte where "space \<equiv> 0x20"

text \<open>The loop over the arguments; the result 2 is too many of them.\<close>

partial_function (option) parse_args :: "addr list \<Rightarrow> strtok_state \<Rightarrow> (int \<times> addr list \<times> strtok_state) option" where
  "parse_args args s =
     (case strtok NULL space s of
        None \<Rightarrow> None
      | Some (a, s1) \<Rightarrow>
          if a = NULL then Some (0, args, s1)
          else if MAX_ARGS \<le> length args then Some (2, args, s1)
          else parse_args (args @ [a]) s1)"

definition parse_cmd :: "addr \<Rightarrow> strtok_state \<Rightarrow> (int \<times> Command \<times> strtok_state) option" where
  "parse_cmd str s =
     (if str = NULL then Some (1, \<lparr>c_name = NULL, c_args = []\<rparr>, s)
      else do {
        (name, s1) \<leftarrow> strtok str space s;
        (r, args, s2) \<leftarrow> parse_args [] s1;
        Some (r, \<lparr>c_name = name, c_args = args\<rparr>, s2)
      })"

subsection \<open>The words of a line\<close>

function line_words :: "byte list \<Rightarrow> byte list list" where
  "line_words s =
     (if s = [] then []
      else takeWhile (\<lambda>c. c \<noteq> space) s # line_words (drop (Suc (length (takeWhile (\<lambda>c. c \<noteq> space) s))) s))"
  by auto
termination
  by (relation "measure length") auto

declare line_words.simps [simp del]

lemma line_words_Nil [simp]: "line_words [] = []"
  by (simp add: line_words.simps)

lemma line_words_step:
  "s \<noteq> [] \<Longrightarrow> line_words s = takeWhile (\<lambda>c. c \<noteq> space) s #
     line_words (drop (Suc (length (takeWhile (\<lambda>c. c \<noteq> space) s))) s)"
  by (subst line_words.simps) simp

text \<open>One call of \<open>strtok\<close> on what is left of the line.\<close>

lemma next_word:
  assumes "cstr (st_mem s) (st_p s) rest" "rest \<noteq> []" "st_p s \<noteq> NULL"
  defines "w \<equiv> takeWhile (\<lambda>c. c \<noteq> space) rest"
  shows "\<exists>s1. strtok NULL space s = Some (st_p s, s1) \<and> cstr (st_mem s1) (st_p s) w \<and>
     cstr (st_mem s1) (st_p s1) (drop (Suc (length w)) rest) \<and> (\<forall>a < st_p s. st_mem s1 a = st_mem s a) \<and>
     st_p s1 \<noteq> NULL \<and> (drop (Suc (length w)) rest = [] \<or> st_p s + length w < st_p s1)"
  using strtok_step [OF assms(1-3), of space "st_p s"] assms(3) unfolding strtok_next w_def by fastforce

lemma parse_args_ok:
  assumes "cstr (st_mem s) (st_p s) rest" "st_p s \<noteq> NULL" "length args + length (line_words rest) \<le> MAX_ARGS"
  shows "\<exists>ps s'. parse_args args s = Some (0, args @ ps, s') \<and>
     list_all2 (cstr (st_mem s')) ps (line_words rest) \<and>
     (\<forall>a. a < st_p s \<or> rest = [] \<longrightarrow> st_mem s' a = st_mem s a)"
  using assms
proof (induction rest arbitrary: s args rule: line_words.induct)
  case (1 rest)
  show ?case
  proof (cases "rest = []")
    case True
    then show ?thesis using 1(2) by (subst parse_args.simps) (simp add: strtok_end)
  next
    case False
    let ?w = "takeWhile (\<lambda>c. c \<noteq> space) rest"
    let ?r = "drop (Suc (length ?w)) rest"
    obtain s1 where s1: "strtok NULL space s = Some (st_p s, s1)" "cstr (st_mem s1) (st_p s) ?w"
      "cstr (st_mem s1) (st_p s1) ?r" "\<forall>a < st_p s. st_mem s1 a = st_mem s a" "st_p s1 \<noteq> NULL"
      "?r = [] \<or> st_p s + length ?w < st_p s1" using next_word [OF 1(2) False 1(3)] by blast
    have w: "line_words rest = ?w # line_words ?r" by (rule line_words_step [OF False])
    have "length (args @ [st_p s]) + length (line_words ?r) \<le> MAX_ARGS" using 1(4) w by simp
    from 1(1) [OF False s1(3,5) this] obtain ps s' where
      s': "parse_args (args @ [st_p s]) s1 = Some (0, (args @ [st_p s]) @ ps, s')"
        "list_all2 (cstr (st_mem s')) ps (line_words ?r)"
        "\<forall>a. a < st_p s1 \<or> ?r = [] \<longrightarrow> st_mem s' a = st_mem s1 a" by blast
    have "cstr (st_mem s') (st_p s) ?w"
      by (rule cstr_cong [OF s1(2)]) (use s1(6) s'(3) in fastforce)
    moreover have "parse_args args s = Some (0, args @ st_p s # ps, s')"
      using s1(1) s'(1) 1(3,4) w by (subst parse_args.simps) simp
    moreover have "st_mem s' a = st_mem s a" if "a < st_p s" for a
      using that s1(4,6) s'(3) by fastforce
    ultimately show ?thesis using s'(2) w False by (intro exI [of _ "st_p s # ps"]) auto
  qed
qed

lemma parse_args_many:
  assumes "cstr (st_mem s) (st_p s) rest" "st_p s \<noteq> NULL" "length args \<le> MAX_ARGS"
    and "MAX_ARGS < length args + length (line_words rest)"
  shows "\<exists>args' s'. parse_args args s = Some (2, args', s')"
  using assms
proof (induction rest arbitrary: s args rule: line_words.induct)
  case (1 rest)
  have False': "rest \<noteq> []" using 1(4,5) by auto
  let ?w = "takeWhile (\<lambda>c. c \<noteq> space) rest"
  let ?r = "drop (Suc (length ?w)) rest"
  obtain s1 where s1: "strtok NULL space s = Some (st_p s, s1)" "cstr (st_mem s1) (st_p s1) ?r" "st_p s1 \<noteq> NULL"
    using next_word [OF 1(2) False' 1(3)] by blast
  show ?case
  proof (cases "MAX_ARGS \<le> length args")
    case True
    then show ?thesis using s1(1) 1(3) by (subst parse_args.simps) simp
  next
    case False
    have "\<exists>args' s'. parse_args (args @ [st_p s]) s1 = Some (2, args', s')"
      using False 1(5) line_words_step [OF False'] by (intro 1(1) [OF False' s1(2,3)]) simp_all
    then show ?thesis using s1(1) 1(3) False by (subst parse_args.simps) simp
  qed
qed

text \<open>A line of at most nine words: the first is the name, the others are the arguments.\<close>

lemma parse_cmd_ok:
  assumes c: "cstr m p s" "s \<noteq> []" "p \<noteq> NULL"
  shows "if length (line_words s) \<le> Suc MAX_ARGS
     then \<exists>cmd s'. parse_cmd p \<lparr>st_mem = m, st_p = q\<rparr> = Some (0, cmd, s') \<and>
            list_all2 (cstr (st_mem s')) (c_name cmd # c_args cmd) (line_words s)
     else \<exists>cmd s'. parse_cmd p \<lparr>st_mem = m, st_p = q\<rparr> = Some (2, cmd, s')"
proof -
  let ?w = "takeWhile (\<lambda>c. c \<noteq> space) s"
  let ?r = "drop (Suc (length ?w)) s"
  obtain s1 where s1: "strtok p space \<lparr>st_mem = m, st_p = q\<rparr> = Some (p, s1)" "cstr (st_mem s1) p ?w"
    "cstr (st_mem s1) (st_p s1) ?r" "p + length ?w \<le> st_p s1" "?r = [] \<or> st_p s1 = Suc (p + length ?w)"
    using strtok_step [OF c, of space q] by auto
  have nz: "st_p s1 \<noteq> NULL" using s1(4) c(3) by simp
  have w: "line_words s = ?w # line_words ?r" by (rule line_words_step [OF c(2)])
  show ?thesis
  proof (cases "length (line_words s) \<le> Suc MAX_ARGS")
    case True
    then have "length [] + length (line_words ?r) \<le> MAX_ARGS" using w by simp
    from parse_args_ok [OF s1(3) nz this] obtain ps s' where
      s': "parse_args [] s1 = Some (0, ps, s')" "list_all2 (cstr (st_mem s')) ps (line_words ?r)"
        "\<forall>a. a < st_p s1 \<or> ?r = [] \<longrightarrow> st_mem s' a = st_mem s1 a" by auto
    have "cstr (st_mem s') p ?w" by (rule cstr_cong [OF s1(2)]) (use s1(5) s'(3) in fastforce)
    then show ?thesis using True s1(1) s'(1,2) c(3) w by (simp add: parse_cmd_def)
  next
    case False
    then have "MAX_ARGS < length [] + length (line_words ?r)" using w by simp
    from parse_args_many [OF s1(3) nz _ this] obtain args' s' where "parse_args [] s1 = Some (2, args', s')" by auto
    then show ?thesis using False s1(1) c(3) by (simp add: parse_cmd_def)
  qed
qed

text \<open>The empty line gives no name and no error.\<close>

lemma parse_cmd_empty:
  "m p = 0 \<Longrightarrow> p \<noteq> NULL \<Longrightarrow>
   parse_cmd p \<lparr>st_mem = m, st_p = q\<rparr> = Some (0, \<lparr>c_name = NULL, c_args = []\<rparr>, \<lparr>st_mem = m, st_p = p\<rparr>)"
  by (simp add: parse_cmd_def strtok_def parse_args.simps)

end
