(* ===== verification/DriverProps.thy ===== *)
theory DriverProps
  imports Machine Shell Bootload Devicetree
begin

section \<open>Properties of the drivers, the scheduler, the loaders and the shell's parser\<close>

subsection \<open>The UART\<close>

text \<open>C13: Receiving loses nothing: however the arrival of bytes, the receive interrupt and calls of
  \<open>uart_async_getc\<close> interleave, the bytes read, followed by those in the ring and on the line at the end, are
  those that were there at the start followed by those that arrived, in order.\<close>

theorem uart_receive_lossless:
  assumes "uart_ok s rxs txs" "fifo_run rx_arrive uart_async_getc rx_interrupt ops s = (ins, outs, s')"
  shows "\<exists>rxs' txs'. uart_ok s' rxs' txs' \<and> rxs @ line_in s @ ins = outs @ rxs' @ line_in s'"
proof -
  have "rx_holds s (rxs @ line_in s)" using assms(1) by (auto simp: rx_holds_def)
  from rx_queue.run_ok [OF this _ assms(2)] show ?thesis by (auto simp: rx_holds_def)
qed

theorem uart_receive_lossless_witness:
  "\<exists>s' rxs' txs'. fifo_run rx_arrive uart_async_getc rx_interrupt [Fput 65, Fget, Ftick, Fput 66, Fget, Ftick, Fget] board_uart =
       ([65, 66], [65, 66], s') \<and> uart_ok s' rxs' txs' \<and> [65, 66] = [65, 66] @ rxs' @ line_in s'"
proof -
  obtain s' where s': "fifo_run rx_arrive uart_async_getc rx_interrupt [Fput 65, Fget, Ftick, Fput 66, Fget, Ftick, Fget]
      board_uart = ([65, 66], [65, 66], s')"
    by (simp add: rx_arrive_def rx_interrupt_def uart_async_getc_def uart_irq_rx_handler_def rx_full_def
      board_uart_def BUFFER_SIZE_def io_read_def Let_def)
  moreover have "line_in board_uart = []" by (simp add: board_uart_def)
  ultimately show ?thesis using uart_receive_lossless [OF board_uart_ok s'] by simp
qed

text \<open>C14: Sending keeps the order: however calls of \<open>uart_async_putc\<close> and transmit interrupts interleave, the
  bytes put on the line are the queued ones followed by the accepted ones, in order and once, up to those still in
  the ring; and as many interrupts as bytes are left send them all. (No byte is a carriage return.)\<close>

theorem uart_send_in_order:
  assumes "uart_ok s rxs txs" "0x0D \<notin> set (txs @ puts ops)"
    and "fifo_run uart_async_putc tx_interrupt (\<lambda>s. s) ops s = (ins, outs, s')"
  shows "\<exists>left s''. tx_holds s' left \<and> txs @ ins = outs @ left \<and>
     fifo_run uart_async_putc tx_interrupt (\<lambda>s. s) (replicate (length left) Fget) s' = ([], left, s'')"
proof -
  have "tx_holds s txs" using assms(1) by (auto simp: tx_holds_def)
  then obtain left where "tx_holds s' left" "txs @ ins = outs @ left"
    using tx_queue.run_ok [OF _ assms(2,3)] by blast
  then show ?thesis using tx_queue.drain by blast
qed

theorem uart_send_in_order_witness:
  "\<exists>s' left s''. fifo_run uart_async_putc tx_interrupt (\<lambda>s. s) [Fput 65, Fput 66, Fget] board_uart = ([65, 66], [65], s') \<and>
     tx_holds s' left \<and> [65, 66] = [65] @ left \<and>
     fifo_run uart_async_putc tx_interrupt (\<lambda>s. s) (replicate (length left) Fget) s' = ([], left, s'')"
proof -
  obtain s' where s': "fifo_run uart_async_putc tx_interrupt (\<lambda>s. s) [Fput 65, Fput 66, Fget] board_uart = ([65, 66], [65], s')"
    by (simp add: tx_interrupt_def uart_async_putc_def uart_irq_tx_handler_def tx_full_def tx_push_def
      board_uart_def BUFFER_SIZE_def io_write_def uart_enable_tx_irq_def Let_def)
  then show ?thesis using uart_send_in_order [OF board_uart_ok _ s'] by simp
qed

text \<open>\<open>uart_async_puts\<close> queues a string that fits and lies outside the ring completely, with
  carriage returns as \<open>async_bytes\<close> says, and leaves the receive ring alone.\<close>

theorem uart_async_puts_queues:
  assumes "uart_ok s rxs txs" "cstr (u_mem s) p str" "length txs + length (async_bytes str) < BUFFER_SIZE"
    and "p + length str < tx_buffer s \<or> tx_buffer s + BUFFER_SIZE \<le> p"
  shows "\<exists>s'. uart_async_puts p s = Some (True, s') \<and> uart_ok s' rxs (txs @ async_bytes str)"
  using assms by (rule async_puts_ok)

theorem uart_async_puts_queues_witness:
  "\<exists>s'. uart_async_puts 100 (board_uart\<lparr>u_mem := (\<lambda>_. 0)(100 := 65, 101 := 0x0A)\<rparr>) = Some (True, s') \<and>
     uart_ok s' [] [65, 0x0D, 0x0A, 0x0A]"
proof -
  let ?s = "board_uart\<lparr>u_mem := (\<lambda>_. 0)(100 := 65, 101 := 0x0A)\<rparr>"
  have "uart_ok ?s [] []"
    by (simp add: board_uart_def uart_ok_def rx_ring_def tx_ring_def rings_apart_def ring_def BUFFER_SIZE_def)
  moreover have "cstr (u_mem ?s) 100 [65, 0x0A]" by simp
  ultimately show ?thesis
    using uart_async_puts_queues [of ?s "[]" "[]" 100 "[65, 0x0A]"] by (simp add: board_uart_def BUFFER_SIZE_def)
qed

text \<open>C36: A carriage return queued into the transmit ring's last free slot reports success, but
  makes the ring look empty: all the bytes in it are lost.\<close>

theorem uart_putc_cr_loses:
  assumes "uart_ok s rxs txs" "Suc (Suc (length txs)) = BUFFER_SIZE"
  shows "\<exists>s'. uart_async_putc 0x0D s = (True, s') \<and> tx_buffer_head s' = tx_buffer_tail s' \<and>
     uart_irq_tx_handler s' = uart_disable_tx_irq s'"
proof -
  obtain s' where "uart_async_putc 0x0D s = (True, s')" "tx_buffer_head s' = tx_buffer_tail s'"
    using async_putc_cr_overflow [OF assms] by (cases "uart_async_putc 0x0D s") auto
  then show ?thesis by (simp add: uart_irq_tx_handler_def)
qed

theorem uart_putc_cr_loses_witness:
  "\<exists>s'. uart_async_putc 0x0D full_uart = (True, s') \<and> tx_buffer_head s' = tx_buffer_tail s' \<and>
     uart_irq_tx_handler s' = uart_disable_tx_irq s'"
  using uart_putc_cr_loses [OF full_uart_ok] by (simp add: BUFFER_SIZE_def)

text \<open>One UART interrupt cause with memory left and no task of negative priority waiting: its handler
  runs at once, exactly once, the task queue is as before, and the heap is what \<open>free\<close> of the allocated task leaves.\<close>

theorem uart_interrupt_runs_handler:
  assumes "tasks_ok L M s R xs" "\<forall>x \<in> set xs. 0 \<le> task_prio s x"
    and "alloc TASK_SIZE (tk_heap s) = Some (p, h)" "p \<noteq> NULL"
  shows "(\<exists>s'. uart_irq_cause L run UART_RX (s, w) = Some (s', uart_irq_rx_handler w) \<and> tasks_ok L M s' R xs \<and> free L p h = Some (tk_heap s')) \<and>
     (\<exists>s'. uart_irq_cause L run UART_TX (s, w) = Some (s', uart_irq_tx_handler w) \<and> tasks_ok L M s' R xs \<and> free L p h = Some (tk_heap s'))"
  by (intro conjI; rule uart_irq_cause_ok [OF assms]) (simp_all add: uart_run_def UART_RX_def UART_TX_def fun_eq_iff)

theorem uart_interrupt_runs_handler_witness:
  "\<exists>s'. uart_irq_cause board (\<lambda>_ _. None) UART_RX (board_tasks, board_uart) = Some (s', uart_irq_rx_handler board_uart) \<and>
     tasks_ok board board_pages s' [] []"
proof -
  obtain p h where a: "alloc TASK_SIZE (tk_heap board_tasks) = Some (p, h)" "p \<noteq> NULL"
    using board_alloc [of TASK_SIZE] by (auto simp: board_tasks_def)
  from uart_interrupt_runs_handler [OF board_tasks_ok _ a] show ?thesis by auto
qed

subsection \<open>Loading\<close>

text \<open>C28: \<open>cpio_get_file_size\<close> and \<open>cpio_get_exec\<close> on a well-formed archive: the size of the first entry of the
  name, 0 if there is none, and a copy of its contents in the destination, which lies below the archive.\<close>

theorem cpio_exec_copies:
  assumes "archive m h es" "map_of es target = Some content" "dst + length content \<le> h" "dst \<noteq> NULL"
  shows "cpio_get_file_size 0 h target m = Some (of_nat (length content)) \<and>
     (\<exists>p m'. cpio_get_exec 0 h target dst m = Some (Some p, m') \<and>
        mem_bytes m p (length content) = content \<and> mem_bytes m' dst (length content) = content)"
  using file_size_eq [OF assms(1), of target] get_exec_eq [OF assms] assms(2) by simp

theorem cpio_exec_copies_witness:
  "cpio_get_file_size 0 0x10000 [0x61] (mem_at 0x10000 small_archive) = Some 2 \<and>
     (\<exists>p m'. cpio_get_exec 0 0x10000 [0x61] 0x8000 (mem_at 0x10000 small_archive) = Some (Some p, m') \<and>
        mem_bytes m' 0x8000 2 = [0x68, 0x69])"
proof -
  have l: "length [0x68, 0x69 :: byte] = 2" by simp
  show ?thesis
    using cpio_exec_copies [OF small_archive_ok, of "[0x61]" "[0x68, 0x69]" "0x8000"] unfolding l by auto
qed

text \<open>\<open>cpio_list\<close> on a well-formed archive prints the names of its entries, one on a line.\<close>

theorem cpio_list_prints:
  assumes "archive (u_mem s) h es"
  shows "cpio_list 0 h s = Some (s\<lparr>line_out := line_out s @ concat (map (\<lambda>(name, _). poll_bytes (name @ crlf)) es)\<rparr>)"
  using assms by (rule list_eq)

theorem cpio_list_prints_witness:
  "\<exists>s'. cpio_list 0 0x10000 (board_uart\<lparr>u_mem := mem_at 0x10000 small_archive\<rparr>) = Some s' \<and>
     line_out s' = [0x61, 0x0D, 0x0D, 0x0A]"
  using cpio_list_prints [of "board_uart\<lparr>u_mem := mem_at 0x10000 small_archive\<rparr>" "0x10000" "[([0x61], [0x68, 0x69])]"]
    small_archive_ok by (simp add: board_uart_def crlf_def)

text \<open>C18: The boot loader stores an image sent as the protocol says at 0x80000, byte by byte, if it ends below the device registers at
  0x3F000000, writes nowhere
  else, takes nothing more from the line, and starts the image exactly when the checksum is the sum of its bytes. When the header gives a size of \<open>2 ^ 31\<close> or more, the \<open>int\<close> that counts the bytes overflows: undefined
  behaviour, \<open>None\<close>.\<close>

theorem boot_loads_image:
  "(line_in s = boot_magic @ le_bytes (of_nat (length img)) @ le_bytes chk @ img @ rest \<and> KERNEL_ADDR + length img \<le> MMIO_BASE \<longrightarrow>
      (\<exists>s'. load_kernel msgs s = Some (chk = checksum img, s') \<and> line_in s' = rest \<and>
         mem_bytes (u_mem s') KERNEL_ADDR (length img) = img \<and>
         (\<forall>a. a < KERNEL_ADDR \<or> KERNEL_ADDR + length img \<le> a \<longrightarrow> u_mem s' a = u_mem s a))) \<and>
   (line_in s = boot_magic @ le_bytes n @ le_bytes chk @ rest \<and> 2 ^ 31 \<le> unat n \<longrightarrow> load_kernel msgs s = None)"
  using load_kernel_eq [of s img chk rest msgs] load_header [of s n chk rest msgs] by auto

theorem boot_loads_image_witness:
  "\<exists>s'. load_kernel (\<lambda>_. [])
       (board_uart\<lparr>line_in := boot_magic @ [2, 0, 0, 0] @ [3, 0, 0, 0] @ [1, 2] @ [7]\<rparr>) = Some (True, s') \<and>
     line_in s' = [7] \<and> mem_bytes (u_mem s') KERNEL_ADDR (length [1, 2 :: byte]) = [1, 2]"
proof -
  let ?s = "board_uart\<lparr>line_in := boot_magic @ [2, 0, 0, 0] @ [3, 0, 0, 0] @ [1, 2] @ [7]\<rparr>"
  have c: "checksum [1, 2] = 3" "le_bytes 3 = [3, 0, 0, 0]" "le_bytes (of_nat (length [1, 2 :: byte])) = [2, 0, 0, 0]"
    by code_simp+
  have "line_in ?s = boot_magic @ le_bytes (of_nat (length [1, 2 :: byte])) @ le_bytes 3 @ [1, 2] @ [7]"
    unfolding c by simp
  then show ?thesis
    using conjunct1 [OF boot_loads_image [of ?s "[1, 2]" 3 "[7]" "\<lambda>_. []" 0]] unfolding c by (auto simp: KERNEL_ADDR_def MMIO_BASE_def)
qed

text \<open>C29: Walking a well-formed device tree with \<open>initramfs_callback\<close> succeeds and sets \<open>cpio_addr\<close> and \<open>cpio_end\<close>
  to the big-endian values of the last \<open>linux,initrd-start\<close> and \<open>linux,initrd-end\<close> properties, or leaves them
  as they were. (No node has one of these names, and address 0 holds neither.)\<close>

theorem initrd_bounds_found:
  assumes "tokens_at m (g_fdt_strings d) (g_fdt_structure d) ts" "plain_tokens ts"
    and "\<not> str_is m NULL initrd_start" "\<not> str_is m NULL initrd_end"
    and "g_fdt_base d \<noteq> NULL" "g_fdt_structure d \<noteq> NULL"
  shows "fdt_traverse m d (Some (initramfs_callback m)) (a, e) =
     Some (0, case last_prop initrd_start ts of None \<Rightarrow> a | Some v \<Rightarrow> be_value v,
              case last_prop initrd_end ts of None \<Rightarrow> e | Some v \<Rightarrow> be_value v)"
  using assms by (rule traverse_initramfs)

theorem initrd_bounds_found_witness:
  "fdt_traverse small_fdt \<lparr>g_fdt_base = 1, g_fdt_structure = 0x10000, g_fdt_strings = 0x20000,
       fdt_total_size = 0, g_fdt_strings_size = 0, g_fdt_structure_size = 0\<rparr> (Some (initramfs_callback small_fdt)) (0, 5) =
     Some (0, 0x8000000, 5)"
proof -
  let ?ts = "[Begin_node [], Prop initrd_start [8, 0, 0, 0], End_node]"
  have ne: "initrd_start \<noteq> initrd_end" "initrd_start \<noteq> []" "initrd_end \<noteq> []"
    by (simp_all add: initrd_start_def initrd_end_def)
  have p: "plain_tokens ?ts" using ne by (auto simp: plain_tokens_def)
  have z: "\<not> str_is small_fdt NULL initrd_start" "\<not> str_is small_fdt NULL initrd_end"
    by (simp_all add: initrd_start_def initrd_end_def small_fdt_def mem_at_def)
  have v: "be_value [8, 0, 0, 0] = 0x8000000" by code_simp
  let ?d = "\<lparr>g_fdt_base = 1, g_fdt_structure = 0x10000, g_fdt_strings = 0x20000, fdt_total_size = 0,
    g_fdt_strings_size = 0, g_fdt_structure_size = 0\<rparr>"
  have "tokens_at small_fdt (g_fdt_strings ?d) (g_fdt_structure ?d) ?ts" using small_fdt_ok by simp
  from initrd_bounds_found [OF this p z, of 0 5] show ?thesis using ne by (simp add: v)
qed

subsection \<open>The scheduler\<close>

text \<open>C12: Round robin: from a state where the running thread and the ready ones are \<open>cs\<close>, \<open>k\<close> calls of
  \<open>schedule\<close> all return and lead to the state where they are \<open>cs\<close> rotated by \<open>k\<close>: nobody is lost or starved.\<close>

theorem schedule_round_robin:
  assumes "runnable s cs"
  shows "\<exists>s'. yields k s = Some s' \<and> runnable s' (rotate k cs)"
  using assms by (rule yields_rotate)

theorem schedule_round_robin_witness:
  "\<exists>s'. yields 2 board_kern = Some s' \<and> runnable s' [3, 1, 2]"
  using schedule_round_robin [OF board_runnable, of 2] by (simp add: numeral_2_eq_2)

text \<open>\<open>schedule\<close> saves the processor's registers in the old thread and loads those of the head of the ready
  queue, which becomes current and running, and queues the old thread as its state says.\<close>

theorem schedule_switches_context:
  assumes "sched_inv s (n # ns) ws zs" "n \<noteq> get_current s"
    and "park_lists (th_state (threads s (get_current s))) (get_current s) ns ws zs = (rs', ws', zs')"
  shows "\<exists>s'. schedule s = Some s' \<and> get_current s' = n \<and> sched_inv s' rs' ws' zs' \<and>
     th_state (threads s' n) = TASK_RUNNING \<and>
     cpu_ctx (threads s' (get_current s)) = cpu s \<and> cpu s' = cpu_ctx (threads s n)"
  using schedule_switch [OF assms] by blast

theorem schedule_switches_context_witness:
  "\<exists>s'. schedule board_kern = Some s' \<and> get_current s' = 2 \<and> sched_inv s' [3, 1] [] [] \<and>
     th_state (threads s' 2) = TASK_RUNNING \<and>
     cpu_ctx (threads s' 1) = cpu board_kern \<and> cpu s' = cpu_ctx (threads board_kern 2)"
proof -
  have c: "get_current board_kern = 1" "th_state (threads board_kern 1) = TASK_RUNNING"
    by (simp_all add: board_kern_def get_current_def)
  show ?thesis
    using schedule_switches_context [OF board_sched_inv, of "[3, 1]" "[]" "[]"] c by (simp add: park_lists_def)
qed

text \<open>C25: \<open>_exit\<close> makes the running thread a zombie and goes on with the next ready one; but if there is no
  other, the thread that has exited runs on.\<close>

theorem exit_switches:
  assumes "sched_inv s rs ws zs"
  shows "\<exists>s'. exit_thread s = Some s' \<and>
     (case remove1 (get_current s) rs of
        [] \<Rightarrow> get_current s' = get_current s \<and> th_state (threads s' (get_current s)) = TASK_EXITED \<and> sched_inv s' [] ws zs
      | n # ns \<Rightarrow> get_current s' = n \<and> th_state (threads s' n) = TASK_RUNNING \<and> sched_inv s' ns ws (zs @ [get_current s]))"
  using exit_ok [OF assms] exit_alone [OF assms] by (cases "remove1 (get_current s) rs") auto

theorem exit_switches_witness:
  "\<exists>s'. exit_thread board_kern = Some s' \<and> get_current s' = 2 \<and> sched_inv s' [3] [] [1]"
proof -
  have "get_current board_kern = 1" by (simp add: board_kern_def get_current_def)
  then show ?thesis using exit_switches [OF board_sched_inv] by auto
qed

text \<open>C26: \<open>_kill\<close> of the thread that the search finds, and that is not the running one, takes it off its queue and
  makes it a zombie; without a queued thread of that number nothing changes and the result is -1. So a running
  thread, which is on no queue, cannot kill itself.\<close>

theorem kill_by_pid:
  assumes "sched_inv s rs ws zs" "get_current s \<notin> set rs"
  shows "case find (\<lambda>x. th_id (threads s x) = pid) (rs @ ws) of
      None \<Rightarrow> kill_thread pid s = Some (-1, s)
    | Some t \<Rightarrow> \<exists>s'. kill_thread pid s = Some (0, s') \<and> sched_inv s' (remove1 t rs) (remove1 t ws) (zs @ [t]) \<and>
        get_current s' = get_current s \<and> th_state (threads s' t) = TASK_EXITED"
proof (cases "find (\<lambda>x. th_id (threads s x) = pid) (rs @ ws)")
  case None
  then have "\<forall>x \<in> set (rs @ ws). th_id (threads s x) \<noteq> pid" unfolding find_None_iff by blast
  then show ?thesis using kill_unknown [OF assms(1)] None by simp
next
  case (Some t)
  then have "t \<in> set (rs @ ws)" unfolding find_Some_iff by (metis nth_mem)
  then have "t \<noteq> get_current s" using assms by (auto simp: sched_inv_def)
  then show ?thesis using kill_other [OF assms(1) Some] Some by auto
qed

theorem kill_by_pid_witness:
  "(\<exists>s'. kill_thread 3 board_kern = Some (0, s') \<and> sched_inv s' [2] [] [3]) \<and> kill_thread 1 board_kern = Some (-1, board_kern)"
proof -
  have c: "get_current board_kern = 1" by (simp add: board_kern_def get_current_def)
  have "find (\<lambda>x. th_id (threads board_kern x) = 3) [2, 3] = Some 3"
    "find (\<lambda>x. th_id (threads board_kern x) = 1) [2, 3] = None" by (simp_all add: board_kern_def)
  then show ?thesis
    using kill_by_pid [OF board_sched_inv, of 3] kill_by_pid [OF board_sched_inv, of 1] c by auto
qed

text \<open>C27: \<open>kill_zombies\<close> ends, empties the zombie queue and gives both stacks and the record of every zombie back: the heap is
  the one that \<open>free\<close> of these blocks, in the order of the queue, leaves, and its invariant holds for all other blocks. Nothing else changes
  but the queue.\<close>

theorem zombies_freed:
  assumes "queues_ok s rs ws zs" "zombie_blocks s zs Z" "heap_inv L M (fs_heap (k_fs s)) (Z @ R)"
  shows "\<exists>s' h. kill_zombies L s = Some s' \<and> queues_ok s' rs ws [] \<and>
     free_all L (concat (map (\<lambda>z. [kernel_stack (threads s z), user_stack (threads s z), z]) zs)) (fs_heap (k_fs s)) = Some h \<and>
     k_fs s' = (k_fs s)\<lparr>fs_heap := h\<rparr> \<and> heap_inv L M h R \<and> threads s' = threads s"
  using kill_zombies_ok [OF assms] assms(2) by (simp add: zombie_blocks_def)

theorem zombies_freed_witness:
  "\<exists>s s' z. zombie_queue s = Some z \<and> kill_zombies board s = Some s' \<and> zombie_queue s' = None \<and>
     heap_inv board board_pages (fs_heap (k_fs s')) []"
proof -
  obtain h R where h: "length R = 3" "heap_inv board board_pages h R" "\<forall>r \<in> set R. 4096 \<le> fst r"
    using board_blocks [of 3] by auto
  then obtain a b c where R: "R = [a, b, c]" by (auto simp: length_Suc_conv numeral_3_eq_3)
  let ?z = "fst c"
  let ?s = "board_kern\<lparr>k_fs := blank_fs\<lparr>fs_heap := h, current := 1\<rparr>, zombie_queue := Some ?z,
     threads := (threads board_kern)(?z := blank_thread\<lparr>th_state := TASK_EXITED, kernel_stack := fst a, user_stack := fst b\<rparr>)\<rparr>"
  have z: "?z \<noteq> 1" "?z \<noteq> 2" "?z \<noteq> 3" "?z \<noteq> 0" using h(3) R by auto
  have "queues_ok ?s [2, 3] [] [?z]"
    using z by (simp add: queues_ok_def tq_def board_kern_def blank_thread_def task_states)
  moreover have "zombie_blocks ?s [?z] R" by (simp add: zombie_blocks_def R)
  moreover have "heap_inv board board_pages (fs_heap (k_fs ?s)) (R @ [])" using h(2) by simp
  ultimately obtain s' where "kill_zombies board ?s = Some s'" "queues_ok s' [2, 3] [] []"
    "heap_inv board board_pages (fs_heap (k_fs s')) []" using zombies_freed [of ?s "[2, 3]" "[]" "[?z]" R board board_pages "[]"] by auto
  moreover have "zombie_queue s' = None" using calculation(2) by (simp add: queues_ok_def tq_def)
  ultimately show ?thesis by (intro exI [of _ ?s] exI [of _ s'] exI [of _ ?z]) simp
qed

subsection \<open>The shell\<close>

text \<open>C30: \<open>parse_cmd\<close> on a non-empty line cuts it into its words, the first of them the name, if there are at most
  eight arguments, and reports too many otherwise.\<close>

theorem shell_line_parsed:
  assumes "cstr m p s" "s \<noteq> []" "p \<noteq> NULL"
  shows "if length (line_words s) \<le> Suc MAX_ARGS
     then \<exists>cmd s'. parse_cmd p \<lparr>st_mem = m, st_p = q\<rparr> = Some (0, cmd, s') \<and>
            list_all2 (cstr (st_mem s')) (c_name cmd # c_args cmd) (line_words s)
     else \<exists>cmd s'. parse_cmd p \<lparr>st_mem = m, st_p = q\<rparr> = Some (2, cmd, s')"
  using assms by (rule parse_cmd_ok)

theorem shell_line_parsed_witness:
  "\<exists>cmd s'. parse_cmd 100 \<lparr>st_mem = (\<lambda>_. 0)(100 := 0x6C, 101 := 0x20, 102 := 0x61), st_p = 0\<rparr> = Some (0, cmd, s') \<and>
     list_all2 (cstr (st_mem s')) (c_name cmd # c_args cmd) [[0x6C], [0x61]]"
proof -
  have w: "line_words [0x6C, 0x20, 0x61] = [[0x6C], [0x61]]" by (simp add: line_words_step)
  have "cstr ((\<lambda>_. 0)(100 := 0x6C, 101 := 0x20, 102 := 0x61)) 100 [0x6C, 0x20, 0x61]" by simp
  from shell_line_parsed [OF this, of 0] show ?thesis unfolding w by (simp add: MAX_ARGS_def)
qed

end
