(* ===== verification/PosFile.thy ===== *)
theory PosFile
  imports Prelude
begin

section \<open>The contract of a file with a position\<close>

text \<open>
  What a client of a file handle relies on, whatever file system is behind it: the file is a list of bytes
  and a position; reading gives the bytes from the position on and moves it, seeking sets it, and writing,
  when it succeeds, overwrites or extends the bytes at the position. \<open>readable_file\<close> is the contract of
  src/fs_initramfs.c, \<open>positional_file\<close> adds writing, for src/fs_tmpfs.c. The client's theorem: any sequence
  of operations behaves like the same sequence on the list of bytes.
\<close>

definition overwrite :: "nat \<Rightarrow> 'b list \<Rightarrow> 'b list \<Rightarrow> 'b list" where
  "overwrite p bs c = take p c @ bs @ drop (p + length bs) c"

lemma length_overwrite: "p \<le> length c \<Longrightarrow> length (overwrite p bs c) = max (length c) (p + length bs)"
  by (simp add: overwrite_def)

lemma overwrite_Nil [simp]: "overwrite p [] c = c"
  by (simp add: overwrite_def)

lemma nth_overwrite:
  "p \<le> length c \<Longrightarrow> i < max (length c) (p + length bs) \<Longrightarrow>
   overwrite p bs c ! i = (if p \<le> i \<and> i < p + length bs then bs ! (i - p) else c ! i)"
  by (auto simp: overwrite_def nth_append min_def)

lemma read_back: "p \<le> length c \<Longrightarrow> take (length bs) (drop p (overwrite p bs c)) = bs"
  by (simp add: overwrite_def)

datatype 'b file_op = Store "'b list" | Fetch nat | Goto nat

datatype 'b file_res = Stored bool | Fetched "'b list" | Gone

text \<open>The operations on the bytes and the position; the results say which writes succeeded.\<close>

fun spec_step :: "'b file_op \<Rightarrow> 'b file_res \<Rightarrow> 'b list \<times> nat \<Rightarrow> ('b list \<times> nat) option" where
  "spec_step (Store bs) (Stored ok) (c, p) = Some (if ok then (overwrite p bs c, p + length bs) else (c, p))"
| "spec_step (Fetch n) (Fetched bs) (c, p) =
     (if bs = take n (drop p c) then Some (c, p + length bs) else None)"
| "spec_step (Goto q) Gone (c, p) = Some (c, q)"
| "spec_step op res cp = None"

fun spec_run :: "'b file_op list \<Rightarrow> 'b file_res list \<Rightarrow> 'b list \<times> nat \<Rightarrow> ('b list \<times> nat) option" where
  "spec_run [] [] cp = Some cp"
| "spec_run (op # ops) (r # rs) cp = (case spec_step op r cp of None \<Rightarrow> None | Some cp' \<Rightarrow> spec_run ops rs cp')"
| "spec_run ops rs cp = None"

fun file_run :: "(nat \<Rightarrow> 's \<Rightarrow> 'b list \<times> 's) \<Rightarrow> (nat \<Rightarrow> 's \<Rightarrow> 's) \<Rightarrow> ('b list \<Rightarrow> 's \<Rightarrow> (bool \<times> 's) option) \<Rightarrow>
    'b file_op list \<Rightarrow> 's \<Rightarrow> ('b file_res list \<times> 's) option" where
  "file_run fetch goto store [] s = Some ([], s)"
| "file_run fetch goto store (Store bs # ops) s =
     (case store bs s of
        None \<Rightarrow> None
      | Some (ok, s1) \<Rightarrow> map_option (\<lambda>(rs, t). (Stored ok # rs, t)) (file_run fetch goto store ops s1))"
| "file_run fetch goto store (Fetch n # ops) s =
     (case fetch n s of (bs, s1) \<Rightarrow> map_option (\<lambda>(rs, t). (Fetched bs # rs, t)) (file_run fetch goto store ops s1))"
| "file_run fetch goto store (Goto q # ops) s =
     map_option (\<lambda>(rs, t). (Gone # rs, t)) (file_run fetch goto store ops (goto q s))"

text \<open>
  Sequences within the limits: no transfer above \<open>room\<close>, no position above \<open>lim\<close>, no write behind the
  end of the file, whose length is at least \<open>n\<close>.
\<close>

fun within :: "nat \<Rightarrow> nat \<Rightarrow> 'b file_op list \<Rightarrow> nat \<Rightarrow> nat \<Rightarrow> bool" where
  "within room lim [] n p \<longleftrightarrow> True"
| "within room lim (Store bs # ops) n p \<longleftrightarrow>
     length bs \<le> room \<and> p \<le> n \<and> p + length bs \<le> lim \<and>
     within room lim ops (max n (p + length bs)) (p + length bs) \<and> within room lim ops n p"
| "within room lim (Fetch k # ops) n p \<longleftrightarrow> k \<le> room \<and> within room lim ops n (p + min k (n - p))"
| "within room lim (Goto q # ops) n p \<longleftrightarrow> q \<le> lim \<and> within room lim ops n q"

locale readable_file =
  fixes at :: "'s \<Rightarrow> 'b list \<Rightarrow> nat \<Rightarrow> bool"
    and fetch :: "nat \<Rightarrow> 's \<Rightarrow> 'b list \<times> 's"
    and goto :: "nat \<Rightarrow> 's \<Rightarrow> 's"
    and room :: nat and lim :: nat
  assumes fetch_at: "at s c p \<Longrightarrow> n \<le> room \<Longrightarrow>
            \<exists>s'. fetch n s = (take n (drop p c), s') \<and> at s' c (p + length (take n (drop p c)))"
    and goto_at: "at s c p \<Longrightarrow> q \<le> lim \<Longrightarrow> at (goto q s) c q"
begin

text \<open>Reading in pieces of \<open>n\<close> bytes from the start gives the file.\<close>

primrec pieces :: "nat \<Rightarrow> nat \<Rightarrow> 's \<Rightarrow> 'b list \<times> 's" where
  "pieces 0 n s = ([], s)"
| "pieces (Suc k) n s = (case fetch n s of (bs, s1) \<Rightarrow> case pieces k n s1 of (cs, s2) \<Rightarrow> (bs @ cs, s2))"

lemma pieces_at:
  "at s c p \<Longrightarrow> n \<le> room \<Longrightarrow> \<exists>s'. pieces k n s = (take (k * n) (drop p c), s')"
proof (induction k arbitrary: s p)
  case (Suc k)
  let ?bs = "take n (drop p c)"
  obtain s1 where s1: "fetch n s = (?bs, s1)" "at s1 c (p + length ?bs)" using fetch_at [OF Suc.prems] by blast
  obtain s' where s': "pieces k n s1 = (take (k * n) (drop (p + length ?bs) c), s')"
    using Suc.IH [OF s1(2) Suc.prems(2)] by blast
  have "?bs @ take (k * n) (drop (p + length ?bs) c) = take (Suc k * n) (drop p c)"
  proof (cases "n \<le> length (drop p c)")
    case True
    then show ?thesis by (simp add: take_add min_def add.commute)
  next
    case False
    then show ?thesis by simp
  qed
  then show ?case using s1(1) s' by simp
qed simp

end

locale positional_file = readable_file at fetch goto room lim
  for at :: "'s \<Rightarrow> 'b list \<Rightarrow> nat \<Rightarrow> bool" and fetch goto room lim +
  fixes store :: "'b list \<Rightarrow> 's \<Rightarrow> (bool \<times> 's) option"
  assumes store_at: "at s c p \<Longrightarrow> p \<le> length c \<Longrightarrow> length bs \<le> room \<Longrightarrow> p + length bs \<le> lim \<Longrightarrow>
            \<exists>ok s'. store bs s = Some (ok, s') \<and>
              (if ok then at s' (overwrite p bs c) (p + length bs) else at s' c p)"
begin

lemma run_at:
  assumes "at s c p" "within room lim ops (length c) p"
  shows "\<exists>rs s' c' p'. file_run fetch goto store ops s = Some (rs, s') \<and> spec_run ops rs (c, p) = Some (c', p') \<and> at s' c' p'"
  using assms
proof (induction ops arbitrary: s c p)
  case (Cons op ops)
  show ?case
  proof (cases op)
    case (Store bs)
    then have w: "p \<le> length c" "length bs \<le> room" "p + length bs \<le> lim"
      "within room lim ops (max (length c) (p + length bs)) (p + length bs)" "within room lim ops (length c) p"
      using Cons.prems(2) by auto
    obtain ok s1 where s1: "store bs s = Some (ok, s1)"
      "if ok then at s1 (overwrite p bs c) (p + length bs) else at s1 c p" using store_at [OF Cons.prems(1) w(1-3)] by blast
    define c1 p1 where "c1 = (if ok then overwrite p bs c else c)" and "p1 = (if ok then p + length bs else p)"
    have "at s1 c1 p1" "within room lim ops (length c1) p1"
      using s1(2) w by (auto simp: c1_def p1_def length_overwrite)
    from Cons.IH [OF this] show ?thesis using s1(1) by (fastforce simp: Store c1_def p1_def)
  next
    case (Fetch n)
    let ?bs = "take n (drop p c)"
    have w: "n \<le> room" "within room lim ops (length c) (p + length ?bs)"
      using Cons.prems(2) Fetch by (auto simp: min.commute)
    obtain s1 where s1: "fetch n s = (?bs, s1)" "at s1 c (p + length ?bs)" using fetch_at [OF Cons.prems(1) w(1)] by blast
    from Cons.IH [OF s1(2) w(2)] show ?thesis using s1(1) by (fastforce simp: Fetch)
  next
    case (Goto q)
    then have "at (goto q s) c q" "within room lim ops (length c) q" using Cons.prems goto_at by auto
    from Cons.IH [OF this] show ?thesis by (fastforce simp: Goto)
  qed
qed auto

end

end
