(* ===== verification/FileIo.thy ===== *)
theory FileIo
  imports Initramfs PosFile
begin

section \<open>Files keep what is written to them\<close>

text \<open>
  The handles of src/fs_tmpfs.c and src/fs_initramfs.c satisfy the contract of a file with a position. The
  file's bytes are a heap block; the caller's buffer lies in another block it holds, so by the heap's invariant
  the two do not overlap, and neither does the block a growing file moves to. Files and positions are bounded
  by 2 GiB, below which no length or capacity is cut when it becomes an \<open>unsigned int\<close>.
\<close>

subsection \<open>Words\<close>

definition FILE_LIM :: nat where "FILE_LIM = 2 ^ 31"

lemma unat_of_nat64: "n < 2 ^ 64 \<Longrightarrow> unat (of_nat n :: u64) = n"
  by (simp add: unat_of_nat)

lemma of_nat_less64: "a < 2 ^ 64 \<Longrightarrow> b < 2 ^ 64 \<Longrightarrow> (of_nat a :: u64) < of_nat b \<longleftrightarrow> a < b"
  by (simp add: word_less_nat_alt unat_of_nat)

lemma of_nat_le64: "a < 2 ^ 64 \<Longrightarrow> b < 2 ^ 64 \<Longrightarrow> (of_nat a :: u64) \<le> of_nat b \<longleftrightarrow> a \<le> b"
  by (simp add: word_le_nat_alt unat_of_nat)

lemma ucast_of_nat32: "ucast (of_nat n :: u64) = (of_nat n :: u32)"
  by (rule bit_word_eqI) (simp add: bit_simps)

lemma unat_ucast32: "n < 2 ^ 32 \<Longrightarrow> unat (ucast (of_nat n :: u64) :: u32) = n"
  unfolding ucast_of_nat32 by (simp add: unat_of_nat)

lemma ret_len_of_nat: "n < 2 ^ 31 \<Longrightarrow> ret_len (of_nat n) = int n"
  by (simp add: ret_len_def to_s32_def uint_nat unat_of_nat64 signed_take_bit_int_eq_self)

lemma sint_of_nat64: "n < 2 ^ 63 \<Longrightarrow> sint (of_nat n :: u64) = int n"
  by (simp add: sint_uint uint_nat unat_of_nat64 signed_take_bit_int_eq_self)

text \<open>Doubling reaches any size up to 2 GiB, and stays below 4 GiB.\<close>

lemma grow_ok:
  assumes "0 < c" "r \<le> FILE_LIM" "c < 2 ^ 32"
  shows "\<exists>k. grow (of_nat r) (of_nat c) = Some (of_nat k) \<and> r \<le> k \<and> c \<le> k \<and> k < 2 ^ 32"
  using assms
proof (induction "r - c" arbitrary: c rule: less_induct)
  case less
  show ?case
  proof (cases "c < r")
    case False
    then have "grow (of_nat r) (of_nat c) = Some (of_nat c)"
      using less.prems by (subst grow.simps) (simp add: of_nat_less64 FILE_LIM_def)
    then show ?thesis using False less.prems by (intro exI [of _ c]) auto
  next
    case True
    then have "\<exists>k. grow (of_nat r) (of_nat (c * 2)) = Some (of_nat k) \<and> r \<le> k \<and> c * 2 \<le> k \<and> k < 2 ^ 32"
      using less.prems by (intro less.hyps) (auto simp: FILE_LIM_def)
    then obtain k where k: "grow (of_nat r) (of_nat (c * 2)) = Some (of_nat k)" "r \<le> k" "c * 2 \<le> k" "k < 2 ^ 32" by blast
    have "grow (of_nat r) (of_nat c) = grow (of_nat r) (of_nat c * 2)"
      using True less.prems by (subst grow.simps) (simp add: of_nat_less64 FILE_LIM_def)
    then show ?thesis using k by (intro exI [of _ k]) (auto simp: mult.commute)
  qed
qed

subsection \<open>An open file\<close>

text \<open>The handle \<open>fp\<close> is open on the file with contents \<open>c\<close> at position \<open>p\<close>.\<close>

definition open_at :: "addr \<Rightarrow> fs \<Rightarrow> byte list \<Rightarrow> nat \<Rightarrow> bool" where
  "open_at fp s c p \<longleftrightarrow> \<not> bad_handle fp s \<and>
     (let n = fsnodes s (file_node fp s) in
        n_type n = NODE_FILE \<and> n_data n \<noteq> NULL \<and> n_size n = of_nat (length c) \<and> n_size n \<le> n_capacity n \<and>
        unat (n_capacity n) < 2 ^ 32 \<and> mem_bytes (fs_mem s) (n_data n) (length c) = c) \<and>
     f_pos (files s fp) = of_nat p \<and> length c \<le> FILE_LIM \<and> p \<le> FILE_LIM"

text \<open>
  With the blocks: the file's data is a block apart from those of \<open>R\<close>, one of which holds the buffer of
  \<open>bl\<close> bytes at \<open>buf\<close>.
\<close>

definition file_at :: "layout \<Rightarrow> nat set \<Rightarrow> region list \<Rightarrow> addr \<Rightarrow> addr \<Rightarrow> nat \<Rightarrow> fs \<Rightarrow> byte list \<Rightarrow> nat \<Rightarrow> bool" where
  "file_at L M R fp buf bl s c p \<longleftrightarrow> open_at fp s c p \<and>
     (\<exists>l. unat (n_capacity (fsnodes s (file_node fp s))) \<le> l \<and>
          heap_inv L M (fs_heap s) ((n_data (fsnodes s (file_node fp s)), l) # R)) \<and>
     buf \<noteq> NULL \<and> bl < 2 ^ 31 \<and> (\<exists>r \<in> set R. bytes (buf, bl) \<subseteq> bytes r)"

lemma apart_intervals:
  "apart (a, n) (b, m) \<Longrightarrow> 0 < n \<Longrightarrow> 0 < m \<Longrightarrow> a + n \<le> b \<or> b + m \<le> a"
proof -
  assume h: "apart (a, n) (b, m)" "0 < n" "0 < m"
  have "max a b \<notin> {a ..< a + n} \<inter> {b ..< b + m}" using h(1) unfolding apart_def bytes_def by auto
  then show ?thesis using h(2,3) by (auto simp: max_def split: if_splits)
qed

lemma apart_sub: "apart r q \<Longrightarrow> bytes t \<subseteq> bytes q \<Longrightarrow> apart r t"
  by (auto simp: apart_def)

lemma buffer_apart:
  assumes "heap_inv L M h ((d, l) # R)" "r \<in> set R" "bytes (buf, bl) \<subseteq> bytes r" "0 < l" "0 < bl"
  shows "d + l \<le> buf \<or> buf + bl \<le> d"
proof -
  have "apart (d, l) r" using heap_alloc.inv_apart [OF assms(1)] assms(2) by simp
  then show ?thesis using apart_intervals [OF apart_sub [OF _ assms(3)] assms(4,5)] by blast
qed

lemma fs_mem_heap [simp]: "fs_mem (s\<lparr>fs_heap := h\<rparr>) = fs_mem s"
  by (simp add: fs_mem_def)

lemma put_mem_sel [simp]:
  "fs_mem (put_mem m s) = m" "fs_heap (put_mem m s) = fs_heap s" "files (put_mem m s) = files s"
  "vnodes (put_mem m s) = vnodes s" "fsnodes (put_mem m s) = fsnodes s"
  by (simp_all add: put_mem_def fs_mem_def)

lemma upd_file_sel [simp]:
  "fs_mem (upd_file a f s) = fs_mem s" "fs_heap (upd_file a f s) = fs_heap s"
  "files (upd_file a f s) = (files s)(a := f (files s a))"
  "vnodes (upd_file a f s) = vnodes s" "fsnodes (upd_file a f s) = fsnodes s"
  by (simp_all add: upd_file_def fs_mem_def)

lemma upd_node_sel [simp]:
  "fs_mem (upd_node a g s) = fs_mem s" "fs_heap (upd_node a g s) = fs_heap s" "files (upd_node a g s) = files s"
  "vnodes (upd_node a g s) = vnodes s" "fsnodes (upd_node a g s) = (fsnodes s)(a := g (fsnodes s a))"
  by (simp_all add: upd_node_def fs_mem_def)

lemma upd_vnode_sel [simp]:
  "fs_mem (upd_vnode a h s) = fs_mem s" "fs_heap (upd_vnode a h s) = fs_heap s" "files (upd_vnode a h s) = files s"
  "vnodes (upd_vnode a h s) = (vnodes s)(a := h (vnodes s a))" "fsnodes (upd_vnode a h s) = fsnodes s"
  by (simp_all add: upd_vnode_def fs_mem_def)

subsection \<open>Reading and seeking\<close>

lemma initramfs_read_eq: "initramfs_read = tmpfs_read"
  by (simp add: fun_eq_iff initramfs_read_def tmpfs_read_def)

lemma initramfs_lseek64_eq: "initramfs_lseek64 = tmpfs_lseek64"
  by (simp add: fun_eq_iff initramfs_lseek64_def tmpfs_lseek64_def)

lemma read_at:
  assumes f: "file_at L M R fp buf bl s c p" and n: "n \<le> bl"
  defines "bs \<equiv> take n (drop p c)"
  shows "\<exists>s'. tmpfs_read fp buf (of_nat n) s = (int (length bs), s') \<and> mem_bytes (fs_mem s') buf (length bs) = bs \<and>
     file_at L M R fp buf bl s' c (p + length bs)"
proof -
  let ?nd = "fsnodes s (file_node fp s)"
  let ?d = "n_data ?nd"
  have o: "\<not> bad_handle fp s" "n_type ?nd = NODE_FILE" "n_size ?nd = of_nat (length c)"
    "n_size ?nd \<le> n_capacity ?nd" "mem_bytes (fs_mem s) ?d (length c) = c" "f_pos (files s fp) = of_nat p"
    "length c \<le> FILE_LIM" "p \<le> FILE_LIM" "buf \<noteq> NULL" "bl < 2 ^ 31"
    using f by (auto simp: file_at_def open_at_def Let_def)
  obtain l r where h: "unat (n_capacity ?nd) \<le> l" "heap_inv L M (fs_heap s) ((?d, l) # R)" "r \<in> set R"
    "bytes (buf, bl) \<subseteq> bytes r" using f by (auto simp: file_at_def)
  have cl: "length c \<le> l"
    using h(1) o(3,4,7) by (simp add: word_le_nat_alt unat_of_nat64 FILE_LIM_def)
  show ?thesis
  proof (cases "n = 0 \<or> length c \<le> p")
    case True
    have l64: "(of_nat n :: u64) = 0 \<longleftrightarrow> n = 0" using of_nat_le64 [of n 0] n o(10) by simp
    have "bs = []" using True by (auto simp: bs_def)
    moreover have "tmpfs_read fp buf (of_nat n) s = (0, s)"
      using True o l64 by (auto simp: tmpfs_read_def Let_def of_nat_le64 FILE_LIM_def)
    ultimately show ?thesis using f by (simp add: mem_bytes_def)
  next
    case False
    let ?k = "length bs"
    have k: "?k = min n (length c - p)" "0 < ?k" "?k \<le> n" "p + ?k \<le> length c" using False by (auto simp: bs_def)
    have n64: "(of_nat n :: u64) \<noteq> 0" using of_nat_le64 [of n 0] n o(10) False by simp
    have rl: "(if n_size ?nd < f_pos (files s fp) + of_nat n then n_size ?nd - f_pos (files s fp) else of_nat n) = (of_nat ?k :: u64)"
    proof -
      have a: "f_pos (files s fp) + of_nat n = (of_nat (p + n) :: u64)" using o(6) by simp
      have b: "n_size ?nd < of_nat (p + n) \<longleftrightarrow> length c < p + n"
        unfolding o(3) by (rule of_nat_less64) (use o n in \<open>simp_all add: FILE_LIM_def\<close>)
      have d: "n_size ?nd - f_pos (files s fp) = of_nat (length c - p)"
        unfolding o(3,6) using False by (simp add: of_nat_diff)
      show ?thesis
      proof (cases "length c < p + n")
        case True
        then have "?k = length c - p" using k(1) by simp
        then show ?thesis unfolding a d using b True by simp
      next
        case False
        then have "?k = n" using k(1) by simp
        then show ?thesis unfolding a using b False by simp
      qed
    qed
    let ?s1 = "put_mem (memcpy buf (?d + p) (of_nat ?k) (fs_mem s)) s"
    let ?s2 = "upd_file fp (\<lambda>f. f\<lparr>f_pos := of_nat p + of_nat ?k\<rparr>) ?s1"
    have small: "?k < 2 ^ 31" "?k < 2 ^ 32" using k(3) n o(10) by auto
    have up: "unat (f_pos (files s fp)) = p" using o(6,8) by (simp add: unat_of_nat64 FILE_LIM_def)
    have up2: "unat (of_nat p :: u64) = p" using o(8) by (simp add: unat_of_nat64 FILE_LIM_def)
    have nsz: "\<not> n_size ?nd \<le> f_pos (files s fp)"
      using False o(3,6,7,8) by (simp add: of_nat_le64 FILE_LIM_def)
    have e: "tmpfs_read fp buf (of_nat n) s = (int ?k, ?s2)"
      using o(1,2,9) n64 nsz unfolding tmpfs_read_def Let_def rl
      by (simp add: o(6) up2 ucast_of_nat32 ret_len_of_nat [OF small(1)])
    have u: "unat (of_nat ?k :: u32) = ?k" using small by (simp add: unat_of_nat)
    have ap: "?d + l \<le> buf \<or> buf + bl \<le> ?d"
      using buffer_apart [OF h(2-4)] cl k n by linarith
    then have cp: "buf + unat (of_nat ?k :: u32) \<le> ?d + p \<or> ?d + p + unat (of_nat ?k :: u32) \<le> buf"
      unfolding u using cl k n by linarith
    have "mem_bytes (fs_mem ?s2) buf ?k = mem_bytes (fs_mem s) (?d + p) ?k"
      using memcpy_bytes [OF cp, of "fs_mem s"] unfolding u by simp
    also have "\<dots> = bs"
    proof (rule nth_equalityI)
      fix i assume "i < length (mem_bytes (fs_mem s) (?d + p) ?k)"
      then have i: "i < ?k" by simp
      have "fs_mem s (?d + (p + i)) = c ! (p + i)" using o(5) i k(4) nth_mem_bytes [of "p + i" "length c" "fs_mem s" ?d] by simp
      then show "mem_bytes (fs_mem s) (?d + p) ?k ! i = bs ! i" using i k(4) by (simp add: bs_def add.assoc)
    qed simp
    finally have b: "mem_bytes (fs_mem ?s2) buf ?k = bs" .
    have "mem_bytes (fs_mem ?s2) ?d (length c) = c"
    proof -
      have keep: "fs_mem ?s2 x = fs_mem s x" if "x < buf \<or> buf + ?k \<le> x" for x
        unfolding upd_file_sel put_mem_sel memcpy_at [OF cp] u using that by auto
      have "mem_bytes (fs_mem ?s2) ?d (length c) = mem_bytes (fs_mem s) ?d (length c)"
      proof (rule mem_bytes_eqI, rule keep)
        fix i assume "i < length c"
        then show "?d + i < buf \<or> buf + ?k \<le> ?d + i" using ap cl k(3) n by linarith
      qed
      then show ?thesis using o(5) by simp
    qed
    then have "file_at L M R fp buf bl ?s2 c (p + ?k)"
      using f k(4) o(7,8) by (auto simp: file_at_def open_at_def Let_def bad_handle_def file_node_def)
    then show ?thesis using e b by blast
  qed
qed

lemma seek_at:
  assumes f: "file_at L M R fp buf bl s c p" and q: "q \<le> FILE_LIM"
  shows "\<exists>s'. tmpfs_lseek64 fp (of_nat q) SEEK_SET s = (int q, s') \<and> file_at L M R fp buf bl s' c q"
proof -
  have o: "\<not> bad_handle fp s" "n_type (fsnodes s (file_node fp s)) = NODE_FILE"
    using f by (auto simp: file_at_def open_at_def Let_def)
  let ?s = "upd_file fp (\<lambda>f. f\<lparr>f_pos := of_nat q\<rparr>) s"
  have "tmpfs_lseek64 fp (of_nat q) SEEK_SET s = (int q, ?s)"
    using o q sint_of_nat64 [of q] by (simp add: tmpfs_lseek64_def seek_def FILE_LIM_def)
  moreover have "file_at L M R fp buf bl ?s c q"
    using f q by (auto simp: file_at_def open_at_def Let_def bad_handle_def file_node_def)
  ultimately show ?thesis by blast
qed

subsection \<open>Writing\<close>

lemma bind_to_map: "Option.bind x (\<lambda>s. Some (f s)) = map_option f x"
  by (cases x) simp_all

text \<open>Making room: the contents stay, in a block that is large enough.\<close>

lemma reserve_at:
  assumes f: "file_at L M R fp buf bl s c p" and q: "q \<le> FILE_LIM"
  shows "\<exists>ok s'. tmpfs_reserve L (file_node fp s) (of_nat q) s = Some (ok, s') \<and> file_at L M R fp buf bl s' c p \<and>
     file_node fp s' = file_node fp s \<and> mem_bytes (fs_mem s') buf bl = mem_bytes (fs_mem s) buf bl \<and>
     (ok \<longrightarrow> q \<le> unat (n_capacity (fsnodes s' (file_node fp s))))"
proof -
  let ?n = "file_node fp s"
  let ?nd = "fsnodes s ?n"
  let ?d = "n_data ?nd"
  have o: "n_size ?nd = of_nat (length c)" "unat (n_capacity ?nd) < 2 ^ 32" "?d \<noteq> NULL"
    "n_size ?nd \<le> n_capacity ?nd" "mem_bytes (fs_mem s) ?d (length c) = c" "length c \<le> FILE_LIM"
    using f by (auto simp: file_at_def open_at_def Let_def)
  obtain l r where h: "unat (n_capacity ?nd) \<le> l" "heap_inv L M (fs_heap s) ((?d, l) # R)" "r \<in> set R"
    "bytes (buf, bl) \<subseteq> bytes r" using f by (auto simp: file_at_def)
  have cl: "length c \<le> unat (n_capacity ?nd)"
    using o(1,4,6) by (simp add: word_le_nat_alt unat_of_nat64 FILE_LIM_def)
  define c0 where "c0 = unat (n_capacity ?nd)"
  have c0: "n_capacity ?nd = of_nat c0" "c0 < 2 ^ 32" using o(2) by (simp_all add: c0_def)
  have le: "of_nat q \<le> n_capacity ?nd \<longleftrightarrow> q \<le> c0"
    unfolding c0(1) using q c0(2) by (simp add: of_nat_le64 FILE_LIM_def)
  show ?thesis
  proof (cases "q \<le> c0")
    case True
    then have "tmpfs_reserve L ?n (of_nat q) s = Some (True, s)" using le by (simp add: tmpfs_reserve_def Let_def)
    then show ?thesis using f True by (intro exI [of _ True] exI [of _ s]) (simp add: c0_def)
  next
    case False
    let ?g = "if 0 < c0 then c0 else 4096"
    have g: "(if 0 < n_capacity ?nd then n_capacity ?nd else DEFAULT_FILE_SIZE) = of_nat ?g"
      unfolding c0(1) using of_nat_less64 [of 0 c0] c0(2) by (simp add: DEFAULT_FILE_SIZE_def)
    obtain k where k: "grow (of_nat q) (of_nat ?g) = Some (of_nat k)" "q \<le> k" "k < 2 ^ 32"
    proof -
      have "0 < ?g" "?g < 2 ^ 32" using c0(2) by simp_all
      from grow_ok [OF this(1) q this(2)] show ?thesis using that by blast
    qed
    have kc: "\<not> of_nat k \<le> n_capacity ?nd"
      unfolding c0(1) using k(2,3) c0(2) False by (simp add: of_nat_le64)
    have uk: "unat (ucast (of_nat k :: u64) :: u32) = k" by (rule unat_ucast32 [OF k(3)])
    obtain d' hh where a: "alloc (ucast (of_nat k :: u64)) (fs_heap s) = Some (d', hh)"
      "d' = NULL \<longrightarrow> heap_inv L M hh ((?d, l) # R)"
      "d' \<noteq> NULL \<longrightarrow> (\<exists>l' \<ge> k. heap_inv L M hh ((d', l') # (?d, l) # R))"
      using heap_inv_alloc [OF h(2), of "ucast (of_nat k :: u64)"] unfolding uk by blast
    let ?s1 = "s\<lparr>fs_heap := hh\<rparr>"
    have fa: "fs_alloc (ucast (of_nat k :: u64)) s = Some (d', ?s1)" using a(1) by (simp add: fs_alloc_def)
    have red: "tmpfs_reserve L ?n (of_nat q) s =
       (if d' = NULL then Some (False, ?s1)
        else map_option (\<lambda>t. (True, upd_node ?n (\<lambda>x. x\<lparr>n_data := d', n_capacity := of_nat k\<rparr>) t))
               (fs_free L ?d (put_mem (memcpy d' ?d (ucast (n_size ?nd)) (fs_mem ?s1)) ?s1)))"
      using le False g k(1) kc fa o(3)
      by (simp add: tmpfs_reserve_def Let_def bind_to_map del: unsigned_of_nat)
    have s1: "fs_mem ?s1 = fs_mem s" "file_node fp ?s1 = ?n" "bad_handle fp ?s1 = bad_handle fp s"
      by (simp_all add: fs_mem_def file_node_def bad_handle_def)
    show ?thesis
    proof (cases "d' = NULL")
      case True
      then have "file_at L M R fp buf bl ?s1 c p"
        using f h a(2) s1 by (auto simp: file_at_def open_at_def Let_def)
      then show ?thesis using red True s1 by (intro exI [of _ False] exI [of _ ?s1]) simp
    next
      case nn: False
      obtain l' where l': "k \<le> l'" "heap_inv L M hh ((d', l') # (?d, l) # R)" using a(3) nn by blast
      let ?m = "memcpy d' ?d (ucast (n_size ?nd)) (fs_mem s)"
      let ?s2 = "put_mem ?m ?s1"
      obtain h2 where h2: "free L ?d hh = Some h2" "heap_inv L M h2 ((d', l') # R)"
        using heap_inv_free [OF l'(2), of 1] by (auto simp: drop_nth_def)
      have fr: "fs_free L ?d ?s2 = Some (?s2\<lparr>fs_heap := h2\<rparr>)" using h2(1) by (simp add: fs_free_def)
      let ?s3 = "upd_node ?n (\<lambda>x. x\<lparr>n_data := d', n_capacity := of_nat k\<rparr>) (?s2\<lparr>fs_heap := h2\<rparr>)"
      have red2: "tmpfs_reserve L ?n (of_nat q) s = Some (True, ?s3)" using red nn fr s1(1) by simp
      have us: "unat (ucast (n_size ?nd) :: u32) = length c"
        unfolding o(1) using o(6) by (intro unat_ucast32) (simp add: FILE_LIM_def)
      have ap: "d' + l' \<le> ?d \<or> ?d + l \<le> d'" if "0 < length c"
      proof -
        have "apart (d', l') (?d, l)" using heap_alloc.inv_apart [OF l'(2)] by simp
        moreover have "0 < l'" using l'(1) k(2) False by linarith
        moreover have "0 < l" using that cl h(1) by linarith
        ultimately show ?thesis using apart_intervals by blast
      qed
      have cp: "d' + unat (ucast (n_size ?nd) :: u32) \<le> ?d \<or> ?d + unat (ucast (n_size ?nd) :: u32) \<le> d'"
        unfolding us using ap cl h(1) l'(1) k(2) False c0_def by (cases "length c = 0") auto
      have m3: "fs_mem ?s3 = ?m" by simp
      have c3: "mem_bytes (fs_mem ?s3) d' (length c) = c"
        using memcpy_bytes [OF cp, of "fs_mem s"] o(5) unfolding us m3 by simp
      have ab: "d' + l' \<le> buf \<or> buf + bl \<le> d'" if "0 < bl"
      proof -
        have "heap_inv L M h2 ((d', l') # R)" by (rule h2(2))
        then show ?thesis using buffer_apart [OF _ h(3,4) _ that] l'(1) k(2) False by simp
      qed
      have b3: "mem_bytes (fs_mem ?s3) buf bl = mem_bytes (fs_mem s) buf bl"
        unfolding m3 using ab l'(1) k(2) cl False c0_def
        by (intro mem_bytes_eqI) (auto simp: memcpy_at [OF cp] us)
      have n3: "fsnodes ?s3 ?n = ?nd\<lparr>n_data := d', n_capacity := of_nat k\<rparr>" "file_node fp ?s3 = ?n"
        "bad_handle fp ?s3 = bad_handle fp s" "f_pos (files ?s3 fp) = f_pos (files s fp)" "fs_heap ?s3 = h2"
        by (simp_all add: file_node_def bad_handle_def put_mem_def upd_node_def)
      have u64: "unat (of_nat k :: u64) = k" using k(3) by (simp add: unat_of_nat64)
      have "n_size ?nd \<le> of_nat k"
        using o(1,6) k(2,3) cl False c0_def by (simp add: of_nat_le64 FILE_LIM_def)
      then have "open_at fp ?s3 c p"
        using f n3 nn c3 u64 k(3) by (simp add: file_at_def open_at_def Let_def)
      then have "file_at L M R fp buf bl ?s3 c p"
        using f n3 u64 l'(1) h2(2) by (auto simp: file_at_def)
      then show ?thesis using red2 n3 b3 u64 k(2) by auto
    qed
  qed
qed

lemma write_at:
  assumes f: "file_at L M R fp buf bl s c p" and len: "length bs \<le> bl" and p: "p \<le> length c"
    and lim: "p + length bs \<le> FILE_LIM" and b: "mem_bytes (fs_mem s) buf (length bs) = bs"
  shows "\<exists>r s'. tmpfs_write L fp buf (of_nat (length bs)) s = Some (r, s') \<and>
     (if r < 0 then r = ENOMEM_VFS \<and> file_at L M R fp buf bl s' c p
      else r = int (length bs) \<and> file_at L M R fp buf bl s' (overwrite p bs c) (p + length bs))"
proof (cases "bs = []")
  case True
  then show ?thesis using f
    by (intro exI [of _ 0] exI [of _ s]) (auto simp: tmpfs_write_def file_at_def open_at_def)
next
  case False
  let ?k = "length bs" and ?n = "file_node fp s"
  have o: "\<not> bad_handle fp s" "n_type (fsnodes s ?n) = NODE_FILE" "f_pos (files s fp) = of_nat p" "buf \<noteq> NULL"
    "bl < 2 ^ 31" using f by (auto simp: file_at_def open_at_def Let_def)
  have k: "0 < ?k" "?k < 2 ^ 31" using False len o(5) by auto
  have k0: "(of_nat ?k :: u64) \<noteq> 0" using of_nat_le64 [of ?k 0] k by simp
  obtain ok s1 where s1: "tmpfs_reserve L ?n (of_nat (p + ?k)) s = Some (ok, s1)" "file_at L M R fp buf bl s1 c p"
    "file_node fp s1 = ?n" "mem_bytes (fs_mem s1) buf bl = mem_bytes (fs_mem s) buf bl"
    "ok \<Longrightarrow> p + ?k \<le> unat (n_capacity (fsnodes s1 ?n))" using reserve_at [OF f lim] by blast
  have e: "tmpfs_write L fp buf (of_nat ?k) s =
     (if \<not> ok then Some (ENOMEM_VFS, s1)
      else
        let pos = f_pos (files s1 fp);
            s2 = put_mem (memcpy (n_data (fsnodes s1 ?n) + unat pos) buf (ucast (of_nat ?k :: u64)) (fs_mem s1)) s1;
            s3 = upd_file fp (\<lambda>f. f\<lparr>f_pos := pos + of_nat ?k\<rparr>) s2;
            s4 = (if n_size (fsnodes s3 ?n) < pos + of_nat ?k then upd_node ?n (\<lambda>x. x\<lparr>n_size := pos + of_nat ?k\<rparr>) s3 else s3)
        in Some (ret_len (of_nat ?k), s4))"
    using o k0 s1(1) by (simp add: tmpfs_write_def Let_def)
  show ?thesis
  proof (cases ok)
    case False
    then show ?thesis using e s1(2) by simp
  next
    case True
    let ?nd = "fsnodes s1 ?n"
    let ?d = "n_data ?nd"
    have q: "n_size ?nd = of_nat (length c)" "?d \<noteq> NULL" "f_pos (files s1 fp) = of_nat p" "length c \<le> FILE_LIM"
      "mem_bytes (fs_mem s1) ?d (length c) = c" "unat (n_capacity ?nd) < 2 ^ 32" "n_size ?nd \<le> n_capacity ?nd"
      "n_type ?nd = NODE_FILE" "\<not> bad_handle fp s1"
      using s1(2,3) by (auto simp: file_at_def open_at_def Let_def)
    obtain l r where h: "unat (n_capacity ?nd) \<le> l" "heap_inv L M (fs_heap s1) ((?d, l) # R)" "r \<in> set R"
      "bytes (buf, bl) \<subseteq> bytes r" using s1(2,3) by (auto simp: file_at_def)
    have cl: "p + ?k \<le> l" "length c \<le> l" "p + ?k \<le> unat (n_capacity ?nd)"
      using s1(5) [OF True] h(1) q(1,4,7) by (simp_all add: word_le_nat_alt unat_of_nat64 FILE_LIM_def)
    have up: "unat (of_nat p :: u64) = p" using lim by (simp add: unat_of_nat64 FILE_LIM_def)
    have uk: "unat (ucast (of_nat ?k :: u64) :: u32) = ?k" using k(2) by (intro unat_ucast32) simp
    have ap: "?d + l \<le> buf \<or> buf + bl \<le> ?d" using buffer_apart [OF h(2-4)] cl k(1) len by linarith
    have cp: "?d + p + unat (ucast (of_nat ?k :: u64) :: u32) \<le> buf \<or> buf + unat (ucast (of_nat ?k :: u64) :: u32) \<le> ?d + p"
      unfolding uk using ap cl len by linarith
    let ?m = "memcpy (?d + p) buf (ucast (of_nat ?k :: u64)) (fs_mem s1)"
    have bs: "fs_mem s1 (buf + i) = bs ! i" if "i < ?k" for i
    proof -
      have "fs_mem s1 (buf + i) = fs_mem s (buf + i)"
        using s1(4) that len nth_mem_bytes [of i bl "fs_mem s1" buf] nth_mem_bytes [of i bl "fs_mem s" buf] by simp
      also have "\<dots> = bs ! i" using b that nth_mem_bytes [of i ?k "fs_mem s" buf] by simp
      finally show ?thesis .
    qed
    have at: "?m (?d + i) = overwrite p bs c ! i" if "i < length (overwrite p bs c)" for i
    proof -
      have i: "i < max (length c) (p + ?k)" using that length_overwrite [OF p] by simp
      show ?thesis
      proof (cases "p \<le> i \<and> i < p + ?k")
        case True
        then have "?m (?d + i) = fs_mem s1 (buf + (i - p))" using uk by (simp add: memcpy_at [OF cp])
        moreover have "i - p < ?k" using True by linarith
        ultimately show ?thesis using True i bs [of "i - p"] by (simp only: nth_overwrite [OF p] if_True simp_thms)
      next
        case False
        then have ow: "overwrite p bs c ! i = c ! i" by (simp only: nth_overwrite [OF p i] if_False)
        have "i < length c" using False i p by auto
        moreover have "?m (?d + i) = fs_mem s1 (?d + i)" using False uk by (auto simp: memcpy_at [OF cp])
        ultimately show ?thesis
          using ow q(5) nth_mem_bytes [of i "length c" "fs_mem s1" ?d] by simp
      qed
    qed
    define s4 where "s4 = (let
            s2 = put_mem ?m s1;
            s3 = upd_file fp (\<lambda>f. f\<lparr>f_pos := of_nat (p + ?k)\<rparr>) s2
        in (if n_size (fsnodes s3 ?n) < of_nat (p + ?k) then upd_node ?n (\<lambda>x. x\<lparr>n_size := of_nat (p + ?k)\<rparr>) s3 else s3))"
    have res: "tmpfs_write L fp buf (of_nat ?k) s = Some (int ?k, s4)"
      using e True q(3) up ret_len_of_nat [OF k(2)] by (simp add: s4_def Let_def)
    have sz: "n_size ?nd < of_nat (p + ?k) \<longleftrightarrow> length c < p + ?k"
      unfolding q(1) using q(4) lim by (intro of_nat_less64) (simp_all add: FILE_LIM_def)
    have nd: "fsnodes s4 ?n = ?nd\<lparr>n_size := of_nat (max (length c) (p + ?k))\<rparr>"
      using sz q(1) by (auto simp: s4_def Let_def max_def)
    have s4: "file_node fp s4 = ?n" "bad_handle fp s4 = bad_handle fp s1" "f_pos (files s4 fp) = of_nat (p + ?k)"
      "fs_heap s4 = fs_heap s1" "fs_mem s4 = ?m"
      using s1(3) by (auto simp: s4_def Let_def file_node_def bad_handle_def)
    have len: "length (overwrite p bs c) = max (length c) (p + ?k)" by (rule length_overwrite [OF p])
    have "of_nat (max (length c) (p + ?k)) \<le> n_capacity ?nd"
      using cl(3) q(1,4,7) lim by (simp add: word_le_nat_alt unat_of_nat64 FILE_LIM_def max_def)
    moreover have "mem_bytes ?m ?d (length (overwrite p bs c)) = overwrite p bs c"
      by (rule nth_equalityI) (use at in simp_all)
    ultimately have "open_at fp s4 (overwrite p bs c) (p + ?k)"
      unfolding open_at_def Let_def s4 nd len using q s4 lim by (simp add: max_def)
    then have "file_at L M R fp buf bl s4 (overwrite p bs c) (p + ?k)"
      using s1(2,3) h(1,2) by (auto simp: file_at_def s4 nd)
    then show ?thesis using res by auto
  qed
qed

lemma write_fits:
  assumes f: "file_at L M R fp buf bl s c p" and len: "length bs \<le> bl"
    and fit: "p + length bs \<le> unat (n_capacity (fsnodes s (file_node fp s)))"
  shows "\<exists>s'. tmpfs_write L fp buf (of_nat (length bs)) s = Some (int (length bs), s')"
proof -
  let ?n = "file_node fp s"
  have o: "\<not> bad_handle fp s" "n_type (fsnodes s ?n) = NODE_FILE" "f_pos (files s fp) = of_nat p" "buf \<noteq> NULL"
    "bl < 2 ^ 31" "unat (n_capacity (fsnodes s ?n)) < 2 ^ 32" using f by (auto simp: file_at_def open_at_def Let_def)
  have k: "length bs < 2 ^ 31" using len o(5) by simp
  have "of_nat (p + length bs) \<le> n_capacity (fsnodes s ?n)"
  proof -
    have "unat (of_nat (p + length bs) :: u64) = p + length bs" using fit o(6) by (intro unat_of_nat64) simp
    then show ?thesis using fit by (simp only: word_le_nat_alt)
  qed
  then have "tmpfs_reserve L ?n (f_pos (files s fp) + of_nat (length bs)) s = Some (True, s)"
    by (simp add: tmpfs_reserve_def o(3))
  moreover have "ret_len 0 = 0" by (simp add: ret_len_def to_s32_def)
  ultimately show ?thesis using o ret_len_of_nat [OF k] by (auto simp: tmpfs_write_def Let_def)
qed

text \<open>A write that fits the capacity succeeds.\<close>

lemma write_fits_at:
  assumes f: "file_at L M R fp buf bl s c p" and len: "length bs \<le> bl" and p: "p \<le> length c"
    and lim: "p + length bs \<le> FILE_LIM" and b: "mem_bytes (fs_mem s) buf (length bs) = bs"
    and fit: "p + length bs \<le> unat (n_capacity (fsnodes s (file_node fp s)))"
  shows "\<exists>s'. tmpfs_write L fp buf (of_nat (length bs)) s = Some (int (length bs), s') \<and>
     file_at L M R fp buf bl s' (overwrite p bs c) (p + length bs)"
proof -
  obtain s' where s': "tmpfs_write L fp buf (of_nat (length bs)) s = Some (int (length bs), s')"
    using write_fits [OF f len fit] by blast
  obtain r t where "tmpfs_write L fp buf (of_nat (length bs)) s = Some (r, t)"
    "if r < 0 then r = ENOMEM_VFS \<and> file_at L M R fp buf bl t c p
     else r = int (length bs) \<and> file_at L M R fp buf bl t (overwrite p bs c) (p + length bs)"
    using write_at [OF f len p lim b] by blast
  then have "file_at L M R fp buf bl s' (overwrite p bs c) (p + length bs)" unfolding s' by (auto split: if_splits)
  then show ?thesis using s' by blast
qed

subsection \<open>The two file systems keep the contract\<close>

text \<open>The operations on a handle with a buffer: what a reader finds in the buffer, and what a writer has put there.\<close>

definition tmpfs_fetch :: "addr \<Rightarrow> addr \<Rightarrow> nat \<Rightarrow> nat \<Rightarrow> fs \<Rightarrow> byte list \<times> fs" where
  "tmpfs_fetch fp buf bl n s =
     (case tmpfs_read fp buf (of_nat (min n bl)) s of (r, s') \<Rightarrow> (mem_bytes (fs_mem s') buf (nat r), s'))"

definition tmpfs_goto :: "addr \<Rightarrow> nat \<Rightarrow> fs \<Rightarrow> fs" where
  "tmpfs_goto fp q s = snd (tmpfs_lseek64 fp (of_nat q) SEEK_SET s)"

definition tmpfs_store :: "layout \<Rightarrow> addr \<Rightarrow> addr \<Rightarrow> byte list \<Rightarrow> fs \<Rightarrow> (bool \<times> fs) option" where
  "tmpfs_store L fp buf bs s =
     map_option (\<lambda>(r, t). (0 \<le> r, t))
       (tmpfs_write L fp buf (of_nat (length bs)) (put_mem (put_bytes bs buf (fs_mem s)) s))"

lemma file_at_buffer:
  assumes f: "file_at L M R fp buf bl s c p" and len: "length bs \<le> bl"
  shows "file_at L M R fp buf bl (put_mem (put_bytes bs buf (fs_mem s)) s) c p"
proof -
  let ?nd = "fsnodes s (file_node fp s)"
  let ?t = "put_mem (put_bytes bs buf (fs_mem s)) s"
  obtain l r where h: "unat (n_capacity ?nd) \<le> l" "heap_inv L M (fs_heap s) ((n_data ?nd, l) # R)" "r \<in> set R"
    "bytes (buf, bl) \<subseteq> bytes r" using f by (auto simp: file_at_def)
  have o: "n_size ?nd = of_nat (length c)" "n_size ?nd \<le> n_capacity ?nd" "length c \<le> FILE_LIM"
    using f by (auto simp: file_at_def open_at_def Let_def)
  then have cl: "length c \<le> l" using h(1) by (simp add: word_le_nat_alt unat_of_nat64 FILE_LIM_def)
  have "mem_bytes (fs_mem ?t) (n_data ?nd) (length c) = mem_bytes (fs_mem s) (n_data ?nd) (length c)"
    using buffer_apart [OF h(2-4)] cl len
    by (intro mem_bytes_eqI) (fastforce simp: put_bytes_at)
  moreover have "file_node fp ?t = file_node fp s" "bad_handle fp ?t = bad_handle fp s"
    by (simp_all add: file_node_def bad_handle_def)
  ultimately show ?thesis using f by (auto simp: file_at_def open_at_def Let_def)
qed

lemma fetch_at_ok:
  assumes "file_at L M R fp buf bl s c p" "n \<le> bl"
  shows "\<exists>s'. tmpfs_fetch fp buf bl n s = (take n (drop p c), s') \<and>
     file_at L M R fp buf bl s' c (p + length (take n (drop p c)))"
proof -
  obtain s' where s': "tmpfs_read fp buf (of_nat n) s = (int (length (take n (drop p c))), s')"
    "mem_bytes (fs_mem s') buf (length (take n (drop p c))) = take n (drop p c)"
    "file_at L M R fp buf bl s' c (p + length (take n (drop p c)))" using read_at [OF assms] by blast
  have "tmpfs_fetch fp buf bl n s = (take n (drop p c), s')"
    using s'(1,2) assms(2) by (simp add: tmpfs_fetch_def min_absorb1 del: length_take length_drop)
  then show ?thesis using s'(3) by blast
qed

definition initramfs_fetch :: "addr \<Rightarrow> addr \<Rightarrow> nat \<Rightarrow> nat \<Rightarrow> fs \<Rightarrow> byte list \<times> fs" where
  "initramfs_fetch fp buf bl n s =
     (case initramfs_read fp buf (of_nat (min n bl)) s of (r, s') \<Rightarrow> (mem_bytes (fs_mem s') buf (nat r), s'))"

definition initramfs_goto :: "addr \<Rightarrow> nat \<Rightarrow> fs \<Rightarrow> fs" where
  "initramfs_goto fp q s = snd (initramfs_lseek64 fp (of_nat q) SEEK_SET s)"

lemma initramfs_same: "initramfs_fetch = tmpfs_fetch" "initramfs_goto = tmpfs_goto"
  by (simp_all add: fun_eq_iff initramfs_fetch_def tmpfs_fetch_def initramfs_goto_def tmpfs_goto_def
    initramfs_read_eq initramfs_lseek64_eq)

lemma readable: "readable_file (file_at L M R fp buf bl) (tmpfs_fetch fp buf bl) (tmpfs_goto fp) bl FILE_LIM"
proof
  show "\<exists>s'. tmpfs_fetch fp buf bl n s = (take n (drop p c), s') \<and>
      file_at L M R fp buf bl s' c (p + length (take n (drop p c)))"
    if "file_at L M R fp buf bl s c p" "n \<le> bl" for s c p n using fetch_at_ok [OF that] .
  show "file_at L M R fp buf bl (tmpfs_goto fp q s) c q" if "file_at L M R fp buf bl s c p" "q \<le> FILE_LIM" for s c p q
    using seek_at [OF that] by (auto simp: tmpfs_goto_def)
qed

interpretation initramfs_file: readable_file "file_at L M R fp buf bl" "initramfs_fetch fp buf bl" "initramfs_goto fp" bl FILE_LIM
  for L M R fp buf bl
  unfolding initramfs_same by (rule readable)

interpretation tmpfs_file: positional_file "file_at L M R fp buf bl" "tmpfs_fetch fp buf bl" "tmpfs_goto fp" bl FILE_LIM
    "tmpfs_store L fp buf"
  for L M R fp buf bl
proof (intro positional_file.intro readable positional_file_axioms.intro)
  show "\<exists>ok s'. tmpfs_store L fp buf bs s = Some (ok, s') \<and>
      (if ok then file_at L M R fp buf bl s' (overwrite p bs c) (p + length bs) else file_at L M R fp buf bl s' c p)"
    if f: "file_at L M R fp buf bl s c p" and p: "p \<le> length c" and len: "length bs \<le> bl"
      and lim: "p + length bs \<le> FILE_LIM" for s c p bs
  proof -
    let ?t = "put_mem (put_bytes bs buf (fs_mem s)) s"
    have b: "mem_bytes (fs_mem ?t) buf (length bs) = bs"
      by (rule nth_equalityI) (simp_all add: put_bytes_at)
    obtain r s' where w: "tmpfs_write L fp buf (of_nat (length bs)) ?t = Some (r, s')"
      "if r < 0 then r = ENOMEM_VFS \<and> file_at L M R fp buf bl s' c p
       else r = int (length bs) \<and> file_at L M R fp buf bl s' (overwrite p bs c) (p + length bs)"
      using write_at [OF file_at_buffer [OF f len] len p lim b] by blast
    then show ?thesis by (auto simp: tmpfs_store_def split: if_splits)
  qed
qed

end
