(* ===== verification/Directory.thy ===== *)
theory Directory
  imports FileIo Room
begin

section \<open>Directories of the in-memory file system\<close>

text \<open>
  A name that has been created can be looked up, once, and creating it disturbs no other entry. The new vnode and node are fresh
  heap blocks, so they are none of those the directory already holds.
\<close>

definition owned :: "region list \<Rightarrow> addr \<Rightarrow> bool" where
  "owned R a \<longleftrightarrow> (\<exists>l > 0. (a, l) \<in> set R)"

lemma owned_Cons [simp]: "owned ((a, l) # R) b \<longleftrightarrow> (a = b \<and> 0 < l) \<or> owned R b"
  by (auto simp: owned_def)

lemma owned_mono: "owned R a \<Longrightarrow> set R \<subseteq> set R' \<Longrightarrow> owned R' a"
  by (auto simp: owned_def)

lemma fresh_block:
  assumes "heap_inv L M h ((p, k) # R)" "owned R a" "0 < k"
  shows "p \<noteq> a"
proof -
  obtain l where "(a, l) \<in> set R" "0 < l" using assms(2) by (auto simp: owned_def)
  then show ?thesis using heap_alloc.inv_apart [OF assms(1)] assms(3) by (auto simp: apart_def bytes_def)
qed

lemma fs_alloc_left:
  assumes "heap_inv L M (fs_heap s) R" "pages_left (h_mm (fs_heap s)) (Suc n)" "0 < sz" "unat sz \<le> PAGE_SIZE"
  shows "\<exists>p k h. fs_alloc sz s = Some (p, s\<lparr>fs_heap := h\<rparr>) \<and> p \<noteq> NULL \<and> unat sz \<le> k \<and> 0 < k \<and>
     heap_inv L M h ((p, k) # R) \<and> pages_left (h_mm h) n"
proof -
  obtain p k h where a: "alloc sz (fs_heap s) = Some (p, h)" "p \<noteq> NULL" "unat sz \<le> k" "heap_inv L M h ((p, k) # R)"
    "pages_left (h_mm h) n" using alloc_left [OF assms] by blast
  have "0 < k" using a(3) assms(3) by (simp add: word_less_nat_alt)
  then show ?thesis using a by (auto simp: fs_alloc_def)
qed

subsection \<open>New nodes\<close>

text \<open>What making a node leaves alone.\<close>

definition same_rest :: "fs \<Rightarrow> fs \<Rightarrow> bool" where
  "same_rest s s' \<longleftrightarrow> fs_uart s' = fs_uart s \<and> files s' = files s \<and> mounts s' = mounts s \<and> rootfs s' = rootfs s \<and>
     current s' = current s \<and> cwd s' = cwd s \<and> fd_table s' = fd_table s \<and>
     fstypes s' = fstypes s \<and> filesystems s' = filesystems s \<and> num_filesystems s' = num_filesystems s"

lemma same_rest_upd [simp]:
  "same_rest s (s\<lparr>fs_heap := h\<rparr>)" "same_rest s (upd_node i f t) = same_rest s t" "same_rest s (upd_vnode i g t) = same_rest s t"
  "same_rest s (t\<lparr>fs_heap := h\<rparr>) = same_rest s t"
  by (simp_all add: same_rest_def upd_node_def upd_vnode_def)

definition new_node :: "byte list \<Rightarrow> node_type \<Rightarrow> addr \<Rightarrow> fs_node \<Rightarrow> bool" where
  "new_node name ty par n \<longleftrightarrow> n_name n = name \<and> n_type n = ty \<and> n_parent n = par \<and> n_size n = 0 \<and> num_children n = 0 \<and>
     (ty = NODE_FILE \<longrightarrow> n_data n \<noteq> NULL \<and> n_capacity n = DEFAULT_FILE_SIZE)"

lemma create_node_ok:
  assumes inv: "heap_inv L M (fs_heap s) R" and left: "pages_left (h_mm (fs_heap s)) (n + 2)" and len: "length name < MAX_FILE_NAME"
  shows "\<exists>i s' R' nd. tmpfs_create_internal_node L name ty par s = Some (i, s') \<and> i \<noteq> NULL \<and>
     heap_inv L M (fs_heap s') R' \<and> set R \<subseteq> set R' \<and> owned R' i \<and> \<not> owned R i \<and> pages_left (h_mm (fs_heap s')) n \<and>
     vnodes s' = vnodes s \<and> same_rest s s' \<and> fsnodes s' = (fsnodes s)(i := nd) \<and> new_node name ty par nd \<and>
     (ty = NODE_FILE \<longrightarrow> (\<exists>k \<ge> 4096. (n_data nd, k) \<in> set R' - set R))"
proof -
  have "pages_left (h_mm (fs_heap s)) (Suc (n + 1))" using left by simp
  from fs_alloc_left [OF inv this, of NODE_SIZE] obtain i k h where
    a: "fs_alloc NODE_SIZE s = Some (i, s\<lparr>fs_heap := h\<rparr>)" "i \<noteq> NULL" "0 < k" "heap_inv L M h ((i, k) # R)"
      "pages_left (h_mm h) (n + 1)" by (auto simp: NODE_SIZE_def)
  have i: "\<not> owned R i" using fresh_block [OF a(4) _ a(3)] by blast
  let ?f = "\<lambda>n. n\<lparr>n_name := name, n_type := ty, n_parent := par, n_data := NULL, n_size := 0, n_capacity := 0,
    num_children := 0, n_children := \<lambda>i. if i < MAX_CHILDREN then NULL else n_children n i\<rparr>"
  let ?s2 = "upd_node i ?f (s\<lparr>fs_heap := h\<rparr>)"
  show ?thesis
  proof (cases "ty = NODE_FILE")
    case False
    then have "tmpfs_create_internal_node L name ty par s = Some (i, ?s2)"
      using a(1,2) len by (simp add: tmpfs_create_internal_node_def Let_def)
    then show ?thesis using a i False pages_left_mono [OF a(5), of n]
      by (intro exI [of _ i] exI [of _ ?s2] exI [of _ "(i, k) # R"] exI [of _ "?f (fsnodes s i)"])
         (auto simp: new_node_def cong: if_cong)
  next
    case True
    have "heap_inv L M (fs_heap ?s2) ((i, k) # R)" "pages_left (h_mm (fs_heap ?s2)) (Suc n)" using a(4,5) by simp_all
    from fs_alloc_left [OF this, of "ucast DEFAULT_FILE_SIZE"] obtain d k' h' where
      b: "fs_alloc (ucast DEFAULT_FILE_SIZE) ?s2 = Some (d, ?s2\<lparr>fs_heap := h'\<rparr>)" "d \<noteq> NULL" "4096 \<le> k'"
        "heap_inv L M h' ((d, k') # (i, k) # R)" "pages_left (h_mm h') n" by (auto simp: DEFAULT_FILE_SIZE_def)
    let ?s4 = "upd_node i (\<lambda>n. n\<lparr>n_data := d\<rparr>) (?s2\<lparr>fs_heap := h'\<rparr>)"
    let ?s5 = "upd_node i (\<lambda>n. n\<lparr>n_capacity := DEFAULT_FILE_SIZE\<rparr>) ?s4"
    have e: "tmpfs_create_internal_node L name ty par s = Some (i, ?s5)"
      using a(1,2) b(1,2) len True by (simp add: tmpfs_create_internal_node_def Let_def)
    have "vnodes ?s5 = vnodes s" "same_rest s ?s5" "fs_heap ?s5 = h'"
      "fsnodes ?s5 = (fsnodes s)(i := (?f (fsnodes s i))\<lparr>n_data := d, n_capacity := DEFAULT_FILE_SIZE\<rparr>)"
      by (simp_all cong: if_cong)
    moreover have "(d, k') \<notin> set R" using heap_inv_distinct [OF b(4)] by simp
    ultimately show ?thesis using e a(2,3) b i True
      by (intro exI [of _ i] exI [of _ ?s5] exI [of _ "(d, k') # (i, k) # R"]
            exI [of _ "(?f (fsnodes s i))\<lparr>n_data := d, n_capacity := DEFAULT_FILE_SIZE\<rparr>"])
         (auto simp: new_node_def)
  qed
qed

subsection \<open>Looking up and creating\<close>

text \<open>The directory behind the vnode \<open>d\<close>, its entries and the blocks they are in.\<close>

definition entries_of :: "fs \<Rightarrow> addr \<Rightarrow> addr list" where
  "entries_of s d = children (fsnodes s (internal (vnodes s d)))"

definition name_of :: "fs \<Rightarrow> addr \<Rightarrow> byte list" where
  "name_of s v = n_name (fsnodes s (internal (vnodes s v)))"

definition dir_ok :: "region list \<Rightarrow> fs \<Rightarrow> addr \<Rightarrow> bool" where
  "dir_ok R s d \<longleftrightarrow> d \<noteq> NULL \<and> internal (vnodes s d) \<noteq> NULL \<and>
     n_type (fsnodes s (internal (vnodes s d))) = NODE_DIRECTORY \<and>
     num_children (fsnodes s (internal (vnodes s d))) \<le> MAX_CHILDREN \<and>
     (\<forall>v \<in> insert d (set (entries_of s d)). owned R v \<and> owned R (internal (vnodes s v)))"

lemma find_child_eq: "find_child s name vs = find (\<lambda>v. name_of s v = name) vs"
  by (induction vs) (simp_all add: name_of_def)

lemma lookup_eq:
  assumes "dir_ok R s d"
  shows "tmpfs_lookup d name s = (case find (\<lambda>v. name_of s v = name) (entries_of s d) of None \<Rightarrow> (ENOENT_VFS, NULL) | Some v \<Rightarrow> (0, v))"
  using assms by (simp add: dir_ok_def tmpfs_lookup_def Let_def find_child_eq entries_of_def)

lemma children_append:
  "children (n\<lparr>n_children := (n_children n)(num_children n := v), num_children := num_children n + 1\<rparr>) = children n @ [v]"
  by (simp add: children_def)

lemma find_cong_set: "(\<And>x. x \<in> set xs \<Longrightarrow> P x = Q x) \<Longrightarrow> find P xs = find Q xs"
  by (induction xs) auto

lemma find_append: "find P (xs @ ys) = (case find P xs of None \<Rightarrow> find P ys | Some x \<Rightarrow> Some x)"
  by (induction xs) auto

text \<open>What a creation gives: the entry \<open>v\<close> at the end of the directory, of a new vnode and a new node.\<close>

definition created :: "region list \<Rightarrow> fs \<Rightarrow> addr \<Rightarrow> byte list \<Rightarrow> node_type \<Rightarrow> addr \<Rightarrow> region list \<Rightarrow> fs \<Rightarrow> bool" where
  "created R s d name ty v R' s' \<longleftrightarrow> set R \<subseteq> set R' \<and> dir_ok R' s' d \<and> entries_of s' d = entries_of s d @ [v] \<and>
     (\<forall>u \<in> set (entries_of s d). name_of s' u = name_of s u) \<and> name_of s' v = name \<and> v \<noteq> NULL \<and> \<not> owned R v \<and> v \<noteq> d \<and>
     vnodes s' v = \<lparr>v_mount = v_mount (vnodes s d), v_ops = TMPFS_V, f_ops = TMPFS_F, internal = internal (vnodes s' v),
       v_parent = d, parent_is_mount = False\<rparr> \<and> \<not> owned R (internal (vnodes s' v)) \<and>
     new_node name ty (internal (vnodes s d)) (fsnodes s' (internal (vnodes s' v))) \<and>
     (ty = NODE_FILE \<longrightarrow> (\<exists>k \<ge> 4096. (n_data (fsnodes s' (internal (vnodes s' v))), k) \<in> set R' - set R)) \<and>
     (\<forall>u. owned R u \<longrightarrow> vnodes s' u = vnodes s u) \<and>
     (\<forall>j. j \<noteq> internal (vnodes s d) \<and> (owned R j \<or> \<not> owned R' j) \<longrightarrow> fsnodes s' j = fsnodes s j) \<and>
     name_of s' d = name_of s d \<and> same_rest s s'"

lemma create_ok:
  assumes d: "dir_ok R s d" and inv: "heap_inv L M (fs_heap s) R" and left: "pages_left (h_mm (fs_heap s)) (n + 3)"
    and name: "name \<noteq> []" "length name < MAX_FILE_NAME" "\<forall>v \<in> set (entries_of s d). name_of s v \<noteq> name"
    and room: "length (entries_of s d) < MAX_CHILDREN"
  shows "\<exists>v s' R'. tmpfs_create_or_mkdir L d name ty s = Some (0, v, s') \<and> heap_inv L M (fs_heap s') R' \<and>
     pages_left (h_mm (fs_heap s')) n \<and> created R s d name ty v R' s'"
proof -
  let ?p = "internal (vnodes s d)"
  let ?pn = "fsnodes s ?p"
  have dd: "d \<noteq> NULL" "?p \<noteq> NULL" "n_type ?pn = NODE_DIRECTORY" "owned R d" "owned R ?p"
    and own: "\<And>u. u \<in> set (entries_of s d) \<Longrightarrow> owned R u \<and> owned R (internal (vnodes s u))"
    using d by (auto simp: dir_ok_def)
  have "pages_left (h_mm (fs_heap s)) (n + 1 + 2)" using left by (simp add: numeral_eq_Suc)
  from create_node_ok [OF inv this name(2), of ty ?p] obtain i s1 R1 nd where
    c: "tmpfs_create_internal_node L name ty ?p s = Some (i, s1)" "i \<noteq> NULL" "heap_inv L M (fs_heap s1) R1"
      "set R \<subseteq> set R1" "owned R1 i" "\<not> owned R i" "pages_left (h_mm (fs_heap s1)) (n + 1)" "vnodes s1 = vnodes s"
      "fsnodes s1 = (fsnodes s)(i := nd)" "new_node name ty ?p nd" "same_rest s s1"
      "ty = NODE_FILE \<longrightarrow> (\<exists>k \<ge> 4096. (n_data nd, k) \<in> set R1 - set R)" by blast
  have "pages_left (h_mm (fs_heap s1)) (Suc n)" using c(7) by simp
  from fs_alloc_left [OF c(3) this, of VNODE_SIZE] obtain v k h where
    a: "fs_alloc VNODE_SIZE s1 = Some (v, s1\<lparr>fs_heap := h\<rparr>)" "v \<noteq> NULL" "0 < k" "heap_inv L M h ((v, k) # R1)"
      "pages_left (h_mm h) n" by (auto simp: VNODE_SIZE_def)
  have v: "\<not> owned R1 v" using fresh_block [OF a(4) _ a(3)] by blast
  then have vR: "\<not> owned R v" using owned_mono [OF _ c(4)] by blast
  let ?f = "\<lambda>v. v\<lparr>v_mount := v_mount (vnodes s d), v_ops := TMPFS_V, f_ops := TMPFS_F, internal := i, v_parent := d, parent_is_mount := False\<rparr>"
  let ?g = "\<lambda>n. n\<lparr>n_children := (n_children n)(num_children n := v), num_children := num_children n + 1\<rparr>"
  let ?s = "upd_node ?p ?g (upd_vnode v ?f (s1\<lparr>fs_heap := h\<rparr>))"
  have nf: "find_child s name (children ?pn) = None"
    using name(3) by (auto simp: find_child_eq find_None_iff entries_of_def)
  have rm: "\<not> MAX_CHILDREN \<le> num_children ?pn" using room by (simp add: entries_of_def children_def)
  have e: "tmpfs_create_or_mkdir L d name ty s = Some (0, v, ?s)"
    using dd name nf rm c(1,2,8) a(1,2)
    by (simp add: tmpfs_create_or_mkdir_def Let_def)
  have ne: "d \<noteq> v" "?p \<noteq> i" using dd(4,5) vR c(6) by auto
  have vn: "vnodes ?s = (vnodes s)(v := ?f (vnodes s v))" using c(8) by simp
  have fn: "fsnodes ?s = (fsnodes s)(i := nd, ?p := ?g ?pn)" using c(9) ne(2) by (simp add: fun_upd_twist)
  have pd: "internal (vnodes ?s d) = ?p" using vn ne(1) by simp
  have en: "entries_of ?s d = entries_of s d @ [v]"
    unfolding entries_of_def pd using fn children_append [of ?pn v] by simp
  have old: "internal (vnodes ?s u) = internal (vnodes s u) \<and> name_of ?s u = name_of s u" if "u \<in> set (entries_of s d)" for u
  proof -
    have "u \<noteq> v" "internal (vnodes s u) \<noteq> i" using own [OF that] vR c(6) by auto
    then show ?thesis unfolding name_of_def vn fn by simp
  qed
  have new: "internal (vnodes ?s v) = i" "fsnodes ?s i = nd"
    "vnodes ?s v = \<lparr>v_mount = v_mount (vnodes s d), v_ops = TMPFS_V, f_ops = TMPFS_F, internal = i,
       v_parent = d, parent_is_mount = False\<rparr>" "\<forall>u. owned R u \<longrightarrow> vnodes ?s u = vnodes s u" "same_rest s ?s"
    "\<forall>j. j \<noteq> ?p \<and> (owned R j \<or> \<not> owned ((v, k) # R1) j) \<longrightarrow> fsnodes ?s j = fsnodes s j" "name_of ?s d = name_of s d"
    using vn fn ne c(11) vR c(5,6) by (auto simp: name_of_def)
  have ok: "dir_ok ((v, k) # R1) ?s d"
  proof -
    have "owned ((v, k) # R1) u \<and> owned ((v, k) # R1) (internal (vnodes ?s u))" if "u \<in> insert d (set (entries_of ?s d))" for u
    proof (cases "u = v")
      case True
      then show ?thesis using a(3) c(5) new(1) by simp
    next
      case False
      then have "u = d \<or> u \<in> set (entries_of s d)" using that en by auto
      then have "owned R u \<and> internal (vnodes ?s u) = internal (vnodes s u) \<and> owned R (internal (vnodes s u))"
      proof
        assume "u = d"
        then show ?thesis using dd(4,5) pd by (simp only: simp_thms)
      next
        assume "u \<in> set (entries_of s d)"
        then show ?thesis using own old by blast
      qed
      then show ?thesis using owned_mono [OF _ c(4)] by simp
    qed
    moreover have "n_type (fsnodes ?s ?p) = NODE_DIRECTORY" "num_children (fsnodes ?s ?p) \<le> MAX_CHILDREN"
      using fn dd(3) rm by simp_all
    ultimately show ?thesis using dd(1,2) unfolding dir_ok_def pd by blast
  qed
  have nm: "name_of ?s v = name" using new c(10) by (simp add: name_of_def new_node_def)
  have nn: "new_node name ty ?p (fsnodes ?s (internal (vnodes ?s v)))" "\<not> owned R (internal (vnodes ?s v))"
    "ty = NODE_FILE \<longrightarrow> (\<exists>k' \<ge> 4096. (n_data (fsnodes ?s (internal (vnodes ?s v))), k') \<in> set ((v, k) # R1) - set R)"
    unfolding new(1,2) using c(6,10,12) by auto
  have hp: "heap_inv L M (fs_heap ?s) ((v, k) # R1)" "pages_left (h_mm (fs_heap ?s)) n" using a(4,5) by simp_all
  have sub: "set R \<subseteq> set ((v, k) # R1)" using c(4) by auto
  have old': "\<forall>u \<in> set (entries_of s d). name_of ?s u = name_of s u" using old by blast
  define t where "t = ?s"
  note f = e [folded t_def] ok [folded t_def] nm [folded t_def] nn [folded t_def] hp [folded t_def] old' [folded t_def]
    en [folded t_def] new(1,3-7) [folded t_def]
  have "vnodes t v = \<lparr>v_mount = v_mount (vnodes s d), v_ops = TMPFS_V, f_ops = TMPFS_F, internal = internal (vnodes t v),
       v_parent = d, parent_is_mount = False\<rparr>" using f(12) unfolding f(11) .
  then show ?thesis using f sub vR a(2) ne(1) by (intro exI [of _ v] exI [of _ t] exI [of _ "(v, k) # R1"] conjI) (auto simp: created_def)
qed

text \<open>The refusals change nothing.\<close>

lemma create_refused:
  assumes d: "dir_ok R s d" and name: "name \<noteq> []"
    and bad: "MAX_FILE_NAME \<le> length name \<or> (\<exists>v \<in> set (entries_of s d). name_of s v = name) \<or>
       length (entries_of s d) = MAX_CHILDREN"
  shows "tmpfs_create_or_mkdir L d name ty s =
     Some (if MAX_FILE_NAME \<le> length name then EINVAL_VFS
           else if \<exists>v \<in> set (entries_of s d). name_of s v = name then EEXIST_VFS else ENOMEM_VFS, NULL, s)"
proof -
  have "find_child s name (entries_of s d) \<noteq> None \<longleftrightarrow> (\<exists>v \<in> set (entries_of s d). name_of s v = name)"
    unfolding find_child_eq find_None_iff by blast
  moreover have "length (entries_of s d) = num_children (fsnodes s (internal (vnodes s d)))"
    by (simp add: entries_of_def children_def)
  ultimately show ?thesis using assms
    by (auto simp: tmpfs_create_or_mkdir_def dir_ok_def Let_def entries_of_def)
qed

lemma created_fields:
  assumes "created R s d name ty v R' s'"
  shows "v_parent (vnodes s' v) = d \<and> v_mount (vnodes s' v) = v_mount (vnodes s d) \<and> f_ops (vnodes s' v) = TMPFS_F"
proof -
  have v: "vnodes s' v = \<lparr>v_mount = v_mount (vnodes s d), v_ops = TMPFS_V, f_ops = TMPFS_F, internal = internal (vnodes s' v),
       v_parent = d, parent_is_mount = False\<rparr>" using assms by (simp only: created_def)
  show ?thesis using arg_cong [OF v, of v_parent] arg_cong [OF v, of v_mount] arg_cong [OF v, of f_ops] by simp
qed

text \<open>What a lookup finds after a creation.\<close>

lemma lookup_created:
  assumes "dir_ok R s d" "created R s d name ty v R' s'" "\<forall>u \<in> set (entries_of s d). name_of s u \<noteq> name"
  shows "tmpfs_lookup d m s' = (if m = name then (0, v) else tmpfs_lookup d m s)"
proof -
  have c: "dir_ok R' s' d" "entries_of s' d = entries_of s d @ [v]" "name_of s' v = name"
    "\<forall>u \<in> set (entries_of s d). name_of s' u = name_of s u" using assms(2) by (auto simp: created_def)
  have "find (\<lambda>u. name_of s' u = m) (entries_of s d) = find (\<lambda>u. name_of s u = m) (entries_of s d)"
    by (rule find_cong_set) (use c(4) in simp)
  moreover have "find (\<lambda>u. name_of s u = name) (entries_of s d) = None" using assms(3) by (auto simp: find_None_iff)
  ultimately show ?thesis
    unfolding lookup_eq [OF assms(1)] lookup_eq [OF c(1)] c(2) find_append
    using c(3) by (auto split: option.splits)
qed

end
