(* ===== verification/Paths.thy ===== *)
theory Paths
  imports Directory Vfs
begin

section \<open>Paths\<close>

text \<open>
  The walk of \<open>vfs_lookup\<close> over the characters of a path is a walk over the list of its components. What a path
  leads to does not depend on the heap's state, only on the vnodes, nodes and mounts; and on a directory of
  the in-memory file system, creating through the path and looking the path up again fit together.
\<close>

subsection \<open>Components\<close>

primrec split_path :: "byte list \<Rightarrow> byte list list" where
  "split_path [] = [[]]"
| "split_path (x # xs) = (if x = 0x2F then [] # split_path xs else (x # hd (split_path xs)) # tl (split_path xs))"

definition components :: "byte list \<Rightarrow> byte list list" where
  "components path = filter (\<lambda>c. c \<noteq> []) (split_path path)"

lemma split_path_eq:
  "split_path xs = takeWhile (\<lambda>x. x \<noteq> 0x2F) xs #
     (case dropWhile (\<lambda>x. x \<noteq> 0x2F) xs of [] \<Rightarrow> [] | _ # ys \<Rightarrow> split_path ys)"
  by (induction xs) simp_all

lemma split_path_append: "split_path (p @ 0x2F # q) = split_path p @ split_path q"
proof (induction p)
  case (Cons x p)
  have "split_path p \<noteq> []" by (cases p) simp_all
  then show ?case using Cons by simp
qed simp

lemma components_Nil [simp]: "components [] = []"
  by (simp add: components_def)

lemma components_slash [simp]: "components (0x2F # p) = components p"
  by (simp add: components_def)

lemma components_append: "components (p @ 0x2F # q) = components p @ components q"
  by (simp add: components_def split_path_append)

lemma split_path_word: "0x2F \<notin> set w \<Longrightarrow> split_path w = [w]"
  by (induction w) auto

lemma components_word: "w \<noteq> [] \<Longrightarrow> 0x2F \<notin> set w \<Longrightarrow> components w = [w]"
  by (simp add: components_def split_path_word)

lemma components_strip: "components (dropWhile (\<lambda>x. x = 0x2F) p) = components p"
  by (induction p) simp_all

lemma next_component:
  "components p = (case get_next_component p of None \<Rightarrow> [] | Some (c, rest) \<Rightarrow> c # components rest)"
proof -
  let ?d = "dropWhile (\<lambda>x. x = 0x2F) p"
  show ?thesis
  proof (cases ?d)
    case Nil
    then have "components p = []" using components_strip [of p] unfolding Nil by simp
    moreover have "get_next_component p = None" unfolding get_next_component_def Let_def Nil by simp
    ultimately show ?thesis by simp
  next
    case (Cons x xs)
    then have x: "x \<noteq> 0x2F" using hd_dropWhile [of "\<lambda>x. x = 0x2F" p] by simp
    define w where "w = takeWhile (\<lambda>x. x \<noteq> 0x2F) ?d"
    define e where "e = dropWhile (\<lambda>x. x \<noteq> 0x2F) ?d"
    have w: "w \<noteq> []" using Cons x by (simp add: w_def)
    have "split_path ?d = w # (case e of [] \<Rightarrow> [] | _ # ys \<Rightarrow> split_path ys)"
      unfolding w_def e_def by (rule split_path_eq)
    then have "components ?d = w # components (drop 1 e)"
      using w unfolding components_def by (cases e) simp_all
    then have c: "components p = w # components (drop 1 e)" unfolding components_strip .
    have "?d \<noteq> []" using Cons by simp
    then have g: "get_next_component p = Some (w, drop 1 e)" by (simp only: get_next_component_def Let_def w_def e_def if_False)
    show ?thesis unfolding c g by simp
  qed
qed

subsection \<open>The walk over components\<close>

primrec walk :: "fs \<Rightarrow> byte list list \<Rightarrow> addr \<Rightarrow> addr \<Rightarrow> int \<times> addr" where
  "walk s [] cur tgt = (0, cur)"
| "walk s (c # cs) cur tgt =
     (if c = dot then walk s cs cur tgt
      else if c = dotdot then
        (if cur = the_root s then walk s cs cur tgt
         else (case go_up s cur of None \<Rightarrow> (EINTERR_VFS, tgt) | Some p \<Rightarrow> walk s cs p p))
      else
        (case vop_lookup (enter_mount s cur) c s of
           (result, next) \<Rightarrow> if result \<noteq> 0 then (result, tgt) else walk s cs (enter_mount s next) tgt))"

lemma lookup_walk_eq: "lookup_walk s path cur tgt = walk s (components path) cur tgt"
proof (induction "length path" arbitrary: path cur tgt rule: less_induct)
  case less
  show ?case
  proof (cases "get_next_component path")
    case None
    then have c: "components path = []" unfolding next_component [of path] by simp
    show ?thesis unfolding c lookup_walk.simps [of s path] None by simp
  next
    case (Some cr)
    obtain c rest where cr: "get_next_component path = Some (c, rest)" using Some by (cases cr) simp
    then have c: "components path = c # components rest" unfolding next_component [of path] by simp
    have IH: "lookup_walk s rest x y = walk s (components rest) x y" for x y
      by (rule less.hyps [OF next_component_shorter [OF cr]])
    show ?thesis unfolding c lookup_walk.simps [of s path] cr walk.simps by (simp only: option.case prod.case Let_def IH)
  qed
qed

text \<open>Only the target of a failed walk depends on what the target was.\<close>

lemma walk_target:
  "fst (walk s cs cur t) = fst (walk s cs cur u) \<and> (fst (walk s cs cur u) = 0 \<longrightarrow> walk s cs cur t = walk s cs cur u)"
proof (induction cs arbitrary: cur t u)
  case (Cons c cs)
  show ?case
    using Cons [of cur t u] Cons [of "the_root s" t u] Cons [of "enter_mount s (snd (vop_lookup (enter_mount s cur) c s))" t u]
    by (cases "vop_lookup (enter_mount s cur) c s"; cases "go_up s cur") simp_all
qed simp

lemma walk_append:
  assumes "walk s cs cur t = (0, d)"
  shows "fst (walk s (cs @ ds) cur t) = fst (walk s ds d u) \<and> (fst (walk s ds d u) = 0 \<longrightarrow> walk s (cs @ ds) cur t = walk s ds d u)"
  using assms
proof (induction cs arbitrary: cur t)
  case Nil
  then show ?case using walk_target [of s ds d t u] by simp
next
  case (Cons c cs)
  consider "c = dot" | "c = dotdot" "cur = the_root s" | p where "c = dotdot" "cur \<noteq> the_root s" "go_up s cur = Some p"
    | n where "c \<noteq> dot" "c \<noteq> dotdot" "vop_lookup (enter_mount s cur) c s = (0, n)"
    using Cons.prems by (cases "vop_lookup (enter_mount s cur) c s") (auto split: if_splits option.splits)
  then show ?case by cases (use Cons.prems Cons.IH in simp_all)
qed

text \<open>The heap's state plays no part.\<close>

lemma find_child_heap [simp]: "find_child (s\<lparr>fs_heap := h\<rparr>) name vs = find_child s name vs"
  by (induction vs) simp_all

lemma walk_heap [simp]: "walk (s\<lparr>fs_heap := h\<rparr>) cs cur t = walk s cs cur t"
proof (induction cs arbitrary: cur t)
  case (Cons c cs)
  have "vop_lookup v c (s\<lparr>fs_heap := h\<rparr>) = vop_lookup v c s" for v
    by (cases "v_ops (vnodes s v)") (simp_all add: vop_lookup_def tmpfs_lookup_def initramfs_lookup_def Let_def cong: if_cong)
  moreover have "enter_mount (s\<lparr>fs_heap := h\<rparr>) v = enter_mount s v" "go_up (s\<lparr>fs_heap := h\<rparr>) v = go_up s v"
    "the_root (s\<lparr>fs_heap := h\<rparr>) = the_root s" for v
    by (simp_all add: enter_mount_def go_up_def the_root_def Let_def cong: if_cong)
  ultimately show ?case using Cons by (simp split: option.split prod.split)
qed simp

subsection \<open>Resolving a path\<close>

definition is_absolute :: "byte list \<Rightarrow> bool" where
  "is_absolute path \<longleftrightarrow> path \<noteq> [] \<and> hd path = 0x2F"

definition resolve :: "fs \<Rightarrow> byte list \<Rightarrow> int \<times> addr" where
  "resolve s path =
     (if is_absolute path then walk s (components path) (the_root s) NULL
      else if cwd s (current s) = NULL then (EINTERR_VFS, NULL)
      else walk s (components path) (cwd s (current s)) NULL)"

lemma the_root_heap [simp]: "the_root (s\<lparr>fs_heap := h\<rparr>) = the_root s"
  by (simp add: the_root_def)

lemma resolve_heap [simp]: "resolve (s\<lparr>fs_heap := h\<rparr>) path = resolve s path"
  by (simp add: resolve_def)

lemma components_dot [simp]: "components dot = [dot]"
  by (rule components_word) simp_all

text \<open>The copy of a path, a chunk that is given back.\<close>

lemma path_copy:
  assumes "heap_inv L M (fs_heap s) R" "pages_left (h_mm (fs_heap s)) (Suc n)" "length path < 128"
  shows "\<exists>c k h. fs_alloc (of_nat (length path + 1)) s = Some (c, s\<lparr>fs_heap := h\<rparr>) \<and> c \<noteq> NULL \<and> c mod PAGE_SIZE \<noteq> 0 \<and> 0 < k \<and>
     heap_inv L M h ((c, k) # R) \<and> pages_left (h_mm h) n"
proof -
  have "unat (of_nat (length path + 1) :: u32) = length path + 1" using assms(3) unfolding unat_of_nat by simp
  then have "(0 :: u32) < of_nat (length path + 1)" "(of_nat (length path + 1) :: u32) \<le> 128"
    using assms(3) unfolding word_less_nat_alt word_le_nat_alt by simp_all
  from small_block [OF assms(1,2) this] show ?thesis by (auto simp: fs_alloc_def)
qed

lemma free_copy:
  assumes "heap_inv L M (fs_heap s) R" "(c, k) \<in> set R" "c mod PAGE_SIZE \<noteq> 0"
  shows "\<exists>h. fs_free L c s = Some (s\<lparr>fs_heap := h\<rparr>) \<and> heap_inv L M h (remove1 (c, k) R) \<and> h_mm h = h_mm (fs_heap s)"
  using free_small_block [OF assms] by (auto simp: fs_free_def)

text \<open>\<open>put\<close> is a store that leaves the heap's state alone.\<close>

text \<open>A relative path needs a current thread, whose working directory it starts from.\<close>

definition startable :: "fs \<Rightarrow> byte list \<Rightarrow> bool" where
  "startable s path \<longleftrightarrow> is_absolute path \<or> current s \<noteq> NULL"

lemma absolute_startable: "is_absolute path \<Longrightarrow> startable s path"
  by (simp add: startable_def)

lemma startable_heap [simp]: "startable (s\<lparr>fs_heap := h\<rparr>) path = startable s path"
  by (simp add: startable_def)

lemma vfs_lookup_ok:
  assumes inv: "heap_inv L M (fs_heap s) R" and left: "pages_left (h_mm (fs_heap s)) (Suc n)" and len: "length path < 128"
    and put: "\<And>v s h. put v (s\<lparr>fs_heap := h\<rparr>) = (put v s)\<lparr>fs_heap := h\<rparr>" "\<And>v s. fs_heap (put v s) = fs_heap s"
    and res: "resolve (put NULL s) path = (r, v)" and cur: "startable (put NULL s) path"
  shows "\<exists>h. vfs_lookup L put path s = Some (r, v, (put v (put NULL s))\<lparr>fs_heap := h\<rparr>) \<and> heap_inv L M h R \<and> pages_left (h_mm h) n"
proof -
  let ?s = "put NULL s"
  have "heap_inv L M (fs_heap ?s) R" "pages_left (h_mm (fs_heap ?s)) (Suc n)" using inv left put(2) by simp_all
  from path_copy [OF this len] obtain c k h where c: "fs_alloc (of_nat (length path + 1)) ?s = Some (c, ?s\<lparr>fs_heap := h\<rparr>)"
    "c \<noteq> NULL" "c mod PAGE_SIZE \<noteq> 0" "heap_inv L M h ((c, k) # R)" "pages_left (h_mm h) n" by blast
  let ?t = "put v (?s\<lparr>fs_heap := h\<rparr>)"
  have t: "?t = (put v ?s)\<lparr>fs_heap := h\<rparr>" using put(1) by simp
  have "heap_inv L M (fs_heap ?t) ((c, k) # R)" unfolding t using c(4) by simp
  from free_copy [OF this, of c k] obtain h' where h': "fs_free L c ?t = Some (?t\<lparr>fs_heap := h'\<rparr>)" "heap_inv L M h' R"
    "h_mm h' = h_mm h" using c(3) unfolding t by auto
  let ?a = "path \<noteq> [] \<and> hd path = 0x2F" and ?u = "?s\<lparr>fs_heap := h\<rparr>"
  let ?st = "if ?a then the_root ?u else cwd ?u (current ?u)"
  have "(if \<not> ?a \<and> ?st = NULL then (EINTERR_VFS, NULL)
          else if path = [0x2F] then (0, the_root ?u)
          else if path = [] \<or> path = dot then (0, ?st)
          else lookup_walk ?u path ?st NULL) = (r, v)"
    using res by (auto simp: resolve_def is_absolute_def lookup_walk_eq)
  then have "vfs_lookup L put path s = map_option (\<lambda>t. (r, v, t)) (fs_free L c ?t)"
    unfolding vfs_lookup_def Let_def c(1) using c(2) h'(1) cur by (auto simp: startable_def is_absolute_def)
  then show ?thesis using h' c(5) t by (intro exI [of _ h']) simp
qed

lemma vfs_lookup_local:
  assumes "heap_inv L M (fs_heap s) R" "pages_left (h_mm (fs_heap s)) (Suc n)" "length path < 128" "startable s path"
  shows "\<exists>h. vfs_lookup L local_target path s = Some (fst (resolve s path), snd (resolve s path), s\<lparr>fs_heap := h\<rparr>) \<and>
     heap_inv L M h R \<and> pages_left (h_mm h) n"
  using vfs_lookup_ok [OF assms(1-3), of local_target] assms(4) by (cases "resolve s path") simp

subsection \<open>Creating through a path\<close>

text \<open>The path names \<open>name\<close> in the directory \<open>d\<close>: the root for \<open>/name\<close>, the working directory for \<open>name\<close>.\<close>

definition leads :: "fs \<Rightarrow> byte list \<Rightarrow> addr \<Rightarrow> byte list \<Rightarrow> bool" where
  "leads s path d name \<longleftrightarrow> name \<noteq> [] \<and> 0x2F \<notin> set name \<and> name \<noteq> dot \<and> name \<noteq> dotdot \<and> length name < MAX_FILE_NAME \<and>
     d \<noteq> NULL \<and> v_ops (vnodes s d) = TMPFS_V \<and> v_mount (vnodes s d) = NULL \<and>
     (path = 0x2F # name \<and> d = the_root s \<or> path = name \<and> d = cwd s (current s) \<and> current s \<noteq> NULL)"

lemma leads_heap [simp]: "leads (s\<lparr>fs_heap := h\<rparr>) path d name = leads s path d name"
  by (simp add: leads_def)

lemma leads_same:
  assumes "leads s path d name" "same_rest s s'" "vnodes s' d = vnodes s d"
  shows "leads s' path d name"
  using assms by (auto simp: leads_def same_rest_def the_root_def)

lemma leads_length: "leads s path d name \<Longrightarrow> length path < 128"
  by (auto simp: leads_def MAX_FILE_NAME_def)

lemma leads_startable: "leads s path d name \<Longrightarrow> startable s path"
  by (auto simp: leads_def startable_def is_absolute_def)

lemma leads_resolve:
  assumes "leads s path d name"
  shows "resolve s path = (case tmpfs_lookup d name s of (r, v) \<Rightarrow> if r \<noteq> 0 then (r, NULL) else (0, enter_mount s v))"
proof -
  have n: "name \<noteq> []" "0x2F \<notin> set name" "name \<noteq> dot" "name \<noteq> dotdot" "v_ops (vnodes s d) = TMPFS_V" "v_mount (vnodes s d) = NULL"
    and p: "path = 0x2F # name \<and> d = the_root s \<or> path = name \<and> d = cwd s (current s)" "d \<noteq> NULL"
    using assms by (auto simp: leads_def)
  have "components path = [name]" using p(1) components_word [OF n(1,2)] by auto
  moreover have "hd name \<noteq> 0x2F" using n(1,2) by (metis hd_in_set)
  ultimately have "resolve s path = walk s [name] d NULL" using p n(1) by (auto simp: resolve_def is_absolute_def)
  then show ?thesis using n by (cases "tmpfs_lookup d name s") (simp add: enter_mount_def vop_lookup_def)
qed

lemma last_slash_none: "0x2F \<notin> set name \<Longrightarrow> last_slash name = -1"
  by (induction name) auto

lemma leads_parent:
  assumes l: "leads s path d name" and inv: "heap_inv L M (fs_heap s) R" and left: "pages_left (h_mm (fs_heap s)) (Suc n)"
    and dir: "cwd s (current s) \<noteq> NULL \<Longrightarrow> dir = cwd s (current s)"
  shows "basename path = name \<and> (\<exists>h. parent_dir L dir path s = Some (0, d, s\<lparr>fs_heap := h\<rparr>) \<and> heap_inv L M h R \<and> pages_left (h_mm h) n)"
proof -
  have ls: "last_slash name = -1" using l by (simp add: leads_def last_slash_none)
  consider "path = 0x2F # name" "d = the_root s" | "path = name" "d = cwd s (current s)" "d \<noteq> NULL"
    using l by (auto simp: leads_def)
  then show ?thesis
  proof cases
    case 1
    have "resolve s [0x2F] = (0, d)" using 1(2) by (simp add: resolve_def is_absolute_def)
    then show ?thesis using vfs_lookup_local [OF inv left, of "[0x2F]"] 1(1) ls
      by (simp add: parent_dir_def basename_def startable_def is_absolute_def)
  next
    case 2
    then have "dir = d" using dir by simp
    then show ?thesis using 2(1) ls inv pages_left_mono [OF left, of n]
      by (intro conjI exI [of _ "fs_heap s"]) (simp_all add: parent_dir_def basename_def)
  qed
qed

text \<open>The same with a directory in front: \<open>path\<close> is \<open>name\<close> in the directory \<open>d\<close> that the part before the last slash leads to.\<close>

definition points :: "fs \<Rightarrow> byte list \<Rightarrow> addr \<Rightarrow> byte list \<Rightarrow> bool" where
  "points s path d name \<longleftrightarrow> name \<noteq> [] \<and> 0x2F \<notin> set name \<and> name \<noteq> dot \<and> name \<noteq> dotdot \<and> length name < MAX_FILE_NAME \<and>
     d \<noteq> NULL \<and> v_ops (vnodes s d) = TMPFS_V \<and> v_mount (vnodes s d) = NULL \<and> length path < 128 \<and>
     (leads s path d name \<or> (\<exists>p. path = p @ 0x2F # name \<and> p \<noteq> [] \<and> resolve s p = (0, d) \<and> startable s p))"

lemma leads_points: "leads s path d name \<Longrightarrow> points s path d name"
  using leads_length [of s path d name] by (simp add: points_def) (simp add: leads_def)

lemma points_length: "points s path d name \<Longrightarrow> length path < 128"
  by (simp add: points_def)

lemma points_startable: "points s path d name \<Longrightarrow> startable s path"
  using leads_startable [of s path d name] by (auto simp: points_def startable_def is_absolute_def hd_append2)

lemma points_heap [simp]: "points (s\<lparr>fs_heap := h\<rparr>) path d name = points s path d name"
  by (simp add: points_def)

lemma points_resolve:
  assumes "points s path d name"
  shows "fst (resolve s path) = fst (tmpfs_lookup d name s) \<and>
     (fst (tmpfs_lookup d name s) = 0 \<longrightarrow> resolve s path = (0, enter_mount s (snd (tmpfs_lookup d name s))))"
proof (cases "leads s path d name")
  case True
  then show ?thesis using leads_resolve [OF True] by (cases "tmpfs_lookup d name s") auto
next
  case False
  then obtain p where p: "path = p @ 0x2F # name" "p \<noteq> []" "resolve s p = (0, d)" using assms by (auto simp: points_def)
  have n: "name \<noteq> []" "0x2F \<notin> set name" "name \<noteq> dot" "name \<noteq> dotdot" "v_ops (vnodes s d) = TMPFS_V" "v_mount (vnodes s d) = NULL"
    using assms by (auto simp: points_def)
  let ?st = "if is_absolute p then the_root s else cwd s (current s)"
  have a: "is_absolute path = is_absolute p" using p(1,2) by (simp add: is_absolute_def hd_append2)
  have w: "walk s (components p) ?st NULL = (0, d)" and st: "is_absolute p \<or> cwd s (current s) \<noteq> NULL"
    using p(3) by (auto simp: resolve_def split: if_splits)
  have "resolve s path = walk s (components p @ [name]) ?st NULL"
    using st a components_word [OF n(1,2)] unfolding p(1) by (auto simp: resolve_def components_append)
  moreover have "walk s [name] d NULL = (case tmpfs_lookup d name s of (r, v) \<Rightarrow> if r \<noteq> 0 then (r, NULL) else (0, enter_mount s v))"
    using n by (cases "tmpfs_lookup d name s") (simp add: enter_mount_def vop_lookup_def)
  ultimately show ?thesis using walk_append [OF w, of "[name]" NULL] by (cases "tmpfs_lookup d name s") auto
qed

lemma last_slash_append: "0x2F \<notin> set name \<Longrightarrow> last_slash (p @ 0x2F # name) = int (length p)"
  by (induction p) (simp_all add: last_slash_none)

lemma points_parent:
  assumes l: "points s path d name" and inv: "heap_inv L M (fs_heap s) R" and left: "pages_left (h_mm (fs_heap s)) (Suc n)"
    and dir: "cwd s (current s) \<noteq> NULL \<Longrightarrow> dir = cwd s (current s)"
  shows "basename path = name \<and> (\<exists>h. parent_dir L dir path s = Some (0, d, s\<lparr>fs_heap := h\<rparr>) \<and> heap_inv L M h R \<and> pages_left (h_mm h) n)"
proof (cases "leads s path d name")
  case True
  then show ?thesis using leads_parent [OF True inv left dir] by blast
next
  case False
  then obtain p where p: "path = p @ 0x2F # name" "p \<noteq> []" "resolve s p = (0, d)" "startable s p" using l by (auto simp: points_def)
  have ls: "last_slash path = int (length p)" using l unfolding p(1) by (simp add: points_def last_slash_append)
  have "length p < 128" using l unfolding p(1) by (simp add: points_def)
  from vfs_lookup_local [OF inv left this p(4)] obtain h where
    "vfs_lookup L local_target p s = Some (0, d, s\<lparr>fs_heap := h\<rparr>)" "heap_inv L M h R" "pages_left (h_mm h) n" using p(3) by auto
  then show ?thesis using p(1,2) ls by (intro conjI exI [of _ h]) (simp_all add: parent_dir_def basename_def nat_add_distrib)
qed

text \<open>A creation while the path's copy is held, and the release of the copy.\<close>

lemma dir_ok_heap [simp]: "dir_ok R (s\<lparr>fs_heap := h\<rparr>) d = dir_ok R s d"
  by (simp add: dir_ok_def entries_of_def)

lemma dir_ok_more:
  assumes "dir_ok R s d" "set R \<subseteq> set R'"
  shows "dir_ok R' s d"
  using assms owned_mono [OF _ assms(2)] unfolding dir_ok_def by blast

lemma owned_remove1: "owned R u \<Longrightarrow> u \<noteq> c \<Longrightarrow> owned (remove1 (c, k) R) u"
  unfolding owned_def by (metis fst_conv in_set_remove1)

lemma dir_ok_less:
  assumes "dir_ok R s d" "\<And>v. v \<in> insert d (set (entries_of s d)) \<Longrightarrow> v \<noteq> c \<and> internal (vnodes s v) \<noteq> c"
  shows "dir_ok (remove1 (c, k) R) s d"
  using assms owned_remove1 unfolding dir_ok_def by metis

definition may_create :: "fs \<Rightarrow> addr \<Rightarrow> byte list \<Rightarrow> bool" where
  "may_create s d name \<longleftrightarrow> (\<forall>v \<in> set (entries_of s d). name_of s v \<noteq> name) \<and> length (entries_of s d) < MAX_CHILDREN"

lemma entries_heap [simp]:
  "entries_of (s\<lparr>fs_heap := h\<rparr>) d = entries_of s d" "name_of (s\<lparr>fs_heap := h\<rparr>) v = name_of s v"
  by (simp_all add: entries_of_def name_of_def)

lemma create_with_copy:
  assumes d: "dir_ok R s d" "may_create s d name" and name: "name \<noteq> []" "length name < MAX_FILE_NAME"
    and inv: "heap_inv L M (fs_heap s) ((c, k) # R)" and c: "c mod PAGE_SIZE \<noteq> 0" "0 < k"
    and left: "pages_left (h_mm (fs_heap s)) (n + 3)"
  shows "\<exists>v s' R' h. tmpfs_create_or_mkdir L d name ty s = Some (0, v, s') \<and> fs_free L c s' = Some (s'\<lparr>fs_heap := h\<rparr>) \<and>
     heap_inv L M h R' \<and> pages_left (h_mm h) n \<and> created R s d name ty v R' (s'\<lparr>fs_heap := h\<rparr>)"
proof -
  let ?R = "(c, k) # R"
  have "dir_ok ?R s d" by (rule dir_ok_more [OF d(1)]) auto
  moreover have "\<forall>v \<in> set (entries_of s d). name_of s v \<noteq> name" "length (entries_of s d) < MAX_CHILDREN"
    using d(2) by (simp_all add: may_create_def)
  ultimately obtain v s' R' where
    e: "tmpfs_create_or_mkdir L d name ty s = Some (0, v, s')" "heap_inv L M (fs_heap s') R'"
      "pages_left (h_mm (fs_heap s')) n" and cr: "created ?R s d name ty v R' s'"
    using create_ok [of ?R s d L M n name ty] inv left name by blast
  have ck: "(c, k) \<in> set R'" using cr by (auto simp: created_def)
  from free_copy [OF e(2) ck c(1)] obtain h where
    h: "fs_free L c s' = Some (s'\<lparr>fs_heap := h\<rparr>)" "heap_inv L M h (remove1 (c, k) R')" "h_mm h = h_mm (fs_heap s')" by blast
  have new: "v \<noteq> c" "internal (vnodes s' v) \<noteq> c" using cr c(2) by (auto simp: created_def)
  have "u \<noteq> c \<and> internal (vnodes s' u) \<noteq> c" if "u \<in> insert d (set (entries_of s' d))" for u
  proof (cases "u = v")
    case False
    then have "u \<in> insert d (set (entries_of s d))" using that cr by (auto simp: created_def)
    then have u: "owned R u" "owned R (internal (vnodes s u))" using d(1) unfolding dir_ok_def by blast+
    then have "vnodes s' u = vnodes s u" using cr by (auto simp: created_def)
    then show ?thesis using u fresh_block [OF inv _ c(2)] by metis
  qed (use new in simp)
  moreover have "dir_ok R' s' d" using cr by (simp add: created_def)
  ultimately have "dir_ok (remove1 (c, k) R') s' d" using dir_ok_less by blast
  moreover have "set R \<subseteq> set (remove1 (c, k) R')"
    using cr heap_inv_distinct [OF inv] heap_inv_distinct [OF e(2)] by (auto simp: created_def)
  moreover have "ty = NODE_FILE \<longrightarrow> (\<exists>k' \<ge> 4096. (n_data (fsnodes s' (internal (vnodes s' v))), k') \<in> set (remove1 (c, k) R') - set R)"
  proof
    assume "ty = NODE_FILE"
    then obtain k' where k': "4096 \<le> k'" "(n_data (fsnodes s' (internal (vnodes s' v))), k') \<in> set R' - set R"
      using cr by (auto simp: created_def)
    moreover have "k < 4096" using small_size [OF e(2) ck c(1)] by simp
    ultimately have "(n_data (fsnodes s' (internal (vnodes s' v))), k') \<in> set (remove1 (c, k) R') - set R" by simp
    then show "\<exists>k' \<ge> 4096. (n_data (fsnodes s' (internal (vnodes s' v))), k') \<in> set (remove1 (c, k) R') - set R" using k'(1) by blast
  qed
  moreover have "fsnodes s' j = fsnodes s j" if "j \<noteq> internal (vnodes s d)" "owned R j \<or> \<not> owned (remove1 (c, k) R') j" for j
  proof (cases "owned R' j \<and> j \<noteq> c")
    case True
    then have "owned R j" using that(2) owned_remove1 [of R' j c k] by blast
    then show ?thesis using cr that(1) by (auto simp: created_def)
  next
    case False
    then show ?thesis using cr that(1) c(2) by (auto simp: created_def)
  qed
  ultimately have "created R s d name ty v (remove1 (c, k) R') (s'\<lparr>fs_heap := h\<rparr>)"
    using cr by (simp add: created_def)
  then show ?thesis using e h by (intro exI [of _ v] exI [of _ s'] exI [of _ "remove1 (c, k) R'"] exI [of _ h]) simp
qed

lemma same_rest_heap: "same_rest (s\<lparr>fs_heap := h\<rparr>) t = same_rest s t"
  by (simp add: same_rest_def)

lemma created_heap [simp]: "created R (s\<lparr>fs_heap := h\<rparr>) d name ty v R' t = created R s d name ty v R' t"
  by (simp add: created_def same_rest_heap)

lemma may_create_heap [simp]: "may_create (s\<lparr>fs_heap := h\<rparr>) d name = may_create s d name"
  by (simp add: may_create_def)

lemma mkdir_ok:
  assumes l: "points s path d name" and d: "dir_ok R s d" "may_create s d name"
    and inv: "heap_inv L M (fs_heap s) R" and left: "pages_left (h_mm (fs_heap s)) (n + 5)" and cur: "current s \<noteq> NULL"
  shows "\<exists>v s' R'. vfs_mkdir L path s = Some (0, s') \<and> heap_inv L M (fs_heap s') R' \<and> pages_left (h_mm (fs_heap s')) n \<and>
     created R s d name NODE_DIRECTORY v R' s'"
proof -
  have "pages_left (h_mm (fs_heap s)) (Suc (n + 4))" using left by (simp add: numeral_eq_Suc)
  from path_copy [OF inv this points_length [OF l]] obtain c k h where c: "fs_alloc (of_nat (length path + 1)) s = Some (c, s\<lparr>fs_heap := h\<rparr>)"
    "c \<noteq> NULL" "c mod PAGE_SIZE \<noteq> 0" "0 < k" "heap_inv L M h ((c, k) # R)" "pages_left (h_mm h) (n + 4)" by blast
  let ?s1 = "s\<lparr>fs_heap := h\<rparr>"
  have "heap_inv L M (fs_heap ?s1) ((c, k) # R)" "pages_left (h_mm (fs_heap ?s1)) (Suc (n + 3))" "points ?s1 path d name"
    using c(5,6) l by (simp_all add: numeral_eq_Suc)
  from points_parent [OF this(3,1,2), of "cwd ?s1 (current ?s1)"] obtain h2 where
    p: "basename path = name" "parent_dir L (cwd ?s1 (current ?s1)) path ?s1 = Some (0, d, s\<lparr>fs_heap := h2\<rparr>)"
      "heap_inv L M h2 ((c, k) # R)" "pages_left (h_mm h2) (n + 3)" by auto
  let ?s2 = "s\<lparr>fs_heap := h2\<rparr>"
  have n: "name \<noteq> []" "length name < MAX_FILE_NAME" "d \<noteq> NULL" "v_ops (vnodes s d) = TMPFS_V" using l by (auto simp: points_def)
  have "dir_ok R ?s2 d" "may_create ?s2 d name" "heap_inv L M (fs_heap ?s2) ((c, k) # R)" "pages_left (h_mm (fs_heap ?s2)) (n + 3)"
    using d p(3,4) by simp_all
  from create_with_copy [OF this(1,2) n(1,2) this(3) c(3,4) this(4), of NODE_DIRECTORY] obtain v s' R' h' where
    t: "tmpfs_create_or_mkdir L d name NODE_DIRECTORY ?s2 = Some (0, v, s')" "fs_free L c s' = Some (s'\<lparr>fs_heap := h'\<rparr>)"
      "heap_inv L M h' R'" "pages_left (h_mm h') n" "created R s d name NODE_DIRECTORY v R' (s'\<lparr>fs_heap := h'\<rparr>)" by auto
  have "last_slash path = -1 \<longrightarrow> cwd s (current s) \<noteq> NULL"
    using l last_slash_none [of name] last_slash_append [of name] by (auto simp: points_def leads_def)
  then have "vfs_mkdir L path s = Some (0, s'\<lparr>fs_heap := h'\<rparr>)"
    unfolding vfs_mkdir_def Let_def using c(1,2) p(1,2) n t(1,2) cur by (simp add: vop_mkdir_def tmpfs_mkdir_def)
  then show ?thesis using t(3-5) by (intro exI [of _ v] exI [of _ "s'\<lparr>fs_heap := h'\<rparr>"] exI [of _ R']) simp
qed

text \<open>What has been created is what its path leads to.\<close>

lemma created_resolves:
  assumes l: "leads s path d name" and d: "dir_ok R s d" "may_create s d name" and cr: "created R s d name ty v R' s'"
  shows "resolve s' path = (0, v) \<and> leads s' path d name"
proof -
  have o: "owned R d" using d(1) by (simp add: dir_ok_def)
  then have v: "vnodes s' d = vnodes s d" using cr by (simp add: created_def)
  have l': "leads s' path d name" using leads_same [OF l _ v] cr by (simp add: created_def)
  have "v_mount (vnodes s' v) = v_mount (vnodes s d)" using created_fields [OF cr] by simp
  then have "v_mount (vnodes s' v) = NULL" using l by (simp add: leads_def)
  moreover have "tmpfs_lookup d name s' = (0, v)"
    using lookup_created [OF d(1) cr] d(2) by (simp add: may_create_def)
  ultimately show ?thesis using leads_resolve [OF l'] l' by (simp add: enter_mount_def)
qed

subsection \<open>Opening\<close>

text \<open>The handle \<open>fp\<close> is new and open at the start of the file behind the vnode \<open>v\<close>.\<close>

lemma vfile_all:
  "(r :: vfile)\<lparr>f_pos := p, f_vnode := v, f_fops := x, f_flags := y\<rparr> = \<lparr>f_vnode = v, f_pos = p, f_fops = x, f_flags = y\<rparr>"
  by simp

text \<open>\<open>put\<close> stores the handle in the file table, or in a variable.\<close>

lemma open_vnode_ok:
  assumes inv: "heap_inv L M (fs_heap s) R" and left: "pages_left (h_mm (fs_heap s)) (Suc n)"
    and v: "v \<noteq> NULL" "f_ops (vnodes s v) = TMPFS_F"
    and put: "\<And>v s. put v s = s\<lparr>fd_table := f v (fd_table s)\<rparr>"
  shows "\<exists>fp k h. open_vnode L put v flags s =
      Some (0, fp, s\<lparr>fs_heap := h, files := (files s)(fp := \<lparr>f_vnode = v, f_pos = 0, f_fops = TMPFS_F, f_flags = flags\<rparr>),
        fd_table := f fp (f fp (fd_table s))\<rparr>) \<and>
     fp \<noteq> NULL \<and> heap_inv L M h ((fp, k) # R) \<and> pages_left (h_mm h) n"
proof -
  from fs_alloc_left [OF inv left, of FILE_SIZE] obtain fp k h where
    a: "fs_alloc FILE_SIZE s = Some (fp, s\<lparr>fs_heap := h\<rparr>)" "fp \<noteq> NULL" "heap_inv L M h ((fp, k) # R)" "pages_left (h_mm h) n"
    by (auto simp: FILE_SIZE_def)
  have "open_vnode L put v flags s =
      Some (0, fp, s\<lparr>fs_heap := h, files := (files s)(fp := \<lparr>f_vnode = v, f_pos = 0, f_fops = TMPFS_F, f_flags = flags\<rparr>),
        fd_table := f fp (f fp (fd_table s))\<rparr>)"
    using a(1,2) v by (simp add: open_vnode_def Let_def fop_open_def tmpfs_open_def upd_file_def put vfile_all)
  then show ?thesis using a by blast
qed

text \<open>The search in \<open>vfs_open\<close> that finds no entry, and the directory for the new one.\<close>

lemma open_missing:
  assumes l: "points s path d name" and d: "dir_ok R s d" "\<forall>v \<in> set (entries_of s d). name_of s v \<noteq> name"
    and inv: "heap_inv L M (fs_heap s) R" and left: "pages_left (h_mm (fs_heap s)) (n + 3)" and fl: "creating flags"
    and put: "put NULL s0 = s"
  shows "\<exists>c k h. heap_inv L M h ((c, k) # R) \<and> pages_left (h_mm h) n \<and> c mod PAGE_SIZE \<noteq> 0 \<and> 0 < k \<and>
     vfs_open L put path flags s0 =
       (case tmpfs_create L d name (s\<lparr>fs_heap := h\<rparr>) of
          None \<Rightarrow> None
        | Some (r, v, s1) \<Rightarrow> (case fs_free L c s1 of None \<Rightarrow> None | Some s2 \<Rightarrow> open_vnode L put v flags s2))"
proof -
  have "tmpfs_lookup d name s = (ENOENT_VFS, NULL)"
  proof -
    have "find (\<lambda>v. name_of s v = name) (entries_of s d) = None" using d(2) by (auto simp: find_None_iff)
    then show ?thesis unfolding lookup_eq [OF d(1)] by simp
  qed
  then have r: "fst (resolve s path) = ENOENT_VFS" using points_resolve [OF l] by simp
  have "pages_left (h_mm (fs_heap s)) (Suc (n + 2))" using left by (simp add: numeral_eq_Suc)
  from vfs_lookup_local [OF inv this points_length [OF l] points_startable [OF l]] obtain h0 where
    v: "vfs_lookup L local_target path s = Some (ENOENT_VFS, snd (resolve s path), s\<lparr>fs_heap := h0\<rparr>)" "heap_inv L M h0 R" "pages_left (h_mm h0) (n + 2)"
    using r by auto
  let ?s0 = "s\<lparr>fs_heap := h0\<rparr>"
  have "heap_inv L M (fs_heap ?s0) R" "pages_left (h_mm (fs_heap ?s0)) (Suc (n + 1))" using v(2,3) by (simp_all add: numeral_eq_Suc)
  from path_copy [OF this points_length [OF l]] obtain c k h where c: "fs_alloc (of_nat (length path + 1)) ?s0 = Some (c, s\<lparr>fs_heap := h\<rparr>)"
    "c \<noteq> NULL" "c mod PAGE_SIZE \<noteq> 0" "0 < k" "heap_inv L M h ((c, k) # R)" "pages_left (h_mm h) (n + 1)" by auto
  let ?s1 = "s\<lparr>fs_heap := h\<rparr>" and ?dir = "if cwd s (current s) \<noteq> NULL then cwd s (current s) else the_root s"
  have "heap_inv L M (fs_heap ?s1) ((c, k) # R)" "pages_left (h_mm (fs_heap ?s1)) (Suc n)" "points ?s1 path d name"
    using c(5,6) l by simp_all
  from points_parent [OF this(3,1,2), of ?dir] obtain h2 where
    p: "basename path = name" "parent_dir L ?dir path ?s1 = Some (0, d, s\<lparr>fs_heap := h2\<rparr>)"
      "heap_inv L M h2 ((c, k) # R)" "pages_left (h_mm h2) n" by auto
  have n: "d \<noteq> NULL" "v_ops (vnodes s d) = TMPFS_V" using l by (auto simp: points_def)
  have i: "internal (vnodes s d) \<noteq> NULL" "name \<noteq> []" using d(1) l by (simp_all add: dir_ok_def points_def)
  have cur: "\<not> (last_slash path = -1 \<and> current s = NULL)"
    using l last_slash_none [of name] last_slash_append [of name] by (auto simp: points_def leads_def)
  have "open_create L path w ?s0 =
     (case tmpfs_create L d name (s\<lparr>fs_heap := h2\<rparr>) of
          None \<Rightarrow> None
        | Some (r, v, s1) \<Rightarrow> map_option (\<lambda>t. (Inr v, t)) (fs_free L c s1))"
    for w
    unfolding open_create_def Let_def using c(1,2) p(1,2) n i cur
    by (cases "cwd s (current s) = NULL"; cases "last_slash path = -1"; simp add: vop_create_def split: option.split)
  then have "vfs_open L put path flags s0 =
       (case tmpfs_create L d name (s\<lparr>fs_heap := h2\<rparr>) of
          None \<Rightarrow> None
        | Some (r, v, s1) \<Rightarrow> (case fs_free L c s1 of None \<Rightarrow> None | Some s2 \<Rightarrow> open_vnode L put v flags s2))"
    unfolding vfs_open_def using v(1) fl put by (simp split: option.split)
  then show ?thesis using p(3,4) c(3,4) by blast
qed

lemma open_full:
  assumes l: "leads s path d name" and d: "dir_ok R s d" "\<forall>v \<in> set (entries_of s d). name_of s v \<noteq> name"
    and full: "length (entries_of s d) = MAX_CHILDREN"
    and inv: "heap_inv L M (fs_heap s) R" and left: "pages_left (h_mm (fs_heap s)) 3" and fl: "creating flags"
  shows "vfs_open L local_target path flags s = None"
proof -
  have "pages_left (h_mm (fs_heap s)) (0 + 3)" using left by simp
  from open_missing [OF leads_points [OF l] d inv this fl, of local_target s] obtain c h where
    o: "vfs_open L local_target path flags s =
       (case tmpfs_create L d name (s\<lparr>fs_heap := h\<rparr>) of
          None \<Rightarrow> None
        | Some (r, v, s1) \<Rightarrow> (case fs_free L c s1 of None \<Rightarrow> None | Some s2 \<Rightarrow> open_vnode L local_target v flags s2))" by auto
  have "name \<noteq> []" "\<not> MAX_FILE_NAME \<le> length name" using l by (auto simp: leads_def)
  then have "tmpfs_create L d name (s\<lparr>fs_heap := h\<rparr>) = Some (ENOMEM_VFS, NULL, s\<lparr>fs_heap := h\<rparr>)"
    unfolding tmpfs_create_def using create_refused [of R "s\<lparr>fs_heap := h\<rparr>" d name L NODE_FILE] d full by auto
  moreover have "open_vnode L local_target NULL flags t = None" for t
    by (cases "fs_alloc FILE_SIZE t") (auto simp: open_vnode_def)
  ultimately show ?thesis unfolding o by (simp split: option.split)
qed

text \<open>A file that is opened for the first time is empty, and what is done with the handle is as \<open>tmpfs_file\<close> says.\<close>

lemma open_created:
  assumes l: "leads s path d name" and d: "dir_ok R s d" "may_create s d name"
    and inv: "heap_inv L M (fs_heap s) R" and left: "pages_left (h_mm (fs_heap s)) 7" and fl: "creating flags"
    and buf: "r \<in> set R" "bytes (buf, bl) \<subseteq> bytes r" "buf \<noteq> NULL" "bl < 2 ^ 31"
    and put: "\<And>v s. put v s = s\<lparr>fd_table := f v (fd_table s)\<rparr>" "put NULL s0 = s"
  shows "\<exists>fp s' Q. vfs_open L put path flags s0 = Some (0, fp, s') \<and> file_at L M Q fp buf bl s' [] 0 \<and> r \<in> set Q \<and>
     f_fops (files s' fp) = TMPFS_F \<and> fd_table s' = f fp (f fp (fd_table s)) \<and> fs_uart s' = fs_uart s \<and> current s' = current s \<and>
     4096 \<le> unat (n_capacity (fsnodes s' (file_node fp s')))"
proof -
  have "pages_left (h_mm (fs_heap s)) (Suc 0 + 3 + 3)" "\<forall>v \<in> set (entries_of s d). name_of s v \<noteq> name"
    using left d(2) by (simp_all add: may_create_def)
  from open_missing [where put = put and ?s0.0 = s0, OF leads_points [OF l] d(1) this(2) inv this(1) fl put(2)] obtain c k h where
    o: "vfs_open L put path flags s0 =
       (case tmpfs_create L d name (s\<lparr>fs_heap := h\<rparr>) of
          None \<Rightarrow> None
        | Some (r, v, s1) \<Rightarrow> (case fs_free L c s1 of None \<Rightarrow> None | Some s2 \<Rightarrow> open_vnode L put v flags s2))"
      "heap_inv L M h ((c, k) # R)" "pages_left (h_mm h) (Suc 0 + 3)" "c mod PAGE_SIZE \<noteq> 0" "0 < k" by blast
  have n: "name \<noteq> []" "length name < MAX_FILE_NAME" using l by (auto simp: leads_def)
  have "dir_ok R (s\<lparr>fs_heap := h\<rparr>) d" "may_create (s\<lparr>fs_heap := h\<rparr>) d name"
    "heap_inv L M (fs_heap (s\<lparr>fs_heap := h\<rparr>)) ((c, k) # R)" "pages_left (h_mm (fs_heap (s\<lparr>fs_heap := h\<rparr>))) (Suc 0 + 3)"
    using d o(2,3) by simp_all
  from create_with_copy [OF this(1,2) n this(3) o(4,5) this(4), of NODE_FILE] obtain v s1 R' h1 where
    t: "tmpfs_create L d name (s\<lparr>fs_heap := h\<rparr>) = Some (0, v, s1)" "fs_free L c s1 = Some (s1\<lparr>fs_heap := h1\<rparr>)"
      "heap_inv L M h1 R'" "pages_left (h_mm h1) (Suc 0)" and cr: "created R s d name NODE_FILE v R' (s1\<lparr>fs_heap := h1\<rparr>)"
    by (auto simp: tmpfs_create_def)
  let ?s2 = "s1\<lparr>fs_heap := h1\<rparr>"
  let ?i = "internal (vnodes s1 v)"
  have v: "v \<noteq> NULL" "set R \<subseteq> set R'" "dir_ok R' ?s2 d" "v \<in> set (entries_of ?s2 d)"
    "new_node name NODE_FILE (internal (vnodes s d)) (fsnodes s1 ?i)"
    using cr by (simp_all add: created_def)
  obtain k' where k': "4096 \<le> k'" "(n_data (fsnodes s1 ?i), k') \<in> set R'" "(n_data (fsnodes s1 ?i), k') \<notin> set R"
    using cr by (auto simp: created_def)
  have "f_ops (vnodes ?s2 v) = TMPFS_F" using created_fields [OF cr] by simp
  moreover have "heap_inv L M (fs_heap ?s2) R'" "pages_left (h_mm (fs_heap ?s2)) (Suc 0)" using t(3,4) by simp_all
  ultimately obtain fp kf h3 where
    f: "open_vnode L put v flags ?s2 =
      Some (0, fp, ?s2\<lparr>fs_heap := h3, files := (files ?s2)(fp := \<lparr>f_vnode = v, f_pos = 0, f_fops = TMPFS_F, f_flags = flags\<rparr>),
        fd_table := f fp (f fp (fd_table ?s2))\<rparr>)"
      "fp \<noteq> NULL" "heap_inv L M h3 ((fp, kf) # R')"
    using open_vnode_ok [of L M ?s2 R' 0 v put f flags, OF _ _ _ _ put(1)] v(1) by blast
  let ?s3 = "?s2\<lparr>fs_heap := h3, files := (files ?s2)(fp := \<lparr>f_vnode = v, f_pos = 0, f_fops = TMPFS_F, f_flags = flags\<rparr>),
        fd_table := f fp (f fp (fd_table ?s2))\<rparr>"
  have e: "vfs_open L put path flags s0 = Some (0, fp, ?s3)" using o(1) t(1,2) f(1) by simp
  have rest: "fd_table ?s2 = fd_table s" "fs_uart ?s2 = fs_uart s" "current ?s2 = current s"
    using cr by (simp_all add: created_def same_rest_def)
  define Q where "Q = remove1 (n_data (fsnodes s1 ?i), k') R'"
  have dist: "distinct R'" using heap_inv_distinct [OF t(3)] .
  have "heap_inv L M h3 ((n_data (fsnodes s1 ?i), k') # Q)"
    using dist k'(2) by (intro heap_inv_sub [OF f(3)]) (auto simp: Q_def)
  moreover have rQ: "r \<in> set Q"
  proof -
    have "r \<in> set R'" "r \<noteq> (n_data (fsnodes s1 ?i), k')" using buf(1) v(2) k'(3) by auto
    then show ?thesis unfolding Q_def by (metis in_set_remove1)
  qed
  moreover have "?i \<noteq> NULL"
  proof -
    have "owned R' ?i" using v(3,4) by (auto simp: dir_ok_def)
    then show ?thesis using t(3) unfolding owned_def heap_inv_def by force
  qed
  moreover have "n_type (fsnodes s1 ?i) = NODE_FILE" "n_data (fsnodes s1 ?i) \<noteq> NULL" "n_size (fsnodes s1 ?i) = 0"
    "n_capacity (fsnodes s1 ?i) = 4096" using v(5) by (auto simp: new_node_def DEFAULT_FILE_SIZE_def)
  ultimately have "file_at L M Q fp buf bl ?s3 [] 0"
    using f(2) v(1) k'(1) buf by (auto simp: file_at_def open_at_def bad_handle_def file_node_def Let_def mem_bytes_def)
  moreover have "f_fops (files ?s3 fp) = TMPFS_F" "fd_table ?s3 = f fp (f fp (fd_table s))" "fs_uart ?s3 = fs_uart s"
    "current ?s3 = current s" using rest by simp_all
  moreover have "4096 \<le> unat (n_capacity (fsnodes ?s3 (file_node fp ?s3)))"
    using v(5) by (simp add: file_node_def new_node_def DEFAULT_FILE_SIZE_def)
  ultimately show ?thesis using e rQ by blast
qed

end
