(* ===== verification/Signals.thy ===== *)
theory Signals
  imports Paths Syscall
begin

section \<open>Signals, the working directory and files that grow without end\<close>

text \<open>
  What a thread finds after a signal handler: the frame that \<open>handle_signal\<close> put away is what \<open>sys_sigreturn\<close>
  brings back, at the cost of the fields it was put over. \<open>sys_chdir\<close> in terms of \<open>resolve\<close>, and the doubling of
  \<open>tmpfs_write\<close> that does not end.
\<close>

subsection \<open>Saving and restoring a frame\<close>

lemma of_nat_ptr: "of_nat (ptr w) = w"
  by (simp add: ptr_def)

lemma save_frame_sel [simp]:
  "frames (save_frame t f s) = frames s" "cur_thread (save_frame t f s) = cur_thread s"
  "fs_heap (s_fs (save_frame t f s)) = fs_heap (s_fs s)"
  by (simp_all add: save_frame_def Let_def s_fs_def cur_thread_def get_current_def)

lemma saved_word_save:
  assumes "i < 34"
  shows "saved_word t (save_frame t f s) i = frame_word f i"
proof -
  have "to_link (ptr w) = None \<longleftrightarrow> w = 0" for w :: u64 by (simp add: to_link_def ptr_def unat_eq_0)
  then have l: "(case to_link (ptr w) of None \<Rightarrow> NULL | Some a \<Rightarrow> a) = ptr w" for w :: u64
    by (auto simp: to_link_def)
  consider "i = 0" | "i = 1" | "2 \<le> i" "i < 18" | "i = 18" | "19 \<le> i" by linarith
  then show ?thesis
  proof cases
    case 3
    then have "i - 2 < THREAD_MAX_FD" "i - 2 + 2 = i" by (simp_all add: THREAD_MAX_FD_def)
    then show ?thesis using 3 by (simp add: saved_word_def save_frame_def Let_def s_fs_def of_nat_ptr)
  next
    case 5
    then have "i - 19 < 15" "i - 19 + 19 = i" using assms by simp_all
    then show ?thesis using 5 by (simp add: saved_word_def save_frame_def Let_def)
  qed (simp_all add: saved_word_def save_frame_def Let_def s_fs_def of_nat_ptr l)
qed

definition same_frame :: "TrapFrame \<Rightarrow> TrapFrame \<Rightarrow> bool" where
  "same_frame f g \<longleftrightarrow> (\<forall>i < 31. regs f i = regs g i) \<and> sp_el0 f = sp_el0 g \<and> spsr_el1 f = spsr_el1 g \<and> elr_el1 f = elr_el1 g"

lemma heap_inv_bound:
  assumes inv: "heap_inv L M s R" and r: "(p, k) \<in> set R"
  shows "p < PAGE_NUM * PAGE_SIZE"
proof -
  obtain fl A C fr U where h: "heap_ok L M s fl A C fr U" "set R \<subseteq> regions A C U"
    using inv unfolding heap_inv_def by blast
  then have "(p, k) \<in> regions A C U" using r by blast
  then consider b j where "(b, j) \<in> A" "p = b * PAGE_SIZE" | a i where "(a, i) \<in> U" "p = a + ENTRY_SIZE"
    unfolding regions_def block_region_def chunk_region_def by auto
  then have "p div PAGE_SIZE < PAGE_NUM"
  proof cases
    case 1
    have "aligned (b, j)" using heap_okD(1) [OF h(1)] 1(1) by (simp add: mm_ok_def buddy_ok_def)
    moreover have "0 < (2 :: nat) ^ j" by simp
    ultimately have "b < PAGE_NUM" unfolding aligned_def by (simp, linarith)
    then show ?thesis using 1(2) by simp
  next
    case 2
    have c: "chunk_at C i a" using heap_okD(7) [OF h(1)] 2(1) by simp
    have "p div PAGE_SIZE = a div PAGE_SIZE" unfolding 2(2) by (rule chunk_page(3) [OF c]) (simp add: chunk_step_def)
    then show ?thesis using chunk_page(2) [OF c] by metis
  qed
  then show ?thesis by (simp add: div_less_iff_less_mult)
qed

lemma signal_round_trip:
  assumes t: "cur_thread s = t" "t \<noteq> NULL" and inv: "heap_inv (e_layout E) M (fs_heap (s_fs s)) R"
    and h: "h = sig_handlers (threads (s_kern s) t) sig" "h \<noteq> NULL" "h \<noteq> e_hdl E" "h \<noteq> e_kill_hdl E"
  shows "\<exists>p sp s1. handle_signal E t sig s = Some (Enter_user (of_nat (e_wrapper E)) sp (of_nat h), s1) \<and>
     alloc THREAD_STACK_SIZE (fs_heap (s_fs s)) = Some (p, fs_heap (s_fs s1)) \<and> sp = of_nat p + ucast THREAD_STACK_SIZE \<and>
     cwd (s_fs s1) t = ptr (regs (frames s t) 1) \<and>
     (\<forall>fr. \<exists>s2. sys_sigreturn E (s1\<lparr>frames := (frames s1)(t := fr)\<rparr>) = Some s2 \<and> same_frame (frames s2 t) (frames s t) \<and>
        free (e_layout E) p (fs_heap (s_fs s1)) = Some (fs_heap (s_fs s2)) \<and>
        heap_inv (e_layout E) M (fs_heap (s_fs s2)) R \<and> cwd (s_fs s2) t = ptr (regs (frames s t) 1))"
proof -
  let ?L = "e_layout E" and ?s1 = "save_frame t (frames s t) s"
  obtain p g where a: "alloc THREAD_STACK_SIZE (fs_heap (s_fs s)) = Some (p, g)"
    "p = NULL \<Longrightarrow> heap_inv ?L M g R" "p \<noteq> NULL \<Longrightarrow> \<exists>k. heap_inv ?L M g ((p, k) # R)"
    using heap_inv_alloc [OF inv, of THREAD_STACK_SIZE] by blast
  have p: "unat (of_nat p :: u64) = p"
  proof (cases "p = NULL")
    case False
    then obtain k where "heap_inv ?L M g ((p, k) # R)" using a(3) by blast
    then have "p < PAGE_NUM * PAGE_SIZE" using heap_inv_bound [of ?L M g "(p, k) # R" p k] by simp
    then show ?thesis by (simp add: unat_of_nat PAGE_NUM_eq)
  qed simp
  obtain g' where f: "free ?L p g = Some g'" "heap_inv ?L M g' R"
  proof (cases "p = NULL")
    case True
    then show ?thesis using a(2) that [of g] by (simp add: free_def)
  next
    case False
    then obtain k where "heap_inv ?L M g ((p, k) # R)" using a(3) by blast
    from heap_inv_free [OF this, of 0] show ?thesis using that by (auto simp: drop_nth_def)
  qed
  have al: "fs_alloc THREAD_STACK_SIZE (s_fs ?s1) = Some (p, (s_fs ?s1)\<lparr>fs_heap := g\<rparr>)"
    using a(1) by (simp add: fs_alloc_def)
  let ?sp = "of_nat p + ucast THREAD_STACK_SIZE :: u64"
  let ?k = "s_kern (put_fs ((s_fs ?s1)\<lparr>fs_heap := g\<rparr>) ?s1)"
  let ?s2 = "(put_fs ((s_fs ?s1)\<lparr>fs_heap := g\<rparr>) ?s1)\<lparr>s_kern := ?k\<lparr>threads := upd_thread t
      (\<lambda>t. t\<lparr>cpu_ctx := (cpu_ctx t)\<lparr>sp_reg := ?sp, fp_reg := ?sp, lr_reg := of_nat (e_wrapper E)\<rparr>\<rparr>) (threads ?k)\<rparr>\<rparr>"
  have hs: "handle_signal E t sig s = Some (Enter_user (of_nat (e_wrapper E)) ?sp (of_nat h), ?s2)"
    using h al by (simp add: handle_signal_def Let_def)
  have sel: "s_fs ?s2 = (s_fs ?s1)\<lparr>fs_heap := g\<rparr>" "frames ?s2 = frames s" "cur_thread ?s2 = t"
    "fp_reg (cpu_ctx (threads (s_kern ?s2) t)) = ?sp" "sig_spill ?s2 = sig_spill ?s1"
    "sig_frame (threads (s_kern ?s2) t) = sig_frame (threads (s_kern ?s1) t)"
    "th_next (threads (s_kern ?s2) t) = th_next (threads (s_kern ?s1) t)"
    using t(1) by (simp_all add: put_fs_def s_fs_def cur_thread_def get_current_def save_frame_def Let_def)
  define u where "u = ?s2"
  note sel' = sel [folded u_def] and hs' = hs [folded u_def]
  have w: "saved_word t v i = frame_word (frames s t) i"
    if "i < 34" "s_fs v = (s_fs u)\<lparr>fs_heap := g'\<rparr>" "s_kern v = (s_kern u)\<lparr>k_fs := k_fs (s_kern v)\<rparr>" "sig_spill v = sig_spill u" for v i
  proof -
    have "threads (s_kern v) = threads (s_kern u)" by (subst that(3)) simp
    then have "saved_word t v i = saved_word t ?s1 i" using that sel' by (simp add: saved_word_def)
    then show ?thesis using saved_word_save [OF that(1)] by metis
  qed
  have cw: "cwd (s_fs u) t = ptr (regs (frames s t) 1)"
    unfolding sel'(1) by (simp add: save_frame_def Let_def s_fs_def frame_word_def)
  have "\<exists>s2. sys_sigreturn E (u\<lparr>frames := (frames u)(t := fr)\<rparr>) = Some s2 \<and> same_frame (frames s2 t) (frames s t) \<and>
        fs_heap (s_fs s2) = g' \<and> cwd (s_fs s2) t = ptr (regs (frames s t) 1)" for fr
  proof -
    let ?v = "u\<lparr>frames := (frames u)(t := fr)\<rparr>"
    have v: "cur_thread ?v = t" "s_fs ?v = s_fs u" "s_kern ?v = s_kern u" "sig_spill ?v = sig_spill u"
      using sel'(3) by (simp_all add: cur_thread_def s_fs_def)
    have fr: "fs_free ?L (unat (fp_reg (cpu_ctx (threads (s_kern ?v) t)) - ucast THREAD_STACK_SIZE)) (s_fs ?v) =
        Some ((s_fs u)\<lparr>fs_heap := g'\<rparr>)"
      using f(1) p unfolding v sel'(4) by (simp add: fs_free_def sel'(1))
    let ?x = "put_fs ((s_fs u)\<lparr>fs_heap := g'\<rparr>) ?v"
    have x: "s_fs ?x = (s_fs u)\<lparr>fs_heap := g'\<rparr>" "s_kern ?x = (s_kern u)\<lparr>k_fs := k_fs (s_kern ?x)\<rparr>" "sig_spill ?x = sig_spill u"
      by (simp_all add: put_fs_def s_fs_def)
    let ?y = "?x\<lparr>frames := (frames ?x)(t := \<lparr>regs = \<lambda>i. if i < 31 then saved_word t ?x i else regs (frames ?x t) i,
                   sp_el0 = saved_word t ?x 31, spsr_el1 = saved_word t ?x 32, elr_el1 = saved_word t ?x 33\<rparr>)\<rparr>"
    have r: "sys_sigreturn E ?v = Some ?y" using t(2) v(1) fr by (simp add: sys_sigreturn_def Let_def)
    have "same_frame (frames ?y t) (frames s t)"
      using w [OF _ x] by (simp add: same_frame_def frame_word_def)
    moreover have "s_fs ?y = (s_fs u)\<lparr>fs_heap := g'\<rparr>" using x(1) by (simp add: s_fs_def)
    ultimately show ?thesis using r cw by (intro exI [of _ ?y]) simp
  qed
  moreover have "fs_heap (s_fs u) = g" using sel'(1) by simp
  ultimately show ?thesis using hs' cw a(1) f by - (rule exI [of _ p], rule exI [of _ ?sp], rule exI [of _ u], metis)
qed

subsection \<open>The working directory\<close>

lemma find_child_cwd [simp]: "find_child (s\<lparr>cwd := f\<rparr>) name vs = find_child s name vs"
  by (induction vs) simp_all

lemma walk_cwd [simp]: "walk (s\<lparr>cwd := f\<rparr>) cs cur t = walk s cs cur t"
proof (induction cs arbitrary: cur t)
  case (Cons c cs)
  have "vop_lookup v c (s\<lparr>cwd := f\<rparr>) = vop_lookup v c s" for v
    by (cases "v_ops (vnodes s v)") (simp_all add: vop_lookup_def tmpfs_lookup_def initramfs_lookup_def Let_def cong: if_cong)
  moreover have "enter_mount (s\<lparr>cwd := f\<rparr>) v = enter_mount s v" "go_up (s\<lparr>cwd := f\<rparr>) v = go_up s v"
    "the_root (s\<lparr>cwd := f\<rparr>) = the_root s" for v
    by (simp_all add: enter_mount_def go_up_def the_root_def Let_def cong: if_cong)
  ultimately show ?case using Cons by (simp split: option.split prod.split)
qed simp

lemma chdir_ok:
  assumes t: "cur_thread s = t" "t \<noteq> NULL" and p: "p = ptr (arg t 0 s)" "p \<noteq> NULL"
    and path: "c_string (fs_mem (s_fs s)) p = Some path" "fs_mem (s_fs s) p \<noteq> 0" "length path < 128"
    and inv: "heap_inv (e_layout E) M (fs_heap (s_fs s)) R" and left: "pages_left (h_mm (fs_heap (s_fs s))) (Suc n)"
  shows "\<exists>s'. sys_chdir E s = Some s' \<and> heap_inv (e_layout E) M (fs_heap (s_fs s')) R \<and>
     (if is_absolute path
      then cwd (s_fs s') t = snd (resolve (s_fs s) path) \<and>
           arg t 0 s' = reg_of (if fst (resolve (s_fs s) path) < 0 then fst (resolve (s_fs s) path) else 0)
      else cwd (s_fs s') t = NULL \<and> arg t 0 s' = reg_of EINTERR_VFS)"
proof -
  let ?f = "s_fs s" and ?g = "set_cwd t NULL (s_fs s)"
  obtain r v where rv: "resolve ?g path = (r, v)" by (cases "resolve ?g path")
  obtain h where l: "vfs_lookup (e_layout E) (set_cwd t) path ?f = Some (r, v, (set_cwd t v ?g)\<lparr>fs_heap := h\<rparr>)"
    "heap_inv (e_layout E) M h R"
    using vfs_lookup_ok [where put = "set_cwd t", OF inv left path(3)] rv t p by (auto simp: set_cwd_def startable_def cur_thread_def get_current_def s_fs_def)
  let ?s = "ret t (reg_of (if r < 0 then r else 0)) (put_fs ((set_cwd t v ?g)\<lparr>fs_heap := h\<rparr>) s)"
  have e: "sys_chdir E s = Some ?s" using t p path(1,2) l(1) by (simp add: sys_chdir_def Let_def)
  have s: "s_fs ?s = (set_cwd t v ?g)\<lparr>fs_heap := h\<rparr>" "arg t 0 ?s = reg_of (if r < 0 then r else 0)"
    by (simp_all add: s_fs_def put_fs_def ret_def arg_def)
  have c: "cwd (s_fs ?s) t = v" "heap_inv (e_layout E) M (fs_heap (s_fs ?s)) R"
    unfolding s(1) using l(2) by (simp_all add: set_cwd_def)
  have cu: "current ?f = t" using t(1) by (simp add: cur_thread_def get_current_def s_fs_def)
  have "(r, v) = (if is_absolute path then resolve ?f path else (EINTERR_VFS, NULL))"
    using rv cu by (auto simp: resolve_def set_cwd_def the_root_def)
  then have rv': "r = fst (if is_absolute path then resolve ?f path else (EINTERR_VFS, NULL))"
    "v = snd (if is_absolute path then resolve ?f path else (EINTERR_VFS, NULL))" by (metis fst_conv, metis snd_conv)
  define u where "u = ?s"
  show ?thesis using e [folded u_def] c [folded u_def] s(2) [folded u_def] unfolding rv'
    by (cases "is_absolute path") auto
qed

subsection \<open>Growth without end\<close>

definition doubled :: "u64 \<Rightarrow> bool" where
  "doubled c \<longleftrightarrow> unat c = 0 \<or> (\<exists>k \<le> 63. unat c = 2 ^ k)"

lemma doubled_step: "doubled c \<Longrightarrow> doubled (c * 2)"
proof -
  assume "doubled c"
  then consider "unat c = 0" | k where "k \<le> 63" "unat c = 2 ^ k" by (auto simp: doubled_def)
  then show ?thesis
  proof cases
    case 2
    have m: "unat (c * 2) = 2 ^ Suc k mod 2 ^ 64" using 2(2) by (simp add: unat_word_ariths mult.commute)
    show ?thesis
    proof (cases "k = 63")
      case False
      then have "(2 :: nat) ^ Suc k < 2 ^ 64" using 2(1) by (intro power_strict_increasing) simp_all
      then have "unat (c * 2) = 2 ^ Suc k" using m by simp
      moreover have "Suc k \<le> 63" using False 2(1) by simp
      ultimately show ?thesis unfolding doubled_def by blast
    qed (use m in \<open>simp add: doubled_def\<close>)
  qed (simp add: doubled_def unat_word_ariths)
qed

lemma doubled_less: "doubled c \<Longrightarrow> 2 ^ 63 < unat r \<Longrightarrow> c < r"
proof -
  assume r: "2 ^ 63 < unat r" and "doubled c"
  then consider "unat c = 0" | k where "k \<le> 63" "unat c = 2 ^ k" by (auto simp: doubled_def)
  then show ?thesis
  proof cases
    case 2
    have "(2 :: nat) ^ k \<le> 2 ^ 63" using 2(1) by (rule power_increasing) simp
    then have "unat c < unat r" using r unfolding 2(2) by (rule le_less_trans)
    then show ?thesis by (simp only: word_less_nat_alt)
  qed (use r in \<open>simp add: word_less_nat_alt\<close>)
qed

lemma grow_hangs:
  assumes "2 ^ 63 < unat r" "doubled c"
  shows "grow r c = None"
proof (rule ccontr)
  assume "grow r c \<noteq> None"
  then obtain y where "grow r c = Some y" by auto
  then have "\<not> (2 ^ 63 < unat r \<and> doubled c)"
  proof (rule grow.raw_induct [where P = "\<lambda>r c y. \<not> (2 ^ 63 < unat r \<and> doubled c)", rotated])
    fix g r c y
    assume IH: "\<And>r c y. g r c = Some y \<Longrightarrow> \<not> (2 ^ 63 < unat r \<and> doubled c)"
      and e: "(if c < r then g r (c * 2) else Some c) = Some y"
    show "\<not> (2 ^ 63 < unat r \<and> doubled c)"
    proof
      assume a: "2 ^ 63 < unat r \<and> doubled c"
      then have c: "c < r" using doubled_less by blast
      have "g r (c * 2) = Some y" using e by (simp only: c if_True)
      from IH [OF this] have "\<not> (2 ^ 63 < unat r \<and> doubled (c * 2))" .
      moreover have "doubled (c * 2)" using a by (intro doubled_step) (rule conjunct2)
      ultimately show False using a by (simp only: simp_thms)
    qed
  qed
  then show False using assms by (simp only: simp_thms)
qed

end
