(* ===== verification/FileProps.thy ===== *)
theory FileProps
  imports Signals Machine
begin

section \<open>Properties of files, paths, system calls and signals\<close>

subsection \<open>Files\<close>

text \<open>
  For the witnesses: the vnode 2 of the node 3, a regular file whose data is the block at \<open>d\<close>, and the handle 1 on it.
\<close>

definition one_file :: "heap \<Rightarrow> addr \<Rightarrow> fs" where
  "one_file h d = blank_fs\<lparr>fs_heap := h,
     vnodes := (vnodes blank_fs)(2 := (vnodes blank_fs 2)\<lparr>internal := 3, f_ops := TMPFS_F, v_ops := TMPFS_V\<rparr>),
     files := (files blank_fs)(1 := \<lparr>f_vnode = 2, f_pos = 0, f_fops = TMPFS_F, f_flags = 0\<rparr>),
     fsnodes := (fsnodes blank_fs)(3 := (fsnodes blank_fs 3)\<lparr>n_data := d, n_capacity := 4096\<rparr>)\<rparr>"

lemma one_file_at:
  "\<exists>d b kb h. d \<noteq> NULL \<and> file_at board board_pages [(b, kb)] 1 b 4096 (one_file h d) [] 0"
proof -
  obtain h R where h: "length R = 2" "heap_inv board board_pages h R" "\<forall>r \<in> set R. 4096 \<le> fst r \<and> 4096 \<le> snd r"
    using board_blocks [of 2] by auto
  then obtain d k b kb where R: "R = [(d, k), (b, kb)]" by (auto simp: length_Suc_conv numeral_2_eq_2)
  have "file_at board board_pages [(b, kb)] 1 b 4096 (one_file h d) [] 0"
    using h(2,3) unfolding R
    by (auto simp: file_at_def open_at_def bad_handle_def file_node_def one_file_def blank_fs_def Let_def mem_bytes_def bytes_def)
  moreover have "d \<noteq> NULL" using h(3) R by auto
  ultimately show ?thesis by blast
qed

text \<open>C2: Any sequence of reads, writes and seeks on a handle of the in-memory file system that stays within the
  buffer, within 2 GiB and leaves no hole does on the file's bytes what the same sequence does on a list of bytes
  with a position: every read gives the bytes there, every write that reports success overwrites or extends them,
  one that fails changes nothing; and a caller's buffer never overlaps the file's data.\<close>

theorem tmpfs_file_refines:
  assumes "file_at L M R fp buf bl s c p" "within bl FILE_LIM ops (length c) p"
  shows "\<exists>rs s' c' p'. file_run (tmpfs_fetch fp buf bl) (tmpfs_goto fp) (tmpfs_store L fp buf) ops s = Some (rs, s') \<and>
     spec_run ops rs (c, p) = Some (c', p') \<and> file_at L M R fp buf bl s' c' p'"
  by (rule tmpfs_file.run_at [OF assms])

theorem tmpfs_file_refines_witness:
  "\<exists>d b kb h rs s' c' p'. file_run (tmpfs_fetch 1 b 4096) (tmpfs_goto 1) (tmpfs_store board 1 b)
       [Store [1, 2], Goto 0, Fetch 2] (one_file h d) = Some (rs, s') \<and>
     spec_run [Store [1, 2], Goto 0, Fetch 2] rs ([], 0) = Some (c', p') \<and>
     file_at board board_pages [(b, kb)] 1 b 4096 s' c' p'"
proof -
  obtain d b kb h where "file_at board board_pages [(b, kb)] 1 b 4096 (one_file h d) [] 0" using one_file_at by blast
  from tmpfs_file_refines [OF this, of "[Store [1, 2], Goto 0, Fetch 2]"] show ?thesis
    by (simp add: FILE_LIM_def) blast
qed

text \<open>C21: A write that fits the file's capacity succeeds, and seeking back and reading as many bytes gives
  what was written; the rest of the file is as it was.\<close>

theorem tmpfs_write_read_back:
  assumes "file_at L M R fp buf bl s c p" "p \<le> length c" "length bs \<le> bl" "p + length bs \<le> FILE_LIM"
    and "p + length bs \<le> unat (n_capacity (fsnodes s (file_node fp s)))"
  shows "\<exists>s1 s2. tmpfs_store L fp buf bs s = Some (True, s1) \<and>
     tmpfs_fetch fp buf bl (length bs) (tmpfs_goto fp p s1) = (bs, s2) \<and>
     file_at L M R fp buf bl s2 (overwrite p bs c) (p + length bs)"
proof -
  let ?t = "put_mem (put_bytes bs buf (fs_mem s)) s"
  have t: "file_at L M R fp buf bl ?t c p" by (rule file_at_buffer [OF assms(1,3)])
  have n: "fsnodes ?t (file_node fp ?t) = fsnodes s (file_node fp s)" by (simp add: file_node_def)
  obtain r where "tmpfs_write L fp buf (of_nat (length bs)) ?t = Some (int (length bs), r)"
    using write_fits [OF t assms(3)] assms(5) unfolding n by blast
  then have st: "tmpfs_store L fp buf bs s = Some (True, r)" by (simp add: tmpfs_store_def)
  obtain ok s1 where s1: "tmpfs_store L fp buf bs s = Some (ok, s1)"
    "if ok then file_at L M R fp buf bl s1 (overwrite p bs c) (p + length bs) else file_at L M R fp buf bl s1 c p"
    using tmpfs_file.store_at [OF assms(1-4)] by blast
  have f1: "file_at L M R fp buf bl s1 (overwrite p bs c) (p + length bs)" and ok: "ok" using s1 st by auto
  have "file_at L M R fp buf bl (tmpfs_goto fp p s1) (overwrite p bs c) p"
    using tmpfs_file.goto_at [OF f1, of p] assms(4) by simp
  from tmpfs_file.fetch_at [OF this assms(3)] show ?thesis
    using s1(1) ok read_back [OF assms(2), of bs] by auto
qed

theorem tmpfs_write_read_back_witness:
  "\<exists>d b kb h s1 s2. tmpfs_store board 1 b [7, 8, 9] (one_file h d) = Some (True, s1) \<and>
     tmpfs_fetch 1 b 4096 3 (tmpfs_goto 1 0 s1) = ([7, 8, 9], s2) \<and>
     file_at board board_pages [(b, kb)] 1 b 4096 s2 [7, 8, 9] 3"
proof -
  obtain d b kb h where f: "file_at board board_pages [(b, kb)] 1 b 4096 (one_file h d) [] 0" using one_file_at by blast
  have "n_capacity (fsnodes (one_file h d) (file_node 1 (one_file h d))) = 4096"
    by (simp add: one_file_def file_node_def blank_fs_def)
  then have "unat (n_capacity (fsnodes (one_file h d) (file_node 1 (one_file h d)))) = 4096" by simp
  moreover have l: "length [7, 8, 9 :: byte] = 3" "overwrite 0 [7, 8, 9 :: byte] [] = [7, 8, 9]" by (simp_all add: overwrite_def)
  ultimately have "\<exists>s1 s2. tmpfs_store board 1 b [7, 8, 9] (one_file h d) = Some (True, s1) \<and>
     tmpfs_fetch 1 b 4096 (length [7, 8, 9 :: byte]) (tmpfs_goto 1 0 s1) = ([7, 8, 9], s2) \<and>
     file_at board board_pages [(b, kb)] 1 b 4096 s2 (overwrite 0 [7, 8, 9] []) (0 + length [7, 8, 9 :: byte])"
    by (intro tmpfs_write_read_back [OF f]) (simp_all add: FILE_LIM_def)
  then show ?thesis unfolding l add_0 by blast
qed

subsection \<open>Directories and paths\<close>

text \<open>
  For the witnesses: a current thread, at address 1, and a root directory, the vnode \<open>d\<close> of the node \<open>i\<close>, with \<open>k\<close> entries, which all lead back to it.
\<close>

definition one_dir :: "heap \<Rightarrow> addr \<Rightarrow> addr \<Rightarrow> nat \<Rightarrow> fs" where
  "one_dir h d i k = blank_fs\<lparr>fs_heap := h, current := 1, rootfs := 1, mounts := (mounts blank_fs)(1 := \<lparr>m_root = d, m_fs = 0\<rparr>),
     vnodes := (vnodes blank_fs)(d := (vnodes blank_fs d)\<lparr>internal := i, v_ops := TMPFS_V, f_ops := TMPFS_F\<rparr>),
     fsnodes := (fsnodes blank_fs)(i := (fsnodes blank_fs i)\<lparr>n_type := NODE_DIRECTORY, n_name := [0x2F],
       n_children := \<lambda>_. d, num_children := k\<rparr>)\<rparr>"

lemma one_dir_ok:
  "\<exists>h R d i. heap_inv board board_pages h R \<and> R \<noteq> [] \<and> pages_left (h_mm h) 100 \<and> d \<noteq> NULL \<and>
     (\<forall>r \<in> set R. fst r \<noteq> NULL \<and> 4096 \<le> snd r) \<and> (\<forall>k \<le> MAX_CHILDREN. dir_ok R (one_dir h d i k) d)"
proof -
  obtain h R where h: "length R = 2" "heap_inv board board_pages h R" "pages_left (h_mm h) (16000 - 2)"
    "\<forall>r \<in> set R. 4096 \<le> fst r \<and> 4096 \<le> snd r" using board_blocks [of 2] by auto
  then obtain d k i l where R: "R = [(d, k), (i, l)]" by (auto simp: length_Suc_conv numeral_2_eq_2)
  have "dir_ok R (one_dir h d i n) d" if "n \<le> MAX_CHILDREN" for n
    using h(4) that unfolding R by (auto simp: dir_ok_def one_dir_def entries_of_def children_def)
  moreover have "pages_left (h_mm h) 100" using pages_left_mono [OF h(3), of 100] by simp
  moreover have "d \<noteq> NULL" "R \<noteq> []" "\<forall>r \<in> set R. fst r \<noteq> NULL \<and> 4096 \<le> snd r" using h(4) R by auto
  ultimately show ?thesis using h(2) by blast
qed

lemma one_dir_leads: "d \<noteq> NULL \<Longrightarrow> leads (one_dir h d i k) [0x2F, 0x61] d [0x61]"
  by (simp add: leads_def one_dir_def the_root_def MAX_FILE_NAME_def blank_fs_def)

lemma one_dir_names: "v \<in> set (entries_of (one_dir h d i k) d) \<Longrightarrow> name_of (one_dir h d i k) v \<noteq> [0x61]"
  by (auto simp: entries_of_def name_of_def one_dir_def children_def)

lemma one_dir_entries: "length (entries_of (one_dir h d i k) d) = k"
  by (simp add: entries_of_def one_dir_def children_def)

text \<open>C15: \<open>vfs_mkdir\<close> of a new name in the root (\<open>/name\<close>) or in the working directory (\<open>name\<close>) of the in-memory file
  system succeeds while there is a current thread (\<open>vfs_mkdir\<close> follows \<open>get_current()->cwd\<close> for any path) and room in
  the directory and memory; then \<open>vfs_lookup\<close> of the same path gives the new
  vnode, an empty directory with that name and parent, and every other entry can be looked up as before.\<close>

theorem mkdir_then_lookup:
  assumes "leads s path d name" "dir_ok R s d" "may_create s d name"
    and "heap_inv L M (fs_heap s) R" "pages_left (h_mm (fs_heap s)) 6" "current s \<noteq> NULL"
  shows "\<exists>s' v s'' R'. vfs_mkdir L path s = Some (0, s') \<and> vfs_lookup L local_target path s' = Some (0, v, s'') \<and>
     dir_ok R' s'' d \<and> heap_inv L M (fs_heap s'') R' \<and> set R \<subseteq> set R' \<and> entries_of s'' d = entries_of s d @ [v] \<and> name_of s'' v = name \<and>
     n_type (fsnodes s'' (internal (vnodes s'' v))) = NODE_DIRECTORY \<and> v_parent (vnodes s'' v) = d \<and>
     (\<forall>m. m \<noteq> name \<longrightarrow> tmpfs_lookup d m s'' = tmpfs_lookup d m s)"
proof -
  have "pages_left (h_mm (fs_heap s)) (Suc 0 + 5)" using assms(5) by simp
  from mkdir_ok [OF leads_points [OF assms(1)] assms(2-4) this assms(6)] obtain v s' R' where m: "vfs_mkdir L path s = Some (0, s')"
    "heap_inv L M (fs_heap s') R'" "pages_left (h_mm (fs_heap s')) (Suc 0)" "created R s d name NODE_DIRECTORY v R' s'" by blast
  have "resolve s' path = (0, v)" using created_resolves [OF assms(1-3) m(4)] by blast
  moreover have "startable s' path" using m(4) assms(6) by (simp add: startable_def created_def same_rest_def)
  ultimately obtain h where l: "vfs_lookup L local_target path s' = Some (0, v, s'\<lparr>fs_heap := h\<rparr>)" "heap_inv L M h R'"
    using vfs_lookup_local [OF m(2,3) leads_length [OF assms(1)]] by auto
  have "\<forall>u \<in> set (entries_of s d). name_of s u \<noteq> name" using assms(3) by (simp add: may_create_def)
  then have o: "tmpfs_lookup d m s' = tmpfs_lookup d m s" if "m \<noteq> name" for m
    using lookup_created [OF assms(2) m(4)] that by simp
  have "tmpfs_lookup d m (s'\<lparr>fs_heap := h\<rparr>) = tmpfs_lookup d m s'" for m
    by (simp add: tmpfs_lookup_def Let_def cong: if_cong)
  moreover have "v_parent (vnodes s' v) = d" "n_type (fsnodes s' (internal (vnodes s' v))) = NODE_DIRECTORY"
    using created_fields [OF m(4)] m(4) by (auto simp: created_def new_node_def)
  ultimately show ?thesis using m l o
    by (intro exI [of _ s'] exI [of _ v] exI [of _ "s'\<lparr>fs_heap := h\<rparr>"] exI [of _ R']) (auto simp: created_def)
qed

theorem mkdir_then_lookup_witness:
  "\<exists>h d i s' v s''. vfs_mkdir board [0x2F, 0x61] (one_dir h d i 0) = Some (0, s') \<and>
     vfs_lookup board local_target [0x2F, 0x61] s' = Some (0, v, s'') \<and> entries_of s'' d = [v] \<and> name_of s'' v = [0x61]"
proof -
  obtain h R d i where h: "heap_inv board board_pages h R" "pages_left (h_mm h) 100" "d \<noteq> NULL"
    "\<forall>k \<le> MAX_CHILDREN. dir_ok R (one_dir h d i k) d" using one_dir_ok by blast
  have d: "dir_ok R (one_dir h d i 0) d" using h(4) by blast
  have m: "may_create (one_dir h d i 0) d [0x61]"
    using one_dir_names [of _ h d i 0] by (auto simp: may_create_def one_dir_entries MAX_CHILDREN_def)
  have p: "fs_heap (one_dir h d i 0) = h" "pages_left (h_mm h) 6" using pages_left_mono [OF h(2), of 6] by (simp_all add: one_dir_def)
  have "entries_of (one_dir h d i 0) d = []" using one_dir_entries [of h d i 0] by simp
  moreover have "current (one_dir h d i 0) \<noteq> NULL" by (simp add: one_dir_def)
  ultimately show ?thesis using mkdir_then_lookup [OF one_dir_leads [OF h(3)] d m, of board board_pages] h(1) p by fastforce
qed

text \<open>C11: Opening a new name with \<open>O_CREAT\<close> gives a handle at the start of a new empty file, and any sequence of
  reads, writes and seeks on it (within the buffer and 2 GiB) behaves as on a list of bytes that is empty at first.\<close>

theorem open_new_file:
  assumes "leads s path d name" "dir_ok R s d" "may_create s d name"
    and "heap_inv L M (fs_heap s) R" "pages_left (h_mm (fs_heap s)) 7" "creating flags"
    and "r \<in> set R" "bytes (buf, bl) \<subseteq> bytes r" "buf \<noteq> NULL" "bl < 2 ^ 31"
  shows "\<exists>fp s'. vfs_open L local_target path flags s = Some (0, fp, s') \<and>
     (\<forall>ops. within bl FILE_LIM ops 0 0 \<longrightarrow>
        (\<exists>rs s'' cp. file_run (tmpfs_fetch fp buf bl) (tmpfs_goto fp) (tmpfs_store L fp buf) ops s' = Some (rs, s'') \<and>
           spec_run ops rs ([], 0) = Some cp))"
proof -
  obtain fp s' Q where o: "vfs_open L local_target path flags s = Some (0, fp, s')" "file_at L M Q fp buf bl s' [] 0"
    using open_created [OF assms, of local_target "\<lambda>_ x. x" s] by auto
  have "\<exists>rs s'' cp. file_run (tmpfs_fetch fp buf bl) (tmpfs_goto fp) (tmpfs_store L fp buf) ops s' = Some (rs, s'') \<and>
           spec_run ops rs ([], 0) = Some cp" if "within bl FILE_LIM ops 0 0" for ops
    using tmpfs_file.run_at [OF o(2), of ops] that by fastforce
  then show ?thesis using o(1) by blast
qed

theorem open_new_file_witness:
  "\<exists>h d i fp s' buf rs s'' cp. vfs_open board local_target [0x2F, 0x61] O_CREAT (one_dir h d i 0) = Some (0, fp, s') \<and>
     file_run (tmpfs_fetch fp buf 16) (tmpfs_goto fp) (tmpfs_store board fp buf) [Store [1, 2], Goto 0, Fetch 2] s' = Some (rs, s'') \<and>
     spec_run [Store [1, 2], Goto 0, Fetch 2] rs ([], 0) = Some cp"
proof -
  obtain h R d i where h: "heap_inv board board_pages h R" "pages_left (h_mm h) 100" "d \<noteq> NULL" "R \<noteq> []"
    "\<forall>k \<le> MAX_CHILDREN. dir_ok R (one_dir h d i k) d" "\<forall>r \<in> set R. fst r \<noteq> NULL \<and> 4096 \<le> snd r" using one_dir_ok by blast
  have d: "dir_ok R (one_dir h d i 0) d" using h(5) by blast
  have m: "may_create (one_dir h d i 0) d [0x61]"
    using one_dir_names [of _ h d i 0] by (auto simp: may_create_def one_dir_entries MAX_CHILDREN_def)
  have p: "fs_heap (one_dir h d i 0) = h" "pages_left (h_mm h) 7" using pages_left_mono [OF h(2), of 7] by (simp_all add: one_dir_def)
  obtain r where r: "r \<in> set R" "fst r \<noteq> NULL" "4096 \<le> snd r" using h(4,6) by (cases R) auto
  have b: "bytes (fst r, 16) \<subseteq> bytes r" using r(3) by (auto simp: bytes_def)
  have c: "creating O_CREAT" by (simp add: creating_def O_CREAT_def)
  have "heap_inv board board_pages (fs_heap (one_dir h d i 0)) R" "pages_left (h_mm (fs_heap (one_dir h d i 0))) 7"
    using h(1) p by simp_all
  from open_new_file [OF one_dir_leads [OF h(3)] d m this c r(1) b r(2)] obtain fp s' where
    o: "vfs_open board local_target [0x2F, 0x61] O_CREAT (one_dir h d i 0) = Some (0, fp, s')"
      "within 16 FILE_LIM ops 0 0 \<Longrightarrow>
        \<exists>rs s'' cp. file_run (tmpfs_fetch fp (fst r) 16) (tmpfs_goto fp) (tmpfs_store board fp (fst r)) ops s' = Some (rs, s'') \<and>
           spec_run ops rs ([], 0) = Some cp" for ops by auto
  have "within 16 FILE_LIM [Store [1, 2 :: byte], Goto 0, Fetch 2] 0 0" by (simp add: FILE_LIM_def)
  from o(2) [OF this] o(1) show ?thesis by blast
qed

text \<open>C34: \<open>vfs_open\<close> with \<open>O_CREAT\<close> of a new name in a directory that already has \<open>MAX_CHILDREN\<close> entries follows a \<open>NULL\<close>
  pointer: the error that \<open>create\<close> reports is not looked at.\<close>

theorem open_in_full_directory:
  assumes "leads s path d name" "dir_ok R s d" "\<forall>v \<in> set (entries_of s d). name_of s v \<noteq> name"
    and "length (entries_of s d) = MAX_CHILDREN" "heap_inv L M (fs_heap s) R" "pages_left (h_mm (fs_heap s)) 3" "creating flags"
  shows "vfs_open L local_target path flags s = None"
  using assms by (rule open_full)

theorem open_in_full_directory_witness:
  "\<exists>h d i. vfs_open board local_target [0x2F, 0x61] O_CREAT (one_dir h d i MAX_CHILDREN) = None"
proof -
  obtain h R d i where h: "heap_inv board board_pages h R" "pages_left (h_mm h) 100" "d \<noteq> NULL"
    "\<forall>k \<le> MAX_CHILDREN. dir_ok R (one_dir h d i k) d" using one_dir_ok by blast
  let ?s = "one_dir h d i MAX_CHILDREN"
  have d: "dir_ok R ?s d" using h(4) by blast
  have n: "\<forall>v \<in> set (entries_of ?s d). name_of ?s v \<noteq> [0x61]" using one_dir_names by blast
  have p: "heap_inv board board_pages (fs_heap ?s) R" "pages_left (h_mm (fs_heap ?s)) 3"
    using h(1) pages_left_mono [OF h(2), of 3] by (simp_all add: one_dir_def)
  have c: "creating O_CREAT" by (simp add: creating_def O_CREAT_def)
  show ?thesis using open_in_full_directory [OF one_dir_leads [OF h(3)] d n one_dir_entries p c] by blast
qed

text \<open>C20: Path resolution walks the components of the path: what stands between slashes, without the empty ones. So
  repeated, leading and trailing slashes make no difference; and if \<open>p\<close> leads from \<open>cur\<close> to \<open>d\<close>, then \<open>p/q\<close> leads
  where \<open>q\<close> leads from \<open>d\<close>, or fails with the same error.\<close>

theorem path_walk_components:
  "lookup_walk s path cur tgt = walk s (components path) cur tgt \<and>
   (case lookup_walk s p cur tgt of (r, d) \<Rightarrow>
      if r = 0 then fst (lookup_walk s (p @ 0x2F # q) cur tgt) = fst (lookup_walk s q d tgt) \<and>
        (if fst (lookup_walk s q d tgt) = 0 then lookup_walk s (p @ 0x2F # q) cur tgt = lookup_walk s q d tgt else True)
      else True)"
proof -
  obtain r d where rd: "walk s (components p) cur tgt = (r, d)" by (cases "walk s (components p) cur tgt")
  show ?thesis unfolding lookup_walk_eq components_append rd
    using walk_append [of s "components p" cur tgt d "components q" tgt] rd by simp
qed

text \<open>C35: Seeking to the largest position and writing two bytes or more never returns: the doubling of the
  capacity passes the size required, wraps round to 0 and stays there.\<close>

theorem tmpfs_write_never_returns:
  assumes "\<not> bad_handle fp s" "n_type (fsnodes s (file_node fp s)) = NODE_FILE" "doubled (n_capacity (fsnodes s (file_node fp s)))"
    and "buf \<noteq> NULL" "2 \<le> n" "n < 2 ^ 63"
  shows "tmpfs_lseek64 fp (of_nat (2 ^ 63 - 1)) SEEK_SET s = (2 ^ 63 - 1, snd (tmpfs_lseek64 fp (of_nat (2 ^ 63 - 1)) SEEK_SET s)) \<and>
     tmpfs_write L fp buf (of_nat n) (snd (tmpfs_lseek64 fp (of_nat (2 ^ 63 - 1)) SEEK_SET s)) = None"
proof -
  let ?p = "of_nat (2 ^ 63 - 1) :: u64" and ?n = "file_node fp s"
  let ?s = "upd_file fp (\<lambda>f. f\<lparr>f_pos := ?p\<rparr>) s"
  have sp: "sint ?p = 2 ^ 63 - 1" by (subst sint_of_nat64) simp_all
  then have "seek q e ?p SEEK_SET = Some ?p" for q e unfolding seek_def Let_def by simp
  then have l: "tmpfs_lseek64 fp ?p SEEK_SET s = (2 ^ 63 - 1, ?s)"
    using assms(1,2) sp unfolding tmpfs_lseek64_def by simp
  have n: "file_node fp ?s = ?n" "bad_handle fp ?s = bad_handle fp s" "f_pos (files ?s fp) = ?p" "fsnodes ?s = fsnodes s"
    by (simp_all add: file_node_def bad_handle_def)
  have r: "2 ^ 63 < unat (?p + of_nat n)"
  proof -
    have "?p + of_nat n = of_nat (2 ^ 63 - 1 + n)" by (simp only: of_nat_add)
    moreover have "unat (of_nat (2 ^ 63 - 1 + n) :: u64) = 2 ^ 63 - 1 + n" using assms(6) by (intro unat_of_nat64) simp
    ultimately have "unat (?p + of_nat n) = 2 ^ 63 - 1 + n" by metis
    then show ?thesis using assms(5) by simp
  qed
  let ?c = "n_capacity (fsnodes s ?n)"
  have "doubled (if 0 < ?c then ?c else DEFAULT_FILE_SIZE)"
  proof -
    have "unat DEFAULT_FILE_SIZE = 2 ^ 12" by (simp add: DEFAULT_FILE_SIZE_def)
    then have "doubled DEFAULT_FILE_SIZE" unfolding doubled_def by (intro disjI2 exI [of _ 12]) simp
    then show ?thesis using assms(3) by simp
  qed
  from grow_hangs [OF r this] have "tmpfs_reserve L ?n (?p + of_nat n) ?s = None"
    using doubled_less [OF assms(3) r] unfolding tmpfs_reserve_def Let_def n by (simp add: not_le)
  moreover have "(of_nat n :: u64) \<noteq> 0"
  proof -
    have "unat (of_nat n :: u64) = n" using assms(6) by (intro unat_of_nat64) simp
    then show ?thesis using assms(5) by auto
  qed
  ultimately have "tmpfs_write L fp buf (of_nat n) ?s = None"
    using assms(1,2,4) unfolding tmpfs_write_def Let_def n by simp
  then show ?thesis unfolding l by simp
qed

theorem tmpfs_write_never_returns_witness:
  "tmpfs_write board 1 100 2 (snd (tmpfs_lseek64 1 (of_nat (2 ^ 63 - 1)) SEEK_SET (one_file board_heap 0x1000))) = None"
proof -
  let ?s = "one_file board_heap 0x1000"
  have b: "\<not> bad_handle 1 ?s" "n_type (fsnodes ?s (file_node 1 ?s)) = NODE_FILE"
    by (simp_all add: one_file_def bad_handle_def file_node_def blank_fs_def)
  have "unat (n_capacity (fsnodes ?s (file_node 1 ?s))) = 2 ^ 12" by (simp add: one_file_def file_node_def blank_fs_def)
  then have "doubled (n_capacity (fsnodes ?s (file_node 1 ?s)))" unfolding doubled_def by (intro disjI2 exI [of _ 12]) simp
  from tmpfs_write_never_returns [OF b this, of 100 2 board] show ?thesis by simp
qed

subsection \<open>System calls and signals\<close>

text \<open>A thread 1 whose register \<open>x0\<close> holds 100.\<close>

definition board_sys :: "mem \<Rightarrow> sys" where
  "board_sys m = \<lparr>s_kern = board_kern\<lparr>k_fs := put_mem m (k_fs board_kern)\<rparr>,
     frames = (\<lambda>_. \<lparr>regs = (\<lambda>i. if i = 0 then 100 else of_nat i), sp_el0 = 0, spsr_el1 = 0, elr_el1 = 0x400\<rparr>),
     sig_spill = (\<lambda>_ _. 0)\<rparr>"

definition board_env :: sys_env where
  "board_env = \<lparr>e_layout = board, e_hdl = 0x500, e_kill_hdl = 0x600, e_wrapper = 0x700, e_pad = 0, e_cpio = 0x10000,
     e_reply = (\<lambda>_ ws. (0, ws))\<rparr>"

lemma board_sys_sel [simp]:
  "cur_thread (board_sys m) = 1" "fs_heap (s_fs (board_sys m)) = board_heap" "fs_mem (s_fs (board_sys m)) = m"
  "arg t 0 (board_sys m) = 100" "e_layout board_env = board"
  by (simp_all add: board_sys_def cur_thread_def get_current_def s_fs_def board_kern_def blank_fs_def arg_def board_env_def
    put_mem_def fs_mem_def)

text \<open>C22: \<open>sys_chdir\<close> with an absolute path makes the vnode it leads to the working directory and returns 0, or
  the error. With a relative path it always fails, and the thread is left without a working directory: the pointer
  it passes for the result is the field the path is to start from, and \<open>vfs_lookup\<close> clears it first.\<close>

theorem sys_chdir_resolves:
  assumes "cur_thread s = t" "t \<noteq> NULL" "p = ptr (arg t 0 s)" "p \<noteq> NULL"
    and "c_string (fs_mem (s_fs s)) p = Some path" "fs_mem (s_fs s) p \<noteq> 0" "length path < 128"
    and "heap_inv (e_layout E) M (fs_heap (s_fs s)) R" "pages_left (h_mm (fs_heap (s_fs s))) 1"
  shows "\<exists>s'. sys_chdir E s = Some s' \<and> heap_inv (e_layout E) M (fs_heap (s_fs s')) R \<and>
     (if is_absolute path
      then cwd (s_fs s') t = snd (resolve (s_fs s) path) \<and>
           arg t 0 s' = reg_of (if fst (resolve (s_fs s) path) < 0 then fst (resolve (s_fs s) path) else 0)
      else cwd (s_fs s') t = NULL \<and> arg t 0 s' = reg_of EINTERR_VFS)"
proof -
  have "pages_left (h_mm (fs_heap (s_fs s))) (Suc 0)" using assms(9) by simp
  from chdir_ok [OF assms(1-8) this] show ?thesis .
qed

theorem sys_chdir_resolves_witness:
  "\<exists>s'. sys_chdir board_env (board_sys ((\<lambda>_. 0)(100 := 0x61))) = Some s' \<and> cwd (s_fs s') 1 = NULL \<and> arg 1 0 s' = reg_of (-8)"
proof -
  let ?m = "(\<lambda>_. 0)(100 := 0x61) :: mem"
  have c: "c_string ?m 100 = Some [0x61]"
  proof -
    have "cstr ?m 100 [0x61]" by simp
    then have "strlen ?m 100 = Some 1" using strlen_eq by fastforce
    moreover have "mem_bytes ?m 100 1 = [0x61]" by (simp add: mem_bytes_def)
    ultimately show ?thesis by (simp add: c_string_def)
  qed
  have l: "pages_left (h_mm board_heap) 1" using pages_left_mono [OF board_left, of 1] by simp
  have p: "ptr (arg 1 0 (board_sys ?m)) = 100" by (simp add: ptr_def)
  show ?thesis
    using sys_chdir_resolves [of "board_sys ?m" 1 100 "[0x61]" board_env board_pages "[]"] c l board_heap_inv p
    by (simp add: is_absolute_def) blast
qed

text \<open>C19: A signal with a handler of the program's own: the thread goes on in the wrapper with the handler's address, at the top of a
  stack that \<open>alloc\<close> has just given, and when the handler has returned, \<open>sys_sigreturn\<close> restores the frame the thread had, whatever the
  frame is then, and gives that stack back: the heap is what \<open>free\<close> of it leaves. But the saved frame has replaced the thread's working
  directory (and its file table), which stay what the registers were.\<close>

theorem signal_frame_restored:
  assumes "cur_thread s = t" "t \<noteq> NULL" "heap_inv (e_layout E) M (fs_heap (s_fs s)) R"
    and "h = sig_handlers (threads (s_kern s) t) sig" "h \<noteq> NULL" "h \<noteq> e_hdl E" "h \<noteq> e_kill_hdl E"
  shows "\<exists>p sp s1. handle_signal E t sig s = Some (Enter_user (of_nat (e_wrapper E)) sp (of_nat h), s1) \<and>
     alloc THREAD_STACK_SIZE (fs_heap (s_fs s)) = Some (p, fs_heap (s_fs s1)) \<and> sp = of_nat p + ucast THREAD_STACK_SIZE \<and>
     cwd (s_fs s1) t = ptr (regs (frames s t) 1) \<and>
     (\<forall>fr. \<exists>s2. sys_sigreturn E (s1\<lparr>frames := (frames s1)(t := fr)\<rparr>) = Some s2 \<and> same_frame (frames s2 t) (frames s t) \<and>
        free (e_layout E) p (fs_heap (s_fs s1)) = Some (fs_heap (s_fs s2)) \<and>
        heap_inv (e_layout E) M (fs_heap (s_fs s2)) R \<and> cwd (s_fs s2) t = ptr (regs (frames s t) 1))"
  using assms by (rule signal_round_trip)

theorem signal_frame_restored_witness:
  "\<exists>s sp s1. handle_signal board_env 1 2 s = Some (Enter_user 0x700 sp 0x800, s1) \<and>
     (\<forall>fr. \<exists>s2. sys_sigreturn board_env (s1\<lparr>frames := (frames s1)(1 := fr)\<rparr>) = Some s2 \<and>
        elr_el1 (frames s2 1) = 0x400 \<and> regs (frames s2 1) 0 = 100 \<and> cwd (s_fs s2) 1 = 1)"
proof -
  let ?b = "board_sys (\<lambda>_. 0)"
  let ?s = "?b\<lparr>s_kern := (s_kern ?b)\<lparr>threads := upd_thread 1 (\<lambda>t. t\<lparr>sig_handlers := \<lambda>_. 0x800\<rparr>) (threads (s_kern ?b))\<rparr>\<rparr>"
  have s: "cur_thread ?s = 1" "s_fs ?s = s_fs ?b" "0x800 = sig_handlers (threads (s_kern ?s) 1) 2"
    "e_hdl board_env = 0x500" "e_kill_hdl board_env = 0x600" "e_wrapper board_env = 0x700"
    by (simp_all add: board_sys_def cur_thread_def get_current_def s_fs_def board_kern_def board_env_def put_mem_def)
  have f: "frames ?s 1 = \<lparr>regs = (\<lambda>i. if i = 0 then 100 else of_nat i), sp_el0 = 0, spsr_el1 = 0, elr_el1 = 0x400\<rparr>"
    by (simp add: board_sys_def)
  have i: "heap_inv (e_layout board_env) board_pages (fs_heap (s_fs ?s)) []" unfolding s(2) using board_heap_inv by simp
  have "ptr 1 = 1" by (simp add: ptr_def)
  then show ?thesis
    using signal_frame_restored [OF s(1) _ i s(3)] s(4-6) f by (fastforce simp: same_frame_def)
qed

end
