(* ===== verification/UserCalls.thy ===== *)
theory UserCalls
  imports Syscall
begin

section \<open>System calls as programs make them (the wrappers of src/syscall.c)\<close>

text \<open>
  A wrapper puts the number of the call into \<open>x8\<close> and the arguments into \<open>x0\<close>, \<open>x1\<close>, ..., and executes \<open>svc\<close>. The
  exception entry saves the registers in the thread's frame, so \<open>svc\<close> is the kernel's entry on the frame with these
  registers; the other registers keep their values. The result is in \<open>x0\<close> of the frame when the thread goes on. The compiler is taken
  to pass the operands of the inline assembly as they are written. \<open>E\<close> is the kernel's environment, \<open>K\<close> what the handlers
  of \<open>fork\<close> and \<open>ioctl\<close> find on the kernel stack.
\<close>

type_synonym kstack = "u64 \<times> addr \<times> addr"

definition set_regs :: "addr \<Rightarrow> nat \<Rightarrow> u64 list \<Rightarrow> sys \<Rightarrow> sys" where
  "set_regs t n args s = s\<lparr>frames := (frames s)(t := (frames s t)\<lparr>regs :=
     \<lambda>i. if i = 8 then of_nat n else if i < length args then args ! i else regs (frames s t) i\<rparr>)\<rparr>"

text \<open>The exception syndrome of \<open>svc\<close>.\<close>

definition ESR_SVC :: u64 where "ESR_SVC = 0x54000000"

definition svc :: "sys_env \<Rightarrow> kstack \<Rightarrow> nat \<Rightarrow> u64 list \<Rightarrow> sys \<Rightarrow> (resume \<times> sys) option" where
  "svc E K n args s =
     (case K of (curr_sp, fork_end, mbox) \<Rightarrow>
        el0_sync_entry E curr_sp fork_end mbox ESR_SVC (set_regs (cur_thread s) n args s))"

definition u_get_pid :: "sys_env \<Rightarrow> kstack \<Rightarrow> sys \<Rightarrow> (resume \<times> sys) option" where
  "u_get_pid E K = svc E K 0 []"

definition u_uart_read :: "sys_env \<Rightarrow> kstack \<Rightarrow> u64 \<Rightarrow> int \<Rightarrow> sys \<Rightarrow> (resume \<times> sys) option" where
  "u_uart_read E K buf sz = svc E K 1 [buf, reg_of sz]"

definition u_uart_write :: "sys_env \<Rightarrow> kstack \<Rightarrow> u64 \<Rightarrow> int \<Rightarrow> sys \<Rightarrow> (resume \<times> sys) option" where
  "u_uart_write E K buf sz = svc E K 2 [buf, reg_of sz]"

definition u_exec :: "sys_env \<Rightarrow> kstack \<Rightarrow> u64 \<Rightarrow> u64 \<Rightarrow> sys \<Rightarrow> (resume \<times> sys) option" where
  "u_exec E K name argv = svc E K 3 [name, argv]"

definition u_fork :: "sys_env \<Rightarrow> kstack \<Rightarrow> sys \<Rightarrow> (resume \<times> sys) option" where
  "u_fork E K = svc E K 4 []"

definition u_exit :: "sys_env \<Rightarrow> kstack \<Rightarrow> sys \<Rightarrow> (resume \<times> sys) option" where
  "u_exit E K = svc E K 5 []"

definition u_mbox_call :: "sys_env \<Rightarrow> kstack \<Rightarrow> byte \<Rightarrow> u64 \<Rightarrow> sys \<Rightarrow> (resume \<times> sys) option" where
  "u_mbox_call E K ch mbox = svc E K 6 [ucast ch, mbox]"

definition u_kill :: "sys_env \<Rightarrow> kstack \<Rightarrow> int \<Rightarrow> sys \<Rightarrow> (resume \<times> sys) option" where
  "u_kill E K pid = svc E K 7 [reg_of pid]"

definition u_signal :: "sys_env \<Rightarrow> kstack \<Rightarrow> int \<Rightarrow> u64 \<Rightarrow> sys \<Rightarrow> (resume \<times> sys) option" where
  "u_signal E K sig handler = svc E K 8 [reg_of sig, handler]"

definition u_sigkill :: "sys_env \<Rightarrow> kstack \<Rightarrow> int \<Rightarrow> int \<Rightarrow> sys \<Rightarrow> (resume \<times> sys) option" where
  "u_sigkill E K pid sig = svc E K 9 [reg_of pid, reg_of sig]"

definition u_sigreturn :: "sys_env \<Rightarrow> kstack \<Rightarrow> sys \<Rightarrow> (resume \<times> sys) option" where
  "u_sigreturn E K = svc E K 10 []"

definition u_open :: "sys_env \<Rightarrow> kstack \<Rightarrow> u64 \<Rightarrow> int \<Rightarrow> sys \<Rightarrow> (resume \<times> sys) option" where
  "u_open E K pathname flags = svc E K 11 [pathname, reg_of flags]"

definition u_close :: "sys_env \<Rightarrow> kstack \<Rightarrow> int \<Rightarrow> sys \<Rightarrow> (resume \<times> sys) option" where
  "u_close E K fd = svc E K 12 [reg_of fd]"

definition u_write :: "sys_env \<Rightarrow> kstack \<Rightarrow> int \<Rightarrow> u64 \<Rightarrow> u64 \<Rightarrow> sys \<Rightarrow> (resume \<times> sys) option" where
  "u_write E K fd buf count = svc E K 13 [reg_of fd, buf, count]"

definition u_read :: "sys_env \<Rightarrow> kstack \<Rightarrow> int \<Rightarrow> u64 \<Rightarrow> u64 \<Rightarrow> sys \<Rightarrow> (resume \<times> sys) option" where
  "u_read E K fd buf count = svc E K 14 [reg_of fd, buf, count]"

definition u_mkdir :: "sys_env \<Rightarrow> kstack \<Rightarrow> u64 \<Rightarrow> u32 \<Rightarrow> sys \<Rightarrow> (resume \<times> sys) option" where
  "u_mkdir E K pathname mode = svc E K 15 [pathname, ucast mode]"

definition u_mount :: "sys_env \<Rightarrow> kstack \<Rightarrow> u64 \<Rightarrow> u64 \<Rightarrow> u64 \<Rightarrow> u64 \<Rightarrow> u64 \<Rightarrow> sys \<Rightarrow> (resume \<times> sys) option" where
  "u_mount E K src target filesystem flags data = svc E K 16 [src, target, filesystem, flags, data]"

definition u_chdir :: "sys_env \<Rightarrow> kstack \<Rightarrow> u64 \<Rightarrow> sys \<Rightarrow> (resume \<times> sys) option" where
  "u_chdir E K path = svc E K 17 [path]"

definition u_lseek64 :: "sys_env \<Rightarrow> kstack \<Rightarrow> int \<Rightarrow> u64 \<Rightarrow> int \<Rightarrow> sys \<Rightarrow> (resume \<times> sys) option" where
  "u_lseek64 E K fd offset whence = svc E K 18 [reg_of fd, offset, reg_of whence]"

definition u_ioctl :: "sys_env \<Rightarrow> kstack \<Rightarrow> int \<Rightarrow> u64 \<Rightarrow> u64 \<Rightarrow> sys \<Rightarrow> (resume \<times> sys) option" where
  "u_ioctl E K fd request argp = svc E K 19 [reg_of fd, request, argp]"

subsection \<open>A call without pending signals\<close>

text \<open>A register holds an \<open>int\<close> argument.\<close>

lemma as_int_reg: "-(2 ^ 31) \<le> i \<Longrightarrow> i < 2 ^ 31 \<Longrightarrow> as_int (reg_of i) = i"
proof -
  assume i: "-(2 ^ 31) \<le> i" "i < 2 ^ 31"
  have "ucast (of_int i :: u64) = (of_int i :: u32)" by (rule bit_word_eqI) (simp add: bit_simps)
  then have "as_int (reg_of i) = sint (of_int i :: u32)" by (simp add: as_int_def reg_of_def)
  also have "\<dots> = signed_take_bit 31 i" by (simp add: sint_sbintrunc')
  also have "\<dots> = i" using i by (intro signed_take_bit_int_eq_self) simp_all
  finally show ?thesis .
qed

lemma set_regs_sel [simp]:
  "s_kern (set_regs t n args s) = s_kern s" "s_fs (set_regs t n args s) = s_fs s" "cur_thread (set_regs t n args s) = cur_thread s"
  "sig_spill (set_regs t n args s) = sig_spill s"
  by (simp_all add: set_regs_def s_fs_def cur_thread_def)

lemma arg_set_regs [simp]:
  "arg t i (set_regs t n args s) = (if i = 8 then of_nat n else if i < length args then args ! i else arg t i s)"
  by (simp add: arg_def set_regs_def)

text \<open>The state in which the handler runs: the registers set and interrupts on.\<close>

definition entered :: "nat \<Rightarrow> u64 list \<Rightarrow> sys \<Rightarrow> sys" where
  "entered n args s = (set_regs (cur_thread s) n args s)\<lparr>s_kern := (s_kern s)\<lparr>irq_el1 := True\<rparr>\<rparr>"

lemma entered_sel [simp]:
  "s_fs (entered n args s) = s_fs s" "cur_thread (entered n args s) = cur_thread s"
  "threads (s_kern (entered n args s)) = threads (s_kern s)"
  "cur_thread s = t \<Longrightarrow> arg t i (entered n args s) =
     (if i = 8 then of_nat n else if i < length args then args ! i else arg t i s)"
  by (auto simp: entered_def s_fs_def cur_thread_def get_current_def set_regs_def arg_def)

lemma esr_svc: "drop_bit 26 ESR_SVC AND 0x3F = 0x15"
  by code_simp

lemma svc_eq:
  "svc E K n args s = (case K of (curr_sp, fork_end, mbox) \<Rightarrow>
     (case syscall_entry E curr_sp fork_end mbox (entered n args s) of
        None \<Rightarrow> None
      | Some s1 \<Rightarrow> if cur_thread s1 \<noteq> cur_thread s then Some (Resume, s1) else check_pending_signals E (cur_thread s1) s1))"
proof -
  have "cur_thread (set_regs (cur_thread s) n args s) = cur_thread s" by simp
  then show ?thesis
    unfolding svc_def el0_sync_entry_def Let_def esr_svc entered_def by (simp cong: option.case_cong if_cong split: prod.split)
qed

lemma svc_ok:
  assumes "syscall_entry E a b c (entered n args s) = Some s1" "cur_thread s1 = cur_thread s"
    and "pending_sig (threads (s_kern s1) (cur_thread s)) = 0"
  shows "svc E (a, b, c) n args s = Some (Resume, s1)"
  using assms by (simp add: svc_eq check_pending_signals_def)

end
