(* ===== verification/UserFiles.thy ===== *)
theory UserFiles
  imports UserCalls Paths
begin

section \<open>A program writes a file and reads it\<close>

text \<open>
  The way of a file call from the program's wrapper through the entry, the handler and the virtual file system
  to the in-memory file system and back, on the thread that makes the call.
\<close>

subsection \<open>What the file operations leave alone\<close>

definition keeps :: "addr \<Rightarrow> fs \<Rightarrow> fs \<Rightarrow> bool" where
  "keeps fp s s' \<longleftrightarrow> fd_table s' = fd_table s \<and> current s' = current s \<and> f_fops (files s' fp) = f_fops (files s fp)"

lemma keeps_refl [simp]: "keeps fp s s"
  by (simp add: keeps_def)

lemma keeps_trans: "keeps fp s t \<Longrightarrow> keeps fp t u \<Longrightarrow> keeps fp s u"
  by (simp add: keeps_def)

lemma keeps_upd [simp]:
  "keeps fp s (put_mem m t) = keeps fp s t" "keeps fp s (upd_node n g t) = keeps fp s t"
  "keeps fp s (t\<lparr>fs_heap := h\<rparr>) = keeps fp s t"
  "(\<And>x. f_fops (k x) = f_fops x) \<Longrightarrow> keeps fp s (upd_file q k t) = keeps fp s t"
  by (simp_all add: keeps_def put_mem_def upd_node_def upd_file_def)

lemma reserve_keeps: "tmpfs_reserve L n q s = Some (ok, s') \<Longrightarrow> keeps fp s s'"
  by (auto simp: tmpfs_reserve_def fs_alloc_def fs_free_def Let_def bind_eq_Some_conv split: if_splits prod.splits)

lemma write_keeps: "tmpfs_write L fp buf len s = Some (r, s') \<Longrightarrow> keeps fp s s'"
  by (auto simp: tmpfs_write_def Let_def bind_eq_Some_conv split: if_splits dest: reserve_keeps [of L _ _ s _ _ fp])

lemma read_keeps: "tmpfs_read fp buf len s = (r, s') \<Longrightarrow> keeps fp s s'"
  by (auto simp: tmpfs_read_def Let_def split: if_splits)

lemma seek_keeps: "tmpfs_lseek64 fp offset whence s = (r, s') \<Longrightarrow> keeps fp s s'"
  by (auto simp: tmpfs_lseek64_def split: if_splits option.splits)

lemma file_at_sub:
  assumes "file_at L M R fp buf bl s c p" "bytes (buf', bl') \<subseteq> bytes (buf, bl)" "buf' \<noteq> NULL" "bl' < 2 ^ 31"
  shows "file_at L M R fp buf' bl' s c p"
  using assms unfolding file_at_def by blast

lemma file_at_handle:
  "file_at L M R fp buf bl s c p \<Longrightarrow> fp \<noteq> NULL \<and> f_vnode (files s fp) \<noteq> NULL \<and> buf \<noteq> NULL \<and> \<not> bad_handle fp s"
  by (auto simp: file_at_def open_at_def bad_handle_def)

subsection \<open>The calls\<close>

text \<open>The thread \<open>t\<close> runs, has no pending signal and the file \<open>fp\<close> at descriptor \<open>i\<close>.\<close>

definition has_file :: "addr \<Rightarrow> nat \<Rightarrow> addr \<Rightarrow> sys \<Rightarrow> bool" where
  "has_file t i fp s \<longleftrightarrow> cur_thread s = t \<and> t \<noteq> NULL \<and> pending_sig (threads (s_kern s) t) = 0 \<and> i < THREAD_MAX_FD \<and>
     fd_table (s_fs s) t i = fp \<and> f_fops (files (s_fs s) fp) = TMPFS_F"

text \<open>The state after a handler that has changed the file system and returns \<open>v\<close>.\<close>

definition after :: "nat \<Rightarrow> u64 list \<Rightarrow> u64 option \<Rightarrow> fs \<Rightarrow> sys \<Rightarrow> sys" where
  "after n args v f s =
     (let s1 = put_fs f (entered n args s) in case v of None \<Rightarrow> s1 | Some w \<Rightarrow> ret (cur_thread s) w s1)"

lemma after_sel [simp]:
  "s_fs (after n args v f s) = f" "threads (s_kern (after n args v f s)) = threads (s_kern s)"
  "cur_thread (after n args v f s) = current f"
  "cur_thread s = t \<Longrightarrow> arg t 0 (after n args (Some w) f s) = w"
  by (cases v; simp add: after_def s_fs_def put_fs_def ret_def cur_thread_def get_current_def entered_def set_regs_def arg_def Let_def)+

lemma after_none [simp]: "cur_thread s = t \<Longrightarrow> arg t 0 (after n (a # args) None f s) = a"
  by (simp add: after_def put_fs_def cur_thread_def get_current_def entered_def set_regs_def arg_def)

lemma after_file:
  assumes "has_file t i fp s" "keeps fp (s_fs s) f"
  shows "has_file t i fp (after n args v f s)"
proof -
  have "current (s_fs s) = t" using assms(1) by (simp add: has_file_def cur_thread_def get_current_def s_fs_def)
  then show ?thesis using assms by (simp add: has_file_def keeps_def)
qed

lemma svc_after:
  assumes "has_file t i fp s" "keeps fp (s_fs s) f" "syscall_entry E a b c (entered n args s) = Some (after n args v f s)"
  shows "svc E (a, b, c) n args s = Some (Resume, after n args v f s)"
  using after_file [OF assms(1,2), of n args v] assms(1) by (intro svc_ok [OF assms(3)]) (simp_all add: has_file_def)

lemma ucast_up: "unat (x :: u32) = n \<Longrightarrow> ucast x = (of_nat n :: u64)"
  by auto

lemma fd_reg: "i < THREAD_MAX_FD \<Longrightarrow> as_int (reg_of (int i)) = int i \<and> \<not> bad_fd (int i)"
  by (simp add: as_int_reg bad_fd_def THREAD_MAX_FD_def)

lemma ptr_of_nat: "a < 2 ^ 64 \<Longrightarrow> ptr (of_nat a) = a"
  by (simp add: ptr_def unat_of_nat64)

lemma u_write_ok:
  assumes h: "has_file t i fp s" and f: "file_at (e_layout E) M R fp buf bl (s_fs s) c p" and b: "buf < 2 ^ 64" "0 < n" "n \<le> bl"
    and p: "p \<le> length c" "p + n \<le> FILE_LIM" "p + n \<le> unat (n_capacity (fsnodes (s_fs s) (file_node fp (s_fs s))))"
  shows "\<exists>s'. u_write E (x, y, z) (int i) (of_nat buf) (of_nat n) s = Some (Resume, s') \<and> arg t 0 s' = of_nat n \<and> has_file t i fp s' \<and>
     file_at (e_layout E) M R fp buf bl (s_fs s') (overwrite p (mem_bytes (fs_mem (s_fs s)) buf n) c) (p + n)"
proof -
  let ?bs = "mem_bytes (fs_mem (s_fs s)) buf n"
  have l: "length ?bs = n" by simp
  obtain g where w: "tmpfs_write (e_layout E) fp buf (of_nat n) (s_fs s) = Some (int n, g)"
    "file_at (e_layout E) M R fp buf bl g (overwrite p ?bs c) (p + n)"
    using write_fits_at [OF f, of ?bs, unfolded l] b(3) p by auto
  have k: "keeps fp (s_fs s) g" using write_keeps [OF w(1)] .
  have t: "cur_thread s = t" "t \<noteq> NULL" "i < THREAD_MAX_FD" "fd_table (s_fs s) t i = fp" "f_fops (files (s_fs s) fp) = TMPFS_F"
    using h by (auto simp: has_file_def)
  have bl: "bl < 2 ^ 31" using f by (simp add: file_at_def)
  have n: "ucast (ucast (of_nat n :: u64) :: u32) = (of_nat n :: u64)" "(of_nat n :: u64) \<noteq> 0"
  proof -
    have "unat (ucast (of_nat n :: u64) :: u32) = n" using b(3) bl by (intro unat_ucast32) simp
    then show "ucast (ucast (of_nat n :: u64) :: u32) = (of_nat n :: u64)"
      by (rule ucast_up)
    have "unat (of_nat n :: u64) = n" using b(3) bl by (intro unat_of_nat64) simp
    then show "(of_nat n :: u64) \<noteq> 0" using b(2) by auto
  qed
  let ?args = "[reg_of (int i), of_nat buf, of_nat n]"
  have "sys_write E (entered 13 ?args s) = Some (after 13 ?args (Some (reg_of (int n))) g s)"
    using fd_reg [OF t(3)] t n file_at_handle [OF f] ptr_of_nat [OF b(1)] w(1)
    by (simp add: sys_write_def Let_def fop_write_def after_def)
  then have "syscall_entry E x y z (entered 13 ?args s) = Some (after 13 ?args (Some (reg_of (int n))) g s)"
    by (simp add: syscall_entry_def Let_def)
  from svc_after [OF h k this] have "u_write E (x, y, z) (int i) (of_nat buf) (of_nat n) s = Some (Resume, after 13 ?args (Some (reg_of (int n))) g s)"
    by (simp add: u_write_def)
  moreover have "reg_of (int n) = of_nat n" by (simp add: reg_of_def)
  ultimately show ?thesis using after_file [OF h k] w(2) t(1) by (intro exI conjI) (assumption, auto)
qed

lemma u_lseek64_ok:
  assumes h: "has_file t i fp s" and f: "file_at (e_layout E) M R fp buf bl (s_fs s) c p" and q: "q \<le> FILE_LIM"
  shows "\<exists>s'. u_lseek64 E (x, y, z) (int i) (of_nat q) SEEK_SET s = Some (Resume, s') \<and> arg t 0 s' = of_nat i \<and> has_file t i fp s' \<and>
     file_at (e_layout E) M R fp buf bl (s_fs s') c q \<and> fs_mem (s_fs s') = fs_mem (s_fs s)"
proof -
  obtain g where w: "tmpfs_lseek64 fp (of_nat q) SEEK_SET (s_fs s) = (int q, g)" "file_at (e_layout E) M R fp buf bl g c q"
    using seek_at [OF f q] by blast
  have k: "keeps fp (s_fs s) g" using seek_keeps [OF w(1)] .
  have m: "fs_mem g = fs_mem (s_fs s)" using w(1) by (auto simp: tmpfs_lseek64_def split: if_splits option.splits)
  have t: "cur_thread s = t" "i < THREAD_MAX_FD" "fd_table (s_fs s) t i = fp" "f_fops (files (s_fs s) fp) = TMPFS_F"
    using h by (auto simp: has_file_def)
  let ?args = "[reg_of (int i), of_nat q, reg_of SEEK_SET]"
  have "as_int (reg_of 0) = 0" by (rule as_int_reg) simp_all
  then have "sys_lseek64 (entered 18 ?args s) = after 18 ?args None g s"
    using fd_reg [OF t(2)] t file_at_handle [OF f] w(1)
    by (simp add: sys_lseek64_def Let_def vfs_lseek64_def after_def)
  then have "syscall_entry E x y z (entered 18 ?args s) = Some (after 18 ?args None g s)"
    by (simp add: syscall_entry_def Let_def)
  from svc_after [OF h k this] have "u_lseek64 E (x, y, z) (int i) (of_nat q) SEEK_SET s = Some (Resume, after 18 ?args None g s)"
    by (simp add: u_lseek64_def)
  moreover have "reg_of (int i) = of_nat i" by (simp add: reg_of_def)
  ultimately show ?thesis using after_file [OF h k] w(2) m t(1) by (intro exI conjI) (assumption, auto)
qed

lemma u_read_ok:
  assumes h: "has_file t i fp s" and f: "file_at (e_layout E) M R fp buf bl (s_fs s) c p" and b: "buf < 2 ^ 64" "n \<le> bl"
  defines "bs \<equiv> take n (drop p c)"
  shows "\<exists>s'. u_read E (x, y, z) (int i) (of_nat buf) (of_nat n) s = Some (Resume, s') \<and> arg t 0 s' = of_nat (length bs) \<and>
     has_file t i fp s' \<and> mem_bytes (fs_mem (s_fs s')) buf (length bs) = bs \<and>
     file_at (e_layout E) M R fp buf bl (s_fs s') c (p + length bs)"
proof -
  obtain g where w: "tmpfs_read fp buf (of_nat n) (s_fs s) = (int (length bs), g)" "mem_bytes (fs_mem g) buf (length bs) = bs"
    "file_at (e_layout E) M R fp buf bl g c (p + length bs)" using read_at [OF f b(2)] unfolding bs_def by blast
  have k: "keeps fp (s_fs s) g" using read_keeps [OF w(1)] .
  have t: "cur_thread s = t" "t \<noteq> NULL" "i < THREAD_MAX_FD" "fd_table (s_fs s) t i = fp" "f_fops (files (s_fs s) fp) = TMPFS_F"
    using h by (auto simp: has_file_def)
  let ?args = "[reg_of (int i), of_nat buf, of_nat n]"
  have "sys_read (entered 14 ?args s) = Some (after 14 ?args (Some (reg_of (int (length bs)))) g s)"
    using fd_reg [OF t(3)] t file_at_handle [OF f] ptr_of_nat [OF b(1)] w(1)
    by (simp add: sys_read_def Let_def fop_read_def after_def)
  then have "syscall_entry E x y z (entered 14 ?args s) = Some (after 14 ?args (Some (reg_of (int (length bs)))) g s)"
    by (simp add: syscall_entry_def Let_def)
  from svc_after [OF h k this] have "u_read E (x, y, z) (int i) (of_nat buf) (of_nat n) s =
      Some (Resume, after 14 ?args (Some (reg_of (int (length bs)))) g s)" by (simp add: u_read_def)
  moreover have "reg_of (int (length bs)) = of_nat (length bs)" by (simp add: reg_of_def)
  ultimately show ?thesis using after_file [OF h k] w(2,3) t(1) by (intro exI conjI) (assumption, auto)
qed

lemma u_open_ok:
  assumes t: "cur_thread s = t" "t \<noteq> NULL" "pending_sig (threads (s_kern s) t) = 0"
    and i: "find (\<lambda>i. fd_table (s_fs s) t i = NULL) [0..<THREAD_MAX_FD] = Some i"
    and q: "q \<noteq> NULL" "q < 2 ^ 64" "c_string (fs_mem (s_fs s)) q = Some path" "fs_mem (s_fs s) q \<noteq> 0"
    and l: "leads (s_fs s) path d name" and d: "dir_ok R (s_fs s) d" "may_create (s_fs s) d name"
    and inv: "heap_inv (e_layout E) M (fs_heap (s_fs s)) R" and left: "pages_left (h_mm (fs_heap (s_fs s))) 7"
    and buf: "r \<in> set R" "bytes (buf, bl) \<subseteq> bytes r" "buf \<noteq> NULL" "bl < 2 ^ 31"
  shows "\<exists>s' fp Q. u_open E (x, y, z) (of_nat q) O_CREAT s = Some (Resume, s') \<and> arg t 0 s' = of_nat i \<and> has_file t i fp s' \<and>
     file_at (e_layout E) M Q fp buf bl (s_fs s') [] 0 \<and> fs_mem (s_fs s') = fs_mem (s_fs s) \<and>
     4096 \<le> unat (n_capacity (fsnodes (s_fs s') (file_node fp (s_fs s'))))"
proof -
  let ?f = "\<lambda>v g. g(t := (g t)(i := v))"
  have i': "i < THREAD_MAX_FD" "fd_table (s_fs s) t i = NULL" using i by (auto simp: find_Some_iff)
  have put: "set_fd t i v u = u\<lparr>fd_table := ?f v (fd_table u)\<rparr>" for v u by (simp add: set_fd_def)
  have "(fd_table (s_fs s) t)(i := NULL) = fd_table (s_fs s) t" using i'(2) by (metis fun_upd_triv)
  then have p0: "set_fd t i NULL (s_fs s) = s_fs s" by (simp add: set_fd_def)
  have cr: "creating O_CREAT" by (simp add: creating_def O_CREAT_def)
  from open_created [where put = "set_fd t i" and f = ?f and ?s0.0 = "s_fs s", OF l d inv left cr buf put p0] obtain fp g Q where
    o: "vfs_open (e_layout E) (set_fd t i) path O_CREAT (s_fs s) = Some (0, fp, g)" "file_at (e_layout E) M Q fp buf bl g [] 0"
      "f_fops (files g fp) = TMPFS_F" "fd_table g = ?f fp (?f fp (fd_table (s_fs s)))" "fs_uart g = fs_uart (s_fs s)"
      "current g = current (s_fs s)" "4096 \<le> unat (n_capacity (fsnodes g (file_node fp g)))" by blast
  have cu: "current g = t" using o(6) t(1) by (simp add: cur_thread_def get_current_def s_fs_def)
  let ?args = "[of_nat q, reg_of O_CREAT]"
  have fl: "as_int (reg_of O_CREAT) = O_CREAT" by (rule as_int_reg) (simp_all add: O_CREAT_def)
  have "sys_open E (entered 11 ?args s) = Some (after 11 ?args (Some (of_nat i)) g s)"
    using t(1) i q ptr_of_nat [OF q(2)] o(1) fl by (simp add: sys_open_def Let_def after_def)
  then have e: "syscall_entry E x y z (entered 11 ?args s) = Some (after 11 ?args (Some (of_nat i)) g s)"
    by (simp add: syscall_entry_def Let_def)
  have "svc E (x, y, z) 11 ?args s = Some (Resume, after 11 ?args (Some (of_nat i)) g s)"
    using t cu by (intro svc_ok [OF e]) simp_all
  moreover have "has_file t i fp (after 11 ?args (Some (of_nat i)) g s)" using t i'(1) cu o(3,4) by (simp add: has_file_def)
  moreover have "fs_mem g = fs_mem (s_fs s)" using o(5) by (simp add: fs_mem_def)
  ultimately show ?thesis using o(2,7) t(1) unfolding u_open_def by (intro exI conjI) (assumption, auto)
qed

end
