(* ===== verification/SystemProps.thy ===== *)
theory SystemProps
  imports FileProps UserFiles
begin

section \<open>Properties of whole system calls\<close>

text \<open>
  For the witness: the thread 1 in the file system of one directory, with the path \<open>/a\<close> in memory at 100.
\<close>

definition path_mem :: mem where
  "path_mem = (\<lambda>_. 0)(100 := 0x2F, 101 := 0x61)"

definition file_sys :: "heap \<Rightarrow> addr \<Rightarrow> addr \<Rightarrow> sys" where
  "file_sys h d i = (board_sys path_mem)\<lparr>s_kern := board_kern\<lparr>k_fs := put_mem path_mem (one_dir h d i 0)\<rparr>\<rparr>"

lemma file_sys_fs: "s_fs (file_sys h d i) = put_mem path_mem (one_dir h d i 0)"
  by (simp add: file_sys_def s_fs_def)

lemma path_mem_string: "c_string path_mem 100 = Some [0x2F, 0x61]"
proof -
  have "cstr path_mem 100 [0x2F, 0x61]" by (simp add: path_mem_def)
  from strlen_eq [OF this] have "strlen path_mem 100 = Some 2" by simp
  moreover have "mem_bytes path_mem 100 2 = [0x2F, 0x61]" by (simp add: mem_bytes_def path_mem_def numeral_2_eq_2)
  ultimately show ?thesis by (simp add: c_string_def)
qed

text \<open>C3: A program that opens a new file with \<open>O_CREAT\<close>, writes \<open>n\<close> bytes of a buffer to it, seeks to the start and reads
  \<open>n\<close> bytes to another place finds there what it has written: every call returns to the program. The result is
  the lowest free descriptor from \<open>open\<close> and the number of bytes from \<open>write\<close> and \<open>read\<close>. From \<open>lseek64\<close> it is not the new
  position but the descriptor: \<open>sys_lseek64\<close> seeks but never stores a result, so the first argument stays in the register.\<close>

theorem program_reads_what_it_wrote:
  assumes "cur_thread s = t" "t \<noteq> NULL" "pending_sig (threads (s_kern s) t) = 0"
    and "find (\<lambda>i. fd_table (s_fs s) t i = NULL) [0..<THREAD_MAX_FD] = Some i"
    and "q \<noteq> NULL" "q < 2 ^ 64" "c_string (fs_mem (s_fs s)) q = Some path" "fs_mem (s_fs s) q \<noteq> 0"
    and "leads (s_fs s) path d name" "dir_ok R (s_fs s) d" "may_create (s_fs s) d name"
    and "heap_inv (e_layout E) M (fs_heap (s_fs s)) R" "pages_left (h_mm (fs_heap (s_fs s))) 7"
    and "r \<in> set R" "bytes (buf, 2 * n) \<subseteq> bytes r" "buf \<noteq> NULL" "buf + n < 2 ^ 64" "0 < n" "n \<le> 4096"
  shows "\<exists>s1 s2 s3 s4. u_open E (x, y, z) (of_nat q) O_CREAT s = Some (Resume, s1) \<and> arg t 0 s1 = of_nat i \<and>
     u_write E (x, y, z) (int i) (of_nat buf) (of_nat n) s1 = Some (Resume, s2) \<and> arg t 0 s2 = of_nat n \<and>
     u_lseek64 E (x, y, z) (int i) 0 SEEK_SET s2 = Some (Resume, s3) \<and> arg t 0 s3 = of_nat i \<and>
     u_read E (x, y, z) (int i) (of_nat (buf + n)) (of_nat n) s3 = Some (Resume, s4) \<and> arg t 0 s4 = of_nat n \<and>
     mem_bytes (fs_mem (s_fs s4)) (buf + n) n = mem_bytes (fs_mem (s_fs s)) buf n"
proof -
  let ?bs = "mem_bytes (fs_mem (s_fs s)) buf n"
  have bl: "2 * n < 2 ^ 31" "buf < 2 ^ 64" "n \<le> 2 * n" using assms(17,19) by simp_all
  obtain s1 fp Q where o: "u_open E (x, y, z) (of_nat q) O_CREAT s = Some (Resume, s1)" "arg t 0 s1 = of_nat i" "has_file t i fp s1"
    "file_at (e_layout E) M Q fp buf (2 * n) (s_fs s1) [] 0" "fs_mem (s_fs s1) = fs_mem (s_fs s)"
    "4096 \<le> unat (n_capacity (fsnodes (s_fs s1) (file_node fp (s_fs s1))))"
    using u_open_ok [OF assms(1-16) bl(1)] by blast
  have "0 + n \<le> FILE_LIM" "0 + n \<le> unat (n_capacity (fsnodes (s_fs s1) (file_node fp (s_fs s1))))"
    using assms(19) o(6) by (simp_all add: FILE_LIM_def)
  from u_write_ok [OF o(3,4) bl(2) assms(18) bl(3) _ this, of x y z] obtain s2 where
    w: "u_write E (x, y, z) (int i) (of_nat buf) (of_nat n) s1 = Some (Resume, s2)" "arg t 0 s2 = of_nat n" "has_file t i fp s2"
      "file_at (e_layout E) M Q fp buf (2 * n) (s_fs s2) (overwrite 0 ?bs []) n" unfolding o(5) by auto
  have ow: "overwrite 0 ?bs [] = ?bs" by (simp add: overwrite_def)
  obtain s3 where l: "u_lseek64 E (x, y, z) (int i) 0 SEEK_SET s2 = Some (Resume, s3)" "arg t 0 s3 = of_nat i" "has_file t i fp s3"
    "file_at (e_layout E) M Q fp buf (2 * n) (s_fs s3) ?bs 0"
    using u_lseek64_ok [OF w(3,4), of 0 x y z] unfolding ow by auto
  have "bytes (buf + n, n) \<subseteq> bytes (buf, 2 * n)" by (auto simp: bytes_def)
  from file_at_sub [OF l(4) this] have f: "file_at (e_layout E) M Q fp (buf + n) n (s_fs s3) ?bs 0" using assms(16) bl(1) by simp
  have tk: "take n (drop 0 ?bs) = ?bs" "length ?bs = n" by simp_all
  obtain s4 where "u_read E (x, y, z) (int i) (of_nat (buf + n)) (of_nat n) s3 = Some (Resume, s4)" "arg t 0 s4 = of_nat n"
    "mem_bytes (fs_mem (s_fs s4)) (buf + n) n = ?bs"
    using u_read_ok [OF l(3) f assms(17) order_refl, of x y z] unfolding tk by blast
  then show ?thesis using o(1,2) w(1,2) l(1,2) by blast
qed

theorem program_reads_what_it_wrote_witness:
  "\<exists>h d i buf s1 s2 s3 s4. u_open board_env (0, 0, 0) (of_nat 100) O_CREAT (file_sys h d i) = Some (Resume, s1) \<and> arg 1 0 s1 = of_nat 0 \<and>
     u_write board_env (0, 0, 0) (int 0) (of_nat buf) (of_nat 5) s1 = Some (Resume, s2) \<and>
     u_lseek64 board_env (0, 0, 0) (int 0) 0 SEEK_SET s2 = Some (Resume, s3) \<and>
     u_read board_env (0, 0, 0) (int 0) (of_nat (buf + 5)) (of_nat 5) s3 = Some (Resume, s4) \<and> arg 1 0 s4 = of_nat 5 \<and>
     mem_bytes (fs_mem (s_fs s4)) (buf + 5) 5 = mem_bytes path_mem buf 5"
proof -
  obtain h R d i where h: "heap_inv board board_pages h R" "pages_left (h_mm h) 100" "d \<noteq> NULL" "R \<noteq> []"
    "\<forall>k \<le> MAX_CHILDREN. dir_ok R (one_dir h d i k) d" "\<forall>r \<in> set R. fst r \<noteq> NULL \<and> 4096 \<le> snd r" using one_dir_ok by blast
  let ?s = "file_sys h d i"
  obtain r where r: "r \<in> set R" "fst r \<noteq> NULL" "4096 \<le> snd r" using h(4,6) by (cases R) auto
  have fs: "leads (s_fs ?s) [0x2F, 0x61] d [0x61] = leads (one_dir h d i 0) [0x2F, 0x61] d [0x61]"
    "dir_ok R (s_fs ?s) d = dir_ok R (one_dir h d i 0) d" "may_create (s_fs ?s) d [0x61] = may_create (one_dir h d i 0) d [0x61]"
    "fs_heap (s_fs ?s) = h" "fs_mem (s_fs ?s) = path_mem" "fd_table (s_fs ?s) = (\<lambda>_ _. 0)"
    unfolding file_sys_fs
    by (simp_all add: leads_def dir_ok_def may_create_def entries_of_def name_of_def the_root_def put_mem_def fs_mem_def one_dir_def blank_fs_def)
  have m: "may_create (one_dir h d i 0) d [0x61]"
    using one_dir_names [of _ h d i 0] by (auto simp: may_create_def one_dir_entries MAX_CHILDREN_def)
  have d: "dir_ok R (one_dir h d i 0) d" using h(5) by blast
  have th: "cur_thread ?s = 1" "pending_sig (threads (s_kern ?s) 1) = 0"
    by (simp_all add: file_sys_def cur_thread_def get_current_def put_mem_def board_kern_def blank_thread_def one_dir_def)
  have fd: "find (\<lambda>j. fd_table (s_fs ?s) 1 j = NULL) [0..<THREAD_MAX_FD] = Some 0"
    unfolding fs(6) by (simp add: THREAD_MAX_FD_def upt_conv_Cons)
  have b: "bytes (fst r, 2 * 5) \<subseteq> bytes r" using r(3) by (auto simp: bytes_def)
  have "(fst r, snd r) \<in> set R" using r(1) by simp
  from heap_inv_bound [OF h(1) this] have bd: "fst r + 5 < 2 ^ 64" by (simp add: PAGE_NUM_eq)
  have l: "pages_left (h_mm h) 7" using pages_left_mono [OF h(2), of 7] by simp
  have pm: "path_mem 100 \<noteq> 0" by (simp add: path_mem_def)
  have q: "(100 :: nat) < 2 ^ 64" by simp
  have inv: "heap_inv (e_layout board_env) board_pages (fs_heap (s_fs ?s)) R" using h(1) fs(4) by simp
  have a: "c_string (fs_mem (s_fs ?s)) 100 = Some [0x2F, 0x61]" "fs_mem (s_fs ?s) 100 \<noteq> 0" "leads (s_fs ?s) [0x2F, 0x61] d [0x61]"
    "dir_ok R (s_fs ?s) d" "may_create (s_fs ?s) d [0x61]" "pages_left (h_mm (fs_heap (s_fs ?s))) 7"
    using path_mem_string pm one_dir_leads [OF h(3)] d m l fs by simp_all
  from program_reads_what_it_wrote [OF th(1) _ th(2) fd _ q a(1-5) inv a(6) r(1) b r(2) bd, of 0 0 0]
  show ?thesis unfolding fs(5) by fastforce
qed

end
