(* ===== verification/Threads.thy ===== *)
theory Threads
  imports SchedInv Paths Syscall
begin

section \<open>The life of a thread: creation, exit, burial\<close>

text \<open>
  \<open>thread_create\<close> in a kernel with memory left: the new thread, its blocks and its console handles. Then the steps the
  threads take through the scheduler as a relation, and the invariant of all states it reaches: who waits where, and
  that every thread on a queue, and the running one, holds its two stacks and its record on the heap.
\<close>

subsection \<open>The console\<close>

text \<open>The vnode that \<open>/dev/uart\<close> leads to.\<close>

definition console_at :: "fs \<Rightarrow> addr \<Rightarrow> bool" where
  "console_at s v \<longleftrightarrow> v \<noteq> NULL \<and> resolve s path_dev_uart = (0, v) \<and> f_ops (vnodes s v) = UART_F"

text \<open>What a path leads to depends on the tree of vnodes alone.\<close>

definition same_tree :: "fs \<Rightarrow> fs \<Rightarrow> bool" where
  "same_tree s s' \<longleftrightarrow> vnodes s' = vnodes s \<and> fsnodes s' = fsnodes s \<and> mounts s' = mounts s \<and> rootfs s' = rootfs s"

lemma find_child_tree: "same_tree s s' \<Longrightarrow> find_child s' name vs = find_child s name vs"
  by (induction vs) (simp_all add: same_tree_def)

lemma walk_tree:
  assumes "same_tree s s'"
  shows "walk s' cs cur t = walk s cs cur t"
proof (induction cs arbitrary: cur t)
  case (Cons c cs)
  have e: "vnodes s' = vnodes s" "fsnodes s' = fsnodes s" "mounts s' = mounts s" "rootfs s' = rootfs s"
    using assms by (simp_all add: same_tree_def)
  have "vop_lookup v c s' = vop_lookup v c s" for v
    using find_child_tree [OF assms]
    by (cases "v_ops (vnodes s v)") (simp_all add: vop_lookup_def tmpfs_lookup_def initramfs_lookup_def Let_def e cong: if_cong)
  moreover have "enter_mount s' v = enter_mount s v" "go_up s' v = go_up s v" "the_root s' = the_root s" for v
    by (simp_all add: enter_mount_def go_up_def the_root_def Let_def e cong: if_cong)
  ultimately show ?case using Cons by (simp split: option.split prod.split)
qed simp

lemma path_dev_uart_absolute: "is_absolute path_dev_uart" "length path_dev_uart < 128"
  by (simp_all add: is_absolute_def path_dev_uart_def path_dev_def)

lemma console_tree: "same_tree s s' \<Longrightarrow> console_at s v \<Longrightarrow> console_at s' v"
  using path_dev_uart_absolute(1) walk_tree [of s s']
  by (simp add: console_at_def resolve_def same_tree_def the_root_def)

subsection \<open>Opening it\<close>

abbreviation console_handle :: "addr \<Rightarrow> vfile" where
  "console_handle v \<equiv> \<lparr>f_vnode = v, f_pos = 0, f_fops = UART_F, f_flags = 0\<rparr>"

lemma set_fd_fs:
  "fs_heap (set_fd t i h s) = fs_heap s" "vnodes (set_fd t i h s) = vnodes s" "files (set_fd t i h s) = files s"
  "set_fd t i a (set_fd t i b s) = set_fd t i a s" "set_fd t i a (s\<lparr>fs_heap := g\<rparr>) = (set_fd t i a s)\<lparr>fs_heap := g\<rparr>"
  "set_fd t i a (s\<lparr>files := f\<rparr>) = (set_fd t i a s)\<lparr>files := f\<rparr>" "same_tree s (set_fd t i h s)"
  "current (set_fd t i h s) = current s" "cwd (set_fd t i h s) = cwd s" 
  by (simp_all add: set_fd_def same_tree_def)

text \<open>The handle \<open>vfs_open\<close> has allocated is lost: \<open>dev_uart_open\<close> takes one of its own.\<close>

lemma open_console_ok:
  assumes inv: "heap_inv L M (fs_heap s) R" and left: "pages_left (h_mm (fs_heap s)) (n + 3)" and c: "console_at s v"
  shows "\<exists>fp k q l h. open_console L t i s = Some (set_fd t i fp (s\<lparr>fs_heap := h, files := (files s)(fp := console_handle v)\<rparr>)) \<and>
     fp \<noteq> NULL \<and> 0 < k \<and> 0 < l \<and> heap_inv L M h ((fp, k) # (q, l) # R) \<and> pages_left (h_mm h) n"
proof -
  let ?s = "set_fd t i NULL s"
  have "console_at ?s v" using console_tree [OF set_fd_fs(7) c] .
  then have r: "resolve ?s path_dev_uart = (0, v)" and v: "v \<noteq> NULL" "f_ops (vnodes s v) = UART_F"
    by (simp_all add: console_at_def set_fd_fs)
  have "heap_inv L M (fs_heap ?s) R" "pages_left (h_mm (fs_heap ?s)) (Suc (n + 2))" using inv left by (simp_all add: set_fd_fs eval_nat_numeral)
  from vfs_lookup_local [OF this path_dev_uart_absolute(2)] obtain h1 where
    l: "vfs_lookup L local_target path_dev_uart ?s = Some (0, v, ?s\<lparr>fs_heap := h1\<rparr>)" "heap_inv L M h1 R" "pages_left (h_mm h1) (n + 2)"
    using r path_dev_uart_absolute(1) by (auto simp: startable_def)
  let ?s1 = "?s\<lparr>fs_heap := h1\<rparr>"
  have "heap_inv L M (fs_heap ?s1) R" "pages_left (h_mm (fs_heap ?s1)) (Suc (n + 1))" using l(2,3) by (simp_all add: eval_nat_numeral)
  from fs_alloc_left [OF this, of FILE_SIZE] obtain q j h2 where a: "fs_alloc FILE_SIZE ?s1 = Some (q, ?s1\<lparr>fs_heap := h2\<rparr>)"
    "q \<noteq> NULL" "0 < j" "heap_inv L M h2 ((q, j) # R)" "pages_left (h_mm h2) (n + 1)" by (auto simp: FILE_SIZE_def)
  let ?s2 = "set_fd t i q (?s1\<lparr>fs_heap := h2\<rparr>)"
  have "heap_inv L M (fs_heap ?s2) ((q, j) # R)" "pages_left (h_mm (fs_heap ?s2)) (Suc n)" using a(4,5) by (simp_all add: set_fd_fs)
  from fs_alloc_left [OF this, of FILE_SIZE] obtain fp k h3 where b: "fs_alloc FILE_SIZE ?s2 = Some (fp, ?s2\<lparr>fs_heap := h3\<rparr>)"
    "fp \<noteq> NULL" "0 < k" "heap_inv L M h3 ((fp, k) # (q, j) # R)" "pages_left (h_mm h3) n" by (auto simp: FILE_SIZE_def)
  have "open_console L t i s = Some (set_fd t i fp (s\<lparr>fs_heap := h3, files := (files s)(fp := console_handle v)\<rparr>))"
    unfolding open_console_def vfs_open_def l(1)
    using a(1,2) b(1,2) v
    by (cases "files s fp") (simp add: l(1) open_vnode_def Let_def fop_open_def dev_uart_open_def dev_open_def upd_file_def set_fd_fs)
  then show ?thesis using b a(3) by blast
qed

subsection \<open>The blocks of threads\<close>

text \<open>A thread's two stacks and its record.\<close>

definition thread_blocks :: "kern \<Rightarrow> addr \<Rightarrow> addr list" where
  "thread_blocks s t = [kernel_stack (threads s t), user_stack (threads s t), t]"

definition has_block :: "region list \<Rightarrow> addr \<Rightarrow> nat \<Rightarrow> bool" where
  "has_block R a n \<longleftrightarrow> (\<exists>l \<ge> n. (a, l) \<in> set R)"

text \<open>The threads \<open>ts\<close> hold their blocks, all of them different.\<close>

definition threads_hold :: "region list \<Rightarrow> kern \<Rightarrow> addr list \<Rightarrow> bool" where
  "threads_hold R s ts \<longleftrightarrow> distinct (concat (map (thread_blocks s) ts)) \<and>
     (\<forall>t \<in> set ts. has_block R (kernel_stack (threads s t)) 4096 \<and> has_block R (user_stack (threads s t)) 4096 \<and> has_block R t 576)"

lemma has_block_owned: "has_block R a n \<Longrightarrow> 0 < n \<Longrightarrow> owned R a"
  unfolding has_block_def owned_def by (meson less_le_trans)

lemma has_block_mono: "has_block R a n \<Longrightarrow> set R \<subseteq> set Q \<Longrightarrow> has_block Q a n"
  by (auto simp: has_block_def)

lemma threads_hold_owned: "threads_hold R s ts \<Longrightarrow> a \<in> set (concat (map (thread_blocks s) ts)) \<Longrightarrow> owned R a"
  using has_block_owned by (fastforce simp: threads_hold_def thread_blocks_def)

lemma threads_hold_cong:
  assumes "threads_hold R s ts"
    and "\<And>t. t \<in> set ts \<Longrightarrow> kernel_stack (threads s' t) = kernel_stack (threads s t) \<and> user_stack (threads s' t) = user_stack (threads s t)"
  shows "threads_hold R s' ts"
proof -
  have e: "map (thread_blocks s') ts = map (thread_blocks s) ts" by (rule map_cong) (simp_all add: assms(2) thread_blocks_def)
  show ?thesis using assms unfolding threads_hold_def e by simp
qed

lemma threads_hold_snoc:
  assumes "threads_hold R s ts" "set R \<subseteq> set Q" "distinct (thread_blocks s t)" "set (thread_blocks s t) \<inter> set (concat (map (thread_blocks s) ts)) = {}"
    and "has_block Q (kernel_stack (threads s t)) 4096" "has_block Q (user_stack (threads s t)) 4096" "has_block Q t 576"
  shows "threads_hold Q s (ts @ [t])"
proof -
  have "distinct (concat (map (thread_blocks s) (ts @ [t])))" using assms(1,3,4) by (auto simp: threads_hold_def)
  then show ?thesis using assms(1,2,5-7) has_block_mono unfolding threads_hold_def by fastforce
qed

subsection \<open>Creation\<close>

text \<open>What \<open>thread_create\<close> makes: \<open>v\<close> is the console's vnode, \<open>cb\<close> the entry point, \<open>hdl\<close> and \<open>kh\<close> the default handlers.\<close>

definition new_thread :: "addr \<Rightarrow> addr \<Rightarrow> addr \<Rightarrow> addr \<Rightarrow> kern \<Rightarrow> addr \<Rightarrow> kern \<Rightarrow> bool" where
  "new_thread hdl kh cb v s t s' \<longleftrightarrow>
     th_id (threads s' t) = thread_cnt s \<and> thread_cnt s' = thread_cnt s + 1 \<and> th_state (threads s' t) = TASK_READY \<and>
     pending_sig (threads s' t) = 0 \<and> (\<forall>i < SIG_NUM. sig_handlers (threads s' t) i = (if i = SIGKILL then kh else hdl)) \<and>
     lr_reg (cpu_ctx (threads s' t)) = of_nat cb \<and> sp_reg (cpu_ctx (threads s' t)) = of_nat (user_stack (threads s' t)) + 4096 \<and>
     cwd (k_fs s') t = the_root (k_fs s) \<and>
     (\<forall>i < 3. fd_table (k_fs s') t i \<noteq> NULL \<and> files (k_fs s') (fd_table (k_fs s') t i) = console_handle v) \<and>
     (\<forall>i. 3 \<le> i \<and> i < THREAD_MAX_FD \<longrightarrow> fd_table (k_fs s') t i = NULL) \<and>
     same_tree (k_fs s) (k_fs s') \<and> fs_uart (k_fs s') = fs_uart (k_fs s) \<and> get_current s' = get_current s \<and>
     (\<forall>x. x \<noteq> t \<longrightarrow> threads s' x = (threads s x)\<lparr>th_next := th_next (threads s' x)\<rparr> \<and> cwd (k_fs s') x = cwd (k_fs s) x \<and>
        fd_table (k_fs s') x = fd_table (k_fs s) x)"

text \<open>The handles in the blocks that were held before are as they were.\<close>

definition files_kept :: "region list \<Rightarrow> fs \<Rightarrow> fs \<Rightarrow> bool" where
  "files_kept R s s' \<longleftrightarrow> (\<forall>a. owned R a \<longrightarrow> files s' a = files s a)"

lemma queues_upd:
  assumes "queues_ok s rs ws zs" "\<And>x. x \<in> set (rs @ ws @ zs) \<Longrightarrow> th x = threads s x"
  shows "queues_ok (s\<lparr>thread_cnt := c, k_fs := f, threads := th\<rparr>) rs ws zs"
  using assms unfolding queues_ok_def by (auto intro!: tq_cong [where th = "threads s"])

lemma upd_id: "f (th x) = th x \<Longrightarrow> upd_thread x f th = th"
  by (simp add: upd_thread_def)

lemma open_consoles_ok:
  assumes inv: "heap_inv L M (fs_heap s) R" and left: "pages_left (h_mm (fs_heap s)) (n + 9)" and c: "console_at s v"
  shows "\<exists>f6 f7 p0 p1 p2 h Q. open_console L t 0 s = Some f6 \<and> open_console L t 1 f6 = Some f7 \<and>
     open_console L t 2 f7 = Some (s\<lparr>fs_heap := h,
       files := (files s)(p0 := console_handle v, p1 := console_handle v, p2 := console_handle v),
       fd_table := (fd_table s)(t := (fd_table s t)(0 := p0, 1 := p1, 2 := p2))\<rparr>) \<and>
     p0 \<noteq> NULL \<and> p1 \<noteq> NULL \<and> p2 \<noteq> NULL \<and> (\<forall>a. owned R a \<longrightarrow> a \<notin> {p0, p1, p2}) \<and> heap_inv L M h Q \<and> set R \<subseteq> set Q \<and> pages_left (h_mm h) n"
proof -
  have "pages_left (h_mm (fs_heap s)) (n + 6 + 3)" using left by (simp add: eval_nat_numeral)
  from open_console_ok [OF inv this c, of t 0] obtain p0 k0 q0 l0 h6 where
    o0: "open_console L t 0 s = Some (set_fd t 0 p0 (s\<lparr>fs_heap := h6, files := (files s)(p0 := console_handle v)\<rparr>))"
      "p0 \<noteq> NULL" "heap_inv L M h6 ((p0, k0) # (q0, l0) # R)" "pages_left (h_mm h6) (n + 6)" "0 < k0" by blast
  let ?f6 = "set_fd t 0 p0 (s\<lparr>fs_heap := h6, files := (files s)(p0 := console_handle v)\<rparr>)"
  have "same_tree s ?f6" by (simp add: same_tree_def set_fd_def)
  then have c6: "console_at ?f6 v" by (rule console_tree [OF _ c])
  have "pages_left (h_mm (fs_heap ?f6)) (n + 3 + 3)" "heap_inv L M (fs_heap ?f6) ((p0, k0) # (q0, l0) # R)"
    using o0(3,4) by (simp_all add: set_fd_fs eval_nat_numeral)
  from open_console_ok [OF this(2,1) c6, of t 1] obtain p1 k1 q1 l1 h7 where
    o1: "open_console L t 1 ?f6 = Some (set_fd t 1 p1 (?f6\<lparr>fs_heap := h7, files := (files ?f6)(p1 := console_handle v)\<rparr>))"
      "p1 \<noteq> NULL" "heap_inv L M h7 ((p1, k1) # (q1, l1) # (p0, k0) # (q0, l0) # R)" "pages_left (h_mm h7) (n + 3)" "0 < k1" by blast
  let ?f7 = "set_fd t 1 p1 (?f6\<lparr>fs_heap := h7, files := (files ?f6)(p1 := console_handle v)\<rparr>)"
  have "same_tree ?f6 ?f7" by (simp add: same_tree_def set_fd_def)
  then have c7: "console_at ?f7 v" by (rule console_tree [OF _ c6])
  have "pages_left (h_mm (fs_heap ?f7)) (n + 3)" "heap_inv L M (fs_heap ?f7) ((p1, k1) # (q1, l1) # (p0, k0) # (q0, l0) # R)"
    using o1(3,4) by (simp_all add: set_fd_fs)
  from open_console_ok [OF this(2,1) c7, of t 2] obtain p2 k2 q2 l2 h8 where
    o2: "open_console L t 2 ?f7 = Some (set_fd t 2 p2 (?f7\<lparr>fs_heap := h8, files := (files ?f7)(p2 := console_handle v)\<rparr>))" "p2 \<noteq> NULL"
      "heap_inv L M h8 ((p2, k2) # (q2, l2) # (p1, k1) # (q1, l1) # (p0, k0) # (q0, l0) # R)" "pages_left (h_mm h8) n" "0 < k2" by blast
  have e: "set_fd t 2 p2 (?f7\<lparr>fs_heap := h8, files := (files ?f7)(p2 := console_handle v)\<rparr>) = s\<lparr>fs_heap := h8,
       files := (files s)(p0 := console_handle v, p1 := console_handle v, p2 := console_handle v),
       fd_table := (fd_table s)(t := (fd_table s t)(0 := p0, 1 := p1, 2 := p2))\<rparr>" by (simp add: set_fd_def)
  have fresh: "\<forall>a. owned R a \<longrightarrow> a \<notin> {p0, p1, p2}"
  proof (intro allI impI)
    fix a assume a: "owned R a"
    have "p0 \<noteq> a" by (rule fresh_block [OF o0(3) owned_mono [OF a] o0(5)]) auto
    moreover have "p1 \<noteq> a" by (rule fresh_block [OF o1(3) owned_mono [OF a] o1(5)]) auto
    moreover have "p2 \<noteq> a" by (rule fresh_block [OF o2(3) owned_mono [OF a] o2(5)]) auto
    ultimately show "a \<notin> {p0, p1, p2}" by blast
  qed
  have sub: "set R \<subseteq> set ((p2, k2) # (q2, l2) # (p1, k1) # (q1, l1) # (p0, k0) # (q0, l0) # R)" by auto
  show ?thesis
    by (intro exI conjI, rule o0(1), rule o1(1), rule o2(1) [unfolded e], rule o0(2), rule o1(2), rule o2(2), rule fresh, rule o2(3), rule sub, rule o2(4))
qed

text \<open>The four blocks of a thread.\<close>

lemma thread_memory:
  assumes inv: "heap_inv L M (fs_heap f) R" and left: "pages_left (h_mm (fs_heap f)) (n + 4)"
  shows "\<exists>t ks us fr h1 h2 h3 h4 Q. fs_alloc THREAD_SIZE f = Some (t, f\<lparr>fs_heap := h1\<rparr>) \<and>
     fs_alloc THREAD_STACK_SIZE (f\<lparr>fs_heap := h1\<rparr>) = Some (ks, f\<lparr>fs_heap := h2\<rparr>) \<and>
     fs_alloc THREAD_STACK_SIZE (f\<lparr>fs_heap := h2\<rparr>) = Some (us, f\<lparr>fs_heap := h3\<rparr>) \<and>
     fs_alloc TRAPFRAME_SIZE (f\<lparr>fs_heap := h3\<rparr>) = Some (fr, f\<lparr>fs_heap := h4\<rparr>) \<and>
     t \<noteq> NULL \<and> ks \<noteq> NULL \<and> us \<noteq> NULL \<and> distinct [ks, us, t] \<and> (\<forall>a. owned R a \<longrightarrow> a \<notin> {t, ks, us}) \<and>
     has_block Q t 576 \<and> has_block Q ks 4096 \<and> has_block Q us 4096 \<and>
     heap_inv L M h4 Q \<and> set R \<subseteq> set Q \<and> pages_left (h_mm h4) n"
proof -
  note num = eval_nat_numeral
  have "pages_left (h_mm (fs_heap f)) (Suc (n + 3))" using left by (simp add: num)
  from fs_alloc_left [OF inv this, of THREAD_SIZE] obtain t lt h1 where
    a1: "fs_alloc THREAD_SIZE f = Some (t, f\<lparr>fs_heap := h1\<rparr>)" "t \<noteq> NULL" "576 \<le> lt" "heap_inv L M h1 ((t, lt) # R)" 
      "pages_left (h_mm h1) (n + 3)" by (auto simp: THREAD_SIZE_def)
  have "pages_left (h_mm (fs_heap (f\<lparr>fs_heap := h1\<rparr>))) (Suc (n + 2))" using a1(5) by (simp add: num)
  from fs_alloc_left [OF _ this, of L M "(t, lt) # R" THREAD_STACK_SIZE] a1(4) obtain ks lk h2 where
    a2: "fs_alloc THREAD_STACK_SIZE (f\<lparr>fs_heap := h1\<rparr>) = Some (ks, f\<lparr>fs_heap := h2\<rparr>)" "ks \<noteq> NULL" "4096 \<le> lk"
      "heap_inv L M h2 ((ks, lk) # (t, lt) # R)" "pages_left (h_mm h2) (n + 2)" by (auto simp: THREAD_STACK_SIZE_def)
  have "pages_left (h_mm (fs_heap (f\<lparr>fs_heap := h2\<rparr>))) (Suc (n + 1))" using a2(5) by (simp add: num)
  from fs_alloc_left [OF _ this, of L M "(ks, lk) # (t, lt) # R" THREAD_STACK_SIZE] a2(4) obtain us lu h3 where
    a3: "fs_alloc THREAD_STACK_SIZE (f\<lparr>fs_heap := h2\<rparr>) = Some (us, f\<lparr>fs_heap := h3\<rparr>)" "us \<noteq> NULL" "4096 \<le> lu"
      "heap_inv L M h3 ((us, lu) # (ks, lk) # (t, lt) # R)" "pages_left (h_mm h3) (n + 1)" by (auto simp: THREAD_STACK_SIZE_def)
  let ?R = "(us, lu) # (ks, lk) # (t, lt) # R"
  have "pages_left (h_mm (fs_heap (f\<lparr>fs_heap := h3\<rparr>))) (Suc n)" using a3(5) by (simp add: num)
  from fs_alloc_left [OF _ this, of L M ?R TRAPFRAME_SIZE] a3(4) obtain fr lf h4 where
    a4: "fs_alloc TRAPFRAME_SIZE (f\<lparr>fs_heap := h3\<rparr>) = Some (fr, f\<lparr>fs_heap := h4\<rparr>)" 
      "heap_inv L M h4 ((fr, lf) # ?R)" "pages_left (h_mm h4) n" by (auto simp: TRAPFRAME_SIZE_def)
  have pos: "0 < lt" "0 < lk" "0 < lu" using a1(3) a2(3) a3(3) by simp_all
  have "distinct [ks, us, t]"
    using fresh_block [OF a2(4) _ pos(2), of t] fresh_block [OF a3(4) _ pos(3), of t] fresh_block [OF a3(4) _ pos(3), of ks] pos by auto
  moreover have "\<forall>a. owned R a \<longrightarrow> a \<notin> {t, ks, us}"
    using fresh_block [OF a1(4) _ pos(1)] fresh_block [OF a2(4) _ pos(2)] fresh_block [OF a3(4) _ pos(3)] by fastforce
  moreover have "has_block ((fr, lf) # ?R) t 576" "has_block ((fr, lf) # ?R) ks 4096" "has_block ((fr, lf) # ?R) us 4096"
    using a1(3) a2(3) a3(3) by (auto simp: has_block_def)
  moreover have "set R \<subseteq> set ((fr, lf) # ?R)" by auto
  ultimately show ?thesis using a1(1,2) a2(1,2) a3(1,2) a4 by blast
qed

lemma thread_create_ok:
  assumes q: "queues_ok s rs ws zs" and inv: "heap_inv L M (fs_heap (k_fs s)) R"
    and left: "pages_left (h_mm (fs_heap (k_fs s))) (n + 13)" and c: "console_at (k_fs s) v"
    and hold: "threads_hold R s ts" and ts: "set (rs @ ws @ zs) \<subseteq> set ts"
  shows "\<exists>t s' Q. thread_create L hdl kh cb s = Some (t, s') \<and> t \<noteq> NULL \<and> t \<notin> set ts \<and> (\<forall>a. owned R a \<longrightarrow> a \<notin> set (thread_blocks s' t)) \<and> queues_ok s' (rs @ [t]) ws zs \<and>
     heap_inv L M (fs_heap (k_fs s')) Q \<and> set R \<subseteq> set Q \<and> threads_hold Q s' (ts @ [t]) \<and>
     pages_left (h_mm (fs_heap (k_fs s'))) n \<and> new_thread hdl kh cb v s t s' \<and> files_kept R (k_fs s) (k_fs s')"
proof -
  have "pages_left (h_mm (fs_heap (k_fs s))) (n + 9 + 4)" using left by (simp add: eval_nat_numeral)
  from thread_memory [OF inv this] obtain t ks us fr h1 h2 h3 h4 Q4 where
    a: "fs_alloc THREAD_SIZE (k_fs s) = Some (t, (k_fs s)\<lparr>fs_heap := h1\<rparr>)"
      "fs_alloc THREAD_STACK_SIZE ((k_fs s)\<lparr>fs_heap := h1\<rparr>) = Some (ks, (k_fs s)\<lparr>fs_heap := h2\<rparr>)"
      "fs_alloc THREAD_STACK_SIZE ((k_fs s)\<lparr>fs_heap := h2\<rparr>) = Some (us, (k_fs s)\<lparr>fs_heap := h3\<rparr>)"
      "fs_alloc TRAPFRAME_SIZE ((k_fs s)\<lparr>fs_heap := h3\<rparr>) = Some (fr, (k_fs s)\<lparr>fs_heap := h4\<rparr>)"
    and nn: "t \<noteq> NULL" "ks \<noteq> NULL" "us \<noteq> NULL" and d: "distinct [ks, us, t]"
    and fresh: "\<And>a. owned R a \<Longrightarrow> a \<notin> {t, ks, us}"
    and b: "has_block Q4 t 576" "has_block Q4 ks 4096" "has_block Q4 us 4096"
    and i4: "heap_inv L M h4 Q4" "set R \<subseteq> set Q4" "pages_left (h_mm h4) (n + 9)" by blast
  let ?f5 = "(k_fs s)\<lparr>fs_heap := h4, cwd := (cwd (k_fs s))(t := the_root (k_fs s)),
      fd_table := (fd_table (k_fs s))(t := \<lambda>i. if i < THREAD_MAX_FD then NULL else fd_table (k_fs s) t i)\<rparr>"
  have "same_tree (k_fs s) ?f5" by (simp add: same_tree_def)
  then have c5: "console_at ?f5 v" by (rule console_tree [OF _ c])
  have "pages_left (h_mm (fs_heap ?f5)) (n + 9)" "heap_inv L M (fs_heap ?f5) Q4" using i4 by simp_all
  from open_consoles_ok [OF this(2,1) c5, of t] obtain f6 f7 p0 p1 p2 h Q where
    o: "open_console L t 0 ?f5 = Some f6" "open_console L t 1 f6 = Some f7"
      "open_console L t 2 f7 = Some (?f5\<lparr>fs_heap := h,
        files := (files ?f5)(p0 := console_handle v, p1 := console_handle v, p2 := console_handle v),
        fd_table := (fd_table ?f5)(t := (fd_table ?f5 t)(0 := p0, 1 := p1, 2 := p2))\<rparr>)" (is "_ = Some ?f8")
    and p: "p0 \<noteq> NULL" "p1 \<noteq> NULL" "p2 \<noteq> NULL" and pf: "\<And>a. owned Q4 a \<Longrightarrow> a \<notin> {p0, p1, p2}" and iQ: "heap_inv L M h Q" "set Q4 \<subseteq> set Q" "pages_left (h_mm h) n" by blast
  let ?th1 = "upd_thread t (\<lambda>k. k\<lparr>th_id := thread_cnt s, th_state := TASK_READY, th_counter := DEFAULT_PRIORITY,
      th_priority := DEFAULT_PRIORITY, preempt_count := 1\<rparr>) (threads s)"
  let ?s1 = "s\<lparr>threads := ?th1, thread_cnt := thread_cnt s + 1\<rparr>"
  let ?sp = "of_nat us + ucast THREAD_STACK_SIZE :: u64"
  let ?th2 = "upd_thread t (\<lambda>k. k\<lparr>kernel_stack := ks, user_stack := us, pending_sig := 0,
      sig_handlers := \<lambda>i. if i < SIG_NUM then (if i = SIGKILL then kh else hdl) else sig_handlers k i,
      sig_frame := fr, th_next := None, cpu_ctx := \<lparr>x19_x28 = \<lambda>_. 0, fp_reg = ?sp, lr_reg = of_nat cb, sp_reg = ?sp\<rparr>\<rparr>) ?th1"
  let ?s2 = "s\<lparr>thread_cnt := thread_cnt s + 1, k_fs := ?f8, threads := ?th2\<rparr>"
  have tn: "t \<notin> set ts" "\<And>x. x \<in> set (concat (map (thread_blocks s) ts)) \<Longrightarrow> x \<notin> {t, ks, us}"
  proof -
    show b: "x \<notin> {t, ks, us}" if "x \<in> set (concat (map (thread_blocks s) ts))" for x
      by (rule fresh [OF threads_hold_owned [OF hold that]])
    show "t \<notin> set ts" using b [of t] by (auto simp: thread_blocks_def)
  qed
  have n: "t \<notin> set (rs @ ws @ zs)" using tn(1) ts by blast
  have "queues_ok ?s2 rs ws zs" by (rule queues_upd [OF q]) (use n in auto)
  from add_ready_queues [OF this n nn(1)] obtain s' where
    s': "add_ready t ?s2 = Some s'" "queues_ok s' (rs @ [t]) ws zs" "kept ?s2 s'" by auto
  have e: "thread_create L hdl kh cb s = Some (t, s')"
    using a o nn s'(1) by (simp add: thread_create_def Let_def the_root_def cong: if_cong)
  have k: "k_fs s' = ?f8" "thread_cnt s' = thread_cnt s + 1" "relinked UNIV ?th2 (threads s')" using s'(3) by (simp_all add: kept_def)
  have th: "threads s' x = (?th2 x)\<lparr>th_next := th_next (threads s' x)\<rparr>" for x using k(3) unfolding relinked_def by blast
  have other: "threads s' x = (threads s x)\<lparr>th_next := th_next (threads s' x)\<rparr>" if "x \<noteq> t" for x
    using th [of x] that by simp
  obtain nx where tt: "threads s' t = (?th2 t)\<lparr>th_next := nx\<rparr>" using th [of t] by blast
  have "fd_table (k_fs s') t i \<noteq> NULL \<and> files (k_fs s') (fd_table (k_fs s') t i) = console_handle v" if "i < 3" for i
    using that p k(1) by (simp add: numeral_3_eq_3 less_Suc_eq numeral_2_eq_2) auto
  moreover have "fd_table (k_fs s') t i = NULL" if "3 \<le> i" "i < THREAD_MAX_FD" for i using that k(1) by simp
  ultimately have "new_thread hdl kh cb v s t s'"
    using k(1,2) tt other unfolding new_thread_def by (simp add: THREAD_STACK_SIZE_def same_tree_def get_current_def the_root_def)
  moreover have "files_kept R (k_fs s) (k_fs s')" using pf owned_mono [OF _ i4(2)] k(1) by (auto simp: files_kept_def)
  moreover have "threads_hold Q s' (ts @ [t])"
  proof -
    have st: "kernel_stack (threads s' x) = (if x = t then ks else kernel_stack (threads s x))"
      "user_stack (threads s' x) = (if x = t then us else user_stack (threads s x))" for x
      by (subst th, simp)+
    have "threads_hold R s' ts" by (rule threads_hold_cong [OF hold]) (use tn(1) st in auto)
    moreover have "map (thread_blocks s') ts = map (thread_blocks s) ts" using tn(1) st by (auto simp: thread_blocks_def)
    then have "set (thread_blocks s' t) \<inter> set (concat (map (thread_blocks s') ts)) = {}"
      using tn(2) st by (auto simp: thread_blocks_def)
    moreover have "has_block Q t 576" "has_block Q ks 4096" "has_block Q us 4096" by (rule has_block_mono [OF _ iQ(2)], rule b)+
    ultimately show ?thesis using threads_hold_snoc [of R s' ts Q t] i4(2) iQ(2) d st by (auto simp: thread_blocks_def)
  qed
  moreover have "heap_inv L M (fs_heap (k_fs s')) Q" "pages_left (h_mm (fs_heap (k_fs s'))) n" using iQ k(1) by simp_all
  moreover have "\<forall>a. owned R a \<longrightarrow> a \<notin> set (thread_blocks s' t)" using fresh tt by (auto simp: thread_blocks_def)
  ultimately show ?thesis using e nn(1) tn(1) s'(2) i4(2) iQ(2) by blast
qed

subsection \<open>The threads there are\<close>

definition live :: "kern \<Rightarrow> addr list \<Rightarrow> addr list \<Rightarrow> addr list \<Rightarrow> addr list" where
  "live s rs ws zs = (if get_current s \<in> set rs then rs else get_current s # rs) @ ws @ zs"

lemma live_set: "set (live s rs ws zs) = insert (get_current s) (set (rs @ ws @ zs))"
  by (auto simp: live_def)

lemma live_distinct: "sched_inv s rs ws zs \<Longrightarrow> distinct (live s rs ws zs)"
  by (auto simp: live_def sched_inv_def queues_ok_def)

lemma concat_sub:
  assumes "distinct (concat (map f ts))" "set us \<subseteq> set ts" "distinct us"
  shows "distinct (concat (map f us))"
proof -
  have one: "distinct (f t)" if "t \<in> set ts" for t using assms(1) that by (induction ts) auto
  have two: "set (f t) \<inter> set (f u) = {}" if "t \<in> set ts" "u \<in> set ts" "t \<noteq> u" for t u
    using assms(1) that
  proof (induction ts)
    case (Cons x xs)
    then show ?case by (cases "t = x"; cases "u = x") fastforce+
  qed simp
  show ?thesis using assms(2,3)
  proof (induction us)
    case (Cons u us)
    have "set (f u) \<inter> set (f w) = {}" if "w \<in> set us" for w using that Cons.prems two [of u w] by auto
    then show ?case using Cons one [of u] by auto
  qed simp
qed

lemma threads_hold_sub: "threads_hold R s ts \<Longrightarrow> set us \<subseteq> set ts \<Longrightarrow> distinct us \<Longrightarrow> threads_hold R s us"
  using concat_sub [of "thread_blocks s" ts us] by (auto simp: threads_hold_def)

lemma threads_hold_same: "threads_hold R s ts \<Longrightarrow> same_threads s s' \<Longrightarrow> threads_hold R s' ts"
  by (rule threads_hold_cong) (auto simp: same_threads_def)

subsection \<open>The operations on the threads\<close>

lemma schedule_keeps:
  assumes inv: "sched_inv s rs ws zs"
  shows "\<exists>s' rs' ws' zs'. schedule s = Some s' \<and> sched_inv s' rs' ws' zs' \<and> same_threads s s' \<and>
     set (live s' rs' ws' zs') \<subseteq> set (live s rs ws zs)"
proof (cases "rs = [] \<or> hd rs = get_current s")
  case True
  then have "schedule s = Some (irqs_on (irqs_off s))" using schedule_stay [OF inv] by blast
  moreover have "same_threads s (irqs_on (irqs_off s))" by (simp add: same_threads_def irqs_off_def irqs_on_def same_fs_refl)
  ultimately show ?thesis using inv by (intro exI [of _ "irqs_on (irqs_off s)"] exI [of _ rs] exI [of _ ws] exI [of _ zs]) (simp add: live_set)
next
  case False
  then obtain n ns where rs: "rs = n # ns" "n \<noteq> get_current s" by (cases rs) auto
  obtain rs' ws' zs' where p: "park_lists (th_state (threads s (get_current s))) (get_current s) ns ws zs = (rs', ws', zs')"
    by (cases "park_lists (th_state (threads s (get_current s))) (get_current s) ns ws zs") auto
  obtain s' where s': "schedule s = Some s'" "get_current s' = n" "sched_inv s' rs' ws' zs'" "same_threads s s'"
    using schedule_switch [OF inv [unfolded rs] rs(2) p] by blast
  have "set (rs' @ ws' @ zs') \<subseteq> insert (get_current s) (set (ns @ ws @ zs))" using p by (auto simp: park_lists_def split: if_splits)
  then have "set (live s' rs' ws' zs') \<subseteq> set (live s rs ws zs)" unfolding live_set s'(2) rs(1) by auto
  then show ?thesis using s' by blast
qed

lemma exit_keeps:
  assumes inv: "sched_inv s rs ws zs"
  shows "\<exists>s' rs' ws' zs'. exit_thread s = Some s' \<and> sched_inv s' rs' ws' zs' \<and> same_threads s s' \<and>
     set (live s' rs' ws' zs') \<subseteq> set (live s rs ws zs)"
proof -
  obtain s1 where s1: "exit_thread s = schedule s1" "sched_inv s1 (remove1 (get_current s) rs) ws zs" "get_current s1 = get_current s"
    "same_threads s s1" using exit_prepares [OF inv] by blast
  obtain s' rs' ws' zs' where s': "schedule s1 = Some s'" "sched_inv s' rs' ws' zs'" "same_threads s1 s'"
    "set (live s' rs' ws' zs') \<subseteq> set (live s1 (remove1 (get_current s) rs) ws zs)" using schedule_keeps [OF s1(2)] by blast
  have "set (live s1 (remove1 (get_current s) rs) ws zs) \<subseteq> set (live s rs ws zs)"
    using set_remove1_subset unfolding live_set s1(3) by fastforce
  then show ?thesis using s1(1) s' same_threads_trans [OF s1(4) s'(3)] by (metis (no_types) order_trans)
qed

text \<open>A thread that is still on the ready queue while it runs is found by its own \<open>_kill\<close>, which then is its exit.\<close>

lemma kill_self:
  assumes inv: "sched_inv s rs ws zs" and t: "find (\<lambda>x. th_id (threads s x) = pid) (rs @ ws) = Some (get_current s)"
  shows "kill_thread pid s = map_option (\<lambda>t. (0, t)) (exit_thread s)"
proof -
  have q: "queues_ok s rs ws zs" "get_current s \<noteq> NULL" using inv by (auto simp: sched_inv_def)
  obtain s1 where s1: "unqueue (get_current s) s = Some s1" "kept s s1" using unqueue_ok [OF q(1)] by blast
  have "get_current (set_state (get_current s) TASK_EXITED s1) = get_current s"
    using kept_current [OF s1(2)] by (simp add: set_state_def get_current_def)
  then show ?thesis using get_by_id_eq [OF q(1), of pid] t s1(1) q(2) by (simp add: kill_thread_def exit_thread_def Let_def)
qed

lemma kill_keeps:
  assumes inv: "sched_inv s rs ws zs"
  shows "\<exists>r s' rs' ws' zs'. kill_thread pid s = Some (r, s') \<and> sched_inv s' rs' ws' zs' \<and> same_threads s s' \<and>
     set (live s' rs' ws' zs') \<subseteq> set (live s rs ws zs)"
proof -
  let ?f = "find (\<lambda>x. th_id (threads s x) = pid) (rs @ ws)"
  consider (none) "?f = None" | (self) "?f = Some (get_current s)" | (other) t where "?f = Some t" "t \<noteq> get_current s" by (cases ?f) auto
  then show ?thesis
  proof cases
    case none
    then have "\<forall>x \<in> set (rs @ ws). th_id (threads s x) \<noteq> pid" unfolding find_None_iff by blast
    from kill_unknown [OF inv this] show ?thesis using inv same_fs_refl
      by (intro exI [of _ "-1"] exI [of _ s] exI [of _ rs] exI [of _ ws] exI [of _ zs]) (simp add: same_threads_def)
  next
    case self
    then show ?thesis using exit_keeps [OF inv] kill_self [OF inv self] by auto
  next
    case (other t)
    then obtain s' where s': "kill_thread pid s = Some (0, s')" "sched_inv s' (remove1 t rs) (remove1 t ws) (zs @ [t])"
      "get_current s' = get_current s" "same_threads s s'" using kill_other [OF inv] by blast
    have "t \<in> set (rs @ ws)" using other(1) unfolding find_Some_iff by (metis nth_mem)
    then have "set (live s' (remove1 t rs) (remove1 t ws) (zs @ [t])) \<subseteq> set (live s rs ws zs)"
      using set_remove1_subset [of t rs] set_remove1_subset [of t ws] unfolding live_set s'(3) by auto
    then show ?thesis using s' by blast
  qed
qed

text \<open>\<open>kill_zombies\<close> changes the heap's state alone.\<close>

lemma fs_free_heap: "fs_free L p f = Some g \<Longrightarrow> \<exists>h. g = f\<lparr>fs_heap := h\<rparr>"
  by (auto simp: fs_free_def)

lemma bury_fs:
  assumes "bury L z s = Some s'"
  shows "\<exists>h. k_fs s' = (k_fs s)\<lparr>fs_heap := h\<rparr>"
proof -
  obtain f1 f2 f3 where f: "fs_free L (kernel_stack (threads s z)) (k_fs s) = Some f1" "fs_free L (user_stack (threads s z)) f1 = Some f2"
    "fs_free L z f2 = Some f3" "s' = s\<lparr>k_fs := f3\<rparr>" using assms by (auto simp: bury_def bind_eq_Some_conv)
  obtain h1 h2 h3 where h: "f1 = (k_fs s)\<lparr>fs_heap := h1\<rparr>" "f2 = f1\<lparr>fs_heap := h2\<rparr>" "f3 = f2\<lparr>fs_heap := h3\<rparr>"
    using fs_free_heap f(1-3) by meson
  show ?thesis unfolding f(4) h by (rule exI [of _ h3]) simp
qed

lemma kill_zombies_fs:
  assumes "kill_zombies L s = Some s'"
  shows "\<exists>h. k_fs s' = (k_fs s)\<lparr>fs_heap := h\<rparr>"
proof (rule kill_zombies.raw_induct [of "\<lambda>L s s'. \<exists>h. k_fs s' = (k_fs s)\<lparr>fs_heap := h\<rparr>", OF _ assms])
  fix kz L s r
  assume IH: "\<And>L s r. kz L s = Some r \<Longrightarrow> \<exists>h. k_fs r = (k_fs s)\<lparr>fs_heap := h\<rparr>"
    and r: "(case pop_thread_task (zombie_queue s) (threads s) of (None, q) \<Rightarrow> Some s
       | (Some z, q) \<Rightarrow> (case bury L z (s\<lparr>zombie_queue := q\<rparr>) of None \<Rightarrow> None | Some s1 \<Rightarrow> kz L s1)) = Some r"
  show "\<exists>h. k_fs r = (k_fs s)\<lparr>fs_heap := h\<rparr>"
  proof (cases "zombie_queue s")
    case None
    then show ?thesis using r by (auto simp: pop_thread_task_def intro: exI [of _ "fs_heap (k_fs s)"])
  next
    case (Some z)
    then obtain s1 where s1: "bury L z (s\<lparr>zombie_queue := th_next (threads s z)\<rparr>) = Some s1" "kz L s1 = Some r"
      using r by (auto simp: pop_thread_task_def split: option.splits)
    obtain h where "k_fs s1 = (k_fs s)\<lparr>fs_heap := h\<rparr>" using bury_fs [OF s1(1)] by auto
    then show ?thesis using IH [OF s1(2)] by auto
  qed
qed

text \<open>The regions of the zombies, put in front.\<close>

lemma zombie_regions:
  assumes inv: "heap_inv L M h R" and hold: "threads_hold R s ts" and d: "distinct (us @ zs)" and sub: "set (us @ zs) \<subseteq> set ts"
  shows "\<exists>Z Q. heap_inv L M h (Z @ Q) \<and> zombie_blocks s zs Z \<and> threads_hold Q s us \<and>
     (\<forall>r \<in> set R. fst r \<notin> set (concat (map (thread_blocks s) zs)) \<longrightarrow> r \<in> set Q)"
proof -
  let ?b = "\<lambda>ts. concat (map (thread_blocks s) ts)"
  have "\<forall>a \<in> set (?b ts). \<exists>l. (a, l) \<in> set R" using threads_hold_owned [OF hold] by (auto simp: owned_def)
  then obtain len where len: "\<And>a. a \<in> set (?b ts) \<Longrightarrow> (a, len a) \<in> set R" by metis
  define Z where "Z = map (\<lambda>a. (a, len a)) (?b zs)"
  define Q where "Q = filter (\<lambda>r. r \<notin> set Z) R"
  have hz: "threads_hold R s (us @ zs)" using threads_hold_sub [OF hold sub d] .
  have db: "distinct (?b (us @ zs))" using hz by (simp add: threads_hold_def)
  have ZR: "set Z \<subseteq> set R" using len sub by (auto simp: Z_def)
  have "distinct Z" using db by (auto simp: Z_def distinct_map inj_on_def)
  then have "distinct (Z @ Q)" using heap_inv_distinct [OF inv] by (auto simp: Q_def)
  then have "heap_inv L M h (Z @ Q)" using heap_inv_sub [OF inv] ZR by (auto simp: Q_def)
  moreover have "zombie_blocks s zs Z" by (simp add: zombie_blocks_def Z_def thread_blocks_def [abs_def] comp_def)
  moreover have *: "has_block Q a n" if "has_block R a n" "a \<in> set (?b us)" for a n
    using that db unfolding has_block_def Q_def Z_def by fastforce
  have "has_block Q (kernel_stack (threads s t)) 4096 \<and> has_block Q (user_stack (threads s t)) 4096 \<and> has_block Q t 576"
    if t: "t \<in> set us" for t
  proof -
    have "a \<in> set (?b us)" if "a \<in> set (thread_blocks s t)" for a using t that by auto
    then show ?thesis using hz t * unfolding threads_hold_def by (simp add: thread_blocks_def)
  qed
  then have "threads_hold Q s us" using db by (simp add: threads_hold_def)
  moreover have "\<forall>r \<in> set R. fst r \<notin> set (?b zs) \<longrightarrow> r \<in> set Q" by (auto simp: Q_def Z_def)
  ultimately show ?thesis by blast
qed

lemma reap_keeps:
  assumes inv: "sched_inv s rs ws zs" and heap: "heap_inv L M (fs_heap (k_fs s)) R" and hold: "threads_hold R s (live s rs ws zs)"
  shows "\<exists>s' Q. kill_zombies L s = Some s' \<and> sched_inv s' rs ws [] \<and> heap_inv L M (fs_heap (k_fs s')) Q \<and>
     threads_hold Q s' (live s' rs ws []) \<and> (\<exists>h. k_fs s' = (k_fs s)\<lparr>fs_heap := h\<rparr>) \<and> threads s' = threads s \<and> get_current s' = get_current s \<and>
     (\<forall>r \<in> set R. fst r \<notin> set (concat (map (thread_blocks s) zs)) \<longrightarrow> r \<in> set Q)"
proof -
  have l: "live s rs ws zs = live s rs ws [] @ zs" by (simp add: live_def)
  obtain Z Q where zq: "heap_inv L M (fs_heap (k_fs s)) (Z @ Q)" "zombie_blocks s zs Z" "threads_hold Q s (live s rs ws [])"
    "\<forall>r \<in> set R. fst r \<notin> set (concat (map (thread_blocks s) zs)) \<longrightarrow> r \<in> set Q"
    using zombie_regions [OF heap hold, of "live s rs ws []" zs] live_distinct [OF inv] unfolding l by auto
  have q: "queues_ok s rs ws zs" using inv by (simp add: sched_inv_def)
  obtain s' where s': "kill_zombies L s = Some s'" "queues_ok s' rs ws []" "heap_inv L M (fs_heap (k_fs s')) Q"
    "get_current s' = get_current s" "threads s' = threads s" using kill_zombies_ok [OF q zq(2,1)] by (auto simp: get_current_def)
  have "sched_inv s' rs ws []" using inv s'(2,4,5) by (simp add: sched_inv_def)
  moreover have "threads_hold Q s' (live s' rs ws [])"
  proof -
    have "live s' rs ws [] = live s rs ws []" using s'(4) by (simp add: live_def)
    then show ?thesis using threads_hold_cong [OF zq(3), of s'] s'(5) by simp
  qed
  ultimately show ?thesis using s' zq(4) kill_zombies_fs [OF s'(1)] by blast
qed

subsection \<open>The invariant\<close>

text \<open>The queues in order, and every thread there is with its blocks.\<close>

definition threads_inv :: "layout \<Rightarrow> nat set \<Rightarrow> addr \<Rightarrow> kern \<Rightarrow> addr list \<Rightarrow> addr list \<Rightarrow> addr list \<Rightarrow> region list \<Rightarrow> bool" where
  "threads_inv L M v s rs ws zs R \<longleftrightarrow> sched_inv s rs ws zs \<and> heap_inv L M (fs_heap (k_fs s)) R \<and>
     threads_hold R s (live s rs ws zs) \<and> console_at (k_fs s) v"

lemma threads_inv_upd:
  assumes inv: "threads_inv L M v s rs ws zs R" and heap: "heap_inv L M (fs_heap (k_fs s')) Q" "set R \<subseteq> set Q"
    and tree: "same_tree (k_fs s) (k_fs s')" and cur: "get_current s' = get_current s"
    and qs: "ready_queue s' = ready_queue s" "wait_queue s' = wait_queue s" "zombie_queue s' = zombie_queue s"
    and th: "\<And>x. x \<in> set (live s rs ws zs) \<Longrightarrow> threads s' x = threads s x"
  shows "threads_inv L M v s' rs ws zs Q"
proof -
  have i: "sched_inv s rs ws zs" "threads_hold R s (live s rs ws zs)" "console_at (k_fs s) v" using inv by (simp_all add: threads_inv_def)
  have th': "threads s' x = threads s x" if "x \<in> set (rs @ ws @ zs)" for x by (rule th) (use that in \<open>auto simp: live_set\<close>)
  have "threads s' (get_current s) = threads s (get_current s)" by (rule th) (simp add: live_set)
  moreover have "queues_ok s' rs ws zs"
    using i(1) th' qs unfolding sched_inv_def queues_ok_def by (auto intro!: tq_cong [where th = "threads s"])
  ultimately have "sched_inv s' rs ws zs" using i(1) cur by (simp add: sched_inv_def)
  moreover have "live s' rs ws zs = live s rs ws zs" using cur by (simp add: live_def)
  moreover have "threads_hold R s' (live s rs ws zs)" by (rule threads_hold_cong [OF i(2)]) (use th in auto)
  then have "threads_hold Q s' (live s rs ws zs)" using has_block_mono [OF _ heap(2)] by (auto simp: threads_hold_def)
  ultimately show ?thesis using heap(1) console_tree [OF tree i(3)] by (simp add: threads_inv_def)
qed

lemma threads_inv_sub:
  assumes "threads_inv L M v s rs ws zs R" "sched_inv s' rs' ws' zs'" "same_threads s s'" "set (live s' rs' ws' zs') \<subseteq> set (live s rs ws zs)"
  shows "threads_inv L M v s' rs' ws' zs' R"
proof -
  have t: "same_tree (k_fs s) (k_fs s')" "fs_heap (k_fs s') = fs_heap (k_fs s)"
    using assms(3) by (auto simp: same_threads_def same_tree_def)
  have "threads_hold R s (live s' rs' ws' zs')"
    using threads_hold_sub [OF _ assms(4) live_distinct [OF assms(2)]] assms(1) by (simp add: threads_inv_def)
  then have "threads_hold R s' (live s' rs' ws' zs')" using threads_hold_same assms(3) by blast
  then show ?thesis using assms(1,2) t console_tree [OF t(1)] by (simp add: threads_inv_def)
qed

lemma create_keeps:
  assumes inv: "threads_inv L M v s rs ws zs R" and left: "pages_left (h_mm (fs_heap (k_fs s))) 13"
  shows "\<exists>t s' Q. thread_create L hdl kh cb s = Some (t, s') \<and> t \<noteq> NULL \<and> t \<notin> set (live s rs ws zs) \<and>
     threads_inv L M v s' (rs @ [t]) ws zs Q \<and> set R \<subseteq> set Q \<and> new_thread hdl kh cb v s t s' \<and> files_kept R (k_fs s) (k_fs s')"
proof -
  have i: "sched_inv s rs ws zs" "heap_inv L M (fs_heap (k_fs s)) R" "threads_hold R s (live s rs ws zs)" "console_at (k_fs s) v"
    using inv by (simp_all add: threads_inv_def)
  have q: "queues_ok s rs ws zs" using i(1) by (simp add: sched_inv_def)
  have l: "pages_left (h_mm (fs_heap (k_fs s))) (0 + 13)" using left by simp
  have "set (rs @ ws @ zs) \<subseteq> set (live s rs ws zs)" by (auto simp: live_set)
  from thread_create_ok [OF q i(2) l i(4,3) this] obtain t s' Q where
    c: "thread_create L hdl kh cb s = Some (t, s')" "t \<noteq> NULL" "t \<notin> set (live s rs ws zs)" "queues_ok s' (rs @ [t]) ws zs"
      "heap_inv L M (fs_heap (k_fs s')) Q" "set R \<subseteq> set Q" "threads_hold Q s' (live s rs ws zs @ [t])" "new_thread hdl kh cb v s t s'" "files_kept R (k_fs s) (k_fs s')"
    by blast
  have cur: "get_current s' = get_current s" "get_current s \<noteq> t" and tree: "same_tree (k_fs s) (k_fs s')"
    using c(3,8) by (simp_all add: new_thread_def live_set)
  have "threads s' (get_current s) = (threads s (get_current s))\<lparr>th_next := th_next (threads s' (get_current s))\<rparr>"
    using c(8) cur(2) unfolding new_thread_def by blast
  then obtain nx where "threads s' (get_current s) = (threads s (get_current s))\<lparr>th_next := nx\<rparr>" by blast
  then have "th_state (threads s' (get_current s)) = th_state (threads s (get_current s))" by simp
  then have s': "sched_inv s' (rs @ [t]) ws zs" using i(1) c(4) cur by (simp add: sched_inv_def)
  have "set (live s' (rs @ [t]) ws zs) \<subseteq> set (live s rs ws zs @ [t])" unfolding set_append live_set cur(1) by auto
  from threads_hold_sub [OF c(7) this live_distinct [OF s']] have "threads_hold Q s' (live s' (rs @ [t]) ws zs)" .
  then show ?thesis using c(1-3,5,6,8,9) s' console_tree [OF tree i(4)] by (auto simp: threads_inv_def)
qed

text \<open>The new thread becomes current while it is on the ready queue; the one that ran is on no queue then, and lost.\<close>

lemma start_keeps:
  assumes inv: "threads_inv L M v s rs ws zs R" and left: "pages_left (h_mm (fs_heap (k_fs s))) 13"
  shows "\<exists>t s' Q. thread_create L hdl kh cb s = Some (t, s') \<and> threads_inv L M v (set_current t s') (rs @ [t]) ws zs Q"
proof -
  obtain t s' Q where c: "thread_create L hdl kh cb s = Some (t, s')" "t \<noteq> NULL" "t \<notin> set (live s rs ws zs)"
    "threads_inv L M v s' (rs @ [t]) ws zs Q" using create_keeps [OF assms] by blast
  let ?s = "set_current t s'"
  have "get_current ?s = t" "same_tree (k_fs s') (k_fs ?s)" by (simp_all add: get_current_def set_current_def same_tree_def)
  moreover have "sched_inv ?s (rs @ [t]) ws zs"
    using c(2-4) by (auto simp: threads_inv_def sched_inv_def queues_ok_def set_current_def get_current_def live_set)
  moreover have "threads_hold Q ?s (live ?s (rs @ [t]) ws zs)"
  proof -
    have "set (live ?s (rs @ [t]) ws zs) \<subseteq> set (live s' (rs @ [t]) ws zs)" unfolding live_set by (auto simp: get_current_def set_current_def)
    from threads_hold_sub [OF _ this live_distinct] have "threads_hold Q s' (live ?s (rs @ [t]) ws zs)"
      using c(4) \<open>sched_inv ?s (rs @ [t]) ws zs\<close> by (auto simp: threads_inv_def)
    then show ?thesis by (rule threads_hold_cong) (simp add: set_current_def)
  qed
  ultimately have "threads_inv L M v ?s (rs @ [t]) ws zs Q"
    using c(4) console_tree [of "k_fs s'" "k_fs ?s" v] by (simp add: threads_inv_def) (simp add: set_current_def)
  then show ?thesis using c(1) by blast
qed

lemma fs_alloc_any:
  assumes "heap_inv L M (fs_heap f) R"
  shows "\<exists>p h. fs_alloc n f = Some (p, f\<lparr>fs_heap := h\<rparr>) \<and> (p = NULL \<longrightarrow> heap_inv L M h R) \<and>
     (p \<noteq> NULL \<longrightarrow> (\<exists>l \<ge> unat n. heap_inv L M h ((p, l) # R)))"
  using heap_inv_alloc [OF assms, of n] by (auto simp: fs_alloc_def)

lemma request_keeps:
  assumes inv: "threads_inv L M v s rs ws zs R" and a: "fs_alloc n (k_fs s) = Some (p, f)"
  shows "\<exists>Q. threads_inv L M v (s\<lparr>k_fs := f\<rparr>) rs ws zs Q"
proof -
  have "heap_inv L M (fs_heap (k_fs s)) R" using inv by (simp add: threads_inv_def)
  from fs_alloc_any [OF this, of n] a obtain h where h: "f = (k_fs s)\<lparr>fs_heap := h\<rparr>" 
    "(p = NULL \<longrightarrow> heap_inv L M h R) \<and> (p \<noteq> NULL \<longrightarrow> (\<exists>l \<ge> unat n. heap_inv L M h ((p, l) # R)))" by auto
  obtain Q where "heap_inv L M h Q" "set R \<subseteq> set Q"
  proof (cases "p = NULL")
    case True
    then show ?thesis using h(2) that [of R] by auto
  next
    case False
    then obtain l where "heap_inv L M h ((p, l) # R)" using h(2) by blast
    then show ?thesis using that [of "(p, l) # R"] by auto
  qed
  then show ?thesis using threads_inv_upd [OF inv, of "s\<lparr>k_fs := f\<rparr>" Q] h(1) by (auto simp: same_tree_def get_current_def)
qed

text \<open>An allocation, and the block given back.\<close>

lemma take_block:
  assumes inv: "heap_inv L M (fs_heap f) R" and n: "0 < n"
  obtains (none) h where "fs_alloc n f = Some (NULL, f\<lparr>fs_heap := h\<rparr>)" "heap_inv L M h R"
  | (block) p l h where "fs_alloc n f = Some (p, f\<lparr>fs_heap := h\<rparr>)" "p \<noteq> NULL" "unat n \<le> l" "heap_inv L M h ((p, l) # R)"
      "\<And>a. owned R a \<Longrightarrow> a \<noteq> p"
proof -
  obtain p h where a: "fs_alloc n f = Some (p, f\<lparr>fs_heap := h\<rparr>)" "p = NULL \<Longrightarrow> heap_inv L M h R"
    "p \<noteq> NULL \<Longrightarrow> \<exists>l \<ge> unat n. heap_inv L M h ((p, l) # R)" using fs_alloc_any [OF inv, of n] by blast
  show thesis
  proof (cases "p = NULL")
    case True
    then show thesis using none a(1,2) by simp
  next
    case False
    then obtain l where l: "unat n \<le> l" "heap_inv L M h ((p, l) # R)" using a(3) by blast
    have "0 < l" using l(1) n by (simp add: word_less_nat_alt)
    then show thesis using block [OF a(1) False l] fresh_block [OF l(2)] by blast
  qed
qed

lemma give_back:
  assumes "heap_inv L M (fs_heap f) ((p, l) # R)"
  obtains h where "fs_free L p f = Some (f\<lparr>fs_heap := h\<rparr>)" "heap_inv L M h R"
proof -
  obtain g where g: "fs_free L p f = Some g" "heap_inv L M (fs_heap g) R" using fs_free_head [OF assms] by auto
  then show thesis using fs_free_heap [OF g(1)] that by auto
qed

text \<open>A new thread with its blocks joins the ready queue.\<close>

lemma threads_hold_record: "threads_hold R s ts \<Longrightarrow> t \<in> set ts \<Longrightarrow> owned R t"
  by (auto simp: threads_hold_def intro: has_block_owned [of R t 576])

lemma joins:
  assumes inv: "threads_inv L M v s rs ws zs R" and inv2: "threads_inv L M v s2 rs ws zs Q"
    and cur: "get_current s2 = get_current s" and th: "\<And>x. x \<in> set (live s rs ws zs) \<Longrightarrow> threads s2 x = threads s x"
    and c: "c \<noteq> NULL" "c \<notin> set (live s rs ws zs)" "th_state (threads s2 c) = TASK_READY"
    and b: "distinct (thread_blocks s2 c)" "\<And>a. owned R a \<Longrightarrow> a \<notin> set (thread_blocks s2 c)"
      "has_block Q (kernel_stack (threads s2 c)) 4096" "has_block Q (user_stack (threads s2 c)) 4096" "has_block Q c 576"
  shows "\<exists>s'. add_ready c s2 = Some s' \<and> threads_inv L M v s' (rs @ [c]) ws zs Q \<and> kept s2 s'"
proof -
  have i: "sched_inv s2 rs ws zs" "heap_inv L M (fs_heap (k_fs s2)) Q" "threads_hold Q s2 (live s2 rs ws zs)" "console_at (k_fs s2) v"
    using inv2 by (simp_all add: threads_inv_def)
  have h: "threads_hold R s (live s rs ws zs)" and l: "live s2 rs ws zs = live s rs ws zs" using inv cur by (simp_all add: threads_inv_def live_def)
  have n: "c \<notin> set (rs @ ws @ zs)" using c(2) by (auto simp: live_set)
  have "queues_ok s2 rs ws zs" using i(1) by (simp add: sched_inv_def)
  from add_ready_queues [OF this n c(1,3)] obtain s' where s': "add_ready c s2 = Some s'" "queues_ok s' (rs @ [c]) ws zs" "kept s2 s'" by blast
  have k: "k_fs s' = k_fs s2" "relinked UNIV (threads s2) (threads s')" "get_current s' = get_current s2"
    using s'(3) kept_current by (auto simp: kept_def)
  have "get_current s2 \<noteq> c" using c(2) cur by (auto simp: live_set)
  then have inv': "sched_inv s' (rs @ [c]) ws zs" using i(1) s'(2) k(3) relinked_sel(1) [OF k(2)] by (simp add: sched_inv_def)
  have "map (thread_blocks s2) (live s rs ws zs) = map (thread_blocks s) (live s rs ws zs)" using th by (auto simp: thread_blocks_def)
  then have "set (thread_blocks s2 c) \<inter> set (concat (map (thread_blocks s2) (live s2 rs ws zs))) = {}"
    unfolding l using b(2) threads_hold_owned [OF h] by (metis disjoint_iff)
  from threads_hold_snoc [OF i(3) subset_refl b(1) this b(3-5)] have "threads_hold Q s2 (live s2 rs ws zs @ [c])" .
  moreover have "set (live s' (rs @ [c]) ws zs) \<subseteq> set (live s2 rs ws zs @ [c])" unfolding set_append live_set k(3) by auto
  ultimately have "threads_hold Q s2 (live s' (rs @ [c]) ws zs)" using threads_hold_sub live_distinct [OF inv'] by blast
  then have "threads_hold Q s' (live s' (rs @ [c]) ws zs)" by (rule threads_hold_cong) (simp add: relinked_sel(3,4) [OF k(2)])
  then show ?thesis using s'(1,3) inv' i(2,4) k(1) by (auto simp: threads_inv_def)
qed

text \<open>
  \<open>fork\<close>: without memory the parent goes on as it was; otherwise the child, a copy, is last in the ready queue.
\<close>

lemma fork_keeps:
  assumes inv: "threads_inv L M v (s_kern x) rs ws zs R" and E: "e_layout E = L"
  shows "\<exists>y rs' Q. sys_fork E sp e x = Some y \<and> threads_inv L M v (s_kern y) rs' ws zs Q"
proof -
  let ?k = "s_kern x" and ?p = "cur_thread x"
  let ?f = "k_fs ?k" and ?pt = "threads ?k ?p"
  have i: "sched_inv ?k rs ws zs" "heap_inv L M (fs_heap ?f) R" "threads_hold R ?k (live ?k rs ws zs)" "?p \<noteq> NULL"
    using inv by (simp_all add: threads_inv_def sched_inv_def cur_thread_def)
  have fr: "k_fs (s_kern (put_fs g y)) = g" "s_kern (ret t w y) = s_kern y" "fs_heap (put_mem m g) = fs_heap g" "same_tree g (put_mem m g)"
    "current (put_mem m g) = current g" for g y t w m by (simp_all add: put_fs_def ret_def put_mem_def same_tree_def)
  have lost: "\<exists>y rs' Q. sys_fork E sp e x = Some y \<and> threads_inv L M v (s_kern y) rs' ws zs Q"
    if "sys_fork E sp e x = Some (ret ?p w (x\<lparr>s_kern := ?k\<lparr>threads := th, thread_cnt := n, k_fs := ?f\<lparr>fs_heap := h\<rparr>\<rparr>\<rparr>))"
      "heap_inv L M h R" "\<And>t. t \<in> set (live ?k rs ws zs) \<Longrightarrow> th t = threads ?k t" for w h th n
  proof -
    have "threads_inv L M v (?k\<lparr>threads := th, thread_cnt := n, k_fs := ?f\<lparr>fs_heap := h\<rparr>\<rparr>) rs ws zs R"
      by (rule threads_inv_upd [OF inv]) (use that(2,3) in \<open>auto simp: same_tree_def get_current_def\<close>)
    then show ?thesis using that(1) by (auto simp: fr)
  qed
  have T: "0 < THREAD_SIZE" "0 < THREAD_STACK_SIZE" "unat THREAD_SIZE = 576" "unat THREAD_STACK_SIZE = 4096"
    by (simp_all add: THREAD_SIZE_def THREAD_STACK_SIZE_def)
  from i(2) T(1) show ?thesis
  proof (cases rule: take_block)
    case (none h)
    have "sys_fork E sp e x = Some (ret ?p (reg_of (- 1)) (put_fs (?f\<lparr>fs_heap := h\<rparr>) x))"
      using i(4) none(1) by (simp add: sys_fork_def Let_def)
    moreover have "threads_inv L M v (s_kern (ret ?p (reg_of (- 1)) (put_fs (?f\<lparr>fs_heap := h\<rparr>) x))) rs ws zs R"
      by (rule threads_inv_upd [OF inv]) (use none(2) in \<open>auto simp: fr put_fs_def same_tree_def get_current_def\<close>)
    ultimately show ?thesis by blast
  next
    case c: (block c lc h1)
    have cl: "c \<notin> set (live ?k rs ws zs)" using c(5) threads_hold_record [OF i(3)] by blast
    have h1: "heap_inv L M (fs_heap (?f\<lparr>fs_heap := h1\<rparr>)) ((c, lc) # R)" using c(4) by simp
    let ?th1 = "upd_thread c (\<lambda>t. t\<lparr>th_id := thread_cnt ?k, th_state := TASK_READY,
                     th_counter := th_counter ?pt, th_priority := th_priority ?pt, preempt_count := preempt_count ?pt\<rparr>) (threads ?k)"
    have th1: "?th1 t = threads ?k t" if "t \<in> set (live ?k rs ws zs)" for t using that cl by auto
    from h1 T(2) show ?thesis
    proof (cases rule: take_block)
      case (none h2)
      then have "heap_inv L M (fs_heap (?f\<lparr>fs_heap := h2\<rparr>)) ((c, lc) # R)" by simp
      then obtain h where h: "fs_free L c (?f\<lparr>fs_heap := h2\<rparr>) = Some (?f\<lparr>fs_heap := h\<rparr>)" "heap_inv L M h R" by (rule give_back) simp
      have "sys_fork E sp e x = Some (ret ?p (reg_of (- 1)) (x\<lparr>s_kern := ?k\<lparr>threads := ?th1, thread_cnt := thread_cnt ?k + 1, k_fs := ?f\<lparr>fs_heap := h\<rparr>\<rparr>\<rparr>))"
        using i(4) c(1,2) none(1) h(1) E by (simp add: sys_fork_def Let_def)
      from lost [OF this h(2)] th1 show ?thesis by blast
    next
      case ks: (block ks lk h2)
      have h2: "heap_inv L M (fs_heap (?f\<lparr>fs_heap := h2\<rparr>)) ((ks, lk) # (c, lc) # R)" using ks(4) by simp
      from h2 T(2) show ?thesis
      proof (cases rule: take_block)
        case (none h3)
        then have "heap_inv L M (fs_heap (?f\<lparr>fs_heap := h3\<rparr>)) ((ks, lk) # (c, lc) # R)" by simp
        then obtain g where g: "fs_free L ks (?f\<lparr>fs_heap := h3\<rparr>) = Some (?f\<lparr>fs_heap := g\<rparr>)" "heap_inv L M g ((c, lc) # R)" by (rule give_back) simp
        then have "heap_inv L M (fs_heap (?f\<lparr>fs_heap := g\<rparr>)) ((c, lc) # R)" by simp
        then obtain h where h: "fs_free L c (?f\<lparr>fs_heap := g\<rparr>) = Some (?f\<lparr>fs_heap := h\<rparr>)" "heap_inv L M h R" by (rule give_back) simp
        have "sys_fork E sp e x = Some (ret ?p (reg_of (- 1)) (x\<lparr>s_kern := ?k\<lparr>threads := ?th1, thread_cnt := thread_cnt ?k + 1, k_fs := ?f\<lparr>fs_heap := h\<rparr>\<rparr>\<rparr>))"
          using i(4) c(1,2) ks(1,2) none(1) g(1) h(1) E by (simp add: sys_fork_def Let_def)
        from lost [OF this h(2)] th1 show ?thesis by blast
      next
        case us: (block us lu h3)
        let ?Q = "(us, lu) # (ks, lk) # (c, lc) # R"
        let ?f4 = "put_mem (memcpy ks (kernel_stack ?pt) THREAD_STACK_SIZE
            (memcpy us (user_stack ?pt) THREAD_STACK_SIZE (fs_mem (?f\<lparr>fs_heap := h3\<rparr>)))) (?f\<lparr>fs_heap := h3\<rparr>)"
        let ?th2 = "upd_thread c (\<lambda>t. t\<lparr>kernel_stack := ks, user_stack := us, pending_sig := pending_sig ?pt,
            sig_handlers := \<lambda>i. if i < SIG_NUM then sig_handlers ?pt i else sig_handlers t i, th_next := None,
            cpu_ctx := (cpu_ctx ?pt)\<lparr>sp_reg := of_nat ks + (sp - of_nat (kernel_stack ?pt)), lr_reg := of_nat e\<rparr>\<rparr>) ?th1"
        let ?k2 = "?k\<lparr>thread_cnt := thread_cnt ?k + 1, k_fs := ?f4, threads := ?th2\<rparr>"
        have th: "threads ?k2 t = threads ?k t" if "t \<in> set (live ?k rs ws zs)" for t using that cl by auto
        have inv2: "threads_inv L M v ?k2 rs ws zs ?Q"
          by (rule threads_inv_upd [OF inv]) (use us(4) th in \<open>auto simp: fr same_tree_def get_current_def put_mem_def\<close>)
        have "owned ((ks, lk) # (c, lc) # R) ks" "owned ((ks, lk) # (c, lc) # R) c" "owned ((c, lc) # R) c" using c(3) ks(3) T by simp_all
        then have d: "ks \<noteq> us" "ks \<noteq> c" "us \<noteq> c" using us(5) ks(5) by blast+
        have "\<exists>s'. add_ready c ?k2 = Some s' \<and> threads_inv L M v s' (rs @ [c]) ws zs ?Q \<and> kept ?k2 s'"
        proof (rule joins [OF inv inv2 _ th c(2) cl])
          show "get_current ?k2 = get_current ?k" by (simp add: get_current_def fr)
          show "a \<notin> set (thread_blocks ?k2 c)" if "owned R a" for a
            using c(5) ks(5) us(5) that by (auto simp: thread_blocks_def)
        qed (use d T c(3) ks(3) us(3) in \<open>auto simp: thread_blocks_def has_block_def\<close>)
        then obtain s' where s': "add_ready c ?k2 = Some s'" "threads_inv L M v s' (rs @ [c]) ws zs ?Q" by blast
        have "\<exists>w fr'. sys_fork E sp e x = Some (ret ?p w (x\<lparr>s_kern := s', frames := fr'\<rparr>))"
          using i(4) c(1,2) ks(1,2) us(1,2) s'(1) E by (simp add: sys_fork_def Let_def) blast
        then obtain w fr' where y: "sys_fork E sp e x = Some (ret ?p w (x\<lparr>s_kern := s', frames := fr'\<rparr>))" by blast
        have "s_kern (ret ?p w (x\<lparr>s_kern := s', frames := fr'\<rparr>)) = s'" by (simp add: fr)
        then show ?thesis using y s'(2) by metis
      qed
    qed
  qed
qed

subsection \<open>The steps\<close>

text \<open>
  What threads do in the kernel: give way, exit, kill, fork, be created and started (while the heap has the pages a thread takes);
  \<open>idle\<close> burying the dead; and in between the running thread changes registers and memory and asks for blocks.
  \<open>start\<close> is how \<open>create_shell_thread\<close> and \<open>_exec\<close> go on: the new thread is made the current one at once.
\<close>

inductive kstep :: "layout \<Rightarrow> kern \<Rightarrow> kern \<Rightarrow> bool" for L where
  yield: "schedule s = Some s' \<Longrightarrow> kstep L s s'"
| leave: "exit_thread s = Some s' \<Longrightarrow> kstep L s s'"
| kill: "kill_thread pid s = Some (r, s') \<Longrightarrow> kstep L s s'"
| reap: "kill_zombies L s = Some s' \<Longrightarrow> kstep L s s'"
| fork: "sys_fork E sp e x = Some y \<Longrightarrow> e_layout E = L \<Longrightarrow> kstep L (s_kern x) (s_kern y)"
| create: "pages_left (h_mm (fs_heap (k_fs s))) 13 \<Longrightarrow> thread_create L hdl kh cb s = Some (t, s') \<Longrightarrow> kstep L s s'"
| start: "pages_left (h_mm (fs_heap (k_fs s))) 13 \<Longrightarrow> thread_create L hdl kh cb s = Some (t, s') \<Longrightarrow> kstep L s (set_current t s')"
| compute: "kstep L s (s\<lparr>cpu := c\<rparr>)"
| memory: "kstep L s (s\<lparr>k_fs := put_mem m (k_fs s)\<rparr>)"
| request: "fs_alloc n (k_fs s) = Some (p, f) \<Longrightarrow> kstep L s (s\<lparr>k_fs := f\<rparr>)"

inductive reachable :: "layout \<Rightarrow> kern \<Rightarrow> kern \<Rightarrow> bool" for L s where
  here: "reachable L s s"
| there: "reachable L s s' \<Longrightarrow> kstep L s' s'' \<Longrightarrow> reachable L s s''"

lemma memory_keeps: "threads_inv L M v s rs ws zs R \<Longrightarrow> threads_inv L M v (s\<lparr>k_fs := put_mem m (k_fs s)\<rparr>) rs ws zs R"
  by (rule threads_inv_upd) (auto simp: put_mem_def same_tree_def get_current_def threads_inv_def)

lemma compute_keeps: "threads_inv L M v s rs ws zs R \<Longrightarrow> threads_inv L M v (s\<lparr>cpu := c\<rparr>) rs ws zs R"
  by (rule threads_inv_upd) (auto simp: same_tree_def get_current_def threads_inv_def)

lemma kstep_keeps:
  assumes "kstep L s s'" "threads_inv L M v s rs ws zs R"
  shows "\<exists>rs' ws' zs' R'. threads_inv L M v s' rs' ws' zs' R'"
  using assms
proof (induction rule: kstep.induct)
  have sub: "\<exists>rs' ws' zs' R'. threads_inv L M v s' rs' ws' zs' R'"
    if "threads_inv L M v s rs ws zs R" "\<exists>rs' ws' zs'. sched_inv s' rs' ws' zs' \<and> same_threads s s' \<and> set (live s' rs' ws' zs') \<subseteq> set (live s rs ws zs)"
    for s s' using threads_inv_sub that by blast
  {
    case (yield s s')
    then show ?case using sub [of s s'] schedule_keeps [of s rs ws zs] by (auto simp: threads_inv_def)
  next
    case (leave s s')
    then show ?case using sub [of s s'] exit_keeps [of s rs ws zs] by (auto simp: threads_inv_def)
  next
    case (kill pid s r s')
    then show ?case using sub [of s s'] kill_keeps [of s rs ws zs pid] by (auto simp: threads_inv_def)
  next
    case (reap s s')
    then obtain s2 h Q where "s' = s2" "sched_inv s2 rs ws []" "heap_inv L M (fs_heap (k_fs s2)) Q" "threads_hold Q s2 (live s2 rs ws [])"
      "k_fs s2 = (k_fs s)\<lparr>fs_heap := h\<rparr>" using reap_keeps [of s rs ws zs L M R] by (auto simp: threads_inv_def)
    moreover from this(5) have "same_tree (k_fs s) (k_fs s2)" by (simp add: same_tree_def)
    ultimately show ?case using reap(2) console_tree unfolding threads_inv_def by blast
  next
    case (fork E sp e x y)
    then show ?case using fork_keeps [of L M v x rs ws zs R E sp e] by auto
  next
    case (create s hdl kh cb t s')
    then show ?case using create_keeps [of L M v s rs ws zs R hdl kh cb] by auto
  next
    case (start s hdl kh cb t s')
    then show ?case using start_keeps [of L M v s rs ws zs R hdl kh cb] by auto
  next
    case (compute s c)
    then show ?case using compute_keeps by blast
  next
    case (memory s m)
    then show ?case using memory_keeps by blast
  next
    case (request n s p f)
    then show ?case using request_keeps by blast
  }
qed

lemma reachable_inv:
  assumes "reachable L s s'" "threads_inv L M v s rs ws zs R"
  shows "\<exists>rs' ws' zs' R'. threads_inv L M v s' rs' ws' zs' R'"
  using assms by (induction rule: reachable.induct) (use kstep_keeps in blast)+

end
