(* ===== verification/Kmain.thy ===== *)
theory Kmain
  imports Threads Signals
begin

section \<open>The first threads (src/main.c)\<close>

text \<open>
  \<open>create_shell_thread\<close> makes the thread of the shell, takes it for the current one and enters it in user mode: the program counter and
  the stack pointer are returned with the kernel's state. The pointer -1 of a failed \<open>thread_create\<close> is followed. The thread stays on the
  ready queue, marked ready, and the thread that called is on no queue: \<open>idle_task\<close>, the one \<open>sched_init\<close> has set, is lost with it.
\<close>

definition create_shell_thread :: "layout \<Rightarrow> addr \<Rightarrow> addr \<Rightarrow> addr \<Rightarrow> kern \<Rightarrow> (u64 \<times> u64 \<times> kern) option" where
  "create_shell_thread L hdl kill_hdl shell s =
     (case thread_create L hdl kill_hdl shell s of
        None \<Rightarrow> None
      | Some (t, s1) \<Rightarrow>
          if t = NEG1_PTR then None
          else Some (lr_reg (cpu_ctx (threads s1 t)), sp_reg (cpu_ctx (threads s1 t)), set_current t s1))"

text \<open>The end of \<open>main\<close>, as far as threads are concerned.\<close>

definition start_threads :: "layout \<Rightarrow> addr \<Rightarrow> addr \<Rightarrow> addr \<Rightarrow> addr \<Rightarrow> kern \<Rightarrow> (u64 \<times> u64 \<times> kern) option" where
  "start_threads L hdl kill_hdl idle shell s =
     (case sched_init L hdl kill_hdl idle s of None \<Rightarrow> None | Some s1 \<Rightarrow> create_shell_thread L hdl kill_hdl shell s1)"

lemma queues_empty: "queues_ok (s\<lparr>ready_queue := None, wait_queue := None, zombie_queue := None, thread_cnt := n, k_fs := f\<rparr>) [] [] []"
  by (simp add: queues_ok_def tq_def)

lemma threads_hold_Nil [simp]: "threads_hold R s []"
  by (simp add: threads_hold_def)

text \<open>\<open>sched_init\<close>: the idle thread is ready; the record \<open>i\<close> that is current has neither stacks nor a place in a queue.\<close>

lemma sched_init_ok:
  assumes inv: "heap_inv L M (fs_heap (k_fs s)) R" and left: "pages_left (h_mm (fs_heap (k_fs s))) (n + 14)" and c: "console_at (k_fs s) v"
  shows "\<exists>i t s' Q. sched_init L hdl kh idle s = Some s' \<and> get_current s' = i \<and> i \<noteq> NULL \<and> i \<noteq> t \<and> t \<noteq> NULL \<and>
     queues_ok s' [t] [] [] \<and> th_state (threads s' i) = TASK_RUNNING \<and> heap_inv L M (fs_heap (k_fs s')) Q \<and> threads_hold Q s' [t] \<and>
     console_at (k_fs s') v \<and> pages_left (h_mm (fs_heap (k_fs s'))) n \<and> th_id (threads s' t) = 0 \<and> thread_cnt s' = 1 \<and>
     lr_reg (cpu_ctx (threads s' t)) = of_nat idle \<and> same_tree (k_fs s) (k_fs s') \<and> fs_uart (k_fs s') = fs_uart (k_fs s) \<and> set R \<subseteq> set Q"
proof -
  have "pages_left (h_mm (fs_heap (k_fs s))) (Suc (n + 13))" using left by (simp add: eval_nat_numeral)
  from fs_alloc_left [OF inv this, of THREAD_SIZE] obtain i k h where
    a: "fs_alloc THREAD_SIZE (k_fs s) = Some (i, (k_fs s)\<lparr>fs_heap := h\<rparr>)" "i \<noteq> NULL" "0 < k" "heap_inv L M h ((i, k) # R)"
      "pages_left (h_mm h) (n + 13)" by (auto simp: THREAD_SIZE_def)
  let ?s = "s\<lparr>ready_queue := None, wait_queue := None, zombie_queue := None, thread_cnt := 0, k_fs := (k_fs s)\<lparr>fs_heap := h\<rparr>\<rparr>"
  have tr: "same_tree (k_fs s) (k_fs ?s)" by (simp add: same_tree_def)
  have p: "heap_inv L M (fs_heap (k_fs ?s)) ((i, k) # R)" "pages_left (h_mm (fs_heap (k_fs ?s))) (n + 13)" using a(4,5) by simp_all
  obtain t s1 Q where t: "thread_create L hdl kh idle ?s = Some (t, s1)" "t \<noteq> NULL" "queues_ok s1 ([] @ [t]) [] []"
    "heap_inv L M (fs_heap (k_fs s1)) Q" "set ((i, k) # R) \<subseteq> set Q" "threads_hold Q s1 ([] @ [t])"
    "pages_left (h_mm (fs_heap (k_fs s1))) n" "new_thread hdl kh idle v ?s t s1" "\<forall>a. owned ((i, k) # R) a \<longrightarrow> a \<notin> set (thread_blocks s1 t)"
    using thread_create_ok [OF queues_empty p console_tree [OF tr c], of "[]" hdl kh idle] by fastforce
  have ti: "t \<noteq> i" using t(9) a(3) by (auto simp: thread_blocks_def)
  let ?s' = "set_state i TASK_RUNNING (set_current i s1)"
  have e: "sched_init L hdl kh idle s = Some ?s'" using a(1,2) t(1) by (simp add: sched_init_def Let_def)
  have f: "get_current ?s' = i" "k_fs ?s' = (k_fs s1)\<lparr>current := i\<rparr>" "thread_cnt ?s' = thread_cnt s1" "threads ?s' t = threads s1 t"
    "th_state (threads ?s' i) = TASK_RUNNING" using ti by (simp_all add: get_current_def set_current_def set_state_def)
  have "queues_ok (set_current i s1) [t] [] []" using t(3) by (simp add: queues_ok_def set_current_def)
  then have "queues_ok ?s' [t] [] []" by (rule queues_set_state) (use ti in auto)
  moreover have "threads_hold Q ?s' [t]" using t(6) f(4) by (simp add: threads_hold_def thread_blocks_def)
  moreover have sm: "same_tree (k_fs s) (k_fs ?s')"
  proof -
    have "same_tree (k_fs ?s) (k_fs s1)" using t(8) by (simp add: new_thread_def)
    then show ?thesis unfolding f(2) using tr by (simp add: same_tree_def)
  qed
  moreover have "console_at (k_fs ?s') v" by (rule console_tree [OF sm c])
  moreover have "fs_uart (k_fs ?s') = fs_uart (k_fs s)" unfolding f(2) using t(8) by (simp add: new_thread_def)
  moreover have "set R \<subseteq> set Q" using t(5) by auto
  moreover have "th_id (threads ?s' t) = 0" "thread_cnt ?s' = 1" "lr_reg (cpu_ctx (threads ?s' t)) = of_nat idle"
    unfolding f(3,4) using t(8) by (simp_all add: new_thread_def)
  ultimately show ?thesis using e a(2) ti t(2,4,7) f(1,2,5) by (intro exI [of _ i] exI [of _ t] exI [of _ ?s'] exI [of _ Q]) simp
qed

text \<open>\<open>create_shell_thread\<close> after it: \<open>idle\<close>, ready, and the shell, which runs.\<close>

lemma shell_thread_ok:
  assumes q: "queues_ok s [i] [] []" and inv: "heap_inv L M (fs_heap (k_fs s)) R" and left: "pages_left (h_mm (fs_heap (k_fs s))) (n + 13)"
    and c: "console_at (k_fs s) v" and hold: "threads_hold R s [i]" and i: "th_id (threads s i) = 0" "lr_reg (cpu_ctx (threads s i)) = of_nat idle"
    and cnt: "thread_cnt s = 1"
  shows "\<exists>t pc sp s' Q. create_shell_thread L hdl kh shell s = Some (pc, sp, s') \<and> threads_inv L M v s' [i, t] [] [] Q \<and>
     get_current s' = t \<and> pc = of_nat shell \<and> sp = of_nat (user_stack (threads s' t)) + 4096 \<and>
     th_id (threads s' i) = 0 \<and> lr_reg (cpu_ctx (threads s' i)) = of_nat idle \<and> th_id (threads s' t) = 1 \<and>
     pages_left (h_mm (fs_heap (k_fs s'))) n \<and> same_tree (k_fs s) (k_fs s') \<and> fs_uart (k_fs s') = fs_uart (k_fs s) \<and> set R \<subseteq> set Q \<and>
     (\<forall>a. owned R a \<longrightarrow> a \<notin> set (thread_blocks s i) \<longrightarrow> a \<notin> set (thread_blocks s' i @ thread_blocks s' t)) \<and>
     pending_sig (threads s' t) = 0"
proof -
  from thread_create_ok [OF q inv left c hold, of hdl kh shell] obtain t s2 Q where
    t: "thread_create L hdl kh shell s = Some (t, s2)" "t \<noteq> NULL" "t \<noteq> i" "queues_ok s2 [i, t] [] []"
      "heap_inv L M (fs_heap (k_fs s2)) Q" "threads_hold Q s2 [i, t]" "new_thread hdl kh shell v s t s2"
      "pages_left (h_mm (fs_heap (k_fs s2))) n" "set R \<subseteq> set Q" "\<forall>a. owned R a \<longrightarrow> a \<notin> set (thread_blocks s2 t)" by auto
  obtain lt where "(t, lt) \<in> set Q" using t(6) by (auto simp: threads_hold_def has_block_def)
  from heap_inv_bound [OF t(5) this] have n: "t \<noteq> NEG1_PTR" by (simp add: PAGE_NUM_eq NEG1_PTR_def)
  let ?s = "set_current t s2"
  have f: "get_current ?s = t" "k_fs ?s = (k_fs s2)\<lparr>current := t\<rparr>" "threads ?s = threads s2"
    by (simp_all add: get_current_def set_current_def)
  have e: "create_shell_thread L hdl kh shell s = Some (lr_reg (cpu_ctx (threads s2 t)), sp_reg (cpu_ctx (threads s2 t)), ?s)"
    using t(1) n by (simp add: create_shell_thread_def)
  have "queues_ok ?s [i, t] [] []" using t(4) by (simp add: queues_ok_def set_current_def)
  then have "sched_inv ?s [i, t] [] []" using t(2) f(1) by (simp add: sched_inv_def)
  moreover have "threads_hold Q ?s (live ?s [i, t] [] [])"
    using t(6) f(1) by (simp add: live_def threads_hold_def thread_blocks_def set_current_def)
  moreover have sm: "same_tree (k_fs s) (k_fs ?s)"
  proof -
    have "same_tree (k_fs s) (k_fs s2)" using t(7) by (simp add: new_thread_def)
    then show ?thesis unfolding f(2) by (simp add: same_tree_def)
  qed
  ultimately have "threads_inv L M v ?s [i, t] [] [] Q" using t(5) f(2) console_tree [OF sm c] by (simp add: threads_inv_def)
  moreover have "threads s2 i = (threads s i)\<lparr>th_next := th_next (threads s2 i)\<rparr>"
    using t(7) not_sym [OF t(3)] unfolding new_thread_def by blast
  then obtain nx where nx: "threads s2 i = (threads s i)\<lparr>th_next := nx\<rparr>" by blast
  then have "th_id (threads ?s i) = 0" "lr_reg (cpu_ctx (threads ?s i)) = of_nat idle" using f(3) i by simp_all
  moreover have "th_id (threads ?s t) = 1" "pending_sig (threads ?s t) = 0" "lr_reg (cpu_ctx (threads s2 t)) = of_nat shell"
    "sp_reg (cpu_ctx (threads s2 t)) = of_nat (user_stack (threads ?s t)) + 4096" "fs_uart (k_fs ?s) = fs_uart (k_fs s)"
    using t(7) cnt f(2,3) by (simp_all add: new_thread_def)
  moreover have "thread_blocks ?s i = thread_blocks s i" "thread_blocks ?s t = thread_blocks s2 t" using nx f(3) by (simp_all add: thread_blocks_def)
  ultimately show ?thesis using e f(1,2) t(8-10) sm
    by (intro exI [of _ t] exI [of _ "lr_reg (cpu_ctx (threads s2 t))"] exI [of _ "sp_reg (cpu_ctx (threads s2 t))"] exI [of _ ?s] exI [of _ Q]) simp
qed

text \<open>Both.\<close>

lemma start_threads_ok:
  assumes inv: "heap_inv L M (fs_heap (k_fs s)) R" and left: "pages_left (h_mm (fs_heap (k_fs s))) (n + 27)" and c: "console_at (k_fs s) v"
  shows "\<exists>i t pc sp s' Q. start_threads L hdl kh idle shell s = Some (pc, sp, s') \<and> threads_inv L M v s' [i, t] [] [] Q \<and>
     get_current s' = t \<and> pc = of_nat shell \<and> sp = of_nat (user_stack (threads s' t)) + 4096 \<and>
     th_id (threads s' i) = 0 \<and> lr_reg (cpu_ctx (threads s' i)) = of_nat idle \<and> th_id (threads s' t) = 1 \<and> pages_left (h_mm (fs_heap (k_fs s'))) n"
proof -
  have "pages_left (h_mm (fs_heap (k_fs s))) (n + 13 + 14)" using left by (simp add: eval_nat_numeral)
  from sched_init_ok [OF inv this c, of hdl kh idle] obtain i s1 Q1 where
    s1: "sched_init L hdl kh idle s = Some s1" "queues_ok s1 [i] [] []" "heap_inv L M (fs_heap (k_fs s1)) Q1" "threads_hold Q1 s1 [i]" "console_at (k_fs s1) v"
      "pages_left (h_mm (fs_heap (k_fs s1))) (n + 13)" "th_id (threads s1 i) = 0" "thread_cnt s1 = 1" "lr_reg (cpu_ctx (threads s1 i)) = of_nat idle"
    by blast
  from shell_thread_ok [OF s1(2,3,6,5,4,7,9,8), of hdl kh shell] s1(1) show ?thesis by (fastforce simp: start_threads_def)
qed

end
