(* ===== verification/ThreadProps.thy ===== *)
theory ThreadProps
  imports Kmain Machine
begin

section \<open>Properties of threads\<close>

text \<open>
  For the witnesses: a file system with the console at \<open>/dev/uart\<close>: the vnodes 1, 2 and 3 of the root, \<open>dev\<close> and \<open>uart\<close>.
\<close>

definition console_fs :: fs where
  "console_fs = blank_fs\<lparr>fs_heap := board_heap, rootfs := 1, mounts := (mounts blank_fs)(1 := \<lparr>m_root = 1, m_fs = 0\<rparr>),
     vnodes := (\<lambda>a. (vnodes blank_fs a)\<lparr>internal := a, v_ops := TMPFS_V, f_ops := (if a = 3 then UART_F else TMPFS_F), v_mount := NULL\<rparr>),
     fsnodes := (\<lambda>a. (fsnodes blank_fs a)\<lparr>n_type := (if a = 3 then NODE_FILE else NODE_DIRECTORY),
       n_name := (if a = 2 then [0x64, 0x65, 0x76] else [0x75, 0x61, 0x72, 0x74]),
       n_children := \<lambda>_. a + 1, num_children := (if a = 3 then 0 else 1)\<rparr>)\<rparr>"

lemma console_fs_at: "console_at console_fs 3"
proof -
  have "components path_dev_uart = [[0x64, 0x65, 0x76], [0x75, 0x61, 0x72, 0x74]]"
    by (simp add: components_def path_dev_uart_def path_dev_def)
  then show ?thesis
    by (simp add: console_at_def resolve_def path_dev_uart_absolute(1) console_fs_def the_root_def blank_fs_def
        vop_lookup_def tmpfs_lookup_def enter_mount_def children_def)
qed

definition console_kern :: kern where
  "console_kern = board_kern\<lparr>k_fs := console_fs\<rparr>"

text \<open>From the heap and the file system that boot leaves, \<open>sched_init\<close> and \<open>create_shell_thread\<close> start the kernel's first two threads:
  the idle thread, number 0, waits in the ready queue, and the shell thread, number 1, is current and enters the shell's
  function on its own stack. The invariant of threads holds: every thread has its record and two stacks on the heap, all different.\<close>

theorem first_threads:
  assumes "heap_inv L M (fs_heap (k_fs s)) R" "pages_left (h_mm (fs_heap (k_fs s))) 27" "console_at (k_fs s) v"
  shows "\<exists>i t pc sp s' Q. start_threads L hdl kh idle shell s = Some (pc, sp, s') \<and> threads_inv L M v s' [i, t] [] [] Q \<and>
     get_current s' = t \<and> pc = of_nat shell \<and> sp = of_nat (user_stack (threads s' t)) + 4096 \<and>
     th_id (threads s' i) = 0 \<and> lr_reg (cpu_ctx (threads s' i)) = of_nat idle \<and> th_id (threads s' t) = 1"
  using start_threads_ok [OF assms(1) _ assms(3), of 0 hdl kh idle shell] assms(2) by auto

lemma console_kern_ok:
  "heap_inv board board_pages (fs_heap (k_fs console_kern)) []" "pages_left (h_mm (fs_heap (k_fs console_kern))) 40" "console_at (k_fs console_kern) 3"
  using board_heap_inv pages_left_mono [OF board_left, of 40] console_fs_at by (simp_all add: console_kern_def console_fs_def)

theorem first_threads_witness:
  "\<exists>i t sp s' Q. start_threads board 5 6 7 9 console_kern = Some (9, sp, s') \<and> threads_inv board board_pages 3 s' [i, t] [] [] Q \<and>
     get_current s' = t"
  using first_threads [OF console_kern_ok(1) pages_left_mono [OF console_kern_ok(2)] console_kern_ok(3), of 5 6 7 9] by fastforce

text \<open>For the other witnesses: the kernel with these two threads.\<close>

lemma two_threads:
  "\<exists>s i t R. threads_inv board board_pages 3 s [i, t] [] [] R \<and> pages_left (h_mm (fs_heap (k_fs s))) 13 \<and> get_current s = t"
proof -
  have "pages_left (h_mm (fs_heap (k_fs console_kern))) (13 + 27)" using console_kern_ok(2) by simp
  from start_threads_ok [OF console_kern_ok(1) this console_kern_ok(3), of 5 6 7 9] show ?thesis by blast
qed

text \<open>C8: \<open>thread_create\<close>, while the heap has the 13 pages it takes, gives a new thread at the end of the ready queue: with the next
  number, the state ready, its entry point and the top of its own stack in the saved registers, default signal handlers, the
  root as working directory, handles of the console as descriptors 0, 1 and 2 and no others. Of the other threads the links alone change:
  their records, working directories and file tables are as before, and so are the open files' handles in blocks held before.\<close>

theorem thread_create_spec:
  assumes "threads_inv L M v s rs ws zs R" "pages_left (h_mm (fs_heap (k_fs s))) 13"
  shows "\<exists>t s' Q. thread_create L hdl kh cb s = Some (t, s') \<and> t \<noteq> NULL \<and> t \<notin> set (live s rs ws zs) \<and>
     threads_inv L M v s' (rs @ [t]) ws zs Q \<and> set R \<subseteq> set Q \<and> new_thread hdl kh cb v s t s' \<and> files_kept R (k_fs s) (k_fs s')"
  using assms by (rule create_keeps)

theorem thread_create_spec_witness:
  "\<exists>s i t u s' Q. thread_create board 5 6 11 s = Some (u, s') \<and> threads_inv board board_pages 3 s' [i, t, u] [] [] Q \<and>
     lr_reg (cpu_ctx (threads s' u)) = 11"
proof -
  obtain s i t R where s: "threads_inv board board_pages 3 s [i, t] [] [] R" "pages_left (h_mm (fs_heap (k_fs s))) 13" using two_threads by blast
  from thread_create_spec [OF s, of 5 6 11] show ?thesis by (fastforce simp: new_thread_def)
qed

text \<open>C7: Whatever threads do - give way, exit, kill each other, fork, create and start threads, bury the dead, ask for memory -, in every state
  they reach the queues are in order (no thread is on two, none twice, each has the state of its queue), every thread there is holds
  its record and two stacks, no block belongs to two threads, and none of the operations gets stuck: \<open>schedule\<close>, \<open>_exit\<close>, \<open>_kill\<close>,
  \<open>kill_zombies\<close>, requests for memory and \<open>fork\<close> return always, \<open>fork\<close> also when memory is out; \<open>thread_create\<close>
  does while the heap has the 13 pages it takes. (Creation with less is not among the steps.)\<close>

theorem threads_never_stuck:
  assumes "threads_inv L M v s rs ws zs R" "reachable L s s'"
  shows "(\<exists>rs' ws' zs' R'. threads_inv L M v s' rs' ws' zs' R') \<and>
     schedule s' \<noteq> None \<and> exit_thread s' \<noteq> None \<and> kill_thread pid s' \<noteq> None \<and> kill_zombies L s' \<noteq> None \<and> fs_alloc n (k_fs s') \<noteq> None \<and>
     (\<forall>E x sp e. s_kern x = s' \<and> e_layout E = L \<longrightarrow> sys_fork E sp e x \<noteq> None) \<and>
     (pages_left (h_mm (fs_heap (k_fs s'))) 13 \<longrightarrow> thread_create L hdl kh cb s' \<noteq> None)"
proof -
  obtain rs' ws' zs' R' where i: "threads_inv L M v s' rs' ws' zs' R'" using reachable_inv [OF assms(2,1)] by blast
  then have s: "sched_inv s' rs' ws' zs'" "heap_inv L M (fs_heap (k_fs s')) R'" "threads_hold R' s' (live s' rs' ws' zs')"
    by (simp_all add: threads_inv_def)
  then have "schedule s' \<noteq> None" "exit_thread s' \<noteq> None" "kill_thread pid s' \<noteq> None" "kill_zombies L s' \<noteq> None"
    using schedule_keeps [of s' rs' ws' zs'] exit_keeps [of s' rs' ws' zs'] kill_keeps [of s' rs' ws' zs' pid]
      reap_keeps [of s' rs' ws' zs' L M R'] by auto
  moreover have "fs_alloc n (k_fs s') \<noteq> None" using fs_alloc_any [OF s(2), of n] by auto
  moreover have "sys_fork E sp e x \<noteq> None" if "s_kern x = s' \<and> e_layout E = L" for E x sp e
    using fork_keeps [of L M v x rs' ws' zs' R' E sp e] i that by auto
  moreover have "thread_create L hdl kh cb s' \<noteq> None" if "pages_left (h_mm (fs_heap (k_fs s'))) 13"
    using create_keeps [OF i that, of hdl kh cb] by auto
  ultimately show ?thesis using i by blast
qed

theorem threads_never_stuck_witness:
  "\<exists>s s'. schedule s = Some s' \<and> reachable board s s' \<and> schedule s' \<noteq> None \<and> exit_thread s' \<noteq> None \<and> kill_thread 0 s' \<noteq> None \<and>
     kill_zombies board s' \<noteq> None \<and> fs_alloc 64 (k_fs s') \<noteq> None"
proof -
  obtain s i t R where s: "threads_inv board board_pages 3 s [i, t] [] [] R" using two_threads by blast
  then obtain s' where s': "schedule s = Some s'" using schedule_keeps [of s "[i, t]" "[]" "[]"] by (auto simp: threads_inv_def)
  have "reachable board s s'" by (rule there [OF here yield [OF s']])
  with threads_never_stuck [OF s this, of 0 64] s' show ?thesis by blast
qed

end
