(* ===== verification/BootFs.thy ===== *)
theory BootFs
  imports Paths
begin

section \<open>The tree that boot builds\<close>

text \<open>
  \<open>vfs_init\<close> step by step: the root, the mount of the RAM disk with a file for every entry of the archive, and the device
  nodes. \<open>keeps_owned\<close> is what each step leaves alone: the vnodes and nodes in blocks that were held before.
\<close>

subsection \<open>What the steps leave alone\<close>

abbreviation env_of :: "fs \<Rightarrow> uart \<times> addr" where
  "env_of s \<equiv> (fs_uart s, current s)"  \<comment> \<open>the driver's state and the current thread\<close>

definition keeps_owned :: "region list \<Rightarrow> fs \<Rightarrow> fs \<Rightarrow> addr set \<Rightarrow> bool" where
  "keeps_owned R s s' N \<longleftrightarrow> (\<forall>u. owned R u \<longrightarrow> vnodes s' u = vnodes s u) \<and>
     (\<forall>j. owned R j \<and> j \<notin> N \<longrightarrow> fsnodes s' j = fsnodes s j) \<and> (\<forall>m. owned R m \<longrightarrow> mounts s' m = mounts s m) \<and> rootfs s' = rootfs s"

text \<open>A directory none of whose nodes has changed.\<close>

lemma dir_keeps:
  assumes d: "dir_ok R s x" and k: "keeps_owned R s s' N" and sub: "set R \<subseteq> set R'"
    and n: "internal (vnodes s x) \<notin> N" and nm: "\<And>v. v \<in> set (entries_of s x) \<Longrightarrow> internal (vnodes s v) \<notin> N \<or> name_of s' v = name_of s v"
  shows "dir_ok R' s' x \<and> entries_of s' x = entries_of s x \<and> (\<forall>v \<in> set (entries_of s x). name_of s' v = name_of s v)"
proof -
  have o: "owned R v" "owned R (internal (vnodes s v))" if "v \<in> insert x (set (entries_of s x))" for v
    using d that unfolding dir_ok_def by blast+
  have v: "vnodes s' v = vnodes s v" if "v \<in> insert x (set (entries_of s x))" for v
    using k o(1) [OF that] by (simp add: keeps_owned_def)
  have f: "fsnodes s' (internal (vnodes s x)) = fsnodes s (internal (vnodes s x))"
    using k o(2) [of x] n by (simp add: keeps_owned_def)
  have e: "entries_of s' x = entries_of s x" unfolding entries_of_def using v [of x] f by simp
  have "name_of s' u = name_of s u" if "u \<in> set (entries_of s x)" for u
  proof (cases "internal (vnodes s u) \<in> N")
    case False
    then show ?thesis using k o(2) [of u] v [of u] that by (simp add: name_of_def keeps_owned_def)
  qed (use nm [OF that] in blast)
  moreover have "dir_ok R' s' x"
    unfolding dir_ok_def e using d v f owned_mono [OF _ sub] o by (simp add: dir_ok_def)
  ultimately show ?thesis using e by blast
qed

lemma created_keeps:
  assumes "created R s d name ty v R' s'"
  shows "keeps_owned R s s' {internal (vnodes s d)}"
  using assms by (simp add: keeps_owned_def created_def same_rest_def)

subsection \<open>The file system types\<close>

lemma register_ok:
  assumes inv: "heap_inv L M (fs_heap s) R" and left: "pages_left (h_mm (fs_heap s)) (Suc n)" and num: "num_filesystems s < MAX_FILESYSTEMS"
    and other: "\<And>i. i < num_filesystems s \<Longrightarrow> owned R (filesystems s i) \<and> fs_name (fstypes s (filesystems s i)) \<noteq> name"
  shows "\<exists>f k h. register_new name m s = Some (0, s\<lparr>fs_heap := h, fstypes := (fstypes s)(f := \<lparr>fs_name = name, setup_mount = m\<rparr>),
       filesystems := (filesystems s)(num_filesystems s := f), num_filesystems := num_filesystems s + 1\<rparr>) \<and> f \<noteq> NULL \<and> 0 < k \<and>
     \<not> owned R f \<and> heap_inv L M h ((f, k) # R) \<and> pages_left (h_mm h) n"
proof -
  from fs_alloc_left [OF inv left, of FILESYSTEM_SIZE] obtain f k h where
    a: "fs_alloc FILESYSTEM_SIZE s = Some (f, s\<lparr>fs_heap := h\<rparr>)" "f \<noteq> NULL" "0 < k" "heap_inv L M h ((f, k) # R)" "pages_left (h_mm h) n"
    by (auto simp: FILESYSTEM_SIZE_def)
  have f: "\<not> owned R f" using fresh_block [OF a(4) _ a(3)] by blast
  then have "filesystems s i \<noteq> f" if "i < num_filesystems s" for i using other [OF that] by blast
  then have "\<not> (\<exists>i < num_filesystems s. filesystems s i \<noteq> NULL \<and>
      fs_name (((fstypes s)(f := \<lparr>fs_name = name, setup_mount = m\<rparr>)) (filesystems s i)) = name)" using other by auto
  then show ?thesis using a f num
    by (intro exI [of _ f] exI [of _ k] exI [of _ h]) (simp add: register_new_def register_filesystem_def)
qed

subsection \<open>The root\<close>

definition root_ok :: "region list \<Rightarrow> fs \<Rightarrow> addr \<Rightarrow> bool" where
  "root_ok R s r \<longleftrightarrow> dir_ok R s r \<and> the_root s = r \<and> v_ops (vnodes s r) = TMPFS_V \<and> v_mount (vnodes s r) = NULL \<and> owned R (rootfs s)"

lemma root_leads:
  assumes "root_ok R s r" "name \<noteq> []" "0x2F \<notin> set name" "name \<noteq> dot" "name \<noteq> dotdot" "length name < MAX_FILE_NAME"
  shows "leads s (0x2F # name) r name"
  using assms by (simp add: root_ok_def leads_def dir_ok_def)

lemma tmpfs_root_ok:
  assumes inv: "heap_inv L M (fs_heap s) R" and left: "pages_left (h_mm (fs_heap s)) (n + 3)" and nn: "fsys \<noteq> NULL" "mnt \<noteq> NULL"
    and mnt: "rootfs s = mnt" "owned R mnt"
  shows "\<exists>s' r Q. tmpfs_setup_mount L fsys mnt s = Some (0, s') \<and> heap_inv L M (fs_heap s') Q \<and> pages_left (h_mm (fs_heap s')) n \<and>
     set R \<subseteq> set Q \<and> r \<noteq> NULL \<and> the_root s' = r \<and> root_ok Q (upd_vnode r (\<lambda>v. v\<lparr>v_parent := NULL\<rparr>) s') r \<and>
     entries_of (upd_vnode r (\<lambda>v. v\<lparr>v_parent := NULL\<rparr>) s') r = [] \<and>
     env_of s' = env_of s \<and> fstypes s' = fstypes s \<and> filesystems s' = filesystems s \<and> num_filesystems s' = num_filesystems s \<and>
     (\<forall>j. \<not> owned Q j \<longrightarrow> fsnodes s' j = fsnodes s j)"
proof -
  have "pages_left (h_mm (fs_heap s)) (n + 1 + 2)" "length [0x2F :: byte] < MAX_FILE_NAME" using left by (simp_all add: MAX_FILE_NAME_def eval_nat_numeral)
  from create_node_ok [OF inv this, of NODE_DIRECTORY NULL] obtain i s1 R1 nd where
    c: "tmpfs_create_internal_node L [0x2F] NODE_DIRECTORY NULL s = Some (i, s1)" "i \<noteq> NULL" "heap_inv L M (fs_heap s1) R1"
      "set R \<subseteq> set R1" "owned R1 i" "pages_left (h_mm (fs_heap s1)) (n + 1)" "vnodes s1 = vnodes s" "same_rest s s1"
      "fsnodes s1 = (fsnodes s)(i := nd)" "new_node [0x2F] NODE_DIRECTORY NULL nd" by blast
  let ?s2 = "upd_mount mnt (\<lambda>m. m\<lparr>m_fs := fsys\<rparr>) s1"
  have "heap_inv L M (fs_heap ?s2) R1" "pages_left (h_mm (fs_heap ?s2)) (Suc n)" using c(3,6) by (simp_all add: upd_mount_def)
  from fs_alloc_left [OF this, of VNODE_SIZE] obtain r k h where
    a: "fs_alloc VNODE_SIZE ?s2 = Some (r, ?s2\<lparr>fs_heap := h\<rparr>)" "r \<noteq> NULL" "0 < k" "heap_inv L M h ((r, k) # R1)" "pages_left (h_mm h) n"
    by (auto simp: VNODE_SIZE_def)
  let ?s' = "upd_vnode r (\<lambda>v. v\<lparr>v_mount := NULL, v_ops := TMPFS_V, f_ops := TMPFS_F, internal := i, parent_is_mount := True\<rparr>)
     (upd_mount mnt (\<lambda>m. m\<lparr>m_root := r\<rparr>) (?s2\<lparr>fs_heap := h\<rparr>))"
  have e: "tmpfs_setup_mount L fsys mnt s = Some (0, ?s')" using nn c(1,2) a(1,2) by (simp add: tmpfs_setup_mount_def Let_def)
  have rs: "rootfs s1 = mnt" using c(8) mnt(1) by (simp add: same_rest_def)
  have r: "the_root ?s' = r" using rs by (simp add: the_root_def upd_mount_def upd_vnode_def)
  let ?t = "upd_vnode r (\<lambda>v. v\<lparr>v_parent := NULL\<rparr>) ?s'"
  have vn: "internal (vnodes ?t r) = i" "v_ops (vnodes ?t r) = TMPFS_V" "v_mount (vnodes ?t r) = NULL" "fsnodes ?t i = nd"
    "the_root ?t = r" "rootfs ?t = mnt" using r rs c(9) by (simp_all add: upd_vnode_def upd_mount_def the_root_def)
  have en: "entries_of ?t r = []" using vn(1,4) c(10) by (simp add: entries_of_def children_def new_node_def)
  have "n_type (fsnodes ?t (internal (vnodes ?t r))) = NODE_DIRECTORY" "num_children (fsnodes ?t (internal (vnodes ?t r))) = 0"
    unfolding vn(1,4) using c(10) by (simp_all add: new_node_def)
  then have "root_ok ((r, k) # R1) ?t r"
    using vn(1,2,3,5,6) en a(2,3) c(2,5) owned_mono [OF mnt(2) c(4)] by (simp add: root_ok_def dir_ok_def)
  moreover have "env_of ?s' = env_of s" "fstypes ?s' = fstypes s" "filesystems ?s' = filesystems s" "num_filesystems ?s' = num_filesystems s"
    using c(8) by (simp_all add: upd_vnode_def upd_mount_def same_rest_def)
  moreover have "\<forall>j. \<not> owned ((r, k) # R1) j \<longrightarrow> fsnodes ?s' j = fsnodes s j"
    using c(5,9) by (auto simp: upd_vnode_def upd_mount_def)
  moreover have "heap_inv L M (fs_heap ?s') ((r, k) # R1)" "pages_left (h_mm (fs_heap ?s')) n" using a(4,5) by (simp_all add: upd_vnode_def upd_mount_def)
  moreover have "set R \<subseteq> set ((r, k) # R1)" using c(4) by auto
  ultimately show ?thesis using e a(2) r en
    by - (rule exI [of _ ?s'], rule exI [of _ r], rule exI [of _ "(r, k) # R1"], intro conjI)
qed

subsection \<open>The mount of the RAM disk\<close>

text \<open>The vnode \<open>a\<close> is the mount point, \<open>b\<close> the root of the RAM disk with the node \<open>j\<close>.\<close>

definition ram_root :: "region list \<Rightarrow> fs \<Rightarrow> addr \<Rightarrow> addr \<Rightarrow> addr \<Rightarrow> bool" where
  "ram_root R s a b j \<longleftrightarrow> vnodes s b = \<lparr>v_mount = NULL, v_ops = INITRAMFS_V, f_ops = INITRAMFS_F, internal = j, v_parent = a, parent_is_mount = True\<rparr> \<and>
     b \<noteq> NULL \<and> j \<noteq> NULL \<and> owned R b \<and> owned R j \<and> v_mount (vnodes s a) \<noteq> NULL \<and> owned R (v_mount (vnodes s a)) \<and> m_root (mounts s (v_mount (vnodes s a))) = b"

lemma initramfs_root_ok:
  assumes inv: "heap_inv L M (fs_heap s) R" and left: "pages_left (h_mm (fs_heap s)) (n + 2)" and nn: "fsys \<noteq> NULL" "mnt \<noteq> NULL"
  shows "\<exists>h b j k k'. initramfs_setup_mount L fsys mnt s = Some (0, s\<lparr>fs_heap := h, mounts := (mounts s)(mnt := \<lparr>m_root = b, m_fs = fsys\<rparr>),
       vnodes := (vnodes s)(b := \<lparr>v_mount = NULL, v_ops = INITRAMFS_V, f_ops = INITRAMFS_F, internal = j, v_parent = v_parent (vnodes s b), parent_is_mount = True\<rparr>)\<rparr>) \<and>
     heap_inv L M h ((b, k) # (j, k') # R) \<and> pages_left (h_mm h) n \<and> b \<noteq> NULL \<and> j \<noteq> NULL \<and> 0 < k \<and> 0 < k' \<and> \<not> owned R b \<and> \<not> owned R j \<and> b \<noteq> j"
proof -
  have "pages_left (h_mm (fs_heap s)) (Suc (n + 1))" using left by simp
  from fs_alloc_left [OF inv this, of NODE_SIZE] obtain j k' h1 where
    a: "fs_alloc NODE_SIZE s = Some (j, s\<lparr>fs_heap := h1\<rparr>)" "j \<noteq> NULL" "0 < k'" "heap_inv L M h1 ((j, k') # R)" "pages_left (h_mm h1) (n + 1)"
    by (auto simp: NODE_SIZE_def)
  let ?s2 = "upd_mount mnt (\<lambda>m. m\<lparr>m_fs := fsys\<rparr>) (s\<lparr>fs_heap := h1\<rparr>)"
  have "heap_inv L M (fs_heap ?s2) ((j, k') # R)" "pages_left (h_mm (fs_heap ?s2)) (Suc n)" using a(4,5) by (simp_all add: upd_mount_def)
  from fs_alloc_left [OF this, of VNODE_SIZE] obtain b k h where
    b: "fs_alloc VNODE_SIZE ?s2 = Some (b, ?s2\<lparr>fs_heap := h\<rparr>)" "b \<noteq> NULL" "0 < k" "heap_inv L M h ((b, k) # (j, k') # R)" "pages_left (h_mm h) n"
    by (auto simp: VNODE_SIZE_def)
  have "initramfs_setup_mount L fsys mnt s = Some (0, s\<lparr>fs_heap := h, mounts := (mounts s)(mnt := \<lparr>m_root = b, m_fs = fsys\<rparr>),
       vnodes := (vnodes s)(b := \<lparr>v_mount = NULL, v_ops = INITRAMFS_V, f_ops = INITRAMFS_F, internal = j, v_parent = v_parent (vnodes s b), parent_is_mount = True\<rparr>)\<rparr>)"
    using nn a(1,2) b(1,2)
    by (cases "mounts s mnt"; cases "vnodes s b") (simp add: initramfs_setup_mount_def Let_def upd_mount_def upd_vnode_def)
  moreover have "\<not> owned R j" using fresh_block [OF a(4) _ a(3)] by blast
  moreover have "\<not> owned R b" "b \<noteq> j" using fresh_block [OF b(4) _ b(3)] a(3) by auto
  ultimately show ?thesis using a(2,3) b(2-5) by blast
qed

text \<open>Mounting on the vnode \<open>a\<close> that \<open>path\<close> leads to.\<close>

lemma mount_ok:
  assumes inv: "heap_inv L M (fs_heap s) R" and left: "pages_left (h_mm (fs_heap s)) (n + 4)" and len: "length path < 128"
    and st: "startable s path"
    and f: "find_filesystem s name (map (filesystems s) [0..<num_filesystems s]) = f" "f \<noteq> NULL" "setup_mount (fstypes s f) = INITRAMFS_M"
    and a: "resolve s path = (0, a)" "owned R a" "v_ops (vnodes s a) \<noteq> V_NULL" "v_mount (vnodes s a) = NULL" "\<not> parent_is_mount (vnodes s a)"
  shows "\<exists>s' b j m Q. vfs_mount L path name s = Some (0, s') \<and> heap_inv L M (fs_heap s') Q \<and> pages_left (h_mm (fs_heap s')) n \<and>
     set R \<subseteq> set Q \<and> ram_root Q s' a b j \<and> \<not> owned R b \<and> \<not> owned R j \<and> vnodes s' a = (vnodes s a)\<lparr>v_mount := m\<rparr> \<and>
     (\<forall>u. owned R u \<and> u \<noteq> a \<longrightarrow> vnodes s' u = vnodes s u) \<and> (\<forall>u. owned R u \<longrightarrow> mounts s' u = mounts s u) \<and>
     fsnodes s' = fsnodes s \<and> rootfs s' = rootfs s \<and> env_of s' = env_of s"
proof -
  have "pages_left (h_mm (fs_heap s)) (Suc (n + 3))" using left by (simp add: eval_nat_numeral)
  from vfs_lookup_local [OF inv this len st] obtain h1 where
    l: "vfs_lookup L local_target path s = Some (0, a, s\<lparr>fs_heap := h1\<rparr>)" "heap_inv L M h1 R" "pages_left (h_mm h1) (n + 3)" using a(1) by auto
  let ?s1 = "s\<lparr>fs_heap := h1\<rparr>"
  have "heap_inv L M (fs_heap ?s1) R" "pages_left (h_mm (fs_heap ?s1)) (Suc (n + 2))" using l(2,3) by (simp_all add: eval_nat_numeral)
  from fs_alloc_left [OF this, of MOUNT_SIZE] obtain m k h2 where
    b: "fs_alloc MOUNT_SIZE ?s1 = Some (m, ?s1\<lparr>fs_heap := h2\<rparr>)" "m \<noteq> NULL" "0 < k" "heap_inv L M h2 ((m, k) # R)" "pages_left (h_mm h2) (n + 2)"
    by (auto simp: MOUNT_SIZE_def)
  have m: "\<not> owned R m" using fresh_block [OF b(4) _ b(3)] by blast
  let ?s4 = "upd_vnode a (\<lambda>v. v\<lparr>v_mount := m\<rparr>) (upd_mount m (\<lambda>m. m\<lparr>m_fs := f, m_root := NULL\<rparr>) (?s1\<lparr>fs_heap := h2\<rparr>))"
  have f4: "fstypes ?s4 = fstypes s" "fs_heap ?s4 = h2" "vnodes ?s4 = (vnodes s)(a := (vnodes s a)\<lparr>v_mount := m\<rparr>)" "fsnodes ?s4 = fsnodes s"
    "rootfs ?s4 = rootfs s" "env_of ?s4 = env_of s" "\<And>u. u \<noteq> m \<Longrightarrow> mounts ?s4 u = mounts s u"
    by (simp_all add: upd_vnode_def upd_mount_def)
  have "heap_inv L M (fs_heap ?s4) ((m, k) # R)" "pages_left (h_mm (fs_heap ?s4)) (n + 2)" using b(4,5) f4(2) by simp_all
  from initramfs_root_ok [OF this f(2) b(2)] obtain h bb j k1 k2 where
    i: "initramfs_setup_mount L f m ?s4 = Some (0, ?s4\<lparr>fs_heap := h, mounts := (mounts ?s4)(m := \<lparr>m_root = bb, m_fs = f\<rparr>),
       vnodes := (vnodes ?s4)(bb := \<lparr>v_mount = NULL, v_ops = INITRAMFS_V, f_ops = INITRAMFS_F, internal = j, v_parent = v_parent (vnodes ?s4 bb), parent_is_mount = True\<rparr>)\<rparr>)"
      "heap_inv L M h ((bb, k1) # (j, k2) # (m, k) # R)" "pages_left (h_mm h) n" "bb \<noteq> NULL" "j \<noteq> NULL" "0 < k1" "0 < k2"
      "\<not> owned ((m, k) # R) bb" "\<not> owned ((m, k) # R) j" by blast
  let ?s5 = "?s4\<lparr>fs_heap := h, mounts := (mounts ?s4)(m := \<lparr>m_root = bb, m_fs = f\<rparr>),
       vnodes := (vnodes ?s4)(bb := \<lparr>v_mount = NULL, v_ops = INITRAMFS_V, f_ops = INITRAMFS_F, internal = j, v_parent = v_parent (vnodes ?s4 bb), parent_is_mount = True\<rparr>)\<rparr>"
  let ?s' = "upd_vnode bb (\<lambda>r. r\<lparr>v_parent := a\<rparr>) ?s5"
  have e: "vfs_mount L path name s = Some (0, ?s')"
    unfolding vfs_mount_def Let_def f(1)
    using f(2,3) l(1) a(3-5) b(1,2) i(1) f4(1) by (simp add: setup_mount_call_def)
  have ne: "bb \<noteq> a" using i(8) a(2) by auto
  let ?Q = "(bb, k1) # (j, k2) # (m, k) # R"
  have "ram_root ?Q ?s' a bb j" using ne i(4-7) b(2,3) by (simp add: ram_root_def upd_vnode_def upd_mount_def)
  moreover have "vnodes ?s' a = (vnodes s a)\<lparr>v_mount := m\<rparr>" using ne by (simp add: upd_vnode_def upd_mount_def)
  moreover have "\<forall>u. owned R u \<and> u \<noteq> a \<longrightarrow> vnodes ?s' u = vnodes s u" using i(8) by (auto simp: upd_vnode_def upd_mount_def)
  moreover have "\<forall>u. owned R u \<longrightarrow> mounts ?s' u = mounts s u" using m by (auto simp: upd_vnode_def upd_mount_def)
  moreover have "fsnodes ?s' = fsnodes s" "rootfs ?s' = rootfs s" "env_of ?s' = env_of s" "fs_heap ?s' = h" by (simp_all add: upd_vnode_def upd_mount_def)
  moreover have "\<not> owned R bb" "\<not> owned R j" "set R \<subseteq> set ?Q" using i(8,9) by auto
  ultimately show ?thesis using e i(2,3) 
    by - (rule exI [of _ ?s'], rule exI [of _ bb], rule exI [of _ j], rule exI [of _ m], rule exI [of _ ?Q], simp)
qed

end
