(* ===== verification/RamDisk.thy ===== *)
theory RamDisk
  imports BootFs
begin

section \<open>The files of the RAM disk\<close>

text \<open>
  \<open>initramfs_init\<close> on a well-formed archive that lies outside the pages of the heap: a vnode for every entry, in the
  order of the archive, with a copy of the entry's contents in a block of its own.
\<close>

subsection \<open>The archive stays\<close>

fun archive_end :: "addr \<Rightarrow> (byte list \<times> byte list) list \<Rightarrow> addr" where
  "archive_end h [] = h + 121"
| "archive_end h ((name, content) # es) = archive_end (h + pad4 (111 + length name) + pad4 (length content)) es"

lemma archive_end_le: "h + 121 \<le> archive_end h es"
  by (induction h es rule: archive_end.induct) auto

lemma mem_bytes_same: "(\<And>x. a \<le> x \<Longrightarrow> x < a + n \<Longrightarrow> m' x = m x) \<Longrightarrow> mem_bytes m' a n = mem_bytes m a n"
  by (rule mem_bytes_eqI) simp

lemma header_same:
  assumes "\<And>x. h \<le> x \<Longrightarrow> x < h + 111 + length name \<Longrightarrow> m' x = m x"
  shows "header_at m' h name sz = header_at m h name sz"
proof -
  have "mem_bytes m' h 6 = mem_bytes m h 6" "mem_bytes m' (h + 94) 8 = mem_bytes m (h + 94) 8"
    "mem_bytes m' (h + 54) 8 = mem_bytes m (h + 54) 8" "mem_bytes m' (h + 110) (length name + 1) = mem_bytes m (h + 110) (length name + 1)"
    by (rule mem_bytes_same; rule assms; simp)+
  then show ?thesis by (simp only: header_at_def)
qed

lemma archive_same:
  "archive m h es \<Longrightarrow> (\<And>x. h \<le> x \<Longrightarrow> x < archive_end h es \<Longrightarrow> m' x = m x) \<Longrightarrow> archive m' h es"
proof (induction es arbitrary: h)
  case Nil
  have "header_at m' h trailer 0 = header_at m h trailer 0"
    by (rule header_same) (use Nil.prems(2) in \<open>simp add: trailer_def\<close>)
  then show ?case using Nil.prems(1) by simp
next
  case (Cons e es)
  obtain name content where e: "e = (name, content)" by (cases e)
  let ?d = "h + pad4 (111 + length name)"
  let ?h = "?d + pad4 (length content)"
  have a: "header_at m h name (length content)" "name \<noteq> trailer" "length content < 2 ^ 31" "mem_bytes m ?d (length content) = content" "archive m ?h es"
    using Cons.prems(1) by (simp_all add: e)
  have le: "?h \<le> archive_end h (e # es)" "h + 111 + length name \<le> ?d" "?d + length content \<le> ?h"
    using archive_end_le [of ?h es] pad4_le(1) [of "111 + length name"] pad4_le(1) [of "length content"] by (simp_all add: e)
  have same: "m' x = m x" if "h \<le> x" "x < archive_end h (e # es)" for x using Cons.prems(2) that by blast
  have "header_at m' h name (length content) = header_at m h name (length content)"
    by (rule header_same, rule same) (use le in simp_all)
  moreover have "mem_bytes m' ?d (length content) = mem_bytes m ?d (length content)"
    by (rule mem_bytes_same, rule same) (use le in simp_all)
  moreover have "archive m' ?h es" by (rule Cons.IH [OF a(5)], rule same) (simp_all add: e)
  ultimately show ?case using a by (simp add: e)
qed

subsection \<open>One file\<close>

text \<open>The vnode \<open>v\<close> in the directory \<open>b\<close> is the file \<open>e\<close>, a name and contents.\<close>

definition ram_file :: "region list \<Rightarrow> fs \<Rightarrow> addr \<Rightarrow> addr \<Rightarrow> byte list \<times> byte list \<Rightarrow> bool" where
  "ram_file R s b v e \<longleftrightarrow> v \<noteq> NULL \<and> owned R v \<and> owned R (internal (vnodes s v)) \<and> internal (vnodes s v) \<noteq> NULL \<and>
     vnodes s v = \<lparr>v_mount = NULL, v_ops = INITRAMFS_V, f_ops = INITRAMFS_F, internal = internal (vnodes s v), v_parent = b, parent_is_mount = False\<rparr> \<and>
     (let n = fsnodes s (internal (vnodes s v)) in n_name n = fst e \<and> n_type n = NODE_FILE \<and> n_size n = of_nat (length (snd e)) \<and>
       (snd e \<noteq> [] \<longrightarrow> (\<exists>k \<ge> length (snd e). (n_data n, k) \<in> set R)) \<and> mem_bytes (fs_mem s) (n_data n) (length (snd e)) = snd e)"

text \<open>What stays when files are added to the directory of the node \<open>j\<close>.\<close>

definition fill_keeps :: "region list \<Rightarrow> nat set \<Rightarrow> addr \<Rightarrow> fs \<Rightarrow> fs \<Rightarrow> bool" where
  "fill_keeps R M j s s' \<longleftrightarrow> (\<forall>u. owned R u \<longrightarrow> vnodes s' u = vnodes s u) \<and> (\<forall>i. owned R i \<and> i \<noteq> j \<longrightarrow> fsnodes s' i = fsnodes s i) \<and>
     mounts s' = mounts s \<and> rootfs s' = rootfs s \<and> current s' = current s \<and> n_name (fsnodes s' j) = n_name (fsnodes s j) \<and> n_type (fsnodes s' j) = n_type (fsnodes s j) \<and>
     (\<forall>a. (a \<notin> page_bytes M \<or> (\<exists>r \<in> set R. a \<in> bytes r)) \<longrightarrow> fs_mem s' a = fs_mem s a)"

lemma fill_keeps_refl [simp]: "fill_keeps R M j s s"
  by (simp add: fill_keeps_def)

lemma fill_keeps_trans:
  assumes "fill_keeps R M j s s'" "fill_keeps R' M j s' s''" "set R \<subseteq> set R'"
  shows "fill_keeps R M j s s''"
  using assms owned_mono [OF _ assms(3)] unfolding fill_keeps_def by (metis subsetD)

lemma ram_file_keeps:
  assumes f: "ram_file R s b v e" and k: "fill_keeps R M j s s'" and sub: "set R \<subseteq> set R'" and j: "internal (vnodes s v) \<noteq> j"
  shows "ram_file R' s' b v e \<and> vnodes s' v = vnodes s v"
proof -
  have v: "vnodes s' v = vnodes s v" using f k by (simp add: ram_file_def fill_keeps_def)
  have n: "fsnodes s' (internal (vnodes s v)) = fsnodes s (internal (vnodes s v))" using f k j by (simp add: ram_file_def fill_keeps_def)
  let ?n = "fsnodes s (internal (vnodes s v))"
  have "mem_bytes (fs_mem s') (n_data ?n) (length (snd e)) = mem_bytes (fs_mem s) (n_data ?n) (length (snd e))"
  proof (cases "snd e = []")
    case False
    then obtain k where "length (snd e) \<le> k" "(n_data ?n, k) \<in> set R" using f by (auto simp: ram_file_def Let_def)
    then have "\<exists>r \<in> set R. x \<in> bytes r" if "n_data ?n \<le> x" "x < n_data ?n + length (snd e)" for x
      using that by (intro bexI [of _ "(n_data ?n, k)"]) (auto simp: bytes_def)
    then show ?thesis using k by (intro mem_bytes_same) (simp add: fill_keeps_def)
  qed (simp add: mem_bytes_def)
  then show ?thesis using f owned_mono [OF _ sub] sub v n by (auto simp: ram_file_def Let_def)
qed

lemma fs_alloc_room:
  assumes inv: "heap_inv L M (fs_heap s) R" and left: "pages_left (h_mm (fs_heap s)) (Suc n)" and sz: "unat sz \<le> PAGE_SIZE"
  shows "\<exists>d h Q. fs_alloc sz s = Some (d, s\<lparr>fs_heap := h\<rparr>) \<and> (d = NULL \<longrightarrow> sz = 0) \<and> heap_inv L M h Q \<and> pages_left (h_mm h) n \<and> set R \<subseteq> set Q \<and>
     (sz \<noteq> 0 \<longrightarrow> (\<exists>k \<ge> unat sz. (d, k) \<in> set Q)) \<and> (\<forall>x. d \<le> x \<and> x < d + unat sz \<longrightarrow> x \<in> page_bytes M \<and> \<not> (\<exists>r \<in> set R. x \<in> bytes r))"
proof (cases "sz = 0")
  case True
  then show ?thesis using inv pages_left_mono [OF left, of n]
    by (intro exI [of _ NULL] exI [of _ "fs_heap s"] exI [of _ R]) (simp add: fs_alloc_def alloc_def)
next
  case False
  then have "0 < sz" by (simp add: word_gt_0)
  from fs_alloc_left [OF inv left this sz] obtain d k h where a: "fs_alloc sz s = Some (d, s\<lparr>fs_heap := h\<rparr>)" "d \<noteq> NULL" "unat sz \<le> k"
    "heap_inv L M h ((d, k) # R)" "pages_left (h_mm h) n" by blast
  have "x \<in> page_bytes M \<and> \<not> (\<exists>r \<in> set R. x \<in> bytes r)" if x: "d \<le> x" "x < d + unat sz" for x
  proof -
    have b: "x \<in> bytes (d, k)" using x a(3) by (simp add: bytes_def)
    moreover have "x \<notin> bytes r" if "r \<in> set R" for r
      using heap_alloc.inv_apart [OF a(4)] that b by (auto simp: apart_def)
    ultimately show ?thesis using heap_alloc.inv_arena [OF a(4), of "(d, k)"] by auto
  qed
  then show ?thesis using a False by (intro exI [of _ d] exI [of _ h] exI [of _ "(d, k) # R"]) auto
qed

lemma initramfs_add_ok:
  assumes inv: "heap_inv L M (fs_heap s) R" and left: "pages_left (h_mm (fs_heap s)) (n + 3)"
    and len: "unat namesize < MAX_FILE_NAME" "unat sz \<le> PAGE_SIZE" and b: "owned R b" "owned R j" "internal (vnodes s b) = j"
    and room: "num_children (fsnodes s j) < MAX_CHILDREN" and src: "bytes (data, unat sz) \<inter> page_bytes M = {}"
  shows "\<exists>s' v Q. initramfs_add b name namesize data sz s = Some s' \<and> heap_inv L M (fs_heap s') Q \<and> pages_left (h_mm (fs_heap s')) n \<and>
     set R \<subseteq> set Q \<and> ram_file Q s' b v (name, mem_bytes (fs_mem s) data (unat sz)) \<and> \<not> owned R v \<and> internal (vnodes s' v) \<noteq> j \<and>
     fill_keeps R M j s s' \<and> entries_of s' b = entries_of s b @ [v] \<and> num_children (fsnodes s' j) = num_children (fsnodes s j) + 1"
proof -
  have "pages_left (h_mm (fs_heap s)) (Suc (n + 2))" using left by (simp add: eval_nat_numeral)
  from fs_alloc_left [OF inv this, of NODE_SIZE] obtain i k h1 where
    a: "fs_alloc NODE_SIZE s = Some (i, s\<lparr>fs_heap := h1\<rparr>)" "i \<noteq> NULL" "0 < k" "heap_inv L M h1 ((i, k) # R)" "pages_left (h_mm h1) (n + 2)"
    by (auto simp: NODE_SIZE_def)
  let ?s1 = "s\<lparr>fs_heap := h1\<rparr>"
  have "heap_inv L M (fs_heap ?s1) ((i, k) # R)" "pages_left (h_mm (fs_heap ?s1)) (Suc (n + 1))" using a(4,5) by (simp_all add: eval_nat_numeral)
  from fs_alloc_room [OF this len(2)] obtain d h2 Q2 where
    d: "fs_alloc sz ?s1 = Some (d, ?s1\<lparr>fs_heap := h2\<rparr>)" "d = NULL \<longrightarrow> sz = 0" "heap_inv L M h2 Q2" "pages_left (h_mm h2) (n + 1)"
      "set ((i, k) # R) \<subseteq> set Q2" "sz \<noteq> 0 \<longrightarrow> (\<exists>k \<ge> unat sz. (d, k) \<in> set Q2)"
      "\<forall>x. d \<le> x \<and> x < d + unat sz \<longrightarrow> x \<in> page_bytes M \<and> \<not> (\<exists>r \<in> set ((i, k) # R). x \<in> bytes r)" by blast
  let ?m = "memcpy d data sz (fs_mem s)"
  let ?f = "\<lambda>n. n\<lparr>n_name := name, n_type := NODE_FILE, n_parent := NULL, n_size := ucast sz,
                    n_data := d, n_capacity := ucast sz, num_children := 0,
                    n_children := \<lambda>i. if i < MAX_CHILDREN then NULL else n_children n i\<rparr>"
  let ?s4 = "upd_node i ?f (put_mem ?m (?s1\<lparr>fs_heap := h2\<rparr>))"
  have mem: "fs_mem (?s1\<lparr>fs_heap := h2\<rparr>) = fs_mem s" by (simp add: fs_mem_def)
  have "heap_inv L M (fs_heap ?s4) Q2" "pages_left (h_mm (fs_heap ?s4)) (Suc n)" using d(3,4) by (simp_all add: upd_node_def put_mem_def)
  from fs_alloc_left [OF this, of VNODE_SIZE] obtain v l h where
    v: "fs_alloc VNODE_SIZE ?s4 = Some (v, ?s4\<lparr>fs_heap := h\<rparr>)" "v \<noteq> NULL" "0 < l" "heap_inv L M h ((v, l) # Q2)" "pages_left (h_mm h) n"
    by (auto simp: VNODE_SIZE_def)
  have sub: "set R \<subseteq> set Q2" using d(5) by simp
  have iR: "\<not> owned R i" using fresh_block [OF a(4) _ a(3)] by blast
  have vR: "\<not> owned R v" using fresh_block [OF v(4) owned_mono [OF _ sub] v(3)] by blast
  have ne: "i \<noteq> j" "v \<noteq> b" using iR vR b(1,2) by auto
  let ?vn = "\<lparr>v_mount = NULL, v_ops = INITRAMFS_V, f_ops = INITRAMFS_F, internal = i, v_parent = b, parent_is_mount = False\<rparr>"
  let ?s6 = "upd_vnode v (\<lambda>v. v\<lparr>v_mount := NULL, v_ops := INITRAMFS_V, f_ops := INITRAMFS_F,
                      internal := i, v_parent := b, parent_is_mount := False\<rparr>) (?s4\<lparr>fs_heap := h\<rparr>)"
  let ?s' = "upd_node j (\<lambda>n. n\<lparr>n_children := (n_children n)(num_children n := v), num_children := num_children n + 1\<rparr>) ?s6"
  have v6: "vnodes ?s6 = (vnodes s)(v := ?vn)" "fsnodes ?s6 = (fsnodes s)(i := ?f (fsnodes s i))"
    by (cases "vnodes s v", simp add: upd_vnode_def upd_node_def put_mem_def) (simp add: upd_vnode_def upd_node_def put_mem_def cong: if_cong)
  have j6: "internal (vnodes ?s6 b) = j" "fsnodes ?s6 j = fsnodes s j" unfolding v6 using ne b(3) by simp_all
  have e: "initramfs_add b name namesize data sz s = Some ?s'"
    using a(1,2) d(1,2) v(1,2) mem ne b(3) len(1) room by (auto simp: initramfs_add_def Let_def)
  have f': "vnodes ?s' = (vnodes s)(v := ?vn)" "fs_heap ?s' = h" "mounts ?s' = mounts s" "rootfs ?s' = rootfs s" "fs_mem ?s' = ?m"
    using v6(1) by (simp_all add: upd_node_def upd_vnode_def put_mem_def fs_mem_def)
  have n': "fsnodes ?s' x = (if x = j then (fsnodes s j)\<lparr>n_children := (n_children (fsnodes s j))(num_children (fsnodes s j) := v),
      num_children := num_children (fsnodes s j) + 1\<rparr> else if x = i then ?f (fsnodes s i) else fsnodes s x)" for x
    using v6(2) j6(2) by (simp add: upd_node_def)
  have c': "current ?s' = current s" by (simp add: upd_node_def upd_vnode_def put_mem_def)
  define t where "t = ?s'"
  note F = e [folded t_def] f' [folded t_def] n' [folded t_def]
  have apart: "d + unat sz \<le> data \<or> data + unat sz \<le> d"
  proof (rule ccontr)
    assume "\<not> ?thesis"
    then have "d \<le> max d data" "max d data < d + unat sz" "max d data \<in> bytes (data, unat sz)" by (auto simp: bytes_def)
    then show False using d(7) src by blast
  qed
  have data: "mem_bytes (fs_mem t) d (unat sz) = mem_bytes (fs_mem s) data (unat sz)"
    unfolding F(6) by (rule memcpy_bytes [OF apart])
  have keep: "fs_mem t x = fs_mem s x" if "x \<notin> page_bytes M \<or> (\<exists>r \<in> set R. x \<in> bytes r)" for x
    unfolding F(6) memcpy_at [OF apart] using d(7) that by auto
  have "entries_of t b = entries_of s b @ [v]"
    using ne b(3) children_append [of "fsnodes s j" v] by (simp add: entries_of_def F(2,7))
  moreover have "fill_keeps R M j s t" using keep vR iR by (auto simp: fill_keeps_def F(2-5,7) c' [folded t_def])
  moreover have "owned ((v, l) # Q2) v" "owned ((v, l) # Q2) i" using v(3) a(3) d(5) by (auto simp: owned_def)
  moreover have "mem_bytes (fs_mem s) data 0 = []" by (simp add: mem_bytes_def)
  ultimately show ?thesis using F(1) v(2,4,5) F(2,3) data sub vR ne(1) a(2) d(6)
    by - (rule exI [of _ t], rule exI [of _ v], rule exI [of _ "(v, l) # Q2"], auto simp: ram_file_def F(7) Let_def unat_gt_0)
qed

subsection \<open>All the files\<close>

text \<open>Archives whose files the kernel can load: contents of at most a page, and names that fit.\<close>

definition loadable :: "(byte list \<times> byte list) list \<Rightarrow> bool" where
  "loadable es \<longleftrightarrow> (\<forall>(name, content) \<in> set es. length name + 1 < MAX_FILE_NAME \<and> length content \<le> PAGE_SIZE)"

lemma initramfs_fill_ok:
  assumes "archive (fs_mem s) h es" "{h ..< archive_end h es} \<inter> page_bytes M = {}" "loadable es"
    and "heap_inv L M (fs_heap s) R" "pages_left (h_mm (fs_heap s)) (n + 3 * length es)"
    and "owned R b" "owned R j" "internal (vnodes s b) = j" "num_children (fsnodes s j) + length es \<le> MAX_CHILDREN"
  shows "\<exists>s' vs Q. initramfs_fill 0 b h s = Some s' \<and> heap_inv L M (fs_heap s') Q \<and> pages_left (h_mm (fs_heap s')) n \<and>
     set R \<subseteq> set Q \<and> list_all2 (ram_file Q s' b) vs es \<and> (\<forall>v \<in> set vs. internal (vnodes s' v) \<noteq> j \<and> \<not> owned R v) \<and>
     fill_keeps R M j s s' \<and> entries_of s' b = entries_of s b @ vs \<and> num_children (fsnodes s' j) = num_children (fsnodes s j) + length es"
  using assms
proof (induction es arbitrary: s h R)
  case Nil
  have "initramfs_fill 0 b h s = Some s" using step_entry [of "fs_mem s" h trailer 0] Nil.prems(1) by (subst initramfs_fill.simps) simp
  then show ?case using Nil.prems by (intro exI [of _ s] exI [of _ "[]"] exI [of _ R]) simp
next
  case (Cons e es)
  obtain name content where e: "e = (name, content)" by (cases e)
  let ?d = "h + pad4 (111 + length name)"
  let ?h = "?d + pad4 (length content)"
  let ?sz = "of_nat (length content) :: u32"
  have a: "header_at (fs_mem s) h name (length content)" "name \<noteq> trailer" "length content < 2 ^ 31"
    "mem_bytes (fs_mem s) ?d (length content) = content" "archive (fs_mem s) ?h es" using Cons.prems(1) by (simp_all add: e)
  have l: "length name + 1 < MAX_FILE_NAME" "length content \<le> PAGE_SIZE" "loadable es" using Cons.prems(3) by (simp_all add: e loadable_def)
  have st: "cpio_step 0 (fs_mem s) h = Some (Entry name ?d ?sz ?h)" using step_entry [OF a(1,3)] a(2) by simp
  have sz: "unat ?sz = length content" using a(3) by (simp add: unat_of_nat)
  have ns: "hex_to_uint (fs_mem s) (h + c_namesize) 8 = of_nat (length name + 1)"
    using a(1) by (simp add: header_at_def hex8 c_namesize_def)
  have "unat (of_nat (length name + 1) :: u32) = length name + 1"
    using l(1) by (simp only: unat_of_nat) (simp add: MAX_FILE_NAME_def)
  then have nsz: "unat (hex_to_uint (fs_mem s) (h + c_namesize) 8) < MAX_FILE_NAME" unfolding ns using l(1) by simp
  have le: "?h + 121 \<le> archive_end h (e # es)" "?d + length content \<le> ?h"
    using archive_end_le [of ?h es] pad4_le(1) [of "length content"] by (simp_all add: e)
  have "{?h ..< archive_end ?h es} \<subseteq> {h ..< archive_end h (e # es)}" "bytes (?d, unat ?sz) \<subseteq> {h ..< archive_end h (e # es)}"
    using le unfolding sz by (auto simp: bytes_def e)
  then have out: "{?h ..< archive_end ?h es} \<inter> page_bytes M = {}" "bytes (?d, unat ?sz) \<inter> page_bytes M = {}"
    using Cons.prems(2) by blast+
  have "pages_left (h_mm (fs_heap s)) (n + 3 * length es + 3)" using Cons.prems(5) by (simp add: algebra_simps)
  moreover have "unat ?sz \<le> PAGE_SIZE" "num_children (fsnodes s j) < MAX_CHILDREN" using sz l(2) Cons.prems(9) by simp_all
  ultimately obtain s1 v Q1 where
    v: "initramfs_add b name (hex_to_uint (fs_mem s) (h + c_namesize) 8) ?d ?sz s = Some s1" "heap_inv L M (fs_heap s1) Q1"
      "pages_left (h_mm (fs_heap s1)) (n + 3 * length es)" "set R \<subseteq> set Q1" "ram_file Q1 s1 b v e" "\<not> owned R v" "internal (vnodes s1 v) \<noteq> j"
      "fill_keeps R M j s s1" "entries_of s1 b = entries_of s b @ [v]" "num_children (fsnodes s1 j) = num_children (fsnodes s j) + 1"
    using initramfs_add_ok [OF Cons.prems(4) _ nsz _ Cons.prems(6-8) _ out(2), of "n + 3 * length es" name] a(4) sz e by auto
  have o: "owned Q1 b" "owned Q1 j" using owned_mono [OF _ v(4)] Cons.prems(6,7) by blast+
  have vb: "internal (vnodes s1 b) = j" using v(8) Cons.prems(6,8) by (simp add: fill_keeps_def)
  have m: "fs_mem s1 x = fs_mem s x" if "?h \<le> x" "x < archive_end ?h es" for x
    using v(8) out(1) that by (auto simp: fill_keeps_def)
  have "num_children (fsnodes s1 j) + length es \<le> MAX_CHILDREN" using v(10) Cons.prems(9) by simp
  with Cons.IH [OF archive_same [OF a(5) m] out(1) l(3) v(2,3) o vb] obtain s' vs Q where
    r: "initramfs_fill 0 b ?h s1 = Some s'" "heap_inv L M (fs_heap s') Q" "pages_left (h_mm (fs_heap s')) n" "set Q1 \<subseteq> set Q"
      "list_all2 (ram_file Q s' b) vs es" "\<forall>v \<in> set vs. internal (vnodes s' v) \<noteq> j \<and> \<not> owned Q1 v" "fill_keeps Q1 M j s1 s'"
      "entries_of s' b = entries_of s1 b @ vs" "num_children (fsnodes s' j) = num_children (fsnodes s1 j) + length es" by auto
  have "initramfs_fill 0 b h s = Some s'" using st v(1) r(1) by (subst initramfs_fill.simps) simp
  moreover have f: "ram_file Q s' b v e" "vnodes s' v = vnodes s1 v" using ram_file_keeps [OF v(5) r(7,4) v(7)] by simp_all
  moreover have "fill_keeps R M j s s'" by (rule fill_keeps_trans [OF v(8) r(7) v(4)])
  moreover have "\<not> owned R u" if "u \<in> set vs" for u using r(6) owned_mono [OF _ v(4)] that by blast
  ultimately show ?case using r v(4,6,7,9,10)
    by (intro exI [of _ s'] exI [of _ "v # vs"] exI [of _ Q]) auto
qed

end
