(* ===== verification/BootTree.thy ===== *)
theory BootTree
  imports RamDisk Threads
begin

section \<open>The tree after \<open>vfs_init\<close>\<close>

text \<open>
  What the later steps of \<open>vfs_init\<close> need of the tree and keep of it: the RAM disk on \<open>/initramfs\<close> with its files (\<open>ram_tree\<close>)
  and the directory \<open>/dev\<close> (\<open>dev_tree\<close>). Then all steps together.
\<close>

abbreviation name_initramfs :: "byte list" where "name_initramfs \<equiv> drop 1 path_initramfs"
abbreviation name_dev :: "byte list" where "name_dev \<equiv> drop 1 path_dev"
abbreviation name_uart :: "byte list" where "name_uart \<equiv> [0x75, 0x61, 0x72, 0x74]"
abbreviation name_framebuffer :: "byte list" where
  "name_framebuffer \<equiv> [0x66, 0x72, 0x61, 0x6D, 0x65, 0x62, 0x75, 0x66, 0x66, 0x65, 0x72]"

subsection \<open>Lookups that are not disturbed\<close>

lemma lookup_keeps:
  assumes d: "dir_ok R s x" and k: "keeps_owned R s s' N" and sub: "set R \<subseteq> set R'"
    and n: "internal (vnodes s x) \<notin> N" and nm: "\<And>v. v \<in> set (entries_of s x) \<Longrightarrow> internal (vnodes s v) \<notin> N \<or> name_of s' v = name_of s v"
  shows "dir_ok R' s' x \<and> tmpfs_lookup x m s' = tmpfs_lookup x m s \<and> vnodes s' x = vnodes s x"
proof -
  have e: "dir_ok R' s' x" "entries_of s' x = entries_of s x" "\<forall>v \<in> set (entries_of s x). name_of s' v = name_of s v"
    using dir_keeps [OF assms] by blast+
  have "find (\<lambda>v. name_of s' v = m) (entries_of s x) = find (\<lambda>v. name_of s v = m) (entries_of s x)"
    by (rule find_cong_set) (use e(3) in simp)
  moreover have "vnodes s' x = vnodes s x" using d k by (simp add: dir_ok_def keeps_owned_def)
  ultimately show ?thesis using e(1) unfolding lookup_eq [OF d] lookup_eq [OF e(1)] e(2) by simp
qed

lemma root_created:
  assumes r: "root_ok R s r" and c: "created R s r name ty v Q s'"
  shows "root_ok Q s' r"
proof -
  have "owned R r" "owned R (rootfs s)" using r by (simp_all add: root_ok_def dir_ok_def)
  then have "vnodes s' r = vnodes s r" "rootfs s' = rootfs s" "the_root s' = the_root s" "dir_ok Q s' r" "owned Q (rootfs s)"
    using c owned_mono by (auto simp: created_def same_rest_def the_root_def)
  then show ?thesis using r by (simp add: root_ok_def)
qed

subsection \<open>The device directory\<close>

definition dev_tree :: "region list \<Rightarrow> fs \<Rightarrow> addr \<Rightarrow> addr \<Rightarrow> bool" where
  "dev_tree R s r c \<longleftrightarrow> root_ok R s r \<and> tmpfs_lookup r name_dev s = (0, c) \<and> dir_ok R s c \<and> v_ops (vnodes s c) = TMPFS_V \<and>
     v_mount (vnodes s c) = NULL \<and> internal (vnodes s c) \<noteq> internal (vnodes s r)"

lemma dev_resolves:
  assumes "dev_tree R s r c"
  shows "resolve s path_dev = (0, c)"
proof -
  have "leads s (0x2F # name_dev) r name_dev"
    by (rule root_leads) (use assms in \<open>auto simp: dev_tree_def path_dev_def MAX_FILE_NAME_def\<close>)
  moreover have "0x2F # name_dev = path_dev" by (simp add: path_dev_def)
  ultimately show ?thesis using leads_resolve [of s path_dev r name_dev] assms by (simp add: dev_tree_def enter_mount_def)
qed

lemma dev_points:
  assumes "dev_tree R s r c" "name \<noteq> []" "0x2F \<notin> set name" "name \<noteq> dot" "name \<noteq> dotdot" "length name < MAX_FILE_NAME"
  shows "points s (path_dev @ 0x2F # name) c name"
  using assms dev_resolves [OF assms(1)] by (simp add: points_def startable_def is_absolute_def dev_tree_def dir_ok_def path_dev_def MAX_FILE_NAME_def)

lemma dev_file_resolves:
  assumes d: "dev_tree R s r c" and name: "name \<noteq> []" "0x2F \<notin> set name" "name \<noteq> dot" "name \<noteq> dotdot" "length name < MAX_FILE_NAME"
    and l: "tmpfs_lookup c name s = (0, u)" "v_mount (vnodes s u) = NULL"
  shows "resolve s (path_dev @ 0x2F # name) = (0, u)"
  using points_resolve [OF dev_points [OF d name]] l by (simp add: enter_mount_def)

text \<open>\<open>vfs_mknod\<close> of a new name in \<open>/dev\<close>: a vnode with the operations of the device.\<close>

lemma mknod_ok:
  assumes d: "dev_tree R s r c" and name: "name \<noteq> []" "0x2F \<notin> set name" "name \<noteq> dot" "name \<noteq> dotdot" "length name < MAX_FILE_NAME"
    and may: "may_create s c name" and inv: "heap_inv L M (fs_heap s) R" and left: "pages_left (h_mm (fs_heap s)) (n + 7)"
  shows "\<exists>s' u Q. vfs_mknod L (path_dev @ 0x2F # name) ops s = Some (0, s') \<and> heap_inv L M (fs_heap s') Q \<and> pages_left (h_mm (fs_heap s')) n \<and>
     set R \<subseteq> set Q \<and> dev_tree Q s' r c \<and> keeps_owned R s s' {internal (vnodes s c)} \<and> env_of s' = env_of s \<and>
     (\<forall>m. tmpfs_lookup c m s' = (if m = name then (0, u) else tmpfs_lookup c m s)) \<and> (\<forall>m. tmpfs_lookup r m s' = tmpfs_lookup r m s) \<and>
     v_mount (vnodes s' u) = NULL \<and> f_ops (vnodes s' u) = ops \<and> u \<noteq> NULL \<and> owned Q u \<and>
     entries_of s' c = entries_of s c @ [u] \<and> name_of s' u = name \<and> (\<forall>w \<in> set (entries_of s c). name_of s' w = name_of s w)"
proof -
  let ?p = "path_dev @ 0x2F # name"
  have p: "points s ?p c name" by (rule dev_points [OF d name])
  have c: "dir_ok R s c" "v_mount (vnodes s c) = NULL" and r: "root_ok R s r" "dir_ok R s r" using d by (auto simp: dev_tree_def root_ok_def)
  have fresh: "\<forall>v \<in> set (entries_of s c). name_of s v \<noteq> name" using may by (simp add: may_create_def)
  have cr: "creating O_CREAT" by (simp add: creating_def O_CREAT_def)
  have lf: "pages_left (h_mm (fs_heap s)) (Suc n + 3 + 3)" using left by (simp add: eval_nat_numeral)
  from open_missing [where put = local_target and ?s0.0 = s, OF p c(1) fresh inv lf cr] obtain q k h where
    o: "vfs_open L local_target ?p O_CREAT s =
       (case tmpfs_create L c name (s\<lparr>fs_heap := h\<rparr>) of
          None \<Rightarrow> None
        | Some (r, v, s1) \<Rightarrow> (case fs_free L q s1 of None \<Rightarrow> None | Some s2 \<Rightarrow> open_vnode L local_target v O_CREAT s2))"
      "heap_inv L M h ((q, k) # R)" "pages_left (h_mm h) (Suc n + 3)" "q mod PAGE_SIZE \<noteq> 0" "0 < k" by auto
  have "dir_ok R (s\<lparr>fs_heap := h\<rparr>) c" "may_create (s\<lparr>fs_heap := h\<rparr>) c name"
    "heap_inv L M (fs_heap (s\<lparr>fs_heap := h\<rparr>)) ((q, k) # R)" "pages_left (h_mm (fs_heap (s\<lparr>fs_heap := h\<rparr>))) (Suc n + 3)"
    using c may o(2,3) by simp_all
  from create_with_copy [OF this(1,2) name(1,5) this(3) o(4,5) this(4), of NODE_FILE] obtain u s1 R' h1 where
    t: "tmpfs_create L c name (s\<lparr>fs_heap := h\<rparr>) = Some (0, u, s1)" "fs_free L q s1 = Some (s1\<lparr>fs_heap := h1\<rparr>)"
      "heap_inv L M h1 R'" "pages_left (h_mm h1) (Suc n)" and cr: "created R s c name NODE_FILE u R' (s1\<lparr>fs_heap := h1\<rparr>)"
    by (auto simp: tmpfs_create_def)
  let ?s2 = "s1\<lparr>fs_heap := h1\<rparr>"
  have u: "u \<noteq> NULL" "\<not> owned R u" "u \<noteq> c" using cr by (simp_all add: created_def)
  have uf: "f_ops (vnodes ?s2 u) = TMPFS_F" "v_mount (vnodes ?s2 u) = NULL" using created_fields [OF cr] c(2) by simp_all
  have "heap_inv L M (fs_heap ?s2) R'" "pages_left (h_mm (fs_heap ?s2)) (Suc n)" using t(3,4) by simp_all
  from open_vnode_ok [OF this u(1) uf(1), of local_target "\<lambda>_ t. t" O_CREAT] obtain fp kf h3 where
    f: "open_vnode L local_target u O_CREAT ?s2 =
      Some (0, fp, ?s2\<lparr>fs_heap := h3, files := (files ?s2)(fp := \<lparr>f_vnode = u, f_pos = 0, f_fops = TMPFS_F, f_flags = O_CREAT\<rparr>)\<rparr>)"
      "fp \<noteq> NULL" "heap_inv L M h3 ((fp, kf) # R')" "pages_left (h_mm h3) n" by auto
  let ?s3 = "?s2\<lparr>fs_heap := h3, files := (files ?s2)(fp := \<lparr>f_vnode = u, f_pos = 0, f_fops = TMPFS_F, f_flags = O_CREAT\<rparr>)\<rparr>"
  let ?s4 = "upd_vnode u (\<lambda>v. v\<lparr>f_ops := ops\<rparr>) ?s3"
  let ?s' = "upd_file fp (\<lambda>f. f\<lparr>f_vnode := NULL, f_pos := 0, f_fops := F_NULL, f_flags := 0\<rparr>) ?s4"
  have op: "vfs_open L local_target ?p O_CREAT s = Some (0, fp, ?s3)" using o(1) t(1,2) f(1) by simp
  have e: "vfs_mknod L ?p ops s = Some (0, ?s')"
    using f(2) by (simp add: vfs_mknod_def op vfs_close_def tmpfs_close_def upd_vnode_def)
  have v': "vnodes ?s' = (vnodes ?s2)(u := (vnodes ?s2 u)\<lparr>f_ops := ops\<rparr>)" "fsnodes ?s' = fsnodes ?s2" "mounts ?s' = mounts ?s2"
    "rootfs ?s' = rootfs ?s2" "fs_heap ?s' = h3" "env_of ?s' = env_of ?s2" by (simp_all add: upd_vnode_def upd_file_def)
  define s' where "s' = ?s'"
  define s2 where "s2 = ?s2"
  note F = v' [folded s'_def s2_def] and E = e [folded s'_def] and cr' = cr [folded s2_def] and uf' = uf [folded s2_def]
  have in': "internal (vnodes s' x) = internal (vnodes s2 x)" for x using F(1) by simp
  have same: "entries_of s' x = entries_of s2 x" "name_of s' x = name_of s2 x" for x
    by (simp_all add: entries_of_def name_of_def in' F(2))
  have lk: "tmpfs_lookup x m s' = tmpfs_lookup x m s2" for x m
  proof -
    have "find_child s' m vs = find_child s2 m vs" for vs by (induction vs) (simp_all add: in' F(2))
    then show ?thesis by (simp add: tmpfs_lookup_def in' F(2) cong: if_cong)
  qed
  have dok: "dir_ok R' s2 x \<Longrightarrow> dir_ok R' s' x" for x by (simp add: dir_ok_def same in' F(2))
  have keep: "keeps_owned R s s' {internal (vnodes s c)}"
    using created_keeps [OF cr'] u(2) F by (auto simp: keeps_owned_def)
  have sub: "set R \<subseteq> set R'" using cr' by (simp add: created_def)
  have nm: "internal (vnodes s w) \<notin> {internal (vnodes s c)} \<or> name_of s' w = name_of s w" if "w \<in> set (entries_of s r)" for w
  proof (cases "internal (vnodes s w) = internal (vnodes s c)")
    case True
    have "owned R w" "owned R c" using r(2) c(1) that by (auto simp: dir_ok_def)
    then have "vnodes s2 w = vnodes s w" "vnodes s2 c = vnodes s c" using cr' by (simp_all add: created_def)
    then have "name_of s2 w = name_of s2 c" "name_of s w = name_of s c" using True by (simp_all add: name_of_def)
    then show ?thesis using same cr' by (simp add: created_def)
  qed simp
  have "internal (vnodes s r) \<notin> {internal (vnodes s c)}" using d by (auto simp: dev_tree_def)
  note rk = lookup_keeps [OF r(2) keep sub this nm]
  have rfs: "rootfs s' = rootfs s" "the_root s' = the_root s" using cr' F by (simp_all add: created_def same_rest_def the_root_def)
  have ok: "root_ok R' s' r"
    using r rk rfs owned_mono [OF _ sub] by (simp add: root_ok_def)
  have vc: "vnodes s' c = vnodes s c" using cr' F(1) u(3) c(1) by (simp add: created_def dir_ok_def)
  have tr: "dev_tree R' s' r c"
    using ok rk vc d dok [of c] cr' by (simp add: dev_tree_def created_def)
  have lc: "tmpfs_lookup c m s' = (if m = name then (0, u) else tmpfs_lookup c m s)" for m
    unfolding lk by (rule lookup_created [OF c(1) cr' fresh])
  have "owned R' u" using cr' by (auto simp: created_def dir_ok_def)
  moreover have "heap_inv L M h3 R'" by (rule heap_inv_sub [OF f(3)]) (use heap_inv_distinct [OF t(3)] in auto)
  moreover have "env_of s' = env_of s" using cr' F(6) by (simp add: created_def same_rest_def)
  moreover have "v_mount (vnodes s' u) = NULL" "f_ops (vnodes s' u) = ops" using F(1) uf'(2) by simp_all
  moreover have "entries_of s' c = entries_of s c @ [u]" "name_of s' u = name" "\<forall>w \<in> set (entries_of s c). name_of s' w = name_of s w"
    using cr' same by (simp_all add: created_def)
  ultimately show ?thesis using E f(4) F(5) sub tr keep lc rk u(1)
    by - (rule exI [of _ s'], rule exI [of _ u], rule exI [of _ R'], auto)
qed

subsection \<open>The RAM disk\<close>

text \<open>The root \<open>r\<close> has the mount point \<open>a\<close>, where the RAM disk with the vnode \<open>b\<close>, the node \<open>j\<close> and the files \<open>es\<close> is mounted.\<close>

definition ram_tree :: "region list \<Rightarrow> fs \<Rightarrow> addr \<Rightarrow> addr \<Rightarrow> addr \<Rightarrow> addr \<Rightarrow> (byte list \<times> byte list) list \<Rightarrow> bool" where
  "ram_tree R s r a b j es \<longleftrightarrow> tmpfs_lookup r name_initramfs s = (0, a) \<and> owned R a \<and> ram_root R s a b j \<and>
     n_type (fsnodes s j) = NODE_DIRECTORY \<and> list_all2 (ram_file R s b) (entries_of s b) es \<and> j \<noteq> internal (vnodes s r)"

lemma ram_file_owned:
  assumes f: "ram_file R s b v e" and k: "keeps_owned R s s' {k}" "env_of s' = env_of s" and sub: "set R \<subseteq> set Q"
    and d: "n_type (fsnodes s k) = NODE_DIRECTORY"
  shows "ram_file Q s' b v e"
proof -
  have "internal (vnodes s v) \<noteq> k" using f d by (auto simp: ram_file_def Let_def)
  then have "vnodes s' v = vnodes s v" "fsnodes s' (internal (vnodes s v)) = fsnodes s (internal (vnodes s v))" "fs_mem s' = fs_mem s"
    using f k by (simp_all add: ram_file_def keeps_owned_def fs_mem_def)
  then show ?thesis using f owned_mono [OF _ sub] sub by (auto simp: ram_file_def Let_def)
qed

lemma ram_keeps:
  assumes t: "ram_tree R s r a b j es" and k: "keeps_owned R s s' {k}" "env_of s' = env_of s" and sub: "set R \<subseteq> set Q"
    and d: "n_type (fsnodes s k) = NODE_DIRECTORY" "k \<noteq> j" and l: "tmpfs_lookup r name_initramfs s' = (0, a)" and r: "owned R r"
  shows "ram_tree Q s' r a b j es"
proof -
  have o: "owned R a" "owned R b" "owned R j" "owned R (v_mount (vnodes s a))" "internal (vnodes s b) = j"
    using t by (simp_all add: ram_tree_def ram_root_def)
  have e: "vnodes s' a = vnodes s a" "vnodes s' b = vnodes s b" "vnodes s' r = vnodes s r" "fsnodes s' j = fsnodes s j"
    "mounts s' (v_mount (vnodes s a)) = mounts s (v_mount (vnodes s a))" using o r k d(2) by (simp_all add: keeps_owned_def)
  have "entries_of s' b = entries_of s b" by (simp add: entries_of_def e o(5))
  moreover have "list_all2 (ram_file Q s' b) (entries_of s b) es"
    using t ram_file_owned [OF _ k sub d(1)] by (auto simp: ram_tree_def intro: list_all2_mono)
  ultimately show ?thesis using t l owned_mono [OF _ sub] by (simp add: ram_tree_def ram_root_def e)
qed

lemma ram_file_mount:
  assumes "ram_file R s b v e"
  shows "v_mount (vnodes s v) = NULL"
proof -
  have v: "vnodes s v = \<lparr>v_mount = NULL, v_ops = INITRAMFS_V, f_ops = INITRAMFS_F, internal = internal (vnodes s v), v_parent = b, parent_is_mount = False\<rparr>"
    using assms by (simp only: ram_file_def)
  show ?thesis using arg_cong [OF v, of v_mount] by simp
qed

lemma ram_find:
  "list_all2 (ram_file R s b) vs es \<Longrightarrow> map_of es name = Some content \<Longrightarrow>
   \<exists>v. find (\<lambda>v. name_of s v = name) vs = Some v \<and> ram_file R s b v (name, content)"
proof (induction rule: list_all2_induct)
  case (Cons v vs e es)
  then show ?case by (cases e) (auto simp: ram_file_def name_of_def Let_def split: if_splits)
qed simp

lemma ram_resolves:
  assumes t: "ram_tree R s r a b j es" and r: "root_ok R s r" and name: "name \<noteq> []" "0x2F \<notin> set name" "name \<noteq> dot" "name \<noteq> dotdot"
    and m: "map_of es name = Some content"
  shows "\<exists>v. resolve s (path_initramfs @ 0x2F # name) = (0, v) \<and> ram_file R s b v (name, content)"
proof -
  obtain v where v: "find (\<lambda>v. name_of s v = name) (entries_of s b) = Some v" "ram_file R s b v (name, content)"
    using ram_find [OF _ m, of R s b "entries_of s b"] t unfolding ram_tree_def by blast
  have b: "vnodes s b = \<lparr>v_mount = NULL, v_ops = INITRAMFS_V, f_ops = INITRAMFS_F, internal = j, v_parent = a, parent_is_mount = True\<rparr>"
    "b \<noteq> NULL" "j \<noteq> NULL" "v_mount (vnodes s a) \<noteq> NULL" "m_root (mounts s (v_mount (vnodes s a))) = b"
    using t by (simp_all add: ram_tree_def ram_root_def)
  have "initramfs_lookup b name s = (0, v)"
    using t v(1) b by (simp add: initramfs_lookup_def Let_def find_child_eq ram_tree_def entries_of_def)
  moreover have "v_mount (vnodes s v) = NULL"
    using ram_file_mount [OF v(2)] .
  moreover have "tmpfs_lookup r name_initramfs s = (0, a)" using t by (simp add: ram_tree_def)
  moreover have "components (path_initramfs @ 0x2F # name) = [name_initramfs, name]"
  proof -
    have "components path_initramfs = [name_initramfs]"
      using components_word [of name_initramfs] by (simp add: path_initramfs_def)
    then show ?thesis using components_word [OF name(1,2)] by (simp add: components_append)
  qed
  moreover have "is_absolute (path_initramfs @ 0x2F # name)" "name_initramfs \<noteq> dot" "name_initramfs \<noteq> dotdot"
    by (simp_all add: is_absolute_def path_initramfs_def)
  moreover have "the_root s = r" "v_ops (vnodes s r) = TMPFS_V" "v_mount (vnodes s r) = NULL" using r by (simp_all add: root_ok_def)
  ultimately have "resolve s (path_initramfs @ 0x2F # name) = (0, v)"
    using name b by (simp add: resolve_def vop_lookup_def enter_mount_def)
  then show ?thesis using v(2) by blast
qed

end
