(* ===== verification/BootInit.thy ===== *)
theory BootInit
  imports BootTree
begin

section \<open>\<open>vfs_init\<close>\<close>

text \<open>The steps of \<open>vfs_init\<close> up to the root, and from there up to the mount of the RAM disk, as functions of their own.\<close>

definition boot_root :: "layout \<Rightarrow> fs \<Rightarrow> fs option" where
  "boot_root L s = do {
     (r0, s1) \<leftarrow> register_tmpfs s;
     (root, s2) \<leftarrow> fs_alloc MOUNT_SIZE s1;
     let s3 = s2\<lparr>rootfs := root\<rparr>;
     if root = NULL then None
     else do {
       (r1, s4) \<leftarrow> setup_mount_call L (filesystems s3 0) root s3;
       if the_root s4 = NULL then None else Some (upd_vnode (the_root s4) (\<lambda>v. v\<lparr>v_parent := NULL\<rparr>) s4)
     }
   }"

definition boot_ramdisk :: "layout \<Rightarrow> fs \<Rightarrow> (addr \<times> fs) option" where
  "boot_ramdisk L s5 = do {
     (r2, s6) \<leftarrow> vfs_mkdir L path_initramfs s5;
     (r3, s7) \<leftarrow> register_initramfs s6;
     (r4, s8) \<leftarrow> vfs_mount L path_initramfs name_initramfs s7;
     (r5, v, s9) \<leftarrow> vfs_lookup L local_target path_initramfs s8;
     if v = NULL then None else Some (v, s9)
   }"

lemma vfs_init_stages:
  assumes "boot_root L s = Some s5" "boot_ramdisk L s5 = Some (v, s9)" "initramfs_init pad h v s9 = Some s10"
    and "vfs_mkdir L path_dev s10 = Some (r6, s11)" "vfs_mknod L path_dev_uart UART_F s11 = Some (r7, s12)"
      "vfs_mknod L path_dev_framebuffer FRAMEBUFFER_F s12 = Some (r8, s13)"
  shows "vfs_init L pad h s = Some s13"
proof -
  obtain r0 s1 root s2 r1 s4 where a: "register_tmpfs s = Some (r0, s1)" "fs_alloc MOUNT_SIZE s1 = Some (root, s2)" "root \<noteq> NULL"
    "setup_mount_call L (filesystems s2 0) root (s2\<lparr>rootfs := root\<rparr>) = Some (r1, s4)" "the_root s4 \<noteq> NULL"
    "s5 = upd_vnode (the_root s4) (\<lambda>v. v\<lparr>v_parent := NULL\<rparr>) s4"
    using assms(1) by (auto simp: boot_root_def Let_def bind_eq_Some_conv split: if_splits)
  obtain r2 s6 r3 s7 r4 s8 r5 where b: "vfs_mkdir L path_initramfs s5 = Some (r2, s6)" "register_initramfs s6 = Some (r3, s7)"
    "vfs_mount L path_initramfs name_initramfs s7 = Some (r4, s8)" "vfs_lookup L local_target path_initramfs s8 = Some (r5, v, s9)" "v \<noteq> NULL"
    using assms(2) by (auto simp: boot_ramdisk_def bind_eq_Some_conv split: if_splits)
  show ?thesis unfolding vfs_init_def using a b assms(3-6) by (simp add: Let_def)
qed

lemma names: "path_initramfs = 0x2F # name_initramfs" "name_initramfs \<noteq> []" "0x2F \<notin> set name_initramfs" "name_initramfs \<noteq> dot"
  "name_initramfs \<noteq> dotdot" "length name_initramfs < MAX_FILE_NAME" "length path_initramfs < 128"
  "path_dev = 0x2F # name_dev" "name_dev \<noteq> []" "0x2F \<notin> set name_dev" "name_dev \<noteq> dot" "name_dev \<noteq> dotdot" "length name_dev < MAX_FILE_NAME"
  "name_dev \<noteq> name_initramfs"
  by (simp_all add: path_initramfs_def path_dev_def MAX_FILE_NAME_def)

abbreviation name_tmpfs :: "byte list" where "name_tmpfs \<equiv> [0x74, 0x6D, 0x70, 0x66, 0x73]"

lemma boot_root_ok:
  assumes inv: "heap_inv L M (fs_heap s) R" and left: "pages_left (h_mm (fs_heap s)) (n + 5)" and num: "num_filesystems s = 0"
  shows "\<exists>s5 r Q. boot_root L s = Some s5 \<and> heap_inv L M (fs_heap s5) Q \<and> pages_left (h_mm (fs_heap s5)) n \<and> set R \<subseteq> set Q \<and>
     root_ok Q s5 r \<and> entries_of s5 r = [] \<and> env_of s5 = env_of s \<and> num_filesystems s5 = 1 \<and> owned Q (filesystems s5 0) \<and>
     fs_name (fstypes s5 (filesystems s5 0)) = name_tmpfs \<and> (\<forall>i. \<not> owned Q i \<longrightarrow> fsnodes s5 i = fsnodes s i)"
proof -
  have "pages_left (h_mm (fs_heap s)) (Suc (n + 4))" "num_filesystems s < MAX_FILESYSTEMS"
    using left num by (simp_all add: eval_nat_numeral MAX_FILESYSTEMS_def)
  from register_ok [OF inv this, of name_tmpfs TMPFS_M] num obtain f k h where
    f: "register_tmpfs s = Some (0, s\<lparr>fs_heap := h, fstypes := (fstypes s)(f := \<lparr>fs_name = name_tmpfs, setup_mount = TMPFS_M\<rparr>),
       filesystems := (filesystems s)(0 := f), num_filesystems := 1\<rparr>)" "f \<noteq> NULL" "0 < k" "heap_inv L M h ((f, k) # R)" "pages_left (h_mm h) (n + 4)"
    by (auto simp: register_tmpfs_def)
  let ?s1 = "s\<lparr>fs_heap := h, fstypes := (fstypes s)(f := \<lparr>fs_name = name_tmpfs, setup_mount = TMPFS_M\<rparr>),
       filesystems := (filesystems s)(0 := f), num_filesystems := 1\<rparr>"
  have "heap_inv L M (fs_heap ?s1) ((f, k) # R)" "pages_left (h_mm (fs_heap ?s1)) (Suc (n + 3))" using f(4,5) by (simp_all add: eval_nat_numeral)
  from fs_alloc_left [OF this, of MOUNT_SIZE] obtain m l h2 where
    m: "fs_alloc MOUNT_SIZE ?s1 = Some (m, ?s1\<lparr>fs_heap := h2\<rparr>)" "m \<noteq> NULL" "0 < l" "heap_inv L M h2 ((m, l) # (f, k) # R)" "pages_left (h_mm h2) (n + 3)"
    by (auto simp: MOUNT_SIZE_def)
  let ?s3 = "?s1\<lparr>fs_heap := h2, rootfs := m\<rparr>" and ?R = "(m, l) # (f, k) # R"
  have "heap_inv L M (fs_heap ?s3) ?R" "pages_left (h_mm (fs_heap ?s3)) (n + 3)" "rootfs ?s3 = m" "owned ?R m" using m(3-5) by simp_all
  from tmpfs_root_ok [OF this(1,2) f(2) m(2) this(3,4)] obtain s4 r Q where
    r: "tmpfs_setup_mount L f m ?s3 = Some (0, s4)" "heap_inv L M (fs_heap s4) Q" "pages_left (h_mm (fs_heap s4)) n" "set ?R \<subseteq> set Q"
      "r \<noteq> NULL" "the_root s4 = r" "root_ok Q (upd_vnode r (\<lambda>v. v\<lparr>v_parent := NULL\<rparr>) s4) r"
      "entries_of (upd_vnode r (\<lambda>v. v\<lparr>v_parent := NULL\<rparr>) s4) r = []" "env_of s4 = env_of ?s3" "fstypes s4 = fstypes ?s3"
      "filesystems s4 = filesystems ?s3" "num_filesystems s4 = num_filesystems ?s3" "\<forall>j. \<not> owned Q j \<longrightarrow> fsnodes s4 j = fsnodes ?s3 j" by blast
  let ?s5 = "upd_vnode r (\<lambda>v. v\<lparr>v_parent := NULL\<rparr>) s4"
  have b: "boot_root L s = Some ?s5"
    using f(1) m(1,2) r(1,5,6) by (simp add: boot_root_def Let_def setup_mount_call_def)
  have fs: "env_of ?s5 = env_of s" "filesystems ?s5 0 = f" "fs_name (fstypes ?s5 f) = name_tmpfs" "num_filesystems ?s5 = 1"
    "fs_heap ?s5 = fs_heap s4" "fsnodes ?s5 = fsnodes s4" using r(9-12) by (simp_all add: upd_vnode_def)
  have "\<forall>i. \<not> owned Q i \<longrightarrow> fsnodes s4 i = fsnodes s i" using r(13) by simp
  moreover have "owned Q f" using f(3) r(4) by (auto simp: owned_def)
  ultimately show ?thesis using b r(2-4,7,8) fs
    by - (rule exI [of _ ?s5], rule exI [of _ r], rule exI [of _ Q], simp)
qed

lemma resolve_tree: "same_tree s s' \<Longrightarrow> is_absolute p \<Longrightarrow> resolve s' p = resolve s p"
  using walk_tree [of s s'] by (simp add: resolve_def same_tree_def the_root_def)

lemma path_absolute: "is_absolute path_initramfs" "is_absolute path_dev"
  by (simp_all add: is_absolute_def path_initramfs_def path_dev_def)

text \<open>The state between the two halves of the mount: the new file system type is known, the directory is there.\<close>

lemma boot_ramdisk_dir:
  assumes root: "root_ok R s r" "entries_of s r = []" and inv: "heap_inv L M (fs_heap s) R" and left: "pages_left (h_mm (fs_heap s)) (n + 6)"
    and cur: "current s \<noteq> NULL"
    and num: "num_filesystems s = 1" "owned R (filesystems s 0)" "fs_name (fstypes s (filesystems s 0)) = name_tmpfs"
  shows "\<exists>s6 s7 a f Q Q'. vfs_mkdir L path_initramfs s = Some (0, s6) \<and> created R s r name_initramfs NODE_DIRECTORY a Q s6 \<and>
     register_initramfs s6 = Some (0, s7) \<and> same_tree s6 s7 \<and> env_of s7 = env_of s \<and> heap_inv L M (fs_heap s7) Q' \<and>
     pages_left (h_mm (fs_heap s7)) n \<and> set Q \<subseteq> set Q' \<and>
     find_filesystem s7 name_initramfs (map (filesystems s7) [0..<num_filesystems s7]) = f \<and> f \<noteq> NULL \<and> setup_mount (fstypes s7 f) = INITRAMFS_M"
proof -
  have d: "dir_ok R s r" "may_create s r name_initramfs" using root by (simp_all add: root_ok_def may_create_def MAX_CHILDREN_def)
  have p: "points s path_initramfs r name_initramfs"
    using leads_points [OF root_leads [OF root(1) names(2-6)]] names(1) by simp
  have "pages_left (h_mm (fs_heap s)) (n + 1 + 5)" using left by (simp add: eval_nat_numeral)
  from mkdir_ok [OF p d inv this cur] obtain a s6 Q where
    k: "vfs_mkdir L path_initramfs s = Some (0, s6)" "heap_inv L M (fs_heap s6) Q" "pages_left (h_mm (fs_heap s6)) (n + 1)"
      "created R s r name_initramfs NODE_DIRECTORY a Q s6" by blast
  have rest: "fstypes s6 = fstypes s" "filesystems s6 = filesystems s" "num_filesystems s6 = 1" "env_of s6 = env_of s" and sub: "set R \<subseteq> set Q"
    using k(4) num(1) by (simp_all add: created_def same_rest_def)
  have o: "owned Q (filesystems s 0)" by (rule owned_mono [OF num(2) sub])
  have "pages_left (h_mm (fs_heap s6)) (Suc n)" "num_filesystems s6 < MAX_FILESYSTEMS" using k(3) rest(3) by (simp_all add: MAX_FILESYSTEMS_def)
  from register_ok [OF k(2) this, of name_initramfs INITRAMFS_M] obtain f l h where
    f: "register_initramfs s6 = Some (0, s6\<lparr>fs_heap := h, fstypes := (fstypes s6)(f := \<lparr>fs_name = name_initramfs, setup_mount = INITRAMFS_M\<rparr>),
       filesystems := (filesystems s6)(Suc 0 := f), num_filesystems := Suc (Suc 0)\<rparr>)" "f \<noteq> NULL" "\<not> owned Q f" "heap_inv L M h ((f, l) # Q)" "pages_left (h_mm h) n"
    using o num(3) rest by (auto simp: register_initramfs_def path_initramfs_def)
  let ?s7 = "s6\<lparr>fs_heap := h, fstypes := (fstypes s6)(f := \<lparr>fs_name = name_initramfs, setup_mount = INITRAMFS_M\<rparr>),
       filesystems := (filesystems s6)(Suc 0 := f), num_filesystems := Suc (Suc 0)\<rparr>"
  have "f \<noteq> filesystems s 0" using f(3) o by blast
  then have "find_filesystem ?s7 name_initramfs (map (filesystems ?s7) [0..<num_filesystems ?s7]) = f"
    using num(3) rest by (simp add: path_initramfs_def)
  moreover have "same_tree s6 ?s7" by (simp add: same_tree_def)
  moreover have "set Q \<subseteq> set ((f, l) # Q)" by auto
  ultimately show ?thesis using k(1,4) f rest(4)
    by - (rule exI [of _ s6], rule exI [of _ ?s7], rule exI [of _ a], rule exI [of _ f], rule exI [of _ Q], rule exI [of _ "(f, l) # Q"], simp)
qed

lemma boot_ramdisk_ok:
  assumes root: "root_ok R s r" "entries_of s r = []" and inv: "heap_inv L M (fs_heap s) R" and left: "pages_left (h_mm (fs_heap s)) (n + 11)"
    and cur: "current s \<noteq> NULL"
    and num: "num_filesystems s = 1" "owned R (filesystems s 0)" "fs_name (fstypes s (filesystems s 0)) = name_tmpfs"
  shows "\<exists>s9 a b j Q. boot_ramdisk L s = Some (b, s9) \<and> heap_inv L M (fs_heap s9) Q \<and> pages_left (h_mm (fs_heap s9)) n \<and> set R \<subseteq> set Q \<and>
     root_ok Q s9 r \<and> entries_of s9 r = [a] \<and> name_of s9 a = name_initramfs \<and> owned Q a \<and> ram_root Q s9 a b j \<and>
     j \<noteq> internal (vnodes s9 r) \<and> internal (vnodes s9 a) \<noteq> j \<and> \<not> owned R j \<and> fsnodes s9 j = fsnodes s j \<and> env_of s9 = env_of s"
proof -
  have "pages_left (h_mm (fs_heap s)) (n + 5 + 6)" using left by (simp add: eval_nat_numeral)
  from boot_ramdisk_dir [OF root inv this cur num] obtain s6 s7 a f Q0 Q7 where
    k: "vfs_mkdir L path_initramfs s = Some (0, s6)" "created R s r name_initramfs NODE_DIRECTORY a Q0 s6"
     "register_initramfs s6 = Some (0, s7)" "same_tree s6 s7" "env_of s7 = env_of s" "heap_inv L M (fs_heap s7) Q7"
     "pages_left (h_mm (fs_heap s7)) (n + 5)" "set Q0 \<subseteq> set Q7"
     "find_filesystem s7 name_initramfs (map (filesystems s7) [0..<num_filesystems s7]) = f" "f \<noteq> NULL" "setup_mount (fstypes s7 f) = INITRAMFS_M" by blast
  have T: "vnodes s7 = vnodes s6" "fsnodes s7 = fsnodes s6" "rootfs s7 = rootfs s6" "the_root s7 = the_root s6" using k(4) by (simp_all add: same_tree_def the_root_def)
  have r6: "root_ok Q0 s6 r" by (rule root_created [OF root(1) k(2)])
  have d: "dir_ok R s r" "may_create s r name_initramfs" using root by (simp_all add: root_ok_def may_create_def MAX_CHILDREN_def)
  have a: "vnodes s6 a = \<lparr>v_mount = v_mount (vnodes s r), v_ops = TMPFS_V, f_ops = TMPFS_F, internal = internal (vnodes s6 a), v_parent = r, parent_is_mount = False\<rparr>"
    "a \<noteq> r" "name_of s6 a = name_initramfs" "entries_of s6 r = [a]" using k(2) root(2) by (simp_all only: created_def append_Nil simp_thms)
  have am: "v_ops (vnodes s7 a) \<noteq> V_NULL" "v_mount (vnodes s7 a) = NULL" "\<not> parent_is_mount (vnodes s7 a)"
    using arg_cong [OF a(1), of v_ops] arg_cong [OF a(1), of v_mount] arg_cong [OF a(1), of parent_is_mount] root(1) by (simp_all add: T root_ok_def)
  have aq: "owned Q0 a" "owned Q0 (internal (vnodes s6 a))" using r6 a(4) by (auto simp: root_ok_def dir_ok_def)
  have "leads s path_initramfs r name_initramfs" using root_leads [OF root(1) names(2-6)] names(1) by simp
  from created_resolves [OF this d k(2)] have res: "resolve s7 path_initramfs = (0, a)"
    using resolve_tree [OF k(4) path_absolute(1)] by simp
  have "pages_left (h_mm (fs_heap s7)) (n + 1 + 4)" using k(7) by (simp add: eval_nat_numeral)
  from mount_ok [OF k(6) this names(7) absolute_startable [OF path_absolute(1)] k(9-11) res owned_mono [OF aq(1) k(8)] am] obtain s8 b j m Q where
    m: "vfs_mount L path_initramfs name_initramfs s7 = Some (0, s8)" "heap_inv L M (fs_heap s8) Q" "pages_left (h_mm (fs_heap s8)) (n + 1)"
     "set Q7 \<subseteq> set Q" "ram_root Q s8 a b j" "\<not> owned Q7 b" "\<not> owned Q7 j" "vnodes s8 a = (vnodes s7 a)\<lparr>v_mount := m\<rparr>"
     "\<forall>u. owned Q7 u \<and> u \<noteq> a \<longrightarrow> vnodes s8 u = vnodes s7 u" "\<forall>u. owned Q7 u \<longrightarrow> mounts s8 u = mounts s7 u"
     "fsnodes s8 = fsnodes s7" "rootfs s8 = rootfs s7" "env_of s8 = env_of s7" by blast
  have sub: "set Q0 \<subseteq> set Q" "set R \<subseteq> set Q" "set R \<subseteq> set Q7" using k(2,8) m(4) by (auto simp: created_def)
  have ro: "owned Q0 r" "owned Q0 (rootfs s6)" "owned Q0 (internal (vnodes s6 r))" "owned R (internal (vnodes s r))" "vnodes s6 r = vnodes s r"
    using r6 d(1) k(2) by (simp_all add: root_ok_def dir_ok_def created_def)
  have v8: "vnodes s8 r = vnodes s6 r" "internal (vnodes s8 a) = internal (vnodes s6 a)" "the_root s8 = the_root s6"
    using m(8-10,12) a(2) owned_mono [OF _ k(8)] ro(1,2) T by (simp_all add: the_root_def)
  have en: "entries_of s8 r = [a]" "name_of s8 a = name_initramfs"
    using a(3,4) by (simp_all add: entries_of_def name_of_def v8 m(11) T)
  have o8: "owned Q r" "owned Q (internal (vnodes s8 r))" "owned Q a" "owned Q (internal (vnodes s8 a))" "owned Q (rootfs s6)"
    unfolding v8 using owned_mono [OF _ sub(1)] aq ro by blast+
  have "root_ok Q s8 r"
    using r6 o8 by (simp add: root_ok_def dir_ok_def en(1) v8 m(11,12) T)
  moreover have jr: "j \<noteq> internal (vnodes s6 r)" "internal (vnodes s6 a) \<noteq> j" "\<not> owned R j" "\<not> owned Q0 j"
    using m(7) owned_mono [OF _ k(8)] owned_mono [OF _ sub(3)] ro(3) aq(2) by blast+
  moreover have "fsnodes s8 j = fsnodes s j" using k(2) jr ro(5) by (simp add: m(11) T created_def)
  moreover obtain h9 where "vfs_lookup L local_target path_initramfs s8 = Some (0, b, s8\<lparr>fs_heap := h9\<rparr>)" "heap_inv L M h9 Q" "pages_left (h_mm h9) n"
  proof -
    have "pages_left (h_mm (fs_heap s8)) (Suc n)" using m(3) by simp
    moreover have "leads s8 path_initramfs r name_initramfs"
      using root_leads [OF \<open>root_ok Q s8 r\<close> names(2-6)] names(1) by simp
    moreover have "tmpfs_lookup r name_initramfs s8 = (0, a)"
      using lookup_eq [of Q s8 r name_initramfs] \<open>root_ok Q s8 r\<close> en by (simp add: root_ok_def)
    ultimately have "resolve s8 path_initramfs = (0, b)" using leads_resolve m(5) by (simp add: enter_mount_def ram_root_def)
    then show ?thesis using vfs_lookup_local [OF m(2) \<open>pages_left (h_mm (fs_heap s8)) (Suc n)\<close> names(7) absolute_startable [OF path_absolute(1)]] that by auto
  qed
  moreover have "b \<noteq> NULL" using m(5) by (simp add: ram_root_def)
  ultimately have "boot_ramdisk L s = Some (b, s8\<lparr>fs_heap := h9\<rparr>)" using k(1,3) m(1) by (simp add: boot_ramdisk_def)
  moreover have "root_ok Q (s8\<lparr>fs_heap := h9\<rparr>) r" "ram_root Q (s8\<lparr>fs_heap := h9\<rparr>) a b j"
    using \<open>root_ok Q s8 r\<close> m(5) by (simp_all add: root_ok_def ram_root_def)
  ultimately show ?thesis
    using \<open>heap_inv L M h9 Q\<close> \<open>pages_left (h_mm h9) n\<close> sub(2) en owned_mono [OF aq(1) sub(1)] jr v8 \<open>fsnodes s8 j = fsnodes s j\<close> m(13) k(5)
    by - (rule exI [of _ "s8\<lparr>fs_heap := h9\<rparr>"], rule exI [of _ a], rule exI [of _ b], rule exI [of _ j], rule exI [of _ Q], simp)
qed

subsection \<open>Files and devices\<close>

lemma boot_files_ok:
  assumes root: "root_ok R s r" "entries_of s r = [a]" "name_of s a = name_initramfs" and a: "owned R a" "internal (vnodes s a) \<noteq> j"
    and ram: "ram_root R s a b j" "j \<noteq> internal (vnodes s r)" "num_children (fsnodes s j) = 0"
    and arch: "archive (fs_mem s) h es" "{h ..< archive_end h es} \<inter> page_bytes M = {}" "loadable es" "length es \<le> MAX_CHILDREN"
    and inv: "heap_inv L M (fs_heap s) R" and left: "pages_left (h_mm (fs_heap s)) (n + 3 * length es)"
  shows "\<exists>s' Q. initramfs_init 0 h b s = Some s' \<and> heap_inv L M (fs_heap s') Q \<and> pages_left (h_mm (fs_heap s')) n \<and> set R \<subseteq> set Q \<and>
     root_ok Q s' r \<and> entries_of s' r = [a] \<and> name_of s' a = name_initramfs \<and> ram_tree Q s' r a b j es \<and>
     current s' = current s \<and> (\<forall>x. x \<notin> page_bytes M \<longrightarrow> fs_mem s' x = fs_mem s x)"
proof -
  let ?s = "upd_node j (\<lambda>n. n\<lparr>n_type := NODE_DIRECTORY\<rparr>) s"
  have o: "owned R b" "owned R j" "internal (vnodes s b) = j" "owned R (v_mount (vnodes s a))" "internal (vnodes ?s b) = j"
    using ram(1) by (simp_all add: ram_root_def)
  have "archive (fs_mem ?s) h es" "heap_inv L M (fs_heap ?s) R" "pages_left (h_mm (fs_heap ?s)) (n + 3 * length es)"
    "num_children (fsnodes ?s j) + length es \<le> MAX_CHILDREN" using arch(1,4) inv left ram(3) by (simp_all add: fs_mem_def upd_node_def)
  from initramfs_fill_ok [OF this(1) arch(2,3) this(2,3) o(1,2,5) this(4)] obtain s' vs Q where
    f: "initramfs_fill 0 b h ?s = Some s'" "heap_inv L M (fs_heap s') Q" "pages_left (h_mm (fs_heap s')) n" "set R \<subseteq> set Q"
     "list_all2 (ram_file Q s' b) vs es" "fill_keeps R M j ?s s'" "entries_of s' b = entries_of ?s b @ vs"
     "num_children (fsnodes s' j) = num_children (fsnodes ?s j) + length es" by blast
  have i: "initramfs_init 0 h b s = Some s'" using f(1) o(3) by (simp add: initramfs_init_def)
  have r: "dir_ok R s r" "owned R r" "owned R (internal (vnodes s r))" "owned R (internal (vnodes s a))"
    using root(1,2) by (auto simp: root_ok_def dir_ok_def)
  have e: "vnodes s' r = vnodes s r" "vnodes s' a = vnodes s a" "vnodes s' b = vnodes s b" "fsnodes s' (internal (vnodes s r)) = fsnodes s (internal (vnodes s r))"
    "fsnodes s' (internal (vnodes s a)) = fsnodes s (internal (vnodes s a))" "mounts s' = mounts s" "rootfs s' = rootfs s" "n_type (fsnodes s' j) = NODE_DIRECTORY"
    using f(6) r a o(1) ram(2) by (auto simp: fill_keeps_def upd_node_def)
  have en: "entries_of s' r = [a]" "name_of s' a = name_initramfs" using root(2,3) by (simp_all add: entries_of_def name_of_def e)
  have ro: "root_ok Q s' r"
    using root(1,2) owned_mono [OF _ f(4)] by (simp add: root_ok_def dir_ok_def en e the_root_def)
  have "entries_of ?s b = []" using o(5) ram(3) by (simp add: entries_of_def children_def)
  then have "list_all2 (ram_file Q s' b) (entries_of s' b) es" using f(5,7) by simp
  moreover have "tmpfs_lookup r name_initramfs s' = (0, a)"
    using lookup_eq [of Q s' r name_initramfs] ro en by (simp add: root_ok_def)
  moreover have "ram_root Q s' a b j" using ram(1) owned_mono [OF _ f(4)] by (simp add: ram_root_def e)
  ultimately have "ram_tree Q s' r a b j es" using e ram(2) owned_mono [OF a(1) f(4)] by (simp add: ram_tree_def)
  moreover have "fs_mem s' x = fs_mem s x" if "x \<notin> page_bytes M" for x
    using f(6) that by (simp add: fill_keeps_def fs_mem_def upd_node_def)
  moreover have "current s' = current s" using f(6) by (simp add: fill_keeps_def upd_node_def)
  ultimately show ?thesis using i f(2-4) ro en by blast
qed

lemma boot_dev_ok:
  assumes root: "root_ok R s r" "entries_of s r = [a]" "name_of s a = name_initramfs" and ram: "ram_tree R s r a b j es"
    and inv: "heap_inv L M (fs_heap s) R" and left: "pages_left (h_mm (fs_heap s)) (n + 5)" and cur: "current s \<noteq> NULL"
  shows "\<exists>s' c Q. vfs_mkdir L path_dev s = Some (0, s') \<and> heap_inv L M (fs_heap s') Q \<and> pages_left (h_mm (fs_heap s')) n \<and> set R \<subseteq> set Q \<and>
     dev_tree Q s' r c \<and> entries_of s' c = [] \<and> ram_tree Q s' r a b j es \<and> n_type (fsnodes s' (internal (vnodes s' c))) = NODE_DIRECTORY \<and>
     internal (vnodes s' c) \<noteq> j \<and> env_of s' = env_of s"
proof -
  have d: "dir_ok R s r" "may_create s r name_dev" using root names(14) by (simp_all add: root_ok_def may_create_def MAX_CHILDREN_def)
  have p: "points s path_dev r name_dev" using leads_points [OF root_leads [OF root(1) names(9-13)]] names(8) by simp
  from mkdir_ok [OF p d inv left cur] obtain c s' Q where
    k: "vfs_mkdir L path_dev s = Some (0, s')" "heap_inv L M (fs_heap s') Q" "pages_left (h_mm (fs_heap s')) n"
      and cr: "created R s r name_dev NODE_DIRECTORY c Q s'" by blast
  let ?i = "internal (vnodes s' c)"
  have sub: "set R \<subseteq> set Q" and c: "c \<noteq> NULL" "\<not> owned R ?i" "entries_of s' r = [a, c]" "dir_ok Q s' r" "vnodes s' r = vnodes s r"
      and nd: "new_node name_dev NODE_DIRECTORY (internal (vnodes s r)) (fsnodes s' ?i)"
    using cr root(2) d(1)[unfolded dir_ok_def] by (simp_all add: created_def)
  have o: "owned Q c" "owned Q ?i" using c(3,4) by (simp_all add: dir_ok_def)
  have "?i \<noteq> NULL" using o(2) k(2) unfolding owned_def heap_inv_def by force
  then have "dir_ok Q s' c" "entries_of s' c = []" using c(1) o nd by (simp_all add: dir_ok_def entries_of_def children_def new_node_def)
  moreover have lk: "tmpfs_lookup r m s' = (if m = name_dev then (0, c) else tmpfs_lookup r m s)" for m
    using lookup_created [OF d(1) cr] d(2) by (simp add: may_create_def)
  moreover have "v_ops (vnodes s' c) = TMPFS_V" "v_mount (vnodes s' c) = NULL"
  proof -
    have v: "vnodes s' c = \<lparr>v_mount = v_mount (vnodes s r), v_ops = TMPFS_V, f_ops = TMPFS_F, internal = ?i, v_parent = r, parent_is_mount = False\<rparr>"
      using cr by (simp only: created_def)
    show "v_ops (vnodes s' c) = TMPFS_V" "v_mount (vnodes s' c) = NULL"
      using arg_cong [OF v, of v_ops] arg_cong [OF v, of v_mount] root(1) by (simp_all add: root_ok_def)
  qed
  moreover have r: "owned R r" "owned R (internal (vnodes s r))" using d(1) by (simp_all add: dir_ok_def)
  moreover have "?i \<noteq> internal (vnodes s' r)" using c(2,5) r(2) by metis
  moreover have "tmpfs_lookup r name_initramfs s' = (0, a)" using lk [of name_initramfs] ram names(14) by (simp add: ram_tree_def)
  moreover have "env_of s' = env_of s" using cr by (simp add: created_def same_rest_def)
  moreover have "?i \<noteq> j" "internal (vnodes s r) \<noteq> j" using c(2) ram by (auto simp: ram_tree_def ram_root_def)
  moreover have "n_type (fsnodes s (internal (vnodes s r))) = NODE_DIRECTORY" using d(1) by (simp add: dir_ok_def)
  ultimately show ?thesis
    using k sub nd root_created [OF root(1) cr] ram_keeps [OF ram created_keeps [OF cr] _ sub]
    by - (rule exI [of _ s'], rule exI [of _ c], rule exI [of _ Q], simp add: dev_tree_def new_node_def)
qed

text \<open>The two device nodes: each is found where it was made.\<close>

lemma boot_devices_ok:
  assumes dev: "dev_tree R s r c" "entries_of s c = []" and ram: "ram_tree R s r a b j es"
    and c: "n_type (fsnodes s (internal (vnodes s c))) = NODE_DIRECTORY" "internal (vnodes s c) \<noteq> j"
    and inv: "heap_inv L M (fs_heap s) R" and left: "pages_left (h_mm (fs_heap s)) (n + 14)"
  shows "\<exists>s1 s2 u w Q. vfs_mknod L path_dev_uart UART_F s = Some (0, s1) \<and> vfs_mknod L path_dev_framebuffer FRAMEBUFFER_F s1 = Some (0, s2) \<and>
     heap_inv L M (fs_heap s2) Q \<and> pages_left (h_mm (fs_heap s2)) n \<and> set R \<subseteq> set Q \<and> dev_tree Q s2 r c \<and> ram_tree Q s2 r a b j es \<and>
     console_at s2 u \<and> resolve s2 path_dev_framebuffer = (0, w) \<and> f_ops (vnodes s2 w) = FRAMEBUFFER_F \<and> env_of s2 = env_of s"
proof -
  have pu: "path_dev_uart = path_dev @ 0x2F # name_uart" and pf: "path_dev_framebuffer = path_dev @ 0x2F # name_framebuffer"
    by (simp_all add: path_dev_uart_def path_dev_framebuffer_def)
  have nu: "name_uart \<noteq> []" "0x2F \<notin> set name_uart" "name_uart \<noteq> dot" "name_uart \<noteq> dotdot" "length name_uart < MAX_FILE_NAME"
    and nf: "name_framebuffer \<noteq> []" "0x2F \<notin> set name_framebuffer" "name_framebuffer \<noteq> dot" "name_framebuffer \<noteq> dotdot" "length name_framebuffer < MAX_FILE_NAME"
    and nn: "name_framebuffer \<noteq> name_uart" by (simp_all add: MAX_FILE_NAME_def)
  have r: "owned R r" "owned R c" using dev(1) by (auto simp: dev_tree_def root_ok_def dir_ok_def)
  have "may_create s c name_uart" "pages_left (h_mm (fs_heap s)) (n + 7 + 7)" using dev(2) left by (simp_all add: may_create_def MAX_CHILDREN_def add.commute)
  from mknod_ok [OF dev(1) nu this(1) inv this(2), of UART_F] obtain s1 u Q1 where
    u: "vfs_mknod L path_dev_uart UART_F s = Some (0, s1)" "heap_inv L M (fs_heap s1) Q1" "pages_left (h_mm (fs_heap s1)) (n + 7)" "set R \<subseteq> set Q1"
      "dev_tree Q1 s1 r c" "keeps_owned R s s1 {internal (vnodes s c)}" "env_of s1 = env_of s" "\<forall>m. tmpfs_lookup c m s1 = (if m = name_uart then (0, u) else tmpfs_lookup c m s)"
      "\<forall>m. tmpfs_lookup r m s1 = tmpfs_lookup r m s" "v_mount (vnodes s1 u) = NULL" "f_ops (vnodes s1 u) = UART_F" "u \<noteq> NULL" "owned Q1 u"
      "entries_of s1 c = entries_of s c @ [u]" "name_of s1 u = name_uart" unfolding pu by blast
  have c1: "vnodes s1 c = vnodes s c" using u(6) r(2) by (simp add: keeps_owned_def)
  have "may_create s1 c name_framebuffer" using dev(2) u(14,15) nn by (simp add: may_create_def MAX_CHILDREN_def)
  from mknod_ok [OF u(5) nf this u(2,3), of FRAMEBUFFER_F] obtain s2 w Q where
    w: "vfs_mknod L path_dev_framebuffer FRAMEBUFFER_F s1 = Some (0, s2)" "heap_inv L M (fs_heap s2) Q" "pages_left (h_mm (fs_heap s2)) n" "set Q1 \<subseteq> set Q"
      "dev_tree Q s2 r c" "keeps_owned Q1 s1 s2 {internal (vnodes s1 c)}" "env_of s2 = env_of s1" "\<forall>m. tmpfs_lookup c m s2 = (if m = name_framebuffer then (0, w) else tmpfs_lookup c m s1)"
      "\<forall>m. tmpfs_lookup r m s2 = tmpfs_lookup r m s1" "v_mount (vnodes s2 w) = NULL" "f_ops (vnodes s2 w) = FRAMEBUFFER_F" unfolding pf by blast
  have l: "tmpfs_lookup r name_initramfs s1 = (0, a)" "tmpfs_lookup r name_initramfs s2 = (0, a)" using ram u(9) w(9) by (simp_all add: ram_tree_def)
  have "ram_tree Q1 s1 r a b j es" by (rule ram_keeps [OF ram u(6,7,4) c l(1) r(1)])
  moreover have "n_type (fsnodes s1 (internal (vnodes s1 c))) = NODE_DIRECTORY" using u(5) by (simp add: dev_tree_def dir_ok_def)
  moreover have "internal (vnodes s1 c) \<noteq> j" using c(2) c1 by simp
  ultimately have "ram_tree Q s2 r a b j es" by (rule ram_keeps [OF _ w(6,7,4) _ _ l(2) owned_mono [OF r(1) u(4)]])
  moreover have "resolve s2 path_dev_framebuffer = (0, w)"
    unfolding pf by (rule dev_file_resolves [OF w(5) nf]) (use w(8,10) in simp_all)
  moreover have "vnodes s2 u = vnodes s1 u" using w(6) u(13) by (simp add: keeps_owned_def)
  then have "console_at s2 u" unfolding console_at_def pu
    using dev_file_resolves [OF w(5) nu, of u] w(8) u(8,10-12) nn by simp
  moreover have "env_of s2 = env_of s" using u(7) w(7) by simp
  ultimately show ?thesis using u(1,4) w(1-5,11) by blast
qed

subsection \<open>Without a current thread\<close>

text \<open>\<open>vfs_mkdir\<close> follows \<open>get_current()\<close> for an absolute path, too; so \<open>vfs_init\<close> does, before there is a thread.\<close>

lemma mkdir_no_thread:
  assumes "heap_inv L M (fs_heap s) R" "pages_left (h_mm (fs_heap s)) (Suc n)" "length path < 128" "current s = NULL"
  shows "vfs_mkdir L path s = None"
  using path_copy [OF assms(1-3)] assms(4) by (auto simp: vfs_mkdir_def)

lemma vfs_init_no_thread:
  assumes inv: "heap_inv L M (fs_heap s) R" and left: "pages_left (h_mm (fs_heap s)) 6" and num: "num_filesystems s = 0"
    and cur: "current s = NULL"
  shows "vfs_init L pad h s = None"
proof -
  have "pages_left (h_mm (fs_heap s)) (Suc 0 + 5)" using left by simp
  from boot_root_ok [OF inv this num] obtain s5 Q where
    r: "boot_root L s = Some s5" "heap_inv L M (fs_heap s5) Q" "pages_left (h_mm (fs_heap s5)) (Suc 0)" "env_of s5 = env_of s" by blast
  obtain r0 s1 root s2 r1 s4 where a: "register_tmpfs s = Some (r0, s1)" "fs_alloc MOUNT_SIZE s1 = Some (root, s2)" "root \<noteq> NULL"
    "setup_mount_call L (filesystems s2 0) root (s2\<lparr>rootfs := root\<rparr>) = Some (r1, s4)" "the_root s4 \<noteq> NULL"
    "s5 = upd_vnode (the_root s4) (\<lambda>v. v\<lparr>v_parent := NULL\<rparr>) s4"
    using r(1) by (auto simp: boot_root_def Let_def bind_eq_Some_conv split: if_splits)
  have "vfs_mkdir L path_initramfs s5 = None" using mkdir_no_thread [OF r(2,3) names(7)] r(4) cur by simp
  then show ?thesis unfolding vfs_init_def using a by (simp add: Let_def)
qed

subsection \<open>All steps\<close>

text \<open>The tree with the root \<open>r\<close>: the console, the frame buffer and every file of the archive are found under their paths.\<close>

definition boot_tree :: "region list \<Rightarrow> fs \<Rightarrow> (byte list \<times> byte list) list \<Rightarrow> bool" where
  "boot_tree R s es \<longleftrightarrow> (\<exists>u. console_at s u) \<and>
     (\<exists>w. resolve s path_dev_framebuffer = (0, w) \<and> f_ops (vnodes s w) = FRAMEBUFFER_F) \<and>
     (\<exists>b. \<forall>name content. map_of es name = Some content \<and> name \<noteq> [] \<and> 0x2F \<notin> set name \<and> name \<noteq> dot \<and> name \<noteq> dotdot \<longrightarrow>
        (\<exists>v. resolve s (path_initramfs @ 0x2F # name) = (0, v) \<and> ram_file R s b v (name, content)))"

lemma vfs_init_ok:
  assumes inv: "heap_inv L M (fs_heap s) R" and left: "pages_left (h_mm (fs_heap s)) (n + 3 * length es + 35)"
    and num: "num_filesystems s = 0" and blank: "\<And>i. \<not> owned R i \<Longrightarrow> num_children (fsnodes s i) = 0"
    and arch: "archive (fs_mem s) h es" "{h ..< archive_end h es} \<inter> page_bytes M = {}" "loadable es" "length es \<le> MAX_CHILDREN"
    and cur: "current s \<noteq> NULL"
  shows "\<exists>s' Q. vfs_init L 0 h s = Some s' \<and> heap_inv L M (fs_heap s') Q \<and> pages_left (h_mm (fs_heap s')) n \<and> set R \<subseteq> set Q \<and> boot_tree Q s' es \<and>
     (\<forall>x. x \<notin> page_bytes M \<longrightarrow> fs_mem s' x = fs_mem s x)"
proof -
  let ?k = "3 * length es"
  have "pages_left (h_mm (fs_heap s)) (n + ?k + 30 + 5)" using left by (simp add: add.commute add.left_commute)
  from boot_root_ok [OF inv this num] obtain s5 r Q5 where
    r: "boot_root L s = Some s5" "heap_inv L M (fs_heap s5) Q5" "pages_left (h_mm (fs_heap s5)) (n + ?k + 30)" "set R \<subseteq> set Q5"
     "root_ok Q5 s5 r" "entries_of s5 r = []" "env_of s5 = env_of s" "num_filesystems s5 = 1" "owned Q5 (filesystems s5 0)"
     "fs_name (fstypes s5 (filesystems s5 0)) = name_tmpfs" "\<forall>i. \<not> owned Q5 i \<longrightarrow> fsnodes s5 i = fsnodes s i" by blast
  have "pages_left (h_mm (fs_heap s5)) (n + ?k + 19 + 11)" using r(3) by (simp add: add.commute add.left_commute)
  moreover have "current s5 \<noteq> NULL" using r(7) cur by simp
  ultimately obtain s9 a b j Q9 where
    d: "boot_ramdisk L s5 = Some (b, s9)" "heap_inv L M (fs_heap s9) Q9" "pages_left (h_mm (fs_heap s9)) (n + ?k + 19)" "set Q5 \<subseteq> set Q9"
     "root_ok Q9 s9 r" "entries_of s9 r = [a]" "name_of s9 a = name_initramfs" "owned Q9 a" "ram_root Q9 s9 a b j"
     "j \<noteq> internal (vnodes s9 r)" "internal (vnodes s9 a) \<noteq> j" "\<not> owned Q5 j" "fsnodes s9 j = fsnodes s5 j" "env_of s9 = env_of s5" using boot_ramdisk_ok [OF r(5,6,2) _ _ r(8-10)] by blast
  have j: "num_children (fsnodes s9 j) = 0" using blank [of j] owned_mono [OF _ r(4)] d(12,13) r(11) by auto
  have "archive (fs_mem s9) h es" "pages_left (h_mm (fs_heap s9)) (n + 19 + ?k)"
    using arch(1) d(3,14) r(7) by (simp_all add: fs_mem_def add.commute add.left_commute)
  from boot_files_ok [OF d(5-8,11,9,10) j this(1) arch(2-4) d(2) this(2)] obtain s10 Q10 where
    f: "initramfs_init 0 h b s9 = Some s10" "heap_inv L M (fs_heap s10) Q10" "pages_left (h_mm (fs_heap s10)) (n + 19)" "set Q9 \<subseteq> set Q10"
     "root_ok Q10 s10 r" "entries_of s10 r = [a]" "name_of s10 a = name_initramfs" "ram_tree Q10 s10 r a b j es"
     "\<forall>x. x \<notin> page_bytes M \<longrightarrow> fs_mem s10 x = fs_mem s9 x" and c10: "current s10 = current s9" by blast
  have "pages_left (h_mm (fs_heap s10)) (n + 14 + 5)" using f(3) by (simp add: add.commute)
  moreover have "current s10 \<noteq> NULL" using c10 d(14) r(7) cur by simp
  ultimately obtain s11 c Q11 where
    v: "vfs_mkdir L path_dev s10 = Some (0, s11)" "heap_inv L M (fs_heap s11) Q11" "pages_left (h_mm (fs_heap s11)) (n + 14)" "set Q10 \<subseteq> set Q11"
     "dev_tree Q11 s11 r c" "entries_of s11 c = []" "ram_tree Q11 s11 r a b j es" "n_type (fsnodes s11 (internal (vnodes s11 c))) = NODE_DIRECTORY"
     "internal (vnodes s11 c) \<noteq> j" "env_of s11 = env_of s10" using boot_dev_ok [OF f(5-8,2)] by blast
  from boot_devices_ok [OF v(5-9,2,3)] obtain s12 s13 u w Q where
    w: "vfs_mknod L path_dev_uart UART_F s11 = Some (0, s12)" "vfs_mknod L path_dev_framebuffer FRAMEBUFFER_F s12 = Some (0, s13)"
     "heap_inv L M (fs_heap s13) Q" "pages_left (h_mm (fs_heap s13)) n" "set Q11 \<subseteq> set Q" "dev_tree Q s13 r c" "ram_tree Q s13 r a b j es"
     "console_at s13 u" "resolve s13 path_dev_framebuffer = (0, w)" "f_ops (vnodes s13 w) = FRAMEBUFFER_F" "env_of s13 = env_of s11" by blast
  have "root_ok Q s13 r" using w(6) by (simp add: dev_tree_def)
  then have "boot_tree Q s13 es" unfolding boot_tree_def using w(8-10) ram_resolves [OF w(7)] by blast
  moreover have "set R \<subseteq> set Q" using r(4) d(4) f(4) v(4) w(5) by blast
  moreover have "\<forall>x. x \<notin> page_bytes M \<longrightarrow> fs_mem s13 x = fs_mem s x"
    using f(9) r(7) d(14) v(10) w(11) by (simp add: fs_mem_def)
  ultimately show ?thesis using vfs_init_stages [OF r(1) d(1) f(1) v(1) w(1,2)] w(3,4) by blast
qed

end
