(* ===== verification/KernelMain.thy ===== *)
theory KernelMain
  imports Kmain BootInit Devicetree Timer Boot
begin

section \<open>The kernel's \<open>main\<close> (src/main.c)\<close>

text \<open>
  The whole boot sequence, on a record of all parts. The heap, the memory and the timer interrupt's enable bit are shared: the copy in the
  file system's and the scheduler's records counts, and an operation of the timers or of the task queue gets it
  and puts it back. The device tree's address, which the firmware leaves in a register, the counter \<open>clk\<close> and its frequency are
  parameters. No interrupt is taken before the shell starts.
\<close>

record machine =
  m_sys :: sys
  m_timers :: timers
  m_tasks :: tasks
  m_fdt :: fdt
  cpio_bounds :: "u32 \<times> u32"  \<comment> \<open>\<open>cpio_addr\<close> and \<open>cpio_end\<close>\<close>

definition mach_kern :: "machine \<Rightarrow> kern" where "mach_kern s = s_kern (m_sys s)"
definition mach_fs :: "machine \<Rightarrow> fs" where "mach_fs s = k_fs (mach_kern s)"

definition put_kern :: "kern \<Rightarrow> machine \<Rightarrow> machine" where
  "put_kern k s = s\<lparr>m_sys := (m_sys s)\<lparr>s_kern := k\<rparr>\<rparr>"

definition get_timers :: "machine \<Rightarrow> timers" where
  "get_timers s = (m_timers s)\<lparr>tm_heap := fs_heap (mach_fs s), tm_mem := fs_mem (mach_fs s), tm_irq := timer_irq (mach_kern s)\<rparr>"

definition put_timers :: "timers \<Rightarrow> machine \<Rightarrow> machine" where
  "put_timers t s = (put_kern ((mach_kern s)\<lparr>k_fs := put_mem (tm_mem t) ((mach_fs s)\<lparr>fs_heap := tm_heap t\<rparr>), timer_irq := tm_irq t\<rparr>) s)
     \<lparr>m_timers := t\<rparr>"

text \<open>\<open>Some None\<close>: \<open>main\<close> returns, since there is no device tree to be read. Otherwise the program counter and the stack pointer with
  which the shell starts.\<close>

definition kernel_main :: "layout \<Rightarrow> int \<Rightarrow> (nat \<Rightarrow> u64) \<Rightarrow> u64 \<Rightarrow> addr \<Rightarrow> addr \<Rightarrow> addr \<Rightarrow> addr \<Rightarrow> u32 \<Rightarrow> machine \<Rightarrow>
    ((u64 \<times> u64) option \<times> machine) option" where
  "kernel_main L pad clk freq hdl kill_hdl idle shell dtb_address s =
     (let m = fs_mem (mach_fs s);
          (r0, d) = fdt_init m (unat dtb_address) (m_fdt s);
          s1 = s\<lparr>m_fdt := d\<rparr>
      in if r0 \<noteq> 0 then Some (None, s1)
      else do {
        (r1, bounds) \<leftarrow> fdt_traverse m d (Some (initramfs_callback m)) (cpio_bounds s1);
        let s2 = s1\<lparr>cpio_bounds := bounds\<rparr>;
        if r1 \<noteq> 0 then Some (None, s2)
        else do {
          let h = kernel_memory_init L (unat (fst bounds)) (unat (snd bounds)) (unat dtb_address)
                    (unat (be2le_u32 (fdt_total_size d))) (fs_heap (mach_fs s2));
          f \<leftarrow> vfs_init L pad (unat (fst bounds)) ((mach_fs s2)\<lparr>fs_heap := h\<rparr>);
          let k = (mach_kern s2)\<lparr>k_fs := f, irq_el1 := True\<rparr>;
          k1 \<leftarrow> sched_init L hdl kill_hdl idle k;
          let s3 = put_kern k1 s2;
          t \<leftarrow> timer_init clk freq (get_timers s3);
          let s4 = put_timers t s3;
          (pc, sp, k2) \<leftarrow> create_shell_thread L hdl kill_hdl shell (mach_kern s4);
          Some (Some (pc, sp), put_kern k2 s4)
        }
      })"

subsection \<open>The first timer\<close>

lemma timer_init_ok:
  assumes none: "timer_head s = None" and inv: "heap_inv L M (tm_heap s) R" and left: "pages_left (h_mm (tm_heap s)) (Suc n)"
    and z: "short_string M (tm_mem s) NULL z"
  shows "\<exists>s' t l. timer_init clk freq s = Some s' \<and> 0 < l \<and> timers_ok L M s' ((t, l) # R) [t] \<and> pages_left (h_mm (tm_heap s')) n \<and>
     tm_callback (tm_node s' t) = Keep_schedule \<and> timer_key s' t = clk (tm_reads s) + drop_bit 5 freq \<and> tm_irq s' \<and>
     mem_kept (set R) M (tm_mem s) (tm_mem s')"
proof -
  let ?s = "timer_enable_irq s"
  have f: "tm_heap ?s = tm_heap s" "tm_mem ?s = tm_mem s" "timer_head ?s = None" "tm_reads ?s = tm_reads s" using none by (simp_all add: timer_enable_irq_def)
  have ok: "timers_ok L M ?s R []" using inv z by (auto simp: timers_ok_def timer_list_def f)
  have "short_string M (tm_mem ?s) NULL z" using z f by simp
  from add_timer_ok [OF ok this, of clk Keep_schedule "drop_bit 5 freq"] obtain s' where
    s': "timer_init clk freq s = Some s'" "mem_kept (set R) M (tm_mem s) (tm_mem s')" "tm_heap s' = snd (the (alloc TIMER_SIZE (tm_heap s)))"
      and alt: "(fst (the (alloc TIMER_SIZE (tm_heap s))) = NULL \<and> timers_ok L M s' R [] \<and> timer_key s' = timer_key ?s \<and> tm_reads s' = tm_reads s) \<or>
      (\<exists>n l. n = fst (the (alloc TIMER_SIZE (tm_heap s))) \<and> n \<noteq> NULL \<and> n \<notin> set [] \<and> 0 < l \<and> timers_ok L M s' ((n, l) # R) (insert_before (timer_key s') n []) \<and>
         timer_key s' = (timer_key ?s)(n := clk (tm_reads s) + drop_bit 5 freq) \<and>
         tm_callback (tm_node s' n) = Keep_schedule \<and> cstr (tm_mem s') (n + MSG_OFFSET) z \<and>
         tm_irq s' \<and> (timer_head s' = Some n \<longrightarrow> tm_tval s' = drop_bit 5 freq) \<and>
         tm_reads s' = Suc (tm_reads s))"
    unfolding f timer_init_def by metis
  from alloc_left [OF inv left, of TIMER_SIZE] obtain p k h where
    a: "alloc TIMER_SIZE (tm_heap s) = Some (p, h)" "p \<noteq> NULL" "pages_left (h_mm h) n" by auto
  have "tm_reads s' = Suc (tm_reads s)"
  proof -
    have "timer_init clk freq s = Some s'" by (rule s'(1))
    then have "tm_reads s' = Suc (tm_reads s)"
      using a z none strlen_eq [of "tm_mem s" NULL z]
      by (auto simp: timer_init_def add_timer_def f get_tick_def short_string_def timer_insert_def timer_disable_irq_def timer_enable_irq_def set_timer_irq_def)
    then show ?thesis .
  qed
  then obtain t l where t: "0 < l" "timers_ok L M s' ((t, l) # R) [t]" "timer_key s' = (timer_key ?s)(t := clk (tm_reads s) + drop_bit 5 freq)"
    "tm_callback (tm_node s' t) = Keep_schedule" "tm_irq s'" using alt by (auto simp: insert_before_def)
  then show ?thesis using s' a(1,3) by (intro exI [of _ s'] exI [of _ t] exI [of _ l]) simp
qed

subsection \<open>The invariant of the machine\<close>

text \<open>
  Between interrupts: the threads' invariant and the timers', on the one heap they share, no block both a thread's and a timer's,
  and the task queue empty.
\<close>

definition machine_inv :: "layout \<Rightarrow> nat set \<Rightarrow> addr \<Rightarrow> machine \<Rightarrow> addr list \<Rightarrow> addr list \<Rightarrow> addr list \<Rightarrow> addr list \<Rightarrow> region list \<Rightarrow> bool" where
  "machine_inv L M v s rs ws zs xs R \<longleftrightarrow> threads_inv L M v (mach_kern s) rs ws zs R \<and> timers_ok L M (get_timers s) R xs \<and>
     set (concat (map (thread_blocks (mach_kern s)) (live (mach_kern s) rs ws zs))) \<inter> set xs = {} \<and> task_head (m_tasks s) = None"

subsection \<open>The tree survives\<close>

lemma boot_tree_kept:
  assumes t: "boot_tree R s es" and st: "same_tree s s'" and sub: "set R \<subseteq> set Q" and mem: "mem_kept (set R) M (fs_mem s) (fs_mem s')"
  shows "boot_tree Q s' es"
proof -
  have e: "vnodes s' = vnodes s" "fsnodes s' = fsnodes s" using st by (simp_all add: same_tree_def)
  have f: "ram_file Q s' b v x" if f: "ram_file R s b v x" for b v x
  proof -
    let ?n = "fsnodes s (internal (vnodes s v))"
    have "mem_bytes (fs_mem s') (n_data ?n) (length (snd x)) = mem_bytes (fs_mem s) (n_data ?n) (length (snd x))"
    proof (cases "snd x = []")
      case False
      then obtain k where "length (snd x) \<le> k" "(n_data ?n, k) \<in> set R" using f by (auto simp: ram_file_def Let_def)
      then have "\<exists>r \<in> set R. a \<in> bytes r" if "n_data ?n \<le> a" "a < n_data ?n + length (snd x)" for a
        using that by (intro bexI [of _ "(n_data ?n, k)"]) (auto simp: bytes_def)
      then show ?thesis using mem by (intro mem_bytes_same) (simp add: mem_kept_def)
    qed (simp add: mem_bytes_def)
    then show ?thesis using f owned_mono [OF _ sub] sub by (auto simp: ram_file_def e Let_def)
  qed
  have r: "resolve s' path_dev_framebuffer = resolve s path_dev_framebuffer" "resolve s' (path_initramfs @ 0x2F # name) = resolve s (path_initramfs @ 0x2F # name)" for name
    by (rule resolve_tree [OF st]; simp add: is_absolute_def path_dev_framebuffer_def path_dev_def path_initramfs_def)+
  obtain u w b where u: "console_at s u" "resolve s path_dev_framebuffer = (0, w)" "f_ops (vnodes s w) = FRAMEBUFFER_F"
    and b: "\<And>name content. map_of es name = Some content \<and> name \<noteq> [] \<and> 0x2F \<notin> set name \<and> name \<noteq> dot \<and> name \<noteq> dotdot \<Longrightarrow>
        \<exists>v. resolve s (path_initramfs @ 0x2F # name) = (0, v) \<and> ram_file R s b v (name, content)"
    using t unfolding boot_tree_def by blast
  show ?thesis unfolding boot_tree_def r e using console_tree [OF st u(1)] u(2,3) b f by blast
qed

subsection \<open>What the boot loader and the firmware leave\<close>

text \<open>
  A device tree at \<open>dtb\<close> with the tokens \<open>ts\<close>, that gives the bounds \<open>c\<close> and \<open>e\<close> of the RAM disk, an archive of the files
  \<open>es\<close>; and a short string at \<open>NULL\<close>, which is read.
\<close>

definition boot_image :: "mem \<Rightarrow> addr \<Rightarrow> fdt_token list \<Rightarrow> u32 \<Rightarrow> u32 \<Rightarrow> (byte list \<times> byte list) list \<Rightarrow> bool" where
  "boot_image m dtb ts c e es \<longleftrightarrow> dtb \<noteq> NULL \<and> be_u32 m dtb = 0xd00dfeed \<and>
     tokens_at m (dtb + unat (be_u32 m (dtb + 12))) (dtb + unat (be_u32 m (dtb + 8))) ts \<and> plain_tokens ts \<and>
     map_option be_value (last_prop initrd_start ts) = Some c \<and> map_option be_value (last_prop initrd_end ts) = Some e \<and>
     archive m (unat c) es \<and> archive_end (unat c) es \<le> unat e \<and> loadable es \<and> length es \<le> MAX_CHILDREN \<and>
     (\<exists>z. cstr m NULL z \<and> length z < TIMER_MSG_SIZE) \<and> \<not> str_is m NULL initrd_start \<and> \<not> str_is m NULL initrd_end"

text \<open>Its size, as \<open>main\<close> reads it.\<close>

definition fdt_size :: "mem \<Rightarrow> addr \<Rightarrow> nat" where
  "fdt_size m dtb = unat (be_u32 m (dtb + 4))"

lemma boot_image_bounds:
  assumes "boot_image m dtb ts c e es" "dtb = unat w"
  shows "\<exists>d. fdt_init m (unat w) d0 = (0, d) \<and> fdt_traverse m d (Some (initramfs_callback m)) b = Some (0, c, e) \<and>
     unat (be2le_u32 (fdt_total_size d)) = fdt_size m dtb"
proof -
  let ?d = "d0\<lparr>g_fdt_base := dtb, fdt_total_size := get_u32 m (dtb + 4),
                    g_fdt_structure := dtb + unat (be_u32 m (dtb + 8)),
                    g_fdt_strings := dtb + unat (be_u32 m (dtb + 12)),
                    g_fdt_strings_size := be_u32 m (dtb + 32),
                    g_fdt_structure_size := be_u32 m (dtb + 36)\<rparr>"
  have i: "fdt_init m (unat w) d0 = (0, ?d)" using assms by (simp add: boot_image_def fdt_init_def Let_def)
  have "fdt_traverse m ?d (Some (initramfs_callback m)) (fst b, snd b) =
     Some (0, case last_prop initrd_start ts of None \<Rightarrow> fst b | Some v \<Rightarrow> be_value v,
              case last_prop initrd_end ts of None \<Rightarrow> snd b | Some v \<Rightarrow> be_value v)"
    by (rule traverse_initramfs) (use assms in \<open>simp_all add: boot_image_def\<close>)
  moreover have "unat (be2le_u32 (fdt_total_size ?d)) = fdt_size m dtb" by (simp add: fdt_size_def be_u32_def)
  ultimately show ?thesis using i assms(1) by (intro exI [of _ ?d]) (auto simp: boot_image_def)
qed

lemma reserved_bytes:
  assumes "(a, b) \<in> set (boot_ranges L c e d n)" "a \<le> x" "x < b"
  shows "x \<notin> page_bytes (free_at_boot L c e d n)"
proof -
  have "x div PAGE_SIZE \<in> pages a b" using assms(2,3) by (auto simp: pages_def div_le_mono)
  then show ?thesis using assms(1) by (auto simp: page_bytes_def free_at_boot_def)
qed

subsection \<open>The boot\<close>

lemma kernel_main_ok:
  assumes img: "boot_image (fs_mem (mach_fs s)) (unat dtb) ts c e es"
    and lay: "boot_layout_ok L (unat c) (unat e) (unat dtb) (fdt_size (fs_mem (mach_fs s)) (unat dtb))"
  defines "M \<equiv> free_at_boot L (unat c) (unat e) (unat dtb) (fdt_size (fs_mem (mach_fs s)) (unat dtb))"
  assumes room: "3 * length es + 63 + n + CACHE_NUM \<le> card M"
    and blank: "num_filesystems (mach_fs s) = 0" "\<And>i. num_children (fsnodes (mach_fs s) i) = 0" "timer_head (m_timers s) = None" "task_head (m_tasks s) = None"
      "get_current (mach_kern s) \<noteq> NULL"
  shows "\<exists>pc sp s' i t x v Q. kernel_main L 0 clk freq hdl kh idle shell dtb s = Some (Some (pc, sp), s') \<and>
     machine_inv L M v s' [i, t] [] [] [x] Q \<and> get_current (mach_kern s') = t \<and> pc = of_nat shell \<and>
     sp = of_nat (user_stack (threads (mach_kern s') t)) + 4096 \<and> boot_tree Q (mach_fs s') es \<and> cpio_bounds s' = (c, e) \<and>
     tm_callback (tm_node (m_timers s') x) = Keep_schedule \<and> timer_key (m_timers s') x = clk (tm_reads (m_timers s)) + drop_bit 5 freq \<and>
     pages_left (h_mm (fs_heap (mach_fs s'))) n \<and> pending_sig (threads (mach_kern s') t) = 0"
proof -
  let ?m = "fs_mem (mach_fs s)" and ?n = "fdt_size (fs_mem (mach_fs s)) (unat dtb)"
  obtain d where d: "fdt_init ?m (unat dtb) (m_fdt s) = (0, d)"
    "fdt_traverse ?m d (Some (initramfs_callback ?m)) (cpio_bounds s) = Some (0, c, e)" "unat (be2le_u32 (fdt_total_size d)) = ?n"
    using boot_image_bounds [OF img refl] by metis
  define h where "h = kernel_memory_init L (unat c) (unat e) (unat dtb) ?n (fs_heap (mach_fs s))"
  have h: "heap_inv L M h []" "pages_left (h_mm h) (3 * length es + 63 + n)"
    unfolding h_def M_def using kernel_memory_init_ok [OF lay] boot_left [OF lay] room [unfolded M_def] by auto
  let ?f = "(mach_fs s)\<lparr>fs_heap := h\<rparr>"
  have arch: "archive (fs_mem ?f) (unat c) es" "loadable es" "length es \<le> MAX_CHILDREN" using img by (simp_all add: boot_image_def fs_mem_def)
  have dis: "{unat c ..< archive_end (unat c) es} \<inter> page_bytes M = {}"
  proof -
    have "archive_end (unat c) es \<le> unat e" using img by (simp add: boot_image_def)
    then show ?thesis using reserved_bytes [of "unat c" "unat e"] unfolding M_def by (fastforce simp: boot_ranges_def)
  qed
  have reg: "current ?f \<noteq> NULL" using blank(5) by (simp add: mach_fs_def get_current_def)
  have "heap_inv L M (fs_heap ?f) []" "pages_left (h_mm (fs_heap ?f)) (n + 28 + 3 * length es + 35)" "num_filesystems ?f = 0"
    "\<And>i. \<not> owned [] i \<Longrightarrow> num_children (fsnodes ?f i) = 0" using h blank by (simp_all add: ac_simps)
  from vfs_init_ok [OF this arch(1) dis arch(2,3) reg] obtain f1 Q1 where
    f1: "vfs_init L 0 (unat c) ?f = Some f1" "heap_inv L M (fs_heap f1) Q1" "pages_left (h_mm (fs_heap f1)) (n + 28)" "boot_tree Q1 f1 es"
      "\<forall>x. x \<notin> page_bytes M \<longrightarrow> fs_mem f1 x = ?m x" by (auto simp: fs_mem_def)
  let ?s2 = "s\<lparr>m_fdt := d, cpio_bounds := (c, e)\<rparr>"
  let ?k = "(mach_kern s)\<lparr>k_fs := f1, irq_el1 := True\<rparr>"
  obtain v where v: "console_at (k_fs ?k) v" using f1(4) by (auto simp: boot_tree_def)
  have "heap_inv L M (fs_heap (k_fs ?k)) Q1" "pages_left (h_mm (fs_heap (k_fs ?k))) (n + 14 + 14)" using f1(2,3) by (simp_all add: add.assoc)
  from sched_init_ok [OF this v, of hdl kh idle] obtain i k1 Q2 where
    k1: "sched_init L hdl kh idle ?k = Some k1" "queues_ok k1 [i] [] []" "heap_inv L M (fs_heap (k_fs k1)) Q2" "threads_hold Q2 k1 [i]"
      "console_at (k_fs k1) v" "pages_left (h_mm (fs_heap (k_fs k1))) (n + 14)" "th_id (threads k1 i) = 0" "thread_cnt k1 = 1"
      "lr_reg (cpu_ctx (threads k1 i)) = of_nat idle" "same_tree f1 (k_fs k1)" "fs_uart (k_fs k1) = fs_uart f1" "set Q1 \<subseteq> set Q2" by auto
  let ?s3 = "put_kern k1 ?s2"
  have m3: "mach_kern ?s3 = k1" "mach_fs ?s3 = k_fs k1" by (simp_all add: put_kern_def mach_kern_def mach_fs_def)
  let ?t = "get_timers ?s3"
  have t3: "timer_head ?t = None" "tm_heap ?t = fs_heap (k_fs k1)" "tm_mem ?t = fs_mem f1" "tm_reads ?t = tm_reads (m_timers s)"
    using blank(3) k1(11) by (simp_all add: get_timers_def fs_mem_def put_kern_def mach_fs_def mach_kern_def)
  obtain z where z: "cstr ?m NULL z" "length z < TIMER_MSG_SIZE" using img by (auto simp: boot_image_def)
  have z0: "i \<notin> page_bytes M" if "i \<le> length z" for i
    unfolding M_def by (rule reserved_bytes [of 0 "0x1000"]) (use that z(2) in \<open>simp_all add: boot_ranges_def\<close>)
  have "cstr (fs_mem f1) NULL z" by (rule cstr_cong [OF z(1)]) (use f1(5) z0 in auto)
  then have "short_string M (tm_mem ?t) NULL z" using z(2) z0 unfolding t3 by (simp add: short_string_def)
  moreover have "heap_inv L M (tm_heap ?t) Q2" "pages_left (h_mm (tm_heap ?t)) (Suc (n + 13))" using k1(3,6) t3(2) by (simp_all add: eval_nat_numeral)
  ultimately obtain t' x l where t': "timer_init clk freq ?t = Some t'" "0 < l" "timers_ok L M t' ((x, l) # Q2) [x]" "pages_left (h_mm (tm_heap t')) (n + 13)"
     "timer_key t' x = clk (tm_reads (m_timers s)) + drop_bit 5 freq" "mem_kept (set Q2) M (fs_mem f1) (tm_mem t')" "tm_callback (tm_node t' x) = Keep_schedule"
    using timer_init_ok [OF t3(1), of L M Q2 "n + 13" z clk freq] unfolding t3(3,4) by blast
  let ?s4 = "put_timers t' ?s3"
  let ?k4 = "k1\<lparr>k_fs := put_mem (tm_mem t') ((k_fs k1)\<lparr>fs_heap := tm_heap t'\<rparr>), timer_irq := tm_irq t'\<rparr>"
  have m4: "mach_kern ?s4 = ?k4" by (simp add: put_timers_def m3) (simp add: put_kern_def mach_kern_def)
  have st4: "same_tree (k_fs k1) (k_fs ?k4)" "fs_mem (k_fs ?k4) = tm_mem t'" "fs_heap (k_fs ?k4) = tm_heap t'"
    by (simp_all add: same_tree_def put_mem_def fs_mem_def)
  have "queues_ok ?k4 [i] [] []" using k1(2) by (simp add: queues_ok_def)
  moreover have "heap_inv L M (fs_heap (k_fs ?k4)) ((x, l) # Q2)" using t'(3) st4(3) by (simp add: timers_ok_def)
  moreover have "pages_left (h_mm (fs_heap (k_fs ?k4))) (n + 13)" using t'(4) st4(3) by simp
  moreover have "console_at (k_fs ?k4) v" by (rule console_tree [OF st4(1) k1(5)])
  moreover have "threads_hold ((x, l) # Q2) ?k4 [i]"
    using k1(4) has_block_mono [of Q2 _ _ "(x, l) # Q2"] by (auto simp: threads_hold_def thread_blocks_def)
  ultimately obtain t pc sp k5 Q where
    k5: "create_shell_thread L hdl kh shell ?k4 = Some (pc, sp, k5)" "threads_inv L M v k5 [i, t] [] [] Q" "get_current k5 = t" "pc = of_nat shell"
     "sp = of_nat (user_stack (threads k5 t)) + 4096" "same_tree (k_fs ?k4) (k_fs k5)" "fs_uart (k_fs k5) = fs_uart (k_fs ?k4)" "set ((x, l) # Q2) \<subseteq> set Q"
     "\<forall>a. owned ((x, l) # Q2) a \<longrightarrow> a \<notin> set (thread_blocks ?k4 i) \<longrightarrow> a \<notin> set (thread_blocks k5 i @ thread_blocks k5 t)"
     "pages_left (h_mm (fs_heap (k_fs k5))) n" "pending_sig (threads k5 t) = 0"
    using shell_thread_ok [of ?k4 i L M "(x, l) # Q2" n v idle hdl kh shell] k1(7-9) by fastforce
  let ?s5 = "put_kern k5 ?s4"
  have "kernel_main L 0 clk freq hdl kh idle shell dtb s = Some (Some (pc, sp), ?s5)"
    unfolding kernel_main_def Let_def using d f1(1) k1(1) t'(1) k5(1) m4
    by (simp add: h_def mach_kern_def mach_fs_def)
  moreover have m5: "mach_kern ?s5 = k5" "mach_fs ?s5 = k_fs k5" "m_timers ?s5 = t'" "cpio_bounds ?s5 = (c, e)"
    by (simp_all add: put_kern_def put_timers_def mach_kern_def mach_fs_def)
  moreover have "boot_tree Q (k_fs k5) es"
  proof (rule boot_tree_kept [OF f1(4)])
    show "same_tree f1 (k_fs k5)" using k1(10) st4(1) k5(6) by (simp add: same_tree_def)
    show "set Q1 \<subseteq> set Q" using k1(12) k5(8) by auto
    have "fs_mem (k_fs k5) = tm_mem t'" using k5(7) st4(2) by (simp add: fs_mem_def)
    then show "mem_kept (set Q1) M (fs_mem f1) (fs_mem (k_fs k5))" using mem_kept_sub [OF t'(6) k1(12)] by simp
  qed
  moreover have "machine_inv L M v ?s5 [i, t] [] [] [x] Q"
  proof -
    have "fs_mem (k_fs k5) = tm_mem t'" using k5(7) st4(2) by (simp add: fs_mem_def)
    then have "timers_ok L M (get_timers ?s5) Q [x]"
      using t'(2,3) k5(2,8) by (auto simp: timers_ok_def get_timers_def m5 threads_inv_def timer_list_def timer_key_def)
    moreover have "x \<notin> set (thread_blocks ?k4 i)"
    proof
      assume "x \<in> set (thread_blocks ?k4 i)"
      then have "owned Q2 x" using threads_hold_owned [OF k1(4), of x] by (simp add: thread_blocks_def)
      then show False using fresh_block [of L M "tm_heap t'" x l Q2 x] t'(2,3) by (simp add: timers_ok_def)
    qed
    then have "x \<notin> set (thread_blocks k5 i @ thread_blocks k5 t)" using k5(9) t'(2) by simp
    then have "set (concat (map (thread_blocks k5) (live k5 [i, t] [] []))) \<inter> set [x] = {}" using k5(3) by (simp add: live_def)
    moreover have "task_head (m_tasks ?s5) = None" using blank(4) by (simp add: put_kern_def put_timers_def)
    ultimately show ?thesis using k5(2) unfolding machine_inv_def m5 by blast
  qed
  moreover have "pages_left (h_mm (fs_heap (mach_fs ?s5))) n" using k5(10) m5 by simp
  ultimately show ?thesis using k5(3-5,11) m5 t'(5,7)
    by - (rule exI [of _ pc], rule exI [of _ sp], rule exI [of _ ?s5], rule exI [of _ i], rule exI [of _ t], rule exI [of _ x], rule exI [of _ v], rule exI [of _ Q], simp)
qed

text \<open>The thread register is read before \<open>sched_init\<close> has ever set it.\<close>

lemma kernel_main_no_thread:
  assumes img: "boot_image (fs_mem (mach_fs s)) (unat dtb) ts c e es"
    and lay: "boot_layout_ok L (unat c) (unat e) (unat dtb) (fdt_size (fs_mem (mach_fs s)) (unat dtb))"
  defines "M \<equiv> free_at_boot L (unat c) (unat e) (unat dtb) (fdt_size (fs_mem (mach_fs s)) (unat dtb))"
  assumes room: "6 + CACHE_NUM \<le> card M" and blank: "num_filesystems (mach_fs s) = 0" "get_current (mach_kern s) = NULL"
  shows "kernel_main L pad clk freq hdl kh idle shell dtb s = None"
proof -
  let ?m = "fs_mem (mach_fs s)" and ?n = "fdt_size (fs_mem (mach_fs s)) (unat dtb)"
  obtain d where d: "fdt_init ?m (unat dtb) (m_fdt s) = (0, d)"
    "fdt_traverse ?m d (Some (initramfs_callback ?m)) (cpio_bounds s) = Some (0, c, e)" "unat (be2le_u32 (fdt_total_size d)) = ?n"
    using boot_image_bounds [OF img refl] by metis
  define h where "h = kernel_memory_init L (unat c) (unat e) (unat dtb) ?n (fs_heap (mach_fs s))"
  have h: "heap_inv L M h []" "pages_left (h_mm h) 6"
    unfolding h_def M_def using kernel_memory_init_ok [OF lay] boot_left [OF lay] room [unfolded M_def] by auto
  have "vfs_init L pad (unat c) ((mach_fs s)\<lparr>fs_heap := h\<rparr>) = None"
    by (rule vfs_init_no_thread) (use h blank in \<open>simp_all add: mach_fs_def get_current_def\<close>)
  then show ?thesis unfolding kernel_main_def Let_def using d by (simp add: h_def mach_kern_def mach_fs_def)
qed

end
