(* ===== verification/Irq.thy ===== *)
theory Irq
  imports KernelMain UartQueue
begin

section \<open>The interrupt entry (src/exception.c)\<close>

text \<open>
  \<open>irq_entry\<close> on the whole machine: it puts the handler of the interrupt on the task queue and runs it from there. The timer's handler
  may end by calling \<open>schedule\<close>, and if that gives the processor to another thread, what is left of \<open>irq_entry\<close>
  runs when the interrupted thread gets it back: \<open>Inl\<close> the task that is running and has not been freed yet. \<open>irq_return\<close> is the rest.
  The registers that tell the cause are parameters. The handler is one step: an interrupt that nests in it, which \<open>enable_irq_el1\<close>
  in \<open>core_timer_handler\<close> allows, is not modelled.
\<close>

definition TIMER_IRQ :: u32 where "TIMER_IRQ = push_bit 1 1"
definition GPU_IRQ :: u32 where "GPU_IRQ = push_bit 8 1"

text \<open>The callback \<open>core_timer_handler\<close> as a number, beside those of the UART.\<close>

definition CORE_TIMER :: nat where "CORE_TIMER = 3"

definition get_tasks :: "machine \<Rightarrow> tasks" where
  "get_tasks s = (m_tasks s)\<lparr>tk_heap := fs_heap (mach_fs s)\<rparr>"

definition put_mach_fs :: "fs \<Rightarrow> machine \<Rightarrow> machine" where
  "put_mach_fs f s = put_kern ((mach_kern s)\<lparr>k_fs := f\<rparr>) s"

definition put_tasks :: "tasks \<Rightarrow> machine \<Rightarrow> machine" where
  "put_tasks t s = (put_mach_fs ((mach_fs s)\<lparr>fs_heap := tk_heap t\<rparr>) s)\<lparr>m_tasks := t\<rparr>"

definition put_uart :: "uart \<Rightarrow> machine \<Rightarrow> machine" where
  "put_uart u s = put_mach_fs ((mach_fs s)\<lparr>fs_uart := u\<rparr>) s"

definition enable_irq_el1 :: "machine \<Rightarrow> machine" where
  "enable_irq_el1 s = put_kern ((mach_kern s)\<lparr>irq_el1 := True\<rparr>) s"

definition disable_irq_el1 :: "machine \<Rightarrow> machine" where
  "disable_irq_el1 s = put_kern ((mach_kern s)\<lparr>irq_el1 := False\<rparr>) s"

text \<open>A callback from the queue. The first component of the result: whether it ends by calling \<open>schedule\<close>. No other functions are ever queued.\<close>

definition task_callback :: "layout \<Rightarrow> (nat \<Rightarrow> u64) \<Rightarrow> u64 \<Rightarrow> nat \<Rightarrow> machine \<Rightarrow> (bool \<times> machine) option" where
  "task_callback L clk freq cb s =
     (if cb = CORE_TIMER then
        map_option (\<lambda>(b, t). (b, enable_irq_el1 (put_timers t s))) (core_timer_handler L clk freq (get_timers s))
      else if cb = UART_RX then Some (False, put_uart (uart_irq_rx_handler (fs_uart (mach_fs s))) s)
      else if cb = UART_TX then Some (False, put_uart (uart_irq_tx_handler (fs_uart (mach_fs s))) s)
      else None)"

definition free_task :: "layout \<Rightarrow> addr \<Rightarrow> machine \<Rightarrow> machine option" where
  "free_task L cur s = map_option (\<lambda>f. put_mach_fs f s) (fs_free L cur (mach_fs s))"

text \<open>\<open>execute_task\<close> here; without a current thread \<open>schedule\<close> picks one but does not switch to it.\<close>

definition execute_irq_task :: "layout \<Rightarrow> (nat \<Rightarrow> u64) \<Rightarrow> u64 \<Rightarrow> machine \<Rightarrow> (addr option \<times> machine) option" where
  "execute_irq_task L clk freq s = do {
     (cur, t) \<leftarrow> task_take (get_tasks s);
     (b, s1) \<leftarrow> task_callback L clk freq (t_callback (tk_node t cur)) (put_tasks t s);
     if b then do {
       k \<leftarrow> schedule (mach_kern s1);
       let s2 = put_kern k s1;
       let prev = get_current (mach_kern s1);
       if prev \<noteq> NULL \<and> get_current k \<noteq> prev then Some (Some cur, s2)
       else map_option (Pair None) (free_task L cur s2)
     }
     else map_option (Pair None) (free_task L cur s1)
   }"

definition irq_exit :: "sys_env \<Rightarrow> machine \<Rightarrow> (resume \<times> machine) option" where
  "irq_exit E s =
     (let s1 = enable_irq_el1 s in
      map_option (\<lambda>(r, y). (r, s1\<lparr>m_sys := y\<rparr>)) (check_pending_signals E (get_current (mach_kern s1)) (m_sys s1)))"

definition irq_return :: "sys_env \<Rightarrow> addr \<Rightarrow> machine \<Rightarrow> (resume \<times> machine) option" where
  "irq_return E cur s = (case free_task (e_layout E) cur s of None \<Rightarrow> None | Some s1 \<Rightarrow> irq_exit E s1)"

definition irq_entry :: "sys_env \<Rightarrow> (nat \<Rightarrow> u64) \<Rightarrow> u64 \<Rightarrow> (uart \<Rightarrow> u32) \<Rightarrow> u32 \<Rightarrow> u32 \<Rightarrow> machine \<Rightarrow> ((addr + resume) \<times> machine) option" where
  "irq_entry E clk freq iir irq_src pending_1 s =
     (let L = e_layout E; s0 = disable_irq_el1 s in do {
        (suspended, s1) \<leftarrow>
          (if irq_src AND TIMER_IRQ \<noteq> 0 then do {
             t \<leftarrow> add_task CORE_TIMER 0 (get_tasks s0);
             execute_irq_task L clk freq (put_tasks t s0)
           }
           else if irq_src AND GPU_IRQ \<noteq> 0 \<and> pending_1 AND push_bit 29 1 \<noteq> 0 then
             map_option (\<lambda>(t, u). (None, put_uart u (put_tasks t s0)))
               (uart_irq_handler L iir (\<lambda>_ _. None) (get_tasks s0, fs_uart (mach_fs s0)))
           else Some (None, s0));
        case suspended of
          Some cur \<Rightarrow> Some (Inl cur, s1)
        | None \<Rightarrow> map_option (\<lambda>(r, s2). (Inr r, s2)) (irq_exit E s1)
      })"

subsection \<open>Frames of the invariant\<close>

lemma mach_put [simp]:
  "mach_kern (put_kern k s) = k" "mach_fs (put_kern k s) = k_fs k" "m_timers (put_kern k s) = m_timers s" "m_tasks (put_kern k s) = m_tasks s"
  "mach_kern (put_mach_fs f s) = (mach_kern s)\<lparr>k_fs := f\<rparr>" "mach_fs (put_mach_fs f s) = f" "m_timers (put_mach_fs f s) = m_timers s"
  "m_tasks (put_mach_fs f s) = m_tasks s"
  by (simp_all add: put_mach_fs_def put_kern_def mach_kern_def mach_fs_def)

lemma mach_put_tasks [simp]:
  "mach_kern (put_tasks t s) = (mach_kern s)\<lparr>k_fs := (mach_fs s)\<lparr>fs_heap := tk_heap t\<rparr>\<rparr>" "mach_fs (put_tasks t s) = (mach_fs s)\<lparr>fs_heap := tk_heap t\<rparr>"
  "m_timers (put_tasks t s) = m_timers s" "m_tasks (put_tasks t s) = t"
  by (simp_all add: put_tasks_def put_mach_fs_def put_kern_def mach_kern_def mach_fs_def)

lemma mach_put_timers [simp]:
  "mach_kern (put_timers t s) = (mach_kern s)\<lparr>k_fs := put_mem (tm_mem t) ((mach_fs s)\<lparr>fs_heap := tm_heap t\<rparr>), timer_irq := tm_irq t\<rparr>"
  "mach_fs (put_timers t s) = put_mem (tm_mem t) ((mach_fs s)\<lparr>fs_heap := tm_heap t\<rparr>)"
  "m_timers (put_timers t s) = t" "m_tasks (put_timers t s) = m_tasks s"
  by (simp_all add: put_timers_def) (simp_all add: put_kern_def mach_kern_def mach_fs_def)

lemma mach_irq [simp]:
  "mach_kern (enable_irq_el1 s) = (mach_kern s)\<lparr>irq_el1 := True\<rparr>" "mach_fs (enable_irq_el1 s) = mach_fs s"
  "m_timers (enable_irq_el1 s) = m_timers s" "m_tasks (enable_irq_el1 s) = m_tasks s"
  "mach_kern (disable_irq_el1 s) = (mach_kern s)\<lparr>irq_el1 := False\<rparr>" "mach_fs (disable_irq_el1 s) = mach_fs s"
  "m_timers (disable_irq_el1 s) = m_timers s" "m_tasks (disable_irq_el1 s) = m_tasks s"
  by (simp_all add: enable_irq_el1_def disable_irq_el1_def mach_fs_def)

lemma get_timers_key [simp]: "timer_key (get_timers s) = timer_key (m_timers s)"
  by (simp add: get_timers_def timer_key_def fun_eq_iff)

lemma get_timers_sel [simp]:
  "tm_heap (get_timers s) = fs_heap (mach_fs s)" "tm_mem (get_timers s) = fs_mem (mach_fs s)" "tm_node (get_timers s) = tm_node (m_timers s)"
  "timer_head (get_timers s) = timer_head (m_timers s)" "tm_reads (get_timers s) = tm_reads (m_timers s)"
  "need_schedule (get_timers s) = need_schedule (m_timers s)"
  by (simp_all add: get_timers_def)

lemma get_timers_list [simp]: "timer_list (get_timers s) = timer_list (m_timers s)"
  by (simp add: timer_list_def fun_eq_iff)

text \<open>The blocks of the threads.\<close>

definition held_by_threads :: "kern \<Rightarrow> addr list \<Rightarrow> addr list \<Rightarrow> addr list \<Rightarrow> addr set" where
  "held_by_threads k rs ws zs = set (concat (map (thread_blocks k) (live k rs ws zs)))"

lemma machine_frame:
  assumes inv: "machine_inv L M v s rs ws zs xs R" and tm: "timers_ok L M (get_timers s') Q ys" and tk: "task_head (m_tasks s') = None"
    and same: "same_tree (mach_fs s) (mach_fs s')" "get_current (mach_kern s') = get_current (mach_kern s)"
      "ready_queue (mach_kern s') = ready_queue (mach_kern s)" "wait_queue (mach_kern s') = wait_queue (mach_kern s)"
      "zombie_queue (mach_kern s') = zombie_queue (mach_kern s)" "threads (mach_kern s') = threads (mach_kern s)"
    and keep: "\<And>a k. (a, k) \<in> set R \<Longrightarrow> 0 < k \<Longrightarrow> a \<in> held_by_threads (mach_kern s) rs ws zs \<Longrightarrow> (a, k) \<in> set Q \<and> a \<notin> set ys"
  shows "machine_inv L M v s' rs ws zs ys Q"
proof -
  let ?k = "mach_kern s" and ?k' = "mach_kern s'"
  have i: "sched_inv ?k rs ws zs" "threads_hold R ?k (live ?k rs ws zs)" "console_at (k_fs ?k) v"
    using inv by (simp_all add: machine_inv_def threads_inv_def)
  have lv: "live ?k' rs ws zs = live ?k rs ws zs" using same(2) by (simp add: live_def)
  have tb: "thread_blocks ?k' = thread_blocks ?k" using same(6) by (simp add: thread_blocks_def fun_eq_iff)
  have "sched_inv ?k' rs ws zs" using i(1) same by (simp add: sched_inv_def queues_ok_def)
  moreover have "has_block Q a n" if b: "has_block R a n" "0 < n" "a \<in> held_by_threads ?k rs ws zs" for a n
  proof -
    obtain k where "n \<le> k" "(a, k) \<in> set R" using b(1) by (auto simp: has_block_def)
    then show ?thesis using keep [of a k] b(2,3) by (auto simp: has_block_def)
  qed
  then have "threads_hold Q ?k (live ?k rs ws zs)"
    using i(2) unfolding threads_hold_def held_by_threads_def by (fastforce simp: thread_blocks_def)
  then have "threads_hold Q ?k' (live ?k' rs ws zs)" unfolding lv by (rule threads_hold_cong) (simp add: same(6))
  moreover have "heap_inv L M (fs_heap (k_fs ?k')) Q" using tm by (simp add: timers_ok_def get_timers_def mach_fs_def)
  moreover have "console_at (k_fs ?k') v" using console_tree [OF same(1)] i(3) by (simp add: mach_fs_def)
  moreover have "a \<notin> set ys" if "a \<in> held_by_threads ?k rs ws zs" for a
    using threads_hold_owned [OF i(2)] that keep [of a] unfolding held_by_threads_def owned_def by blast
  ultimately show ?thesis using tm tk unfolding machine_inv_def threads_inv_def lv tb held_by_threads_def by blast
qed

text \<open>The invariant when the heap alone changes, to \<open>h\<close>, which still has what threads and timers hold; interrupt flags and task nodes do not count.\<close>

lemma machine_heap:
  assumes inv: "machine_inv L M v s rs ws zs xs R" and h: "heap_inv L M h Q"
    and fs: "same_tree (mach_fs s) (mach_fs s')" "fs_heap (mach_fs s') = h" "fs_mem (mach_fs s') = fs_mem (mach_fs s)" "m_timers s' = m_timers s"
    and tk: "task_head (m_tasks s') = None"
    and same: "get_current (mach_kern s') = get_current (mach_kern s)"
      "ready_queue (mach_kern s') = ready_queue (mach_kern s)" "wait_queue (mach_kern s') = wait_queue (mach_kern s)"
      "zombie_queue (mach_kern s') = zombie_queue (mach_kern s)" "threads (mach_kern s') = threads (mach_kern s)"
    and keep: "\<And>a k. (a, k) \<in> set R \<Longrightarrow> 0 < k \<Longrightarrow> a \<in> held_by_threads (mach_kern s) rs ws zs \<union> set xs \<Longrightarrow> (a, k) \<in> set Q"
  shows "machine_inv L M v s' rs ws zs xs Q"
proof (rule machine_frame [OF inv _ tk fs(1) same])
  have t: "timers_ok L M (get_timers s) R xs" and d: "held_by_threads (mach_kern s) rs ws zs \<inter> set xs = {}"
    using inv by (simp_all add: machine_inv_def held_by_threads_def)
  have "set xs \<subseteq> fst ` {r \<in> set Q. 0 < snd r}"
  proof
    fix x assume "x \<in> set xs"
    moreover from this obtain k where "(x, k) \<in> set R" "0 < k" using t by (auto simp: timers_ok_def)
    ultimately show "x \<in> fst ` {r \<in> set Q. 0 < snd r}" using keep [of x k] by force
  qed
  then show "timers_ok L M (get_timers s') Q xs"
    using t h fs(2-4) by (simp add: timers_ok_def)
  show "(a, k) \<in> set Q \<and> a \<notin> set xs" if "(a, k) \<in> set R" "0 < k" "a \<in> held_by_threads (mach_kern s) rs ws zs" for a k
    using keep [OF that(1,2)] that(3) d by auto
qed

text \<open>Another assignment of the processor.\<close>

lemma machine_threads:
  assumes inv: "machine_inv L M v s rs ws zs xs R" and k: "sched_inv k rs' ws' zs'" "same_threads (mach_kern s) k"
    "set (live k rs' ws' zs') \<subseteq> set (live (mach_kern s) rs ws zs)"
  shows "machine_inv L M v (put_kern k s) rs' ws' zs' xs R" "held_by_threads k rs' ws' zs' \<subseteq> held_by_threads (mach_kern s) rs ws zs"
proof -
  have i: "threads_inv L M v (mach_kern s) rs ws zs R" "timers_ok L M (get_timers s) R xs" "task_head (m_tasks s) = None"
    "held_by_threads (mach_kern s) rs ws zs \<inter> set xs = {}" using inv by (simp_all add: machine_inv_def held_by_threads_def)
  have "thread_blocks k = thread_blocks (mach_kern s)" using k(2) by (simp add: same_threads_def thread_blocks_def fun_eq_iff)
  then show sub: "held_by_threads k rs' ws' zs' \<subseteq> held_by_threads (mach_kern s) rs ws zs" using k(3) by (auto simp: held_by_threads_def)
  have "fs_heap (k_fs k) = fs_heap (mach_fs s)" "fs_mem (k_fs k) = fs_mem (mach_fs s)"
    using k(2) by (auto simp: same_threads_def mach_fs_def fs_mem_def)
  then have "timers_ok L M (get_timers (put_kern k s)) R xs" by (intro timers_ok_cong [OF i(2)]) (simp_all add: get_timers_def)
  moreover have "held_by_threads k rs' ws' zs' \<inter> set xs = {}" using sub i(4) by blast
  ultimately show "machine_inv L M v (put_kern k s) rs' ws' zs' xs R"
    using threads_inv_sub [OF i(1) k] i(3) by (simp add: machine_inv_def held_by_threads_def)
qed

text \<open>A block that neither threads nor timers hold is given back.\<close>

lemma free_task_ok:
  assumes inv: "machine_inv L M v s rs ws zs xs R" and c: "owned R c" "c \<notin> held_by_threads (mach_kern s) rs ws zs" "c \<notin> set xs"
  shows "\<exists>s' Q. free_task L c s = Some s' \<and> machine_inv L M v s' rs ws zs xs Q \<and> (\<forall>a k. (a, k) \<in> set R \<longrightarrow> a \<noteq> c \<longrightarrow> (a, k) \<in> set Q) \<and>
     mach_kern s' = (mach_kern s)\<lparr>k_fs := mach_fs s'\<rparr> \<and> m_timers s' = m_timers s \<and> current (mach_fs s') = current (mach_fs s)"
proof -
  obtain i l where i: "i < length R" "R ! i = (c, l)" using c(1) by (auto simp: owned_def in_set_conv_nth)
  have h: "heap_inv L M (fs_heap (mach_fs s)) R" using inv by (simp add: machine_inv_def threads_inv_def mach_fs_def)
  obtain h where h: "free L c (fs_heap (mach_fs s)) = Some h" "heap_inv L M h (drop_nth i R)" using heap_inv_free [OF h i(1)] i(2) by auto
  let ?f = "(mach_fs s)\<lparr>fs_heap := h\<rparr>"
  have f: "free_task L c s = Some (put_mach_fs ?f s)" using h(1) by (simp add: free_task_def fs_free_def)
  have sub: "(a, k) \<in> set (drop_nth i R)" if ak: "(a, k) \<in> set R" "a \<noteq> c" for a k
  proof -
    obtain j where j: "j < length R" "R ! j = (a, k)" using ak(1) by (auto simp: in_set_conv_nth)
    then have "j \<noteq> i" using i ak(2) by auto
    moreover have "R = take i R @ (c, l) # drop (Suc i) R" using id_take_nth_drop [OF i(1)] i(2) by simp
    then have "set R = set (take i R) \<union> {(c, l)} \<union> set (drop (Suc i) R)" by (metis Un_insert_right list.simps(15) set_append sup_bot_right Un_assoc Un_commute Un_empty_right insert_is_Un)
    ultimately show ?thesis using ak unfolding drop_nth_def by auto
  qed
  have "task_head (m_tasks s) = None" using inv by (simp add: machine_inv_def)
  then have "machine_inv L M v (put_mach_fs ?f s) rs ws zs xs (drop_nth i R)"
    by (intro machine_heap [OF inv h(2)]) (use c(2,3) sub in \<open>auto simp: same_tree_def fs_mem_def get_current_def mach_fs_def\<close>)
  then show ?thesis using f sub by (intro exI [of _ "put_mach_fs ?f s"] exI [of _ "drop_nth i R"]) (simp add: mach_fs_def)
qed

subsection \<open>The timer interrupt\<close>

text \<open>\<open>core_timer_handler\<close> on the machine.\<close>

lemma machine_timer_ok:
  assumes inv: "machine_inv L M v s rs ws zs xs R" and clk: "clock_ok clk freq"
  defines "now \<equiv> clk (tm_reads (m_timers s))"
  shows "\<exists>b s' Q ys. task_callback L clk freq CORE_TIMER s = Some (b, s') \<and> machine_inv L M v s' rs ws zs ys Q \<and>
     (\<forall>y \<in> set ys. now < timer_key (m_timers s') y) \<and> {x \<in> set xs. now < timer_key (m_timers s) x} \<subseteq> set ys \<and>
     \<not> need_schedule (m_timers s') \<and> others R xs \<subseteq> others Q ys \<and> mem_kept (others R xs) M (fs_mem (mach_fs s)) (fs_mem (mach_fs s')) \<and>
     mach_kern s' = (mach_kern s)\<lparr>k_fs := mach_fs s', timer_irq := timer_irq (mach_kern s'), irq_el1 := True\<rparr> \<and>
     same_tree (mach_fs s) (mach_fs s') \<and> current (mach_fs s') = current (mach_fs s) \<and>
     (xs \<noteq> [] \<and> timer_key (m_timers s) (hd xs) \<le> now \<and> tm_callback (tm_node (m_timers s) (hd xs)) = Keep_schedule \<longrightarrow> b) \<and>
     (ys \<noteq> [] \<and> (\<exists>x \<in> set xs. timer_key (m_timers s) x \<le> now) \<longrightarrow>
        timer_irq (mach_kern s') \<and> tm_tval (m_timers s') = timer_key (m_timers s') (hd ys) - now)"
proof -
  have t: "timers_ok L M (get_timers s) R xs" and d: "held_by_threads (mach_kern s) rs ws zs \<inter> set xs = {}" and tk: "task_head (m_tasks s) = None"
    using inv by (simp_all add: machine_inv_def held_by_threads_def)
  from handler_frame [OF t clk] obtain b u Q ys where u: "core_timer_handler L clk freq (get_timers s) = Some (b, u)" "timers_ok L M u Q ys"
    "\<forall>y \<in> set ys. now < timer_key u y" "{x \<in> set xs. now < timer_key (m_timers s) x} \<subseteq> set ys" "\<not> need_schedule u"
    "if ys \<noteq> [] \<and> (\<exists>x \<in> set xs. timer_key (m_timers s) x \<le> now) then tm_irq u \<and> tm_tval u = timer_key u (hd ys) - now else True"
    "others R xs \<subseteq> others Q ys" "mem_kept (others R xs) M (fs_mem (mach_fs s)) (tm_mem u)"
    "b \<longleftrightarrow> need_schedule (m_timers s) \<or> (\<exists>x \<in> set xs. timer_key (m_timers s) x \<le> now \<and> tm_callback (tm_node (m_timers s) x) = Keep_schedule)"
    unfolding now_def get_timers_sel get_timers_key by blast
  let ?s = "enable_irq_el1 (put_timers u s)"
  have e: "task_callback L clk freq CORE_TIMER s = Some (b, ?s)" using u(1) by (simp add: task_callback_def)
  have tree: "same_tree (mach_fs s) (mach_fs ?s)" by (simp add: same_tree_def put_mem_def)
  have "machine_inv L M v ?s rs ws zs ys Q"
  proof (rule machine_frame [OF inv _ _ tree])
    show "timers_ok L M (get_timers ?s) Q ys" by (rule timers_ok_cong [OF u(2)]) (simp_all add: put_mem_def fs_mem_def)
    show "(a, k) \<in> set Q \<and> a \<notin> set ys" if "(a, k) \<in> set R" "0 < k" "a \<in> held_by_threads (mach_kern s) rs ws zs" for a k
    proof -
      have "(a, k) \<in> others R xs" using that d by (auto simp: others_def)
      then have "(a, k) \<in> others Q ys" using u(7) by blast
      then show ?thesis by (simp add: others_def)
    qed
  qed (simp_all add: tk get_current_def put_mem_def mach_fs_def)
  moreover have "b" if "xs \<noteq> []" "timer_key (m_timers s) (hd xs) \<le> now" "tm_callback (tm_node (m_timers s) (hd xs)) = Keep_schedule"
    using u(9) that by (metis hd_in_set)
  moreover have "mem_kept (others R xs) M (fs_mem (mach_fs s)) (fs_mem (mach_fs ?s))" using u(8) by (simp add: put_mem_def fs_mem_def)
  moreover have "mach_kern ?s = (mach_kern s)\<lparr>k_fs := mach_fs ?s, timer_irq := timer_irq (mach_kern ?s), irq_el1 := True\<rparr>" by simp
  moreover have "current (mach_fs ?s) = current (mach_fs s)" by (simp add: put_mem_def)
  ultimately show ?thesis using e u(3-7) tree by (intro exI [of _ b] exI [of _ ?s] exI [of _ Q] exI [of _ ys]) auto
qed

text \<open>The task of the handler, taken off the queue again at once.\<close>

lemma timer_task_ok:
  assumes inv: "machine_inv L M v s rs ws zs xs R" and room: "fst (the (alloc TASK_SIZE (fs_heap (mach_fs s)))) \<noteq> NULL"
  shows "\<exists>t t' c l. add_task CORE_TIMER 0 (get_tasks s) = Some t \<and> task_take (get_tasks (put_tasks t s)) = Some (c, t') \<and>
     t_callback (tk_node t' c) = CORE_TIMER \<and> 0 < l \<and> machine_inv L M v (put_tasks t' (put_tasks t s)) rs ws zs xs ((c, l) # R) \<and>
     c \<notin> held_by_threads (mach_kern s) rs ws zs \<and> c \<notin> set xs"
proof -
  have i: "heap_inv L M (fs_heap (mach_fs s)) R" "task_head (m_tasks s) = None" "timers_ok L M (get_timers s) R xs"
    "threads_hold R (mach_kern s) (live (mach_kern s) rs ws zs)"
    using inv by (simp_all add: machine_inv_def threads_inv_def mach_fs_def)
  have "tasks_ok L M (get_tasks s) R []" using i(1,2) by (simp add: tasks_ok_def get_tasks_def task_list_def)
  from add_task_ok [OF this, of CORE_TIMER 0] obtain t c l where
    t: "add_task CORE_TIMER 0 (get_tasks s) = Some t" "0 < l" "tasks_ok L M t ((c, l) # R) [c]" "t_callback (tk_node t c) = CORE_TIMER"
    using room by (fastforce simp: get_tasks_def insert_before_def)
  have "get_tasks (put_tasks t s) = t" by (simp add: get_tasks_def)
  moreover have "task_list t (c # [])" using t(3) by (simp add: tasks_ok_def)
  from task_take_ok [OF this] obtain t' where t': "task_take t = Some (c, t')" "task_list t' []" "tk_heap t' = tk_heap t"
    "t_callback (tk_node t' c) = t_callback (tk_node t c)" by blast
  moreover have h: "heap_inv L M (tk_heap t') ((c, l) # R)" using t(3) t'(3) by (simp add: tasks_ok_def)
  have "machine_inv L M v (put_tasks t' (put_tasks t s)) rs ws zs xs ((c, l) # R)"
    by (rule machine_heap [OF inv h]) (use t'(2) in \<open>auto simp: task_list_def same_tree_def fs_mem_def get_current_def mach_fs_def\<close>)
  moreover have "\<not> owned R c" using fresh_block [OF h _ t(2)] by blast
  then have "c \<notin> held_by_threads (mach_kern s) rs ws zs" using threads_hold_owned [OF i(4)] by (auto simp: held_by_threads_def)
  moreover have "owned R x" if x: "x \<in> set xs" for x
  proof -
    have "x \<in> fst ` {r \<in> set R. 0 < snd r}" using i(3) x unfolding timers_ok_def by blast
    then show ?thesis by (auto simp: owned_def)
  qed
  with \<open>\<not> owned R c\<close> have "c \<notin> set xs" by blast
  ultimately show ?thesis using t(1,2,4) by (intro exI [of _ t] exI [of _ t'] exI [of _ c] exI [of _ l]) simp
qed

text \<open>
  The handler through the queue: then the interrupted thread still runs and the task's memory is given back, or another thread runs and the
  task of the interrupted one is kept.
\<close>

definition task_kept :: "machine \<Rightarrow> addr list \<Rightarrow> addr list \<Rightarrow> addr list \<Rightarrow> addr list \<Rightarrow> region list \<Rightarrow> addr \<Rightarrow> bool" where
  "task_kept s rs ws zs xs R c \<longleftrightarrow> owned R c \<and> c \<notin> held_by_threads (mach_kern s) rs ws zs \<and> c \<notin> set xs"

lemma held_same: "threads k' = threads k \<Longrightarrow> get_current k' = get_current k \<Longrightarrow> held_by_threads k' = held_by_threads k"
  by (simp add: held_by_threads_def fun_eq_iff thread_blocks_def [abs_def] live_def)

lemma timer_task_runs:
  assumes inv: "machine_inv L M v s rs ws zs xs R" and clk: "clock_ok clk freq"
    and room: "fst (the (alloc TASK_SIZE (fs_heap (mach_fs s)))) \<noteq> NULL"
  defines "now \<equiv> clk (tm_reads (m_timers s))"
  shows "\<exists>t t' c b s' Q ys. add_task CORE_TIMER 0 (get_tasks s) = Some t \<and> task_take (get_tasks (put_tasks t s)) = Some (c, t') \<and>
     task_callback L clk freq (t_callback (tk_node t' c)) (put_tasks t' (put_tasks t s)) = Some (b, s') \<and>
     machine_inv L M v s' rs ws zs ys Q \<and> task_kept s' rs ws zs ys Q c \<and> \<not> owned R c \<and> others R xs \<subseteq> others Q ys \<and>
     (\<forall>y \<in> set ys. now < timer_key (m_timers s') y) \<and> threads (mach_kern s') = threads (mach_kern s) \<and>
     get_current (mach_kern s') = get_current (mach_kern s) \<and> cpu (mach_kern s') = cpu (mach_kern s) \<and>
     (xs \<noteq> [] \<and> timer_key (m_timers s) (hd xs) \<le> now \<and> tm_callback (tm_node (m_timers s) (hd xs)) = Keep_schedule \<longrightarrow> b)"
proof -
  from timer_task_ok [OF inv room] obtain t t' c l where t: "add_task CORE_TIMER 0 (get_tasks s) = Some t"
    "task_take (get_tasks (put_tasks t s)) = Some (c, t')" "t_callback (tk_node t' c) = CORE_TIMER" "0 < l"
    "machine_inv L M v (put_tasks t' (put_tasks t s)) rs ws zs xs ((c, l) # R)" "c \<notin> held_by_threads (mach_kern s) rs ws zs" "c \<notin> set xs" by blast
  let ?s1 = "put_tasks t' (put_tasks t s)"
  have s1: "m_timers ?s1 = m_timers s" "threads (mach_kern ?s1) = threads (mach_kern s)" "get_current (mach_kern ?s1) = get_current (mach_kern s)"
    "cpu (mach_kern ?s1) = cpu (mach_kern s)" by (simp_all add: get_current_def mach_fs_def)
  from machine_timer_ok [OF t(5) clk, unfolded s1 now_def [symmetric]] obtain b s' Q ys where
    s': "task_callback L clk freq CORE_TIMER ?s1 = Some (b, s')" "machine_inv L M v s' rs ws zs ys Q"
      "\<forall>y \<in> set ys. now < timer_key (m_timers s') y" "others ((c, l) # R) xs \<subseteq> others Q ys"
      "mach_kern s' = (mach_kern ?s1)\<lparr>k_fs := mach_fs s', timer_irq := timer_irq (mach_kern s'), irq_el1 := True\<rparr>"
      "current (mach_fs s') = current (mach_fs ?s1)"
      "xs \<noteq> [] \<and> timer_key (m_timers s) (hd xs) \<le> now \<and> tm_callback (tm_node (m_timers s) (hd xs)) = Keep_schedule \<longrightarrow> b" by blast
  have k: "threads (mach_kern s') = threads (mach_kern s)" "cpu (mach_kern s') = cpu (mach_kern s)" by (subst s'(5), simp)+
  have cu: "get_current (mach_kern s') = get_current (mach_kern s)"
    using s'(6) by (simp add: get_current_def mach_fs_def)
  have "(c, l) \<in> others ((c, l) # R) xs" using t(4,7) by (simp add: others_def)
  then have "(c, l) \<in> others Q ys" using s'(4) by blast
  then have "task_kept s' rs ws zs ys Q c" using t(6) held_same [OF k(1) cu] by (auto simp: task_kept_def others_def owned_def)
  moreover have "\<not> owned R c" using fresh_block [of L M "fs_heap (mach_fs ?s1)" c l R c] t(4,5) by (auto simp: machine_inv_def threads_inv_def mach_fs_def)
  moreover have "others R xs \<subseteq> others Q ys" using s'(4) by (auto simp: others_def)
  ultimately show ?thesis using t(1-3) s'(1-3,7) k cu
    by - (rule exI [of _ t], rule exI [of _ t'], rule exI [of _ c], rule exI [of _ b], rule exI [of _ s'], rule exI [of _ Q], rule exI [of _ ys], simp)
qed

text \<open>The task of a handler that has ended is given back.\<close>

lemma task_done:
  assumes inv: "machine_inv L M v s rs ws zs xs R" and c: "task_kept s rs ws zs xs R c"
  shows "\<exists>s' Q. free_task L c s = Some s' \<and> machine_inv L M v s' rs ws zs xs Q \<and> (\<forall>r \<in> set R. fst r \<noteq> c \<longrightarrow> r \<in> set Q) \<and>
     mach_kern s' = (mach_kern s)\<lparr>k_fs := mach_fs s'\<rparr> \<and> m_timers s' = m_timers s \<and> get_current (mach_kern s') = get_current (mach_kern s) \<and>
     held_by_threads (mach_kern s') = held_by_threads (mach_kern s)"
proof -
  from free_task_ok [OF inv, of c] c obtain s' Q where f: "free_task L c s = Some s'" "machine_inv L M v s' rs ws zs xs Q"
    "\<forall>a k. (a, k) \<in> set R \<longrightarrow> a \<noteq> c \<longrightarrow> (a, k) \<in> set Q" "mach_kern s' = (mach_kern s)\<lparr>k_fs := mach_fs s'\<rparr>"
    "m_timers s' = m_timers s" "current (mach_fs s') = current (mach_fs s)" unfolding task_kept_def by blast
  have cu: "get_current (mach_kern s') = get_current (mach_kern s)" using f(6) by (simp add: get_current_def mach_fs_def)
  have "threads (mach_kern s') = threads (mach_kern s)" by (subst f(4)) simp
  then show ?thesis using f cu held_same [OF _ cu] by (intro exI [of _ s'] exI [of _ Q]) auto
qed

lemma schedule_same:
  assumes inv: "sched_inv s rs ws zs" and k: "schedule s = Some k" "get_current k = get_current s"
  shows "threads k = threads s \<and> cpu k = cpu s"
proof (cases "rs = [] \<or> hd rs = get_current s")
  case True
  then show ?thesis using schedule_stay [OF inv] k(1) by (auto simp: irqs_on_def irqs_off_def)
next
  case False
  then obtain n ns where rs: "rs = n # ns" "n \<noteq> get_current s" by (cases rs) auto
  obtain rs' ws' zs' where "park_lists (th_state (threads s (get_current s))) (get_current s) ns ws zs = (rs', ws', zs')"
    by (cases "park_lists (th_state (threads s (get_current s))) (get_current s) ns ws zs") auto
  from schedule_switch [OF inv [unfolded rs(1)] rs(2) this] k rs(2) show ?thesis by auto
qed

lemma timer_irq_ok:
  assumes inv: "machine_inv L M v s rs ws zs xs R" and clk: "clock_ok clk freq"
    and room: "fst (the (alloc TASK_SIZE (fs_heap (mach_fs s)))) \<noteq> NULL"
  shows "\<exists>t susp s' rs' ws' zs' ys Q. add_task CORE_TIMER 0 (get_tasks s) = Some t \<and> execute_irq_task L clk freq (put_tasks t s) = Some (susp, s') \<and>
     machine_inv L M v s' rs' ws' zs' ys Q \<and> others R xs \<subseteq> others Q ys \<and>
     held_by_threads (mach_kern s') rs' ws' zs' \<subseteq> held_by_threads (mach_kern s) rs ws zs \<and>
     (case susp of
        None \<Rightarrow> get_current (mach_kern s') = get_current (mach_kern s) \<and> threads (mach_kern s') = threads (mach_kern s) \<and> cpu (mach_kern s') = cpu (mach_kern s)
      | Some c \<Rightarrow> task_kept s' rs' ws' zs' ys Q c \<and> \<not> owned R c)"
proof -
  from timer_task_runs [OF assms] obtain t t' c b s1 Q ys where t: "add_task CORE_TIMER 0 (get_tasks s) = Some t"
    "task_take (get_tasks (put_tasks t s)) = Some (c, t')" "task_callback L clk freq (t_callback (tk_node t' c)) (put_tasks t' (put_tasks t s)) = Some (b, s1)"
    "machine_inv L M v s1 rs ws zs ys Q" "task_kept s1 rs ws zs ys Q c" "\<not> owned R c" "others R xs \<subseteq> others Q ys"
    "threads (mach_kern s1) = threads (mach_kern s)" "get_current (mach_kern s1) = get_current (mach_kern s)"
    "cpu (mach_kern s1) = cpu (mach_kern s)" by blast
  have hb: "held_by_threads (mach_kern s1) = held_by_threads (mach_kern s)" using held_same [OF t(8,9)] .
  have e: "execute_irq_task L clk freq (put_tasks t s) = (if b then do {
       k \<leftarrow> schedule (mach_kern s1);
       if get_current (mach_kern s1) \<noteq> NULL \<and> get_current k \<noteq> get_current (mach_kern s1) then Some (Some c, put_kern k s1)
       else map_option (Pair None) (free_task L c (put_kern k s1)) } else map_option (Pair None) (free_task L c s1))"
    using t(2,3) by (simp add: execute_irq_task_def Let_def)
  obtain k rs' ws' zs' where k: "schedule (mach_kern s1) = Some k" "sched_inv k rs' ws' zs'" "same_threads (mach_kern s1) k"
      "set (live k rs' ws' zs') \<subseteq> set (live (mach_kern s1) rs ws zs)"
    using schedule_keeps [of "mach_kern s1" rs ws zs] t(4) by (auto simp: machine_inv_def threads_inv_def)
  note m = machine_threads [OF t(4) k(2-4)]
  have kept: "task_kept (put_kern k s1) rs' ws' zs' ys Q c" using t(5) m(2) by (auto simp: task_kept_def)
  have nn: "get_current (mach_kern s1) \<noteq> NULL" using t(4) by (simp add: machine_inv_def threads_inv_def sched_inv_def)
  have oth: "others R xs \<subseteq> others Q' ys" if "\<forall>r \<in> set Q. fst r \<noteq> c \<longrightarrow> r \<in> set Q'" for Q'
  proof
    fix r assume r: "r \<in> others R xs"
    then have "owned R (fst r)" by (cases r) (auto simp: others_def owned_def)
    then have "fst r \<noteq> c" using t(6) by metis
    then show "r \<in> others Q' ys" using r t(7) that by (auto simp: others_def)
  qed
  consider (stay) s2 rs2 ws2 zs2 Q2 where "execute_irq_task L clk freq (put_tasks t s) = Some (None, s2)" "machine_inv L M v s2 rs2 ws2 zs2 ys Q2"
      "others R xs \<subseteq> others Q2 ys" "held_by_threads (mach_kern s2) rs2 ws2 zs2 \<subseteq> held_by_threads (mach_kern s) rs ws zs"
      "get_current (mach_kern s2) = get_current (mach_kern s)" "threads (mach_kern s2) = threads (mach_kern s)" "cpu (mach_kern s2) = cpu (mach_kern s)"
    | (switch) "execute_irq_task L clk freq (put_tasks t s) = Some (Some c, put_kern k s1)"
  proof (cases "b \<and> get_current k \<noteq> get_current (mach_kern s1)")
    case True
    then show ?thesis using switch e k(1) nn by simp
  next
    case False
    have "\<exists>s3 rs3 ws3 zs3. execute_irq_task L clk freq (put_tasks t s) = map_option (Pair None) (free_task L c s3) \<and>
      machine_inv L M v s3 rs3 ws3 zs3 ys Q \<and> task_kept s3 rs3 ws3 zs3 ys Q c \<and> get_current (mach_kern s3) = get_current (mach_kern s) \<and>
      threads (mach_kern s3) = threads (mach_kern s) \<and> cpu (mach_kern s3) = cpu (mach_kern s) \<and>
      held_by_threads (mach_kern s3) rs3 ws3 zs3 \<subseteq> held_by_threads (mach_kern s) rs ws zs"
    proof (cases b)
      case True
      then have "get_current k = get_current (mach_kern s1)" using False by simp
      moreover from this have "threads k = threads (mach_kern s1)" "cpu k = cpu (mach_kern s1)"
        using schedule_same [of "mach_kern s1" rs ws zs k] k(1) t(4) by (simp_all add: machine_inv_def threads_inv_def)
      ultimately show ?thesis using True e k(1) m kept t(8-10) hb
        by - (rule exI [of _ "put_kern k s1"], rule exI [of _ rs'], rule exI [of _ ws'], rule exI [of _ zs'], simp)
    next
      case False
      then show ?thesis using e t(4,5,8-10) hb by - (rule exI [of _ s1], rule exI [of _ rs], rule exI [of _ ws], rule exI [of _ zs], simp)
    qed
    then obtain s3 rs3 ws3 zs3 where s3: "execute_irq_task L clk freq (put_tasks t s) = map_option (Pair None) (free_task L c s3)"
      "machine_inv L M v s3 rs3 ws3 zs3 ys Q" "task_kept s3 rs3 ws3 zs3 ys Q c" "get_current (mach_kern s3) = get_current (mach_kern s)"
      "threads (mach_kern s3) = threads (mach_kern s)" "cpu (mach_kern s3) = cpu (mach_kern s)"
      "held_by_threads (mach_kern s3) rs3 ws3 zs3 \<subseteq> held_by_threads (mach_kern s) rs ws zs" by blast
    from task_done [OF s3(2,3)] obtain s' Q' where d: "free_task L c s3 = Some s'" "machine_inv L M v s' rs3 ws3 zs3 ys Q'"
      "\<forall>r \<in> set Q. fst r \<noteq> c \<longrightarrow> r \<in> set Q'" "get_current (mach_kern s') = get_current (mach_kern s3)"
      "held_by_threads (mach_kern s') = held_by_threads (mach_kern s3)" "mach_kern s' = (mach_kern s3)\<lparr>k_fs := mach_fs s'\<rparr>" by blast
    have "threads (mach_kern s') = threads (mach_kern s3)" "cpu (mach_kern s') = cpu (mach_kern s3)" by (subst d(6), simp)+
    then show ?thesis by (intro stay [OF _ d(2) oth [OF d(3)]]) (use s3(1,4-7) d(1,4,5) in simp_all)
  qed
  then show ?thesis
  proof cases
    case stay
    then show ?thesis using t(1)
      by - (rule exI [of _ t], rule exI [of _ None], rule exI [of _ s2], rule exI [of _ rs2], rule exI [of _ ws2], rule exI [of _ zs2], rule exI [of _ ys], rule exI [of _ Q2], simp)
  next
    case switch
    then show ?thesis using t(1,6,7) m kept hb
      by - (rule exI [of _ t], rule exI [of _ "Some c"], rule exI [of _ "put_kern k s1"], rule exI [of _ rs'], rule exI [of _ ws'], rule exI [of _ zs'], rule exI [of _ ys], rule exI [of _ Q], simp)
  qed
qed

subsection \<open>The whole interrupt\<close>

lemma held_flag [simp]: "held_by_threads (k\<lparr>irq_el1 := b\<rparr>) = held_by_threads k"
  by (simp add: held_by_threads_def thread_blocks_def [abs_def] live_def get_current_def fun_eq_iff)

lemma machine_irq_flags [simp]:
  "machine_inv L M v (enable_irq_el1 s) rs ws zs xs R = machine_inv L M v s rs ws zs xs R"
  "machine_inv L M v (disable_irq_el1 s) rs ws zs xs R = machine_inv L M v s rs ws zs xs R"
  "held_by_threads (mach_kern (disable_irq_el1 s)) = held_by_threads (mach_kern s)"
  "held_by_threads (mach_kern (enable_irq_el1 s)) = held_by_threads (mach_kern s)"
proof -
  have k: "threads_inv L M v (k\<lparr>irq_el1 := b\<rparr>) rs ws zs R = threads_inv L M v k rs ws zs R" "live (k\<lparr>irq_el1 := b\<rparr>) = live k"
    "thread_blocks (k\<lparr>irq_el1 := b\<rparr>) = thread_blocks k" for k b
    by (simp_all add: threads_inv_def sched_inv_def queues_ok_def get_current_def threads_hold_def thread_blocks_def [abs_def] live_def fun_eq_iff)
  have t: "timers_ok L M (get_timers s') R xs = timers_ok L M (get_timers s) R xs"
    if "mach_fs s' = mach_fs s" "m_timers s' = m_timers s" for s s' :: machine using that by (simp add: timers_ok_def)
  show "machine_inv L M v (enable_irq_el1 s) rs ws zs xs R = machine_inv L M v s rs ws zs xs R"
    "machine_inv L M v (disable_irq_el1 s) rs ws zs xs R = machine_inv L M v s rs ws zs xs R"
    "held_by_threads (mach_kern (disable_irq_el1 s)) = held_by_threads (mach_kern s)"
    "held_by_threads (mach_kern (enable_irq_el1 s)) = held_by_threads (mach_kern s)"
    using t [of "enable_irq_el1 s" s] t [of "disable_irq_el1 s" s] by (simp_all add: machine_inv_def k held_by_threads_def fun_eq_iff)
qed

lemma task_kept_flags [simp]:
  "task_kept (enable_irq_el1 s) rs ws zs xs R c = task_kept s rs ws zs xs R c"
  "task_kept (disable_irq_el1 s) rs ws zs xs R c = task_kept s rs ws zs xs R c"
  by (simp_all only: task_kept_def machine_irq_flags)

lemma get_tasks_flags [simp]: "get_tasks (disable_irq_el1 s) = get_tasks s"
  by (simp add: get_tasks_def)

text \<open>The rest of \<open>irq_entry\<close>, when the thread has no signal pending.\<close>

definition no_signal :: "kern \<Rightarrow> bool" where
  "no_signal k \<longleftrightarrow> pending_sig (threads k (get_current k)) = 0"

lemma irq_exit_eq: "no_signal (mach_kern s) \<Longrightarrow> irq_exit E s = Some (Resume, enable_irq_el1 s)"
  by (simp add: irq_exit_def check_pending_signals_def no_signal_def) (simp add: get_current_def enable_irq_el1_def put_kern_def mach_kern_def)

lemma irq_timer_eq:
  assumes "irq_src AND TIMER_IRQ \<noteq> 0" "add_task CORE_TIMER 0 (get_tasks s) = Some t"
    "execute_irq_task (e_layout E) clk freq (put_tasks t (disable_irq_el1 s)) = Some (susp, s')"
  shows "irq_entry E clk freq iir irq_src p1 s =
     (case susp of Some c \<Rightarrow> Some (Inl c, s') | None \<Rightarrow> map_option (\<lambda>(r, s2). (Inr r, s2)) (irq_exit E s'))"
  using assms by (simp add: irq_entry_def Let_def)

text \<open>A timer interrupt, when the task can be allocated: the thread goes on as it was, or it is suspended.\<close>

lemma irq_timer_cases:
  assumes inv: "machine_inv (e_layout E) M v s rs ws zs xs R" and clk: "clock_ok clk freq" and src: "irq_src AND TIMER_IRQ \<noteq> 0"
    and room: "fst (the (alloc TASK_SIZE (fs_heap (mach_fs s)))) \<noteq> NULL" and sig: "no_signal (mach_kern s)"
  shows "\<exists>r s' rs' ws' zs' ys Q. irq_entry E clk freq iir irq_src p1 s = Some (r, s') \<and> machine_inv (e_layout E) M v s' rs' ws' zs' ys Q \<and>
     others R xs \<subseteq> others Q ys \<and> held_by_threads (mach_kern s') rs' ws' zs' \<subseteq> held_by_threads (mach_kern s) rs ws zs \<and>
     (case r of
        Inr x \<Rightarrow> x = Resume \<and> get_current (mach_kern s') = get_current (mach_kern s) \<and> threads (mach_kern s') = threads (mach_kern s) \<and>
          cpu (mach_kern s') = cpu (mach_kern s) \<and> irq_el1 (mach_kern s')
      | Inl c \<Rightarrow> task_kept s' rs' ws' zs' ys Q c \<and> \<not> owned R c)"
proof -
  let ?s = "disable_irq_el1 s"
  have i: "machine_inv (e_layout E) M v ?s rs ws zs xs R" "fst (the (alloc TASK_SIZE (fs_heap (mach_fs ?s)))) \<noteq> NULL" using inv room by simp_all
  from timer_irq_ok [OF i(1) clk i(2)] obtain t susp s1 rs' ws' zs' ys Q where t: "add_task CORE_TIMER 0 (get_tasks s) = Some t"
    "execute_irq_task (e_layout E) clk freq (put_tasks t ?s) = Some (susp, s1)" "machine_inv (e_layout E) M v s1 rs' ws' zs' ys Q"
    "others R xs \<subseteq> others Q ys" "held_by_threads (mach_kern s1) rs' ws' zs' \<subseteq> held_by_threads (mach_kern s) rs ws zs"
    "case susp of None \<Rightarrow> get_current (mach_kern s1) = get_current (mach_kern ?s) \<and> threads (mach_kern s1) = threads (mach_kern ?s) \<and> cpu (mach_kern s1) = cpu (mach_kern ?s)
      | Some c \<Rightarrow> task_kept s1 rs' ws' zs' ys Q c \<and> \<not> owned R c" unfolding get_tasks_flags machine_irq_flags by blast
  note e = irq_timer_eq [OF src t(1,2), of iir p1]
  show ?thesis
  proof (cases susp)
    case None
    then have k: "get_current (mach_kern s1) = get_current (mach_kern s)" "threads (mach_kern s1) = threads (mach_kern s)" "cpu (mach_kern s1) = cpu (mach_kern s)"
      using t(6) by (simp_all add: get_current_def)
    then have "no_signal (mach_kern s1)" using sig by (simp add: no_signal_def)
    then have "irq_entry E clk freq iir irq_src p1 s = Some (Inr Resume, enable_irq_el1 s1)" using e None by (simp add: irq_exit_eq)
    then show ?thesis using t(3-5) k
      by - (rule exI [of _ "Inr Resume"], rule exI [of _ "enable_irq_el1 s1"], rule exI [of _ rs'], rule exI [of _ ws'], rule exI [of _ zs'],
          rule exI [of _ ys], rule exI [of _ Q], simp add: get_current_def)
  next
    case (Some c)
    then show ?thesis using e t(3-6)
      by - (rule exI [of _ "Inl c"], rule exI [of _ s1], rule exI [of _ rs'], rule exI [of _ ws'], rule exI [of _ zs'],
          rule exI [of _ ys], rule exI [of _ Q], simp)
  qed
qed

text \<open>Without the memory the queue stays empty, and \<open>execute_task\<close> follows its \<open>NULL\<close> head.\<close>

lemma irq_oom:
  assumes "task_head (m_tasks s) = None" "fst (the (alloc TASK_SIZE (fs_heap (mach_fs s)))) = NULL" "alloc TASK_SIZE (fs_heap (mach_fs s)) = Some y"
    and "irq_src AND TIMER_IRQ \<noteq> 0"
  shows "irq_entry E clk freq iir irq_src p1 s = None"
  using assms by (cases y) (simp add: irq_entry_def Let_def add_task_def get_tasks_def execute_irq_task_def task_take_def)

text \<open>With \<open>keep_schedule\<close> expired and another thread ready, that one runs.\<close>

lemma irq_preempts:
  assumes inv: "machine_inv (e_layout E) M v s (n # ns) ws zs (x # xs) R" and clk: "clock_ok clk freq" and src: "irq_src AND TIMER_IRQ \<noteq> 0"
    and room: "fst (the (alloc TASK_SIZE (fs_heap (mach_fs s)))) \<noteq> NULL" and n: "n \<noteq> get_current (mach_kern s)"
    and x: "timer_key (m_timers s) x \<le> clk (tm_reads (m_timers s))" "tm_callback (tm_node (m_timers s) x) = Keep_schedule"
    and lists: "park_lists (th_state (threads (mach_kern s) (get_current (mach_kern s)))) (get_current (mach_kern s)) ns ws zs = (rs', ws', zs')"
  shows "\<exists>c s' ys Q. irq_entry E clk freq iir irq_src p1 s = Some (Inl c, s') \<and> get_current (mach_kern s') = n \<and>
     cpu (mach_kern s') = cpu_ctx (threads (mach_kern s) n) \<and> cpu_ctx (threads (mach_kern s') (get_current (mach_kern s))) = cpu (mach_kern s) \<and>
     th_state (threads (mach_kern s') n) = TASK_RUNNING \<and>
     machine_inv (e_layout E) M v s' rs' ws' zs' ys Q \<and> task_kept s' rs' ws' zs' ys Q c \<and> others R (x # xs) \<subseteq> others Q ys \<and>
     (\<forall>y \<in> set ys. clk (tm_reads (m_timers s)) < timer_key (m_timers s') y)"
proof -
  let ?s = "disable_irq_el1 s"
  have i: "machine_inv (e_layout E) M v ?s (n # ns) ws zs (x # xs) R" "fst (the (alloc TASK_SIZE (fs_heap (mach_fs ?s)))) \<noteq> NULL" using inv room by simp_all
  have f: "threads (mach_kern ?s) = threads (mach_kern s)" "get_current (mach_kern ?s) = get_current (mach_kern s)" "cpu (mach_kern ?s) = cpu (mach_kern s)"
    "m_timers ?s = m_timers s" by (simp_all add: get_current_def)
  from timer_task_runs [OF i(1) clk i(2), unfolded f get_tasks_flags list.sel] obtain t t' c b s1 Q ys where t: "add_task CORE_TIMER 0 (get_tasks s) = Some t"
    "task_take (get_tasks (put_tasks t ?s)) = Some (c, t')" "task_callback (e_layout E) clk freq (t_callback (tk_node t' c)) (put_tasks t' (put_tasks t ?s)) = Some (b, s1)"
    "machine_inv (e_layout E) M v s1 (n # ns) ws zs ys Q" "task_kept s1 (n # ns) ws zs ys Q c" "others R (x # xs) \<subseteq> others Q ys"
    "\<forall>y \<in> set ys. clk (tm_reads (m_timers s)) < timer_key (m_timers s1) y"
    "threads (mach_kern s1) = threads (mach_kern s)" "get_current (mach_kern s1) = get_current (mach_kern s)" "cpu (mach_kern s1) = cpu (mach_kern s)" b
    using x by blast
  have si: "sched_inv (mach_kern s1) (n # ns) ws zs" using t(4) by (simp add: machine_inv_def threads_inv_def)
  from schedule_switch [OF si, unfolded t(8,9), OF n lists] obtain k where k: "schedule (mach_kern s1) = Some k" "get_current k = n" "sched_inv k rs' ws' zs'"
    "th_state (threads k n) = TASK_RUNNING" "same_threads (mach_kern s1) k" "cpu_ctx (threads k (get_current (mach_kern s))) = cpu (mach_kern s)"
    "cpu k = cpu_ctx (threads (mach_kern s) n)" unfolding t(10) by blast
  have "set (rs' @ ws' @ zs') \<subseteq> insert (get_current (mach_kern s)) (set (ns @ ws @ zs))" using lists by (auto simp: park_lists_def split: if_splits)
  then have "set (live k rs' ws' zs') \<subseteq> set (live (mach_kern s1) (n # ns) ws zs)" using k(2) unfolding live_set t(9) by auto
  note m = machine_threads [OF t(4) k(3,5) this]
  have nn: "get_current (mach_kern s1) \<noteq> NULL" using si by (simp add: sched_inv_def)
  have "execute_irq_task (e_layout E) clk freq (put_tasks t ?s) = Some (Some c, put_kern k s1)"
    using t(2,3,9,11) k(1,2) n nn by (simp add: execute_irq_task_def Let_def)
  from irq_timer_eq [OF src t(1) this] have "irq_entry E clk freq iir irq_src p1 s = Some (Inl c, put_kern k s1)" by simp
  moreover have "task_kept (put_kern k s1) rs' ws' zs' ys Q c" using t(5) m(2) by (auto simp: task_kept_def)
  ultimately show ?thesis using k(2,4,6,7) m(1) t(6,7)
    by - (rule exI [of _ c], rule exI [of _ "put_kern k s1"], rule exI [of _ ys], rule exI [of _ Q], simp)
qed

text \<open>The suspended thread, back on the processor.\<close>

lemma irq_return_ok:
  assumes inv: "machine_inv (e_layout E) M v s rs ws zs xs R" and c: "task_kept s rs ws zs xs R c" and sig: "no_signal (mach_kern s)"
  shows "\<exists>s' Q. irq_return E c s = Some (Resume, s') \<and> machine_inv (e_layout E) M v s' rs ws zs xs Q \<and> (\<forall>r \<in> set R. fst r \<noteq> c \<longrightarrow> r \<in> set Q) \<and>
     get_current (mach_kern s') = get_current (mach_kern s) \<and> threads (mach_kern s') = threads (mach_kern s) \<and> cpu (mach_kern s') = cpu (mach_kern s) \<and>
     irq_el1 (mach_kern s')"
proof -
  from task_done [OF inv c] obtain s1 Q where s1: "free_task (e_layout E) c s = Some s1" "machine_inv (e_layout E) M v s1 rs ws zs xs Q"
    "\<forall>r \<in> set R. fst r \<noteq> c \<longrightarrow> r \<in> set Q" "mach_kern s1 = (mach_kern s)\<lparr>k_fs := mach_fs s1\<rparr>"
    "get_current (mach_kern s1) = get_current (mach_kern s)" by blast
  have k: "threads (mach_kern s1) = threads (mach_kern s)" "cpu (mach_kern s1) = cpu (mach_kern s)" by (subst s1(4), simp)+
  have "no_signal (mach_kern s1)" using sig k(1) s1(5) by (simp add: no_signal_def)
  then have "irq_return E c s = Some (Resume, enable_irq_el1 s1)" using s1(1) by (simp add: irq_return_def irq_exit_eq)
  then show ?thesis using s1(2,3,5) k by (intro exI [of _ "enable_irq_el1 s1"] exI [of _ Q]) (simp add: get_current_def)
qed

end
