(* ===== verification/Preempt.thy ===== *)
theory Preempt
  imports Irq
begin

section \<open>Preemption\<close>

text \<open>
  The machine at work, as a step relation: the current thread computes, gives way, exits, kills, buries the dead or sets a timer, and timer
  interrupts come in between. With the machine goes a map \<open>S\<close> of the threads suspended in the interrupt handler to the tasks they have
  to free; a suspended thread that gets the processor back ends the handler first, before interrupts are enabled. Threads have no signals pending.
  Every operation of the kernel, the interrupt handler among them, is one step: interrupts come between the operations. What can
  happen when one comes in the middle is in \<open>Interrupted\<close>.
\<close>

definition calm :: "machine \<Rightarrow> (addr \<rightharpoonup> addr) \<Rightarrow> bool" where
  "calm s S \<longleftrightarrow> S (get_current (mach_kern s)) = None"

inductive mstep :: "sys_env \<Rightarrow> nat set \<Rightarrow> (nat \<Rightarrow> u64) \<Rightarrow> u64 \<Rightarrow> machine \<times> (addr \<rightharpoonup> addr) \<Rightarrow> machine \<times> (addr \<rightharpoonup> addr) \<Rightarrow> bool"
  for E M clk freq where
  tick: "irq_entry E clk freq iir src p1 s = Some (Inr Resume, s') \<Longrightarrow> src AND TIMER_IRQ \<noteq> 0 \<Longrightarrow> no_signal (mach_kern s) \<Longrightarrow> calm s S \<Longrightarrow>
     mstep E M clk freq (s, S) (s', S)"
| suspend: "irq_entry E clk freq iir src p1 s = Some (Inl c, s') \<Longrightarrow> src AND TIMER_IRQ \<noteq> 0 \<Longrightarrow> no_signal (mach_kern s) \<Longrightarrow> calm s S \<Longrightarrow>
     mstep E M clk freq (s, S) (s', S(get_current (mach_kern s) \<mapsto> c))"
| continue: "S (get_current (mach_kern s)) = Some c \<Longrightarrow> irq_return E c s = Some (Resume, s') \<Longrightarrow> no_signal (mach_kern s) \<Longrightarrow>
     mstep E M clk freq (s, S) (s', S(get_current (mach_kern s) := None))"
| yield: "calm s S \<Longrightarrow> schedule (mach_kern s) = Some k \<Longrightarrow> mstep E M clk freq (s, S) (put_kern k s, S)"
| leave: "calm s S \<Longrightarrow> exit_thread (mach_kern s) = Some k \<Longrightarrow> mstep E M clk freq (s, S) (put_kern k s, S)"
| kill: "calm s S \<Longrightarrow> kill_thread pid (mach_kern s) = Some (r, k) \<Longrightarrow> mstep E M clk freq (s, S) (put_kern k s, S)"
| reap: "calm s S \<Longrightarrow> kill_zombies (e_layout E) (mach_kern s) = Some k \<Longrightarrow> mstep E M clk freq (s, S) (put_kern k s, S)"
| timeout: "calm s S \<Longrightarrow> short_string M (fs_mem (mach_fs s)) msg z \<Longrightarrow> set_timeout clk freq msg sec (get_timers s) = Some t \<Longrightarrow>
     mstep E M clk freq (s, S) (put_timers t s, S)"
| compute: "calm s S \<Longrightarrow> (\<And>a. a \<notin> page_bytes M \<Longrightarrow> m a = fs_mem (mach_fs s) a) \<Longrightarrow>
     mstep E M clk freq (s, S) (put_kern ((mach_kern s)\<lparr>cpu := c, k_fs := put_mem m (mach_fs s)\<rparr>) s, S)"

subsection \<open>What is kept\<close>

definition stays :: "machine \<Rightarrow> addr list \<Rightarrow> addr list \<Rightarrow> addr list \<Rightarrow> addr list \<Rightarrow> region list \<Rightarrow>
    machine \<Rightarrow> addr list \<Rightarrow> addr list \<Rightarrow> addr list \<Rightarrow> addr list \<Rightarrow> region list \<Rightarrow> bool" where
  "stays s rs ws zs xs R s' rs' ws' zs' ys Q \<longleftrightarrow>
     (\<forall>r \<in> others R xs. fst r \<notin> held_by_threads (mach_kern s) rs ws zs \<longrightarrow> r \<in> others Q ys) \<and>
     held_by_threads (mach_kern s') rs' ws' zs' \<subseteq> held_by_threads (mach_kern s) rs ws zs"

lemma kept_stays: "stays s rs ws zs xs R s' rs' ws' zs' ys Q \<Longrightarrow> task_kept s rs ws zs xs R c \<Longrightarrow> task_kept s' rs' ws' zs' ys Q c"
  by (fastforce simp: stays_def task_kept_def others_def owned_def)

definition machine_keeps :: "layout \<Rightarrow> nat set \<Rightarrow> addr \<Rightarrow> machine \<Rightarrow> addr list \<Rightarrow> addr list \<Rightarrow> addr list \<Rightarrow> addr list \<Rightarrow> region list \<Rightarrow> machine \<Rightarrow> bool" where
  "machine_keeps L M v s rs ws zs xs R s' \<longleftrightarrow>
     (\<exists>rs' ws' zs' ys Q. machine_inv L M v s' rs' ws' zs' ys Q \<and> stays s rs ws zs xs R s' rs' ws' zs' ys Q)"

lemma keeps_threads:
  assumes "machine_inv L M v s rs ws zs xs R"
    and "\<exists>rs' ws' zs'. sched_inv k rs' ws' zs' \<and> same_threads (mach_kern s) k \<and> set (live k rs' ws' zs') \<subseteq> set (live (mach_kern s) rs ws zs)"
  shows "machine_keeps L M v s rs ws zs xs R (put_kern k s)"
proof -
  obtain rs' ws' zs' where k: "sched_inv k rs' ws' zs'" "same_threads (mach_kern s) k" "set (live k rs' ws' zs') \<subseteq> set (live (mach_kern s) rs ws zs)"
    using assms(2) by blast
  from machine_threads [OF assms(1) k] show ?thesis unfolding machine_keeps_def stays_def mach_put by blast
qed

lemma keeps_reap:
  assumes inv: "machine_inv L M v s rs ws zs xs R" and k: "kill_zombies L (mach_kern s) = Some k"
  shows "machine_keeps L M v s rs ws zs xs R (put_kern k s)"
proof -
  let ?k = "mach_kern s"
  have i: "sched_inv ?k rs ws zs" "heap_inv L M (fs_heap (k_fs ?k)) R" "threads_hold R ?k (live ?k rs ws zs)" "console_at (k_fs ?k) v"
    "timers_ok L M (get_timers s) R xs" "held_by_threads ?k rs ws zs \<inter> set xs = {}" "task_head (m_tasks s) = None"
    using inv by (simp_all add: machine_inv_def threads_inv_def held_by_threads_def)
  from reap_keeps [OF i(1-3)] k obtain h Q where q: "sched_inv k rs ws []" "heap_inv L M (fs_heap (k_fs k)) Q" "threads_hold Q k (live k rs ws [])"
    "k_fs k = (k_fs ?k)\<lparr>fs_heap := h\<rparr>" "threads k = threads ?k" "get_current k = get_current ?k"
    "\<forall>r \<in> set R. fst r \<notin> set (concat (map (thread_blocks ?k) zs)) \<longrightarrow> r \<in> set Q" by auto
  have "live ?k rs ws zs = live ?k rs ws [] @ zs" by (simp add: live_def)
  then have h: "held_by_threads k rs ws [] \<subseteq> held_by_threads ?k rs ws zs" "set (concat (map (thread_blocks ?k) zs)) \<subseteq> held_by_threads ?k rs ws zs"
    unfolding held_same [OF q(5,6)] by (auto simp: held_by_threads_def live_def)
  have "set xs \<subseteq> fst ` {r \<in> set Q. 0 < snd r}"
  proof
    fix x assume x: "x \<in> set xs"
    then obtain l where "(x, l) \<in> set R" and "0 < l" using i(5) by (auto simp: timers_ok_def)
    moreover have "x \<notin> set (concat (map (thread_blocks ?k) zs))" using x h(2) i(6) by blast
    ultimately have "(x, l) \<in> set Q" using q(7) by auto
    then show "x \<in> fst ` {r \<in> set Q. 0 < snd r}" using \<open>0 < l\<close> by (intro image_eqI [of _ _ "(x, l)"]) auto
  qed
  then have "timers_ok L M (get_timers (put_kern k s)) Q xs" using i(5) q(2,4) by (simp add: timers_ok_def fs_mem_def mach_fs_def)
  moreover have "console_at (k_fs k) v" by (rule console_tree [OF _ i(4)]) (simp add: q(4) same_tree_def)
  ultimately have "machine_inv L M v (put_kern k s) rs ws [] xs Q"
    using q(1-3) i(6,7) h(1) unfolding machine_inv_def threads_inv_def held_by_threads_def mach_put by blast
  moreover have "stays s rs ws zs xs R (put_kern k s) rs ws [] xs Q"
  proof -
    have "r \<in> set Q" if "r \<in> set R" "fst r \<notin> held_by_threads ?k rs ws zs" for r using that q(7) h(2) by blast
    then show ?thesis using h(1) unfolding stays_def mach_put others_def by blast
  qed
  ultimately show ?thesis unfolding machine_keeps_def by blast
qed

lemma keeps_timeout:
  assumes inv: "machine_inv L M v s rs ws zs xs R" and z: "short_string M (fs_mem (mach_fs s)) msg z"
    and t: "set_timeout clk freq msg sec (get_timers s) = Some t"
  shows "machine_keeps L M v s rs ws zs xs R (put_timers t s)"
proof -
  have i: "timers_ok L M (get_timers s) R xs" "held_by_threads (mach_kern s) rs ws zs \<inter> set xs = {}" "task_head (m_tasks s) = None"
    "threads_hold R (mach_kern s) (live (mach_kern s) rs ws zs)"
    using inv by (simp_all add: machine_inv_def threads_inv_def held_by_threads_def)
  have "short_string M (tm_mem (get_timers s)) msg z" using z by simp
  from add_timer_ok [OF i(1) this, of clk Print_msg "of_int sec * freq"] t
  consider "timers_ok L M t R xs" | n l where "0 < l" "timers_ok L M t ((n, l) # R) (insert_before (timer_key t) n xs)"
    unfolding set_timeout_def by auto
  then obtain ys Q where q: "timers_ok L M t Q ys" "set R \<subseteq> set Q" "set ys \<subseteq> set xs \<union> {a. \<not> owned R a}"
  proof cases
    case 1
    then show ?thesis using that [of R xs] by blast
  next
    case (2 n l)
    then have "\<not> owned R n" using fresh_block [of L M "tm_heap t" n l R n] by (auto simp: timers_ok_def)
    then show ?thesis using that [OF 2(2)] by auto
  qed
  have k: "threads (mach_kern (put_timers t s)) = threads (mach_kern s)" "get_current (mach_kern (put_timers t s)) = get_current (mach_kern s)"
    by (simp_all add: get_current_def put_mem_def mach_fs_def)
  have own: "owned R a" if "a \<in> held_by_threads (mach_kern s) rs ws zs" for a
    using threads_hold_owned [OF i(4)] that by (simp add: held_by_threads_def)
  have "machine_inv L M v (put_timers t s) rs ws zs ys Q"
  proof (rule machine_frame [OF inv])
    show "timers_ok L M (get_timers (put_timers t s)) Q ys" by (rule timers_ok_cong [OF q(1)]) (simp_all add: put_mem_def fs_mem_def)
    show "(a, l) \<in> set Q \<and> a \<notin> set ys" if "(a, l) \<in> set R" "0 < l" "a \<in> held_by_threads (mach_kern s) rs ws zs" for a l
      using that q(2,3) i(2) own by blast
  qed (simp_all add: i(3) get_current_def mach_fs_def same_tree_def put_mem_def)
  moreover have "stays s rs ws zs xs R (put_timers t s) rs ws zs ys Q"
  proof -
    have "r \<in> others Q ys" if r: "r \<in> others R xs" for r
    proof -
      have "owned R (fst r)" using r unfolding others_def owned_def by (metis (mono_tags, lifting) mem_Collect_eq prod.collapse)
      then show ?thesis using r q(2,3) unfolding others_def by blast
    qed
    then show ?thesis unfolding stays_def held_same [OF k] by blast
  qed
  ultimately show ?thesis unfolding machine_keeps_def by blast
qed

lemma keeps_compute:
  assumes inv: "machine_inv L M v s rs ws zs xs R" and m: "\<And>a. a \<notin> page_bytes M \<Longrightarrow> m a = fs_mem (mach_fs s) a"
  shows "machine_keeps L M v s rs ws zs xs R (put_kern ((mach_kern s)\<lparr>cpu := c, k_fs := put_mem m (mach_fs s)\<rparr>) s)"
    (is "machine_keeps L M v s rs ws zs xs R ?s")
proof -
  have i: "timers_ok L M (get_timers s) R xs" "held_by_threads (mach_kern s) rs ws zs \<inter> set xs = {}" "task_head (m_tasks s) = None"
    using inv by (simp_all add: machine_inv_def held_by_threads_def)
  obtain z where z: "short_string M (fs_mem (mach_fs s)) NULL z" using i(1) by (auto simp: timers_ok_def)
  then have "short_string M m NULL z" using m cstr_cong [of "fs_mem (mach_fs s)" NULL z m] by (simp add: short_string_def)
  then have t: "timers_ok L M (get_timers ?s) R xs" using i(1) by (auto simp: timers_ok_def put_mem_def fs_mem_def)
  have "machine_inv L M v ?s rs ws zs xs R"
    by (rule machine_frame [OF inv t]) (use i(2,3) in \<open>auto simp: get_current_def mach_fs_def same_tree_def put_mem_def\<close>)
  moreover have "held_by_threads (mach_kern ?s) = held_by_threads (mach_kern s)"
    by (rule held_same) (simp_all add: get_current_def mach_fs_def put_mem_def)
  ultimately show ?thesis unfolding machine_keeps_def stays_def by (metis order_refl)
qed

subsection \<open>The invariant of preemption\<close>

text \<open>Every suspended thread has its own task, that nothing else uses.\<close>

definition suspended_ok :: "machine \<Rightarrow> addr list \<Rightarrow> addr list \<Rightarrow> addr list \<Rightarrow> addr list \<Rightarrow> region list \<Rightarrow> (addr \<rightharpoonup> addr) \<Rightarrow> bool" where
  "suspended_ok s rs ws zs xs R S \<longleftrightarrow> (\<forall>t c. S t = Some c \<longrightarrow> task_kept s rs ws zs xs R c) \<and> (\<forall>t u c. S t = Some c \<longrightarrow> S u = Some c \<longrightarrow> t = u)"

definition preempt_inv :: "layout \<Rightarrow> nat set \<Rightarrow> addr \<Rightarrow> machine \<times> (addr \<rightharpoonup> addr) \<Rightarrow> bool" where
  "preempt_inv L M v = (\<lambda>(s, S). \<exists>rs ws zs xs R. machine_inv L M v s rs ws zs xs R \<and> suspended_ok s rs ws zs xs R S)"

lemma keeps_inv:
  assumes "machine_keeps L M v s rs ws zs xs R s'" "suspended_ok s rs ws zs xs R S"
  shows "preempt_inv L M v (s', S)"
proof -
  obtain rs' ws' zs' ys Q where q: "machine_inv L M v s' rs' ws' zs' ys Q" "stays s rs ws zs xs R s' rs' ws' zs' ys Q"
    using assms(1) unfolding machine_keeps_def by blast
  then have "suspended_ok s' rs' ws' zs' ys Q S" using assms(2) kept_stays [OF q(2)] unfolding suspended_ok_def by blast
  then show ?thesis using q(1) unfolding preempt_inv_def by blast
qed

lemma tick_inv:
  assumes inv: "machine_inv (e_layout E) M v s rs ws zs xs R" "suspended_ok s rs ws zs xs R S" and clk: "clock_ok clk freq"
    and i: "irq_entry E clk freq iir src p1 s = Some (r, s')" "src AND TIMER_IRQ \<noteq> 0" "no_signal (mach_kern s)"
  shows "preempt_inv (e_layout E) M v (s', case r of Inl c \<Rightarrow> S(get_current (mach_kern s) \<mapsto> c) | Inr x \<Rightarrow> S)"
proof -
  obtain y where y: "alloc TASK_SIZE (fs_heap (mach_fs s)) = Some y"
    using heap_inv_alloc [of "e_layout E" M "fs_heap (mach_fs s)" R TASK_SIZE] inv(1) by (auto simp: machine_inv_def threads_inv_def mach_fs_def)
  have "fst (the (alloc TASK_SIZE (fs_heap (mach_fs s)))) \<noteq> NULL"
    using irq_oom [OF _ _ y i(2), of E clk freq iir p1] inv(1) i(1) by (auto simp: machine_inv_def)
  from irq_timer_cases [OF inv(1) clk i(2) this i(3), of iir p1] i(1) obtain rs' ws' zs' ys Q where
    q: "machine_inv (e_layout E) M v s' rs' ws' zs' ys Q" "others R xs \<subseteq> others Q ys"
      "held_by_threads (mach_kern s') rs' ws' zs' \<subseteq> held_by_threads (mach_kern s) rs ws zs"
      "case r of Inr x \<Rightarrow> True | Inl c \<Rightarrow> task_kept s' rs' ws' zs' ys Q c \<and> \<not> owned R c" by (cases r) auto
  have st: "stays s rs ws zs xs R s' rs' ws' zs' ys Q" using q(2,3) by (auto simp: stays_def)
  have "suspended_ok s' rs' ws' zs' ys Q (case r of Inl c \<Rightarrow> S(get_current (mach_kern s) \<mapsto> c) | Inr x \<Rightarrow> S)"
  proof (cases r)
    case (Inl c)
    then have "\<not> owned R c" "task_kept s' rs' ws' zs' ys Q c" using q(4) by simp_all
    moreover from this(1) have "S t \<noteq> Some c" for t using inv(2) by (auto simp: suspended_ok_def task_kept_def)
    ultimately show ?thesis using inv(2) kept_stays [OF st] Inl by (auto simp: suspended_ok_def)
  next
    case (Inr x)
    then show ?thesis using inv(2) kept_stays [OF st] by (auto simp: suspended_ok_def)
  qed
  then show ?thesis using q(1) unfolding preempt_inv_def by blast
qed

lemma continue_inv:
  assumes inv: "machine_inv (e_layout E) M v s rs ws zs xs R" "suspended_ok s rs ws zs xs R S"
    and c: "S t = Some c" "irq_return E c s = Some (r, s')" "no_signal (mach_kern s)"
  shows "preempt_inv (e_layout E) M v (s', S(t := None))"
proof -
  have k: "task_kept s rs ws zs xs R c" using inv(2) c(1) by (simp add: suspended_ok_def)
  from irq_return_ok [OF inv(1) k c(3)] c(2) obtain Q where q: "machine_inv (e_layout E) M v s' rs ws zs xs Q" "\<forall>r \<in> set R. fst r \<noteq> c \<longrightarrow> r \<in> set Q"
    "get_current (mach_kern s') = get_current (mach_kern s)" "threads (mach_kern s') = threads (mach_kern s)" by auto
  have "task_kept s' rs ws zs xs Q d" if "S u = Some d" "u \<noteq> t" for u d
  proof -
    have "d \<noteq> c" using inv(2) c(1) that unfolding suspended_ok_def by metis
    moreover have "task_kept s rs ws zs xs R d" using inv(2) that by (simp add: suspended_ok_def)
    ultimately show ?thesis using q(2) held_same [OF q(4,3)] unfolding task_kept_def owned_def by auto
  qed
  then have "suspended_ok s' rs ws zs xs Q (S(t := None))" using inv(2) by (auto simp: suspended_ok_def)
  then show ?thesis using q(1) unfolding preempt_inv_def by blast
qed

lemma mstep_keeps:
  assumes "mstep E M clk freq x y" "preempt_inv (e_layout E) M v x" "clock_ok clk freq"
  shows "preempt_inv (e_layout E) M v y"
  using assms
proof (induction rule: mstep.induct)
  have th: "preempt_inv (e_layout E) M v (put_kern k s, S)"
    if p: "preempt_inv (e_layout E) M v (s, S)"
      "\<And>rs ws zs. sched_inv (mach_kern s) rs ws zs \<Longrightarrow> \<exists>rs' ws' zs'. sched_inv k rs' ws' zs' \<and> same_threads (mach_kern s) k \<and>
         set (live k rs' ws' zs') \<subseteq> set (live (mach_kern s) rs ws zs)" for k s S
  proof -
    obtain rs ws zs xs R where i: "machine_inv (e_layout E) M v s rs ws zs xs R" "suspended_ok s rs ws zs xs R S"
      using p(1) by (auto simp: preempt_inv_def)
    then show ?thesis using keeps_inv [OF keeps_threads [OF i(1) p(2)] i(2)] by (simp add: machine_inv_def threads_inv_def)
  qed
  {
    case (tick iir src p1 s s' S)
    then show ?case using tick_inv [of E M v s _ _ _ _ _ S clk freq iir src p1 "Inr Resume" s'] by (auto simp: preempt_inv_def)
  next
    case (suspend iir src p1 s c s' S)
    then show ?case using tick_inv [of E M v s _ _ _ _ _ S clk freq iir src p1 "Inl c" s'] by (auto simp: preempt_inv_def)
  next
    case (continue S s c s')
    then show ?case using continue_inv [of E M v s _ _ _ _ _ S "get_current (mach_kern s)" c Resume s'] by (auto simp: preempt_inv_def)
  next
    case (yield s S k)
    then show ?case using th [of s S k] schedule_keeps [of "mach_kern s"] by fastforce
  next
    case (leave s S k)
    then show ?case using th [of s S k] exit_keeps [of "mach_kern s"] by fastforce
  next
    case (kill s S pid r k)
    then show ?case using th [of s S k] kill_keeps [of "mach_kern s" _ _ _ pid] by fastforce
  next
    case (reap s S k)
    then show ?case using keeps_inv [OF keeps_reap] by (auto simp: preempt_inv_def)
  next
    case (timeout s S msg z sec t)
    then show ?case using keeps_inv [OF keeps_timeout] by (auto simp: preempt_inv_def)
  next
    case (compute s S m c)
    then show ?case using keeps_inv [OF keeps_compute] by (auto simp: preempt_inv_def)
  }
qed

end
