(* ===== verification/BootProps.thy ===== *)
theory BootProps
  imports KernelMain Machine
begin

section \<open>Properties of the boot\<close>

text \<open>
  For the witnesses: a memory with a device tree at \<open>0x2EFF7000\<close>, which puts the RAM disk between \<open>0x8000000\<close> and \<open>0x8040000\<close>, and there
  the archive with one file.
\<close>

definition small_dtb :: "byte list" where
  "small_dtb =
     [0xD0, 0x0D, 0xFE, 0xED, 0, 0, 0x70, 0, 0, 0, 0, 40, 0, 0, 0, 88, 0, 0, 0, 40,
      0, 0, 0, 17, 0, 0, 0, 16, 0, 0, 0, 0, 0, 0, 0, 36, 0, 0, 0, 48,
      0, 0, 0, 1, 0, 0, 0, 0,
      0, 0, 0, 3, 0, 0, 0, 4, 0, 0, 0, 0, 8, 0, 0, 0,
      0, 0, 0, 3, 0, 0, 0, 4, 0, 0, 0, 19, 8, 4, 0, 0,
      0, 0, 0, 2, 0, 0, 0, 9] @ initrd_start @ [0] @ initrd_end @ [0]"

definition boot_mem :: mem where
  "boot_mem a = (if a < 0x2EFF7000 then mem_at 0x8000000 small_archive a else mem_at 0x2EFF7000 small_dtb a)"

abbreviation boot_tokens :: "fdt_token list" where
  "boot_tokens \<equiv> [Begin_node [], Prop initrd_start [8, 0, 0, 0], Prop initrd_end [8, 4, 0, 0], End_node]"

lemma cstr_bytes: "mem_bytes m p (Suc (length s)) = s @ [0] \<Longrightarrow> 0 \<notin> set s \<Longrightarrow> cstr m p s"
  using nth_mem_bytes [of _ "Suc (length s)" m p] unfolding cstr_def by (metis length_append_singleton lessI less_Suc_eq nth_append nth_append_length)

lemma small_dtb_length: "length small_dtb = 124"
  by (simp add: small_dtb_def initrd_start_def initrd_end_def)

lemma boot_mem_dtb: "k + n \<le> 124 \<Longrightarrow> mem_bytes boot_mem (0x2EFF7000 + k) n = take n (drop k small_dtb)"
  using mem_at_bytes [of k n small_dtb "0x2EFF7000"] by (simp add: small_dtb_length mem_bytes_def boot_mem_def)

lemma boot_mem_word: "k + 4 \<le> 124 \<Longrightarrow> be_u32 boot_mem (0x2EFF7000 + k) = be_value (take 4 (drop k small_dtb))"
  using be_u32_value [of boot_mem "0x2EFF7000 + k" "take 4 (drop k small_dtb)"] boot_mem_dtb [of k 4] by (simp add: small_dtb_length)

lemma boot_mem_tokens: "tokens_at boot_mem (0x2EFF7000 + 88) (0x2EFF7000 + 40) boot_tokens"
proof -
  have z: "be_value [0, 0, 0, 1] = 1" "be_value [0, 0, 0, 2] = 2" "be_value [0, 0, 0, 3] = 3"
    "be_value [0, 0, 0, 4] = 4" "be_value [0, 0, 0, 9] = 9" "be_value [0, 0, 0, 0] = 0" "be_value [0, 0, 0, 19] = 19" by code_simp+
  have b: "be_u32 boot_mem (0x2EFF7000 + 40) = 1" "be_u32 boot_mem (0x2EFF7000 + 48) = 3" "be_u32 boot_mem (0x2EFF7000 + 52) = 4"
    "be_u32 boot_mem (0x2EFF7000 + 56) = 0" "be_u32 boot_mem (0x2EFF7000 + 64) = 3" "be_u32 boot_mem (0x2EFF7000 + 68) = 4"
    "be_u32 boot_mem (0x2EFF7000 + 72) = 19" "be_u32 boot_mem (0x2EFF7000 + 80) = 2" "be_u32 boot_mem (0x2EFF7000 + 84) = 9"
    by (subst boot_mem_word; simp add: small_dtb_def z)+
  have v: "mem_bytes boot_mem (0x2EFF7000 + 60) 4 = [8, 0, 0, 0]" "mem_bytes boot_mem (0x2EFF7000 + 76) 4 = [8, 4, 0, 0]"
    by (subst boot_mem_dtb; simp add: small_dtb_def)+
  have nz: "0 \<notin> set initrd_start" "0 \<notin> set initrd_end" by (simp_all add: initrd_start_def initrd_end_def)
  have l: "length initrd_start = 18" "length initrd_end = 16" by (simp_all add: initrd_start_def initrd_end_def)
  have "mem_bytes boot_mem (0x2EFF7000 + 88) 19 = initrd_start @ [0]" "mem_bytes boot_mem (0x2EFF7000 + 107) 17 = initrd_end @ [0]"
    by (subst boot_mem_dtb; simp add: small_dtb_def initrd_start_def initrd_end_def)+
  then have c: "cstr boot_mem (0x2EFF7000 + 88) initrd_start" "cstr boot_mem (0x2EFF7000 + 107) initrd_end"
    using cstr_bytes nz l by simp_all
  have "boot_mem (0x2EFF7000 + 44) = 0" by (simp add: boot_mem_def mem_at_def small_dtb_def)
  moreover have l: "length [8, 0, 0, 0 :: byte] = 4" "length [8, 4, 0, 0 :: byte] = 4" "pad4 (length ([] :: byte list) + 1) = 4" "pad4 4 = 4"
    by (simp_all add: pad4_def)
  ultimately show ?thesis unfolding tokens_at.simps l using b v c by (simp del: list.size(4))
qed

lemma boot_mem_image: "boot_image boot_mem (unat (0x2EFF7000 :: u32)) boot_tokens 0x8000000 0x8040000 [([0x61], [0x68, 0x69])]"
  and boot_mem_size: "fdt_size boot_mem 0x2EFF7000 = 0x7000"
proof -
  have z: "be_value [0xD0, 0x0D, 0xFE, 0xED] = 0xd00dfeed" "be_value [0, 0, 0x70, 0] = 0x7000" "be_value [0, 0, 0, 40] = 40"
    "be_value [0, 0, 0, 88] = 88" "be_value [8, 0, 0, 0] = 0x8000000" "be_value [8, 4, 0, 0] = 0x8040000" by code_simp+
  have w: "be_u32 boot_mem (0x2EFF7000 + 0) = 0xd00dfeed" "be_u32 boot_mem (0x2EFF7000 + 4) = 0x7000" "be_u32 boot_mem (0x2EFF7000 + 8) = 40"
    "be_u32 boot_mem (0x2EFF7000 + 12) = 88" by (subst boot_mem_word; simp add: small_dtb_def z)+
  show "fdt_size boot_mem 0x2EFF7000 = 0x7000" using w(2) by (simp add: fdt_size_def)
  have "archive boot_mem 0x8000000 [([0x61], [0x68, 0x69])]"
  proof (rule small_archive_at)
    fix k n :: nat assume "k + n \<le> 240"
    moreover have "mem_bytes boot_mem (0x8000000 + k) n = mem_bytes (mem_at 0x8000000 small_archive) (0x8000000 + k) n" if "k + n \<le> 240"
      by (rule mem_bytes_eqI) (use that in \<open>simp add: boot_mem_def\<close>)
    ultimately show "mem_bytes boot_mem (0x8000000 + k) n = take n (drop k small_archive)"
      using mem_at_bytes [of k n small_archive "0x8000000"] by (simp add: small_archive_length)
  qed
  moreover have "boot_mem 0 = 0" by (simp add: boot_mem_def mem_at_def)
  then have "cstr boot_mem NULL []" "\<not> str_is boot_mem NULL initrd_start" "\<not> str_is boot_mem NULL initrd_end"
    by (simp_all add: cstr_def initrd_start_def initrd_end_def)
  moreover have "initrd_start \<noteq> initrd_end" by (simp add: initrd_start_def initrd_end_def)
  then have "plain_tokens boot_tokens" "last_prop initrd_start boot_tokens = Some [8, 0, 0, 0]" "last_prop initrd_end boot_tokens = Some [8, 4, 0, 0]"
    by (auto simp: plain_tokens_def initrd_start_def initrd_end_def)
  moreover have "archive_end 0x8000000 [([0x61], [0x68, 0x69])] \<le> 0x8040000" "loadable [([0x61], [0x68, 0x69])]"
    by (simp_all add: pad4_def loadable_def MAX_FILE_NAME_def)
  moreover have "\<exists>z. cstr boot_mem NULL z \<and> length z < TIMER_MSG_SIZE" if "cstr boot_mem NULL []"
    by (rule exI [of _ "[]"]) (use that in \<open>simp add: TIMER_MSG_SIZE_def\<close>)
  moreover have "length [([0x61 :: byte], [0x68 :: byte, 0x69])] \<le> MAX_CHILDREN" by (simp add: MAX_CHILDREN_def)
  moreover have "map_option be_value (Some [8, 0, 0, 0]) = Some 0x8000000" "map_option be_value (Some [8, 4, 0, 0]) = Some 0x8040000" using z(5,6) by simp_all
  moreover have "unat (0x2EFF7000 :: u32) = 0x2EFF7000" "unat (0x8000000 :: u32) = 0x8000000" "unat (0x8040000 :: u32) = 0x8040000"
    "(0x2EFF7000 :: nat) \<noteq> NULL" by simp_all
  moreover have "tokens_at boot_mem (0x2EFF7000 + unat (be_u32 boot_mem (0x2EFF7000 + 12))) (0x2EFF7000 + unat (be_u32 boot_mem (0x2EFF7000 + 8))) boot_tokens"
    using boot_mem_tokens w(3,4) by simp
  ultimately show "boot_image boot_mem (unat (0x2EFF7000 :: u32)) boot_tokens 0x8000000 0x8040000 [([0x61], [0x68, 0x69])]"
    using w(1) unfolding boot_image_def by (simp only: add_0_right simp_thms)
qed

definition boot_machine :: machine where
  "boot_machine = \<lparr>m_sys = \<lparr>s_kern = board_kern\<lparr>k_fs := put_mem boot_mem (blank_fs\<lparr>current := 1\<rparr>)\<rparr>,
       frames = (\<lambda>_. \<lparr>regs = (\<lambda>_. 0), sp_el0 = 0, spsr_el1 = 0, elr_el1 = 0\<rparr>), sig_spill = (\<lambda>_ _. 0)\<rparr>,
     m_timers = board_timers, m_tasks = board_tasks,
     m_fdt = \<lparr>g_fdt_base = 0, g_fdt_structure = 0, g_fdt_strings = 0, fdt_total_size = 0, g_fdt_strings_size = 0, g_fdt_structure_size = 0\<rparr>,
     cpio_bounds = (0, 0)\<rparr>"

text \<open>C4: Booting: with a device tree whose properties bound a RAM disk that holds an archive of at most sixteen
  files, and memory enough beside the reserved ranges, \<open>main\<close> gets through, provided that the thread register is not \<open>NULL\<close>. It has
  read the bounds from the tree. The heap's, the
  threads' and the timers' invariants hold; thread 0 idles in the ready queue and the shell's thread is current, about to enter the shell on its own
  stack. In the file system \<open>/dev/uart\<close> is the console, \<open>/dev/framebuffer\<close> the frame buffer, and under \<open>/initramfs\<close> each
  file of the archive is found with its contents. One timer runs: \<open>keep_schedule\<close>, which expires after a thirty-second part of a second.
  If the register is \<open>NULL\<close>, though, \<open>main\<close> follows a \<open>NULL\<close> pointer: \<open>vfs_mkdir\<close> reads \<open>get_current()->cwd\<close>, and
  nothing has set the register yet, since \<open>sched_init\<close> comes later. Two more things the code counts on and does not establish are
  assumed: \<open>num_children\<close> is 0 in memory not allocated yet (\<open>initramfs_init\<close> counts from what it finds), and \<open>strcmp\<close>,
  which reads past the two unterminated arrays that \<open>cpio.c\<close> compares, finds the bytes behind them equal (the argument 0).\<close>

theorem kernel_boots:
  assumes "boot_image (fs_mem (mach_fs s)) (unat dtb) ts c e es"
    and "boot_layout_ok L (unat c) (unat e) (unat dtb) (fdt_size (fs_mem (mach_fs s)) (unat dtb))"
    and "3 * length es + 63 + n + CACHE_NUM \<le> card (free_at_boot L (unat c) (unat e) (unat dtb) (fdt_size (fs_mem (mach_fs s)) (unat dtb)))"
    and "num_filesystems (mach_fs s) = 0" "\<And>i. num_children (fsnodes (mach_fs s) i) = 0"
    and "timer_head (m_timers s) = None" "task_head (m_tasks s) = None"
  shows "if get_current (mach_kern s) = NULL then kernel_main L 0 clk freq hdl kh idle shell dtb s = None
     else \<exists>pc sp s' i t x v Q. kernel_main L 0 clk freq hdl kh idle shell dtb s = Some (Some (pc, sp), s') \<and>
       machine_inv L (free_at_boot L (unat c) (unat e) (unat dtb) (fdt_size (fs_mem (mach_fs s)) (unat dtb))) v s' [i, t] [] [] [x] Q \<and>
       get_current (mach_kern s') = t \<and> pc = of_nat shell \<and> sp = of_nat (user_stack (threads (mach_kern s') t)) + 4096 \<and>
       boot_tree Q (mach_fs s') es \<and> cpio_bounds s' = (c, e) \<and>
       tm_callback (tm_node (m_timers s') x) = Keep_schedule \<and> timer_key (m_timers s') x = clk (tm_reads (m_timers s)) + drop_bit 5 freq \<and>
       pages_left (h_mm (fs_heap (mach_fs s'))) n"
proof (cases "get_current (mach_kern s) = NULL")
  case True
  have "6 + CACHE_NUM \<le> card (free_at_boot L (unat c) (unat e) (unat dtb) (fdt_size (fs_mem (mach_fs s)) (unat dtb)))" using assms(3) by simp
  with True show ?thesis using kernel_main_no_thread [OF assms(1,2) _ assms(4)] by simp
next
  case False
  show ?thesis unfolding if_not_P [OF False] using kernel_main_ok [OF assms False, of clk freq hdl kh idle shell] by blast
qed

lemma boot_machine_ok:
  "boot_image (fs_mem (mach_fs boot_machine)) (unat (0x2EFF7000 :: u32)) boot_tokens 0x8000000 0x8040000 [([0x61], [0x68, 0x69])]"
  "boot_layout_ok board (unat (0x8000000 :: u32)) (unat (0x8040000 :: u32)) (unat (0x2EFF7000 :: u32)) (fdt_size (fs_mem (mach_fs boot_machine)) (unat (0x2EFF7000 :: u32)))"
  "free_at_boot board (unat (0x8000000 :: u32)) (unat (0x8040000 :: u32)) (unat (0x2EFF7000 :: u32)) (fdt_size (fs_mem (mach_fs boot_machine)) (unat (0x2EFF7000 :: u32))) = board_pages"
  "3 * length [([0x61 :: byte], [0x68, 0x69 :: byte])] + 63 + 10 + CACHE_NUM \<le> card board_pages"
  "num_filesystems (mach_fs boot_machine) = 0" "\<And>i. num_children (fsnodes (mach_fs boot_machine) i) = 0"
  "timer_head (m_timers boot_machine) = None" "task_head (m_tasks boot_machine) = None" "get_current (mach_kern boot_machine) \<noteq> NULL"
proof -
  have m: "fs_mem (mach_fs boot_machine) = boot_mem"
    by (simp add: boot_machine_def mach_fs_def mach_kern_def fs_mem_def put_mem_def)
  have u: "unat (0x8000000 :: u32) = 0x8000000" "unat (0x8040000 :: u32) = 0x8040000" "unat (0x2EFF7000 :: u32) = 0x2EFF7000" by simp_all
  show "boot_image (fs_mem (mach_fs boot_machine)) (unat (0x2EFF7000 :: u32)) boot_tokens 0x8000000 0x8040000 [([0x61], [0x68, 0x69])]"
    unfolding m using boot_mem_image .
  show "boot_layout_ok board (unat (0x8000000 :: u32)) (unat (0x8040000 :: u32)) (unat (0x2EFF7000 :: u32)) (fdt_size (fs_mem (mach_fs boot_machine)) (unat (0x2EFF7000 :: u32)))"
    unfolding m u boot_mem_size using board_layout .
  show "free_at_boot board (unat (0x8000000 :: u32)) (unat (0x8040000 :: u32)) (unat (0x2EFF7000 :: u32)) (fdt_size (fs_mem (mach_fs boot_machine)) (unat (0x2EFF7000 :: u32))) = board_pages"
    unfolding m u boot_mem_size by (simp add: board_pages_def)
  show "3 * length [([0x61 :: byte], [0x68, 0x69 :: byte])] + 63 + 10 + CACHE_NUM \<le> card board_pages"
    using board_pages_card by simp
  show "num_filesystems (mach_fs boot_machine) = 0" "\<And>i. num_children (fsnodes (mach_fs boot_machine) i) = 0"
    "timer_head (m_timers boot_machine) = None" "task_head (m_tasks boot_machine) = None" "get_current (mach_kern boot_machine) \<noteq> NULL"
    by (simp_all add: get_current_def boot_machine_def mach_fs_def mach_kern_def put_mem_def blank_fs_def board_timers_def board_tasks_def)
qed

theorem kernel_boots_witness:
  "\<exists>sp s' v Q. kernel_main board 0 (\<lambda>_. 7) 64 5 6 8 9 0x2EFF7000 boot_machine = Some (Some (9, sp), s') \<and>
     resolve (mach_fs s') (path_initramfs @ [0x2F, 0x61]) = (0, v) \<and> (\<exists>b. ram_file Q (mach_fs s') b v ([0x61], [0x68, 0x69]))"
proof -
  obtain sp s' Q where b: "kernel_main board 0 (\<lambda>_. 7) 64 5 6 8 9 0x2EFF7000 boot_machine = Some (Some (9, sp), s')" "boot_tree Q (mach_fs s') [([0x61], [0x68, 0x69])]"
    using kernel_boots [OF boot_machine_ok(1,2) _ boot_machine_ok(5-8), unfolded boot_machine_ok(3), OF boot_machine_ok(4), of "\<lambda>_. 7" 64 5 6 8 9] boot_machine_ok(9) by auto
  have "map_of [([0x61 :: byte], [0x68, 0x69 :: byte])] [0x61] = Some [0x68, 0x69]" "[0x61 :: byte] \<noteq> []" "(0x2F :: byte) \<notin> set [0x61]" "[0x61] \<noteq> dot" "[0x61] \<noteq> dotdot" by simp_all
  then obtain v b where "resolve (mach_fs s') (path_initramfs @ 0x2F # [0x61]) = (0, v)" "ram_file Q (mach_fs s') b v ([0x61], [0x68, 0x69])"
    using b(2) unfolding boot_tree_def by blast
  then show ?thesis using b(1) by auto
qed

end
