(* ===== verification/Interrupted.thy ===== *)
theory Interrupted
  imports Timer
begin

section \<open>An interrupt inside \<open>kmalloc\<close> (src/alloc.c)\<close>

text \<open>
  System calls run with interrupts enabled, and nothing in \<open>alloc.c\<close> disables them. \<open>kmalloc\<close> is cut here where it matters: between
  reading the head of the free list into \<open>entry\<close> and taking the head off the list. The first part is \<open>kmalloc_pick\<close>, the second
  \<open>kmalloc_unlink\<close>; one after the other they are \<open>kmalloc\<close>. In between comes what the timer's interrupt handler does for an expired
  \<open>keep_schedule\<close>: it allocates, too.
\<close>

text \<open>Up to the test of \<open>entry\<close>. In the result \<open>None\<close> is the return of \<open>NULL\<close>; otherwise \<open>entry\<close> and the number of the cache.\<close>

definition kmalloc_pick :: "u32 \<Rightarrow> heap \<Rightarrow> ((addr \<times> nat) option \<times> heap) option" where
  "kmalloc_pick sz s =
     (case get_chunk_order sz of
        None \<Rightarrow> None
      | Some order \<Rightarrow>
          let sz' = (push_bit order 1 :: u32); cache = order - MIN_CACHE_ORDER in
          if sz' = 0 then Some (None, s)
          else if of_nat MAX_CHUNK_SIZE < sz' then Some (None, s)
          else
            let s1 = (if cache_list (kmem_caches s cache) = None then request_page cache s else s) in
            (case cache_list (kmem_caches s1 cache) of
               None \<Rightarrow> Some (None, s1)
             | Some entry \<Rightarrow> Some (Some (entry, cache), s1)))"

definition kmalloc_unlink :: "addr \<Rightarrow> nat \<Rightarrow> heap \<Rightarrow> (addr \<times> heap) option" where
  "kmalloc_unlink entry cache s =
     (case kmem_freelist_pop cache s of None \<Rightarrow> None | Some s1 \<Rightarrow> Some (entry + ENTRY_SIZE, s1))"

lemma kmalloc_halves:
  "kmalloc sz s =
     (case kmalloc_pick sz s of
        None \<Rightarrow> None
      | Some (None, s1) \<Rightarrow> Some (NULL, s1)
      | Some (Some (entry, cache), s1) \<Rightarrow> kmalloc_unlink entry cache s1)"
  by (auto simp: kmalloc_def kmalloc_pick_def kmalloc_unlink_def Let_def split: option.splits)

lemma pick_head:
  assumes "kmalloc_pick sz s = Some (Some (entry, cache), s1)"
  shows "cache_list (kmem_caches s1 cache) = Some entry" "\<exists>order. get_chunk_order sz = Some order \<and> cache = order - MIN_CACHE_ORDER"
  using assms by (auto simp: kmalloc_pick_def Let_def split: option.splits if_splits)

lemma pick_keeps:
  assumes inv: "heap_inv L M s R" and p: "kmalloc_pick sz s = Some (r, s1)" and sz: "0 < sz" "sz \<le> 128"
  shows "heap_inv L M s1 R"
proof -
  obtain i where i: "i < CACHE_NUM" "get_chunk_order sz = Some (i + 4)" "(push_bit (i + 4) 1 :: u32) \<noteq> 0"
    "\<not> of_nat MAX_CHUNK_SIZE < (push_bit (i + 4) 1 :: u32)" using chunk_order [OF sz] by blast
  have e: "s1 = (if cache_list (kmem_caches s i) = None then request_page i s else s)"
    using p i(2-4) by (auto simp: kmalloc_pick_def Let_def split: option.splits)
  obtain fl A C fr U where h: "heap_ok L M s fl A C fr U" "set R \<subseteq> regions A C U"
    "\<forall>r \<in> set R. fst r \<noteq> NULL" "sorted_wrt apart R" using inv unfolding heap_inv_def by blast
  obtain fl' A' C' fr' where "heap_ok L M s1 fl' A' C' fr' U" "regions A C U \<subseteq> regions A' C' U"
    using request_page_ok [OF h(1) i(1)] h(1) unfolding e by (metis order_refl)
  then show ?thesis using h(2-4) unfolding heap_inv_def by blast
qed

text \<open>Another allocation of the same size class gets the same chunk.\<close>

lemma chunk_128: "get_chunk_order 96 = Some 7"
  by code_simp

lemma alloc_picked:
  assumes "cache_list (kmem_caches s 3) = Some entry"
  shows "\<exists>s1. alloc TIMER_SIZE s = Some (entry + ENTRY_SIZE, s1)"
proof -
  have "kmalloc TIMER_SIZE s = (case kmem_freelist_pop 3 s of None \<Rightarrow> None | Some s1 \<Rightarrow> Some (entry + ENTRY_SIZE, s1))"
    using assms by (simp add: kmalloc_def chunk_128 Let_def push_bit_eq_mult)
  moreover have "\<exists>s1. kmem_freelist_pop 3 s = Some s1" using assms by (simp add: kmem_freelist_pop_def Let_def)
  ultimately show ?thesis by (auto simp: alloc_def)
qed

lemma kmalloc_race:
  assumes ok: "timers_ok L M t R xs" and p: "kmalloc_pick sz (tm_heap t) = Some (Some (entry, 3), s1)" and sz: "0 < sz" "sz \<le> 128"
  shows "\<exists>t' l. timer_run clk freq Keep_schedule msg (t\<lparr>tm_heap := s1\<rparr>) = Some t' \<and>
     timers_ok L M t' ((entry + ENTRY_SIZE, l) # R) (insert_before (timer_key t') (entry + ENTRY_SIZE) xs)"
proof -
  let ?t = "t\<lparr>tm_heap := s1, tm_calls := tm_calls t @ [(Keep_schedule, msg)]\<rparr>"
  have h: "heap_inv L M (tm_heap t) R" using ok by (simp add: timers_ok_def)
  have k: "timer_key ?t = timer_key t" by (rule timer_key_cong) simp
  have t: "timers_ok L M ?t R xs" using ok pick_keeps [OF h p sz] k by (simp add: timers_ok_def timer_list_def)
  then obtain z where z: "short_string M (tm_mem ?t) NULL z" by (auto simp: timers_ok_def)
  obtain s2 where s2: "alloc TIMER_SIZE s1 = Some (entry + ENTRY_SIZE, s2)" using alloc_picked [OF pick_head(1) [OF p]] by blast
  from add_timer_ok [OF t z, of clk Keep_schedule "drop_bit 8 freq"] s2 obtain u l where
    u: "add_timer clk Keep_schedule NULL (drop_bit 8 freq) ?t = Some u"
      "timers_ok L M u ((entry + ENTRY_SIZE, l) # R) (insert_before (timer_key u) (entry + ENTRY_SIZE) xs)" by auto
  let ?u = "u\<lparr>need_schedule := True\<rparr>"
  have "timer_key ?u = timer_key u" by (rule timer_key_cong) simp
  moreover have "timers_ok L M ?u ((entry + ENTRY_SIZE, l) # R) (insert_before (timer_key u) (entry + ENTRY_SIZE) xs)"
    by (rule timers_ok_cong [OF u(2)]) simp_all
  ultimately have "timers_ok L M ?u ((entry + ENTRY_SIZE, l) # R) (insert_before (timer_key ?u) (entry + ENTRY_SIZE) xs)" by simp
  moreover have "timer_run clk freq Keep_schedule msg (t\<lparr>tm_heap := s1\<rparr>) = Some ?u" using u(1) by (simp add: timer_run_def)
  ultimately show ?thesis by blast
qed

lemma unlink_other:
  "kmalloc_unlink entry c s = (if cache_list (kmem_caches s c) = None then None else Some (entry + ENTRY_SIZE, the (kmem_freelist_pop c s)))"
  by (auto simp: kmalloc_unlink_def kmem_freelist_pop_def Let_def split: option.splits)

end
