(* ===== verification/PreemptProps.thy ===== *)
theory PreemptProps
  imports Preempt BootProps Interrupted
begin

section \<open>Properties of interrupts and preemption\<close>

text \<open>C6: A timer interrupt while the first timer, \<open>keep_schedule\<close>, has expired and another thread is ready: \<open>irq_entry\<close> suspends
  the current thread, with its registers saved, where its state says it belongs, and the first thread of the ready queue goes on with its own
  registers. All the invariants hold, no timer is left that had expired, and what the machine held on the heap is still held.\<close>

theorem timer_interrupt_preempts:
  assumes "machine_inv (e_layout E) M v s (n # ns) ws zs (x # xs) R" "clock_ok clk freq" "irq_src AND TIMER_IRQ \<noteq> 0"
    and "pages_left (h_mm (fs_heap (mach_fs s))) 1" "n \<noteq> get_current (mach_kern s)"
    and "timer_key (m_timers s) x \<le> clk (tm_reads (m_timers s))" "tm_callback (tm_node (m_timers s) x) = Keep_schedule"
    and "park_lists (th_state (threads (mach_kern s) (get_current (mach_kern s)))) (get_current (mach_kern s)) ns ws zs = (rs', ws', zs')"
  shows "\<exists>c s' ys Q. irq_entry E clk freq iir irq_src p1 s = Some (Inl c, s') \<and> get_current (mach_kern s') = n \<and>
     cpu (mach_kern s') = cpu_ctx (threads (mach_kern s) n) \<and> cpu_ctx (threads (mach_kern s') (get_current (mach_kern s))) = cpu (mach_kern s) \<and>
     th_state (threads (mach_kern s') n) = TASK_RUNNING \<and>
     machine_inv (e_layout E) M v s' rs' ws' zs' ys Q \<and> task_kept s' rs' ws' zs' ys Q c \<and> others R (x # xs) \<subseteq> others Q ys \<and>
     (\<forall>y \<in> set ys. clk (tm_reads (m_timers s)) < timer_key (m_timers s') y)"
proof -
  have "heap_inv (e_layout E) M (fs_heap (mach_fs s)) R" using assms(1) by (simp add: machine_inv_def threads_inv_def mach_fs_def)
  from alloc_left [OF this, of 0 TASK_SIZE] assms(4) have "fst (the (alloc TASK_SIZE (fs_heap (mach_fs s)))) \<noteq> NULL" by auto
  then show ?thesis by (rule irq_preempts [OF assms(1-3) _ assms(5-8)])
qed

text \<open>For the witnesses: the machine that has booted.\<close>

lemma booted:
  "\<exists>s i t x v Q. machine_inv board board_pages v s [i, t] [] [] [x] Q \<and> get_current (mach_kern s) = t \<and>
     tm_callback (tm_node (m_timers s) x) = Keep_schedule \<and> timer_key (m_timers s) x = 9 \<and> pages_left (h_mm (fs_heap (mach_fs s))) 10 \<and>
     no_signal (mach_kern s)"
proof -
  have "clk 0 + drop_bit 5 (64 :: u64) = 9" if "clk = (\<lambda>_ :: nat. 7 :: u64)" for clk using that by (simp add: drop_bit_eq_div)
  then show ?thesis
    using kernel_main_ok [OF boot_machine_ok(1,2) _ boot_machine_ok(5-9), unfolded boot_machine_ok(3), OF boot_machine_ok(4), of "\<lambda>_. 7" 64 5 6 8 9]
    by (fastforce simp: no_signal_def)
qed

definition board_sys_env :: sys_env where
  "board_sys_env = \<lparr>e_layout = board, e_hdl = 5, e_kill_hdl = 6, e_wrapper = 7, e_pad = 0, e_cpio = 0, e_reply = (\<lambda>_ m. (0, m))\<rparr>"

lemma booted_facts:
  "\<exists>s i t x v Q. machine_inv (e_layout board_sys_env) board_pages v s [i, t] [] [] [x] Q \<and> i \<noteq> get_current (mach_kern s) \<and> get_current (mach_kern s) = t \<and>
     pages_left (h_mm (fs_heap (mach_fs s))) 1 \<and> timer_key (m_timers s) x \<le> (\<lambda>_. 1000) (tm_reads (m_timers s)) \<and>
     tm_callback (tm_node (m_timers s) x) = Keep_schedule \<and> no_signal (mach_kern s) \<and>
     park_lists (th_state (threads (mach_kern s) (get_current (mach_kern s)))) (get_current (mach_kern s)) [t] [] [] = ([t], [], [])"
proof -
  obtain s i t x v Q where s: "machine_inv board board_pages v s [i, t] [] [] [x] Q" "get_current (mach_kern s) = t" "no_signal (mach_kern s)"
    "tm_callback (tm_node (m_timers s) x) = Keep_schedule" "timer_key (m_timers s) x = 9" "pages_left (h_mm (fs_heap (mach_fs s))) 10" using booted by blast
  moreover have E: "e_layout board_sys_env = board" by (simp add: board_sys_env_def)
  moreover have q: "i \<noteq> t" "th_state (threads (mach_kern s) t) = TASK_READY"
    using s(1) by (auto simp: machine_inv_def threads_inv_def sched_inv_def queues_ok_def)
  moreover have "park_lists (th_state (threads (mach_kern s) (get_current (mach_kern s)))) (get_current (mach_kern s)) [t] [] [] = ([t], [], [])"
    using q(2) s(2) by (simp add: park_lists_def TASK_READY_def TASK_RUNNING_def TASK_BLOCKED_def TASK_EXITED_def)
  moreover have "pages_left (h_mm (fs_heap (mach_fs s))) 1" using pages_left_mono [OF s(6)] by simp
  ultimately show ?thesis
    by - (rule exI [of _ s], rule exI [of _ i], rule exI [of _ t], rule exI [of _ x], rule exI [of _ v], rule exI [of _ Q], simp)
qed

lemma clock_1000: "clock_ok (\<lambda>_. 1000) 256"
  by (simp add: clock_ok_def monotone_on_def)

theorem timer_interrupt_preempts_witness:
  "\<exists>s i t c s'. get_current (mach_kern s) = t \<and> irq_entry board_sys_env (\<lambda>_. 1000) 256 (\<lambda>_. 0) 2 0 s = Some (Inl c, s') \<and>
     get_current (mach_kern s') = i \<and> i \<noteq> t \<and> cpu_ctx (threads (mach_kern s') t) = cpu (mach_kern s)"
proof -
  obtain s i t x v Q where s: "machine_inv (e_layout board_sys_env) board_pages v s [i, t] [] [] [x] Q" "i \<noteq> get_current (mach_kern s)" "get_current (mach_kern s) = t"
    "pages_left (h_mm (fs_heap (mach_fs s))) 1" "timer_key (m_timers s) x \<le> (\<lambda>_. 1000) (tm_reads (m_timers s))"
    "tm_callback (tm_node (m_timers s) x) = Keep_schedule"
    "park_lists (th_state (threads (mach_kern s) (get_current (mach_kern s)))) (get_current (mach_kern s)) [t] [] [] = ([t], [], [])"
    using booted_facts by blast
  have src: "(2 :: u32) AND TIMER_IRQ \<noteq> 0" by (simp add: TIMER_IRQ_def)
  show ?thesis using timer_interrupt_preempts [OF s(1) clock_1000 src s(4,2,5-7), of "\<lambda>_. 0" 0] s(2,3) by auto
qed

text \<open>C5: Preemption between the kernel's operations keeps everything in order. A step is one whole operation - a timer interrupt with its
  handler, the rest of a suspended handler, \<open>schedule\<close>, \<open>_exit\<close>, \<open>_kill\<close>, a burial, a new timeout, or computation of the
  current thread -, so interrupts come while a thread computes and between its calls. From any state of the invariant, after any sequence
  of such steps, the queues, the heap, the timers and the
  threads' blocks are in order and every suspended handler still has its own task; \<open>schedule\<close> returns, a suspended handler
  runs to its end, and a timer interrupt is served as long as the task's memory is there. Nothing is said of an interrupt that comes in the
  middle of an operation, which the code allows, since system calls run with interrupts enabled and \<open>core_timer_handler\<close>
  enables them again: C31 shows that this can go wrong.\<close>

theorem preemption_between_operations:
  assumes "preempt_inv (e_layout E) M v x" "(mstep E M clk freq)\<^sup>*\<^sup>* x (s, S)" "clock_ok clk freq" "no_signal (mach_kern s)"
  shows "preempt_inv (e_layout E) M v (s, S) \<and> schedule (mach_kern s) \<noteq> None \<and>
     (\<forall>c. S (get_current (mach_kern s)) = Some c \<longrightarrow> (\<exists>s'. irq_return E c s = Some (Resume, s'))) \<and>
     (irq_src AND TIMER_IRQ \<noteq> 0 \<and> fst (the (alloc TASK_SIZE (fs_heap (mach_fs s)))) \<noteq> NULL \<longrightarrow> irq_entry E clk freq iir irq_src p1 s \<noteq> None)"
proof -
  have p: "preempt_inv (e_layout E) M v (s, S)" using assms(2,1) by (induction rule: rtranclp_induct) (auto intro: mstep_keeps [OF _ _ assms(3)])
  then obtain rs ws zs xs R where i: "machine_inv (e_layout E) M v s rs ws zs xs R" "suspended_ok s rs ws zs xs R S" by (auto simp: preempt_inv_def)
  have "schedule (mach_kern s) \<noteq> None" using schedule_keeps [of "mach_kern s" rs ws zs] i(1) by (auto simp: machine_inv_def threads_inv_def)
  moreover have "\<exists>s'. irq_return E c s = Some (Resume, s')" if "S t = Some c" for t c
    using irq_return_ok [OF i(1) _ assms(4), of c] i(2) that by (auto simp: suspended_ok_def)
  moreover have "irq_entry E clk freq iir irq_src p1 s \<noteq> None"
    if "irq_src AND TIMER_IRQ \<noteq> 0" "fst (the (alloc TASK_SIZE (fs_heap (mach_fs s)))) \<noteq> NULL"
    using irq_timer_cases [OF i(1) assms(3) that assms(4), of iir p1] by auto
  ultimately show ?thesis using p by blast
qed

theorem preemption_between_operations_witness:
  "\<exists>s s'. mstep board_sys_env board_pages (\<lambda>_. 1000) 256 (s, Map.empty) (s', Map.empty) \<and> schedule (mach_kern s') \<noteq> None \<and>
     irq_entry board_sys_env (\<lambda>_. 1000) 256 (\<lambda>_. 0) 2 0 s' \<noteq> None"
proof -
  obtain s i t x v Q where s: "machine_inv (e_layout board_sys_env) board_pages v s [i, t] [] [] [x] Q" "pages_left (h_mm (fs_heap (mach_fs s))) 1"
    "no_signal (mach_kern s)" using booted_facts by blast
  let ?s = "put_kern ((mach_kern s)\<lparr>cpu := cpu (mach_kern s), k_fs := put_mem (fs_mem (mach_fs s)) (mach_fs s)\<rparr>) s"
  have "mstep board_sys_env board_pages (\<lambda>_. 1000) 256 (s, Map.empty) (?s, Map.empty)" by (rule compute) (simp_all add: calm_def)
  moreover have "preempt_inv (e_layout board_sys_env) board_pages v (s, Map.empty)" 
    unfolding preempt_inv_def prod.case suspended_ok_def using s(1) by blast
  moreover have "no_signal (mach_kern ?s)" using s(3) by (simp add: no_signal_def get_current_def put_mem_def mach_fs_def)
  moreover have "heap_inv (e_layout board_sys_env) board_pages (fs_heap (mach_fs s)) Q" using s(1) by (simp add: machine_inv_def threads_inv_def mach_fs_def)
  from alloc_left [OF this, of 0 TASK_SIZE] s(2) have "fst (the (alloc TASK_SIZE (fs_heap (mach_fs ?s)))) \<noteq> NULL" by (auto simp: put_mem_def)
  moreover have "(2 :: u32) AND TIMER_IRQ \<noteq> 0" by (simp add: TIMER_IRQ_def)
  ultimately show ?thesis
    using preemption_between_operations [of board_sys_env board_pages v "(s, Map.empty)" "\<lambda>_. 1000" 256 ?s Map.empty 2 "\<lambda>_. 0" 0] clock_1000 by blast
qed



end
