(* ===== verification/Spec2Isabelle.thy ===== *)
theory Spec2Isabelle
  imports Board Utils DriverProps SystemProps ThreadProps PreemptProps
begin

text \<open>
  A verification of the kernel in this repository (src/, NYCU operating system capstone): a kernel for the Raspberry Pi 3 in C,
  with a boot loader. The theories translate the C code to definitions and prove about them the theorems listed
  below; every definition that models code is named after the function, struct or constant it models.

  \<^bold>\<open>How the program is put together.\<close> \<open>main\<close> (src/main.c) sets up memory: the start-up allocator, the page allocator with the
  ranges of firmware, kernel and RAM disk reserved, and the chunk caches in front of it. Everything else is a client
  of \<open>alloc\<close> and \<open>free\<close>: the queue of interrupt tasks, the timer list, the threads, the file system. Interrupts put
  their work on the task queue and run it from there; the UART moves bytes between the line and two ring buffers.
  The scheduler switches between threads that are linked into three queues; system calls and signals work on the current
  thread, and the file calls go through the virtual file system to the in-memory file system, the RAM disk and
  two devices.

  \<^bold>\<open>The model.\<close> One record per component holds the globals of its C file. Memory is of two kinds: bytes
  (\<open>mem\<close>, a function from addresses) for strings, buffers and file contents, and one store per struct type, a function from
  addresses to records, for the structs on the heap, which only typed code accesses. Pointers are natural numbers with
  \<open>NULL = 0\<close>; links of queues are \<open>None\<close> or \<open>Some\<close>. Integers are words of the width the C type has where the arithmetic
  can wrap, and \<open>int\<close> with \<open>to_s32\<close> for signed results. \<open>None\<close> as the result of an operation is undefined behaviour (\<open>NULL\<close>
  followed, an index out of range) or a loop that does not end; so a theorem that says the result is \<open>Some\<close> says that
  the code returns. Loops without a bound are \<open>partial_function (option)\<close>; no fuel is used. Messages printed for
  debugging are left out.

  \<^bold>\<open>The theories.\<close>
  \<^item> \<open>Prelude\<close>: addresses, bytes, signed conversions and lists linked through a field (\<open>sll\<close>, \<open>dll\<close>).
  \<^item> \<open>Mm\<close> (src/mm.c), \<open>FreeLists\<close>, \<open>Buddy\<close>, \<open>MmRefine\<close>, \<open>Reserve\<close>: the page allocator; the abstract buddy system on lists of
    free blocks, and the refinement of \<open>_alloc\<close>, \<open>_free\<close>, \<open>mm_init\<close> and \<open>reserve\<close> to it.
  \<^item> \<open>Kmem\<close> (src/alloc.c), \<open>Allocator\<close>, \<open>KmemInv\<close>, \<open>Boot\<close>, \<open>Room\<close>: the chunk allocator; the locale of allocators; the heap's invariant
    \<open>heap_inv\<close> with the regions held, the boot sequence, and when a request succeeds.
  \<^item> \<open>Cstring\<close> (src/string.c), \<open>Utils\<close> (src/utils.c): strings and number conversions.
  \<^item> \<open>PrioList\<close>, \<open>Tasks\<close> (src/tasks.c), \<open>Timer\<close> (src/timer.c): the locale of sorted lists, the task queue and the timers.
  \<^item> \<open>Fifo\<close>, \<open>Uart\<close> (src/uart.c), \<open>UartQueue\<close>: the locale of first-in first-out queues, the driver, and its rings as such queues.
  \<^item> \<open>Cpio\<close> (src/cpio.c), \<open>Devicetree\<close> (src/devicetree.c), \<open>Bootload\<close> (src/bootloader/src/load.c), \<open>Shell\<close> (src/shell.c).
  \<^item> \<open>Fs\<close> (src/include/fs_vfs.h), \<open>Tmpfs\<close> (src/fs_tmpfs.c), \<open>Initramfs\<close> (src/fs_initramfs.c), \<open>Devices\<close> (src/dev_uart.c,
    src/dev_framebuffer.c, src/mailbox.c), \<open>Vfs\<close> (src/fs_vfs.c): the file system.
  \<^item> \<open>PosFile\<close>, \<open>FileIo\<close>, \<open>Directory\<close>, \<open>Paths\<close>: the locales of files with a position and their interpretations; directories;
    paths as lists of components, creating and opening through a path.
  \<^item> \<open>Sched\<close> (src/sched.c, src/sched_asm.S), \<open>SchedInv\<close>: threads and the scheduler; its queues as lists, and their invariant.
  \<^item> \<open>Syscall\<close> (src/syscall.c, src/signal.c, src/exec.c, src/exception.c), \<open>Signals\<close>: system calls and signals.
  \<^item> \<open>Board\<close>, \<open>Machine\<close>: a concrete board, its heap after boot and its threads, on which the witnesses evaluate.
  \<^item> \<open>Threads\<close>, \<open>Kmain\<close> (src/main.c): creation and end of threads as a step relation, its invariant, and the first threads.
  \<^item> \<open>UserCalls\<close> (the wrappers of src/syscall.c), \<open>UserFiles\<close>: system calls as a program makes them.
  \<^item> \<open>BootFs\<close>, \<open>RamDisk\<close>, \<open>BootTree\<close>, \<open>BootInit\<close>: \<open>vfs_init\<close> stage by stage: the root, the mount of the RAM disk, a file for every
    entry of its archive, the device nodes; without a current thread it does not get through.
  \<^item> \<open>KernelMain\<close> (src/main.c): \<open>main\<close> on a record of all parts, and the machine's invariant.
  \<^item> \<open>Irq\<close> (\<open>irq_entry\<close> of src/exception.c), \<open>Preempt\<close>: interrupts through the task queue on the whole machine; a step relation of the
    kernel's operations and timer interrupts, and its invariant.
  \<^item> \<open>Interrupted\<close> (src/alloc.c): \<open>kmalloc\<close> cut in two, with an interrupt in between.
  \<^item> \<open>DriverProps\<close>, \<open>FileProps\<close>, \<open>ThreadProps\<close>, \<open>SystemProps\<close>, \<open>BootProps\<close>, \<open>PreemptProps\<close> and this theory: the properties.

  \<^bold>\<open>Bounds.\<close> File sizes and positions in the refinement of files are below 2 GiB (\<open>FILE_LIM\<close>), as the code cuts lengths to 32 bits;
  what happens beyond is \<open>tmpfs_write_never_returns\<close>. Paths in the theorems about \<open>vfs_mkdir\<close> and \<open>vfs_open\<close> are shorter than 128
  characters, so that their copy is a chunk. \<open>pages_left\<close> counts the pages the page allocator has free; an allocation of
  at most a page takes at most one. Thirteen pages are enough for a thread: its structure, its two stacks, the three open
  consoles. Booting needs at most 3 pages for each file of the RAM disk and 63 more, 35 for \<open>vfs_init\<close>, 14 for \<open>sched_init\<close>, 1 for
  the first timer and 13 for the shell's thread, beside one for each chunk cache; the RAM disk has at most 16 files of at most a page.

  \<^bold>\<open>Assumptions.\<close> Every kernel operation, and the interrupt handler, is one step: no interrupt comes in the middle of an operation or nests
  in the handler, although the code allows both; \<open>kmalloc_interrupted\<close> is what can go wrong then. Booting
  is proved to get through from a thread register that is not \<open>NULL\<close>, which nothing has set, and not to otherwise; it assumes \<open>num_children\<close> to
  be 0 in memory not allocated yet, and the bytes behind the two magic numbers that \<open>strcmp\<close> compares to be equal. The serial line
  keeps incoming bytes without bound until they are read. A negative shift in \<open>reserve\<close> is taken as a shift by 0; it does not
  come up where \<open>reserve\<close> is proved correct.

  \<^bold>\<open>Not modelled.\<close> The assembly of the start-up code and the vector table, the watchdog (src/power.c), the test functions of
  src/main.c and the functions that only print; \<open>uart_async_gets\<close>, which stores
  through an uninitialised pointer. The video core, the counter registers and the reads past a string without
  terminator are parameters.
\<close>

section \<open>Memory\<close>

text \<open>C1: From the state \<open>main\<close> sets up at boot, whatever sequence of \<open>alloc\<close> requests and \<open>free\<close>s of
  blocks it holds a client makes, every call returns, the blocks it holds at the end are pairwise
  disjoint, and all of them lie in pages that were not reserved at boot.\<close>

theorem heap_requests_disjoint:
  assumes "boot_layout_ok L c e d n"
  shows "\<exists>s' H. serve alloc (free L) rs (kernel_memory_init L c e d n s) [] = Some (s', H) \<and>
     sorted_wrt (\<lambda>(p, n) (q, m). apart (p, unat n) (q, unat m)) H \<and>
     (\<forall>(p, k) \<in> set H. bytes (p, unat k) \<subseteq> page_bytes (free_at_boot L c e d n))"
  by (rule heap_alloc.serve_disjoint [OF kernel_memory_init_ok [OF assms]])

theorem heap_requests_disjoint_witness:
  "\<exists>s' H. serve alloc (free board) [Get 100, Get 5000, Put 0, Get 64, Put 1] board_heap [] = Some (s', H) \<and>
     sorted_wrt (\<lambda>(p, n) (q, m). apart (p, unat n) (q, unat m)) H \<and>
     (\<forall>(p, k) \<in> set H. bytes (p, unat k) \<subseteq> page_bytes board_pages)"
  unfolding board_heap_def board_pages_def
  by (rule heap_requests_disjoint [OF board_layout])

text \<open>C23: \<open>alloc\<close> returns in every state that satisfies the heap invariant; it returns \<open>NULL\<close> and leaves
  the held blocks alone, or it returns a block of at least the size asked for that overlaps none of
  the held ones. The invariant still holds.\<close>

theorem alloc_fresh:
  assumes "heap_inv L M s R"
  shows "\<exists>p s'. alloc sz s = Some (p, s') \<and>
     (if p = NULL then heap_inv L M s' R
      else (\<forall>r \<in> set R. apart (p, unat sz) r) \<and> (\<exists>l. unat sz \<le> l \<and> heap_inv L M s' ((p, l) # R)))"
proof -
  obtain p s' where a: "alloc sz s = Some (p, s')" using heap_alloc.get_returns [OF assms] by blast
  then show ?thesis
    using heap_alloc.get_null [OF assms] heap_alloc.get_fresh [OF assms a] heap_alloc.new_apart [OF assms a]
    by (cases "p = NULL") auto
qed

theorem alloc_fresh_witness:
  "\<exists>p s'. alloc 100 board_heap = Some (p, s') \<and>
     (if p = NULL then heap_inv board board_pages s' []
      else (\<forall>r \<in> set []. apart (p, unat (100 :: u32)) r) \<and>
           (\<exists>l. unat (100 :: u32) \<le> l \<and> heap_inv board board_pages s' [(p, l)]))"
  by (rule alloc_fresh [OF board_heap_inv])

text \<open>C24: \<open>free\<close> of any held block returns, and the invariant holds with exactly the other blocks held.\<close>

theorem free_held:
  assumes "heap_inv L M s R" "i < length R"
  shows "\<exists>s'. free L (fst (R ! i)) s = Some s' \<and> heap_inv L M s' (drop_nth i R)"
  using assms by (rule heap_alloc.put_held)

theorem free_held_witness:
  "\<exists>p s'. alloc 100 board_heap = Some (p, s') \<and>
     (p \<noteq> NULL \<longrightarrow> (\<exists>s''. free board p s' = Some s'' \<and> heap_inv board board_pages s'' []))"
proof -
  obtain p s' where a: "alloc 100 board_heap = Some (p, s')"
    using heap_inv_alloc [OF board_heap_inv] by blast
  have "\<exists>s''. free board p s' = Some s'' \<and> heap_inv board board_pages s'' []" if nn: "p \<noteq> NULL"
  proof -
    obtain l where "heap_inv board board_pages s' [(p, l)]"
      using heap_inv_alloc [OF board_heap_inv, of 100] a nn by auto
    from free_held [OF this, of 0] show ?thesis by (simp add: drop_nth_def)
  qed
  then show ?thesis using a by blast
qed

text \<open>C9: \<open>_alloc\<close>, in a state that implements the free lists \<open>fl\<close> with the blocks \<open>A\<close> handed out: either it
  returns \<open>NULL\<close>, changes nothing, and no free block is large enough, or it returns the address of a
  block of the least order that holds \<open>size\<close> bytes, all of whose pages were free; those pages and no
  others leave the free pages, and the lists are in order again.\<close>

theorem page_alloc_spec:
  assumes "mm_ok s fl A" "0 < sz" "sz \<le> MAX_ALLOC_SIZE" "mm_alloc sz s = (p, s')"
  shows "sz \<le> 2 ^ alloc_order sz * PAGE_SIZE \<and>
    (alloc_order sz = 0 \<or> 2 ^ (alloc_order sz - 1) * PAGE_SIZE < sz) \<and>
    ((p = NULL \<and> s' = s \<and> (\<forall>k \<ge> alloc_order sz. k < MAX_ORDER \<longrightarrow> fl k = [])) \<or>
     (\<exists>b fl'. p = b * PAGE_SIZE \<and> mm_ok s' fl' (insert (b, alloc_order sz) A) \<and>
        rng (b, alloc_order sz) \<subseteq> free_pages fl \<and> free_pages fl' = free_pages fl - rng (b, alloc_order sz)))"
  using mm_alloc_block [OF assms] alloc_order_spec [OF assms(2,3)] by blast

theorem page_alloc_spec_witness:
  "\<exists>b fl'. fst (mm_alloc 4096 (mm_init blank_mm)) = b * PAGE_SIZE \<and>
     mm_ok one_page_mm fl' {(b, alloc_order 4096)} \<and>
     free_pages fl' = {..<PAGE_NUM} - rng (b, alloc_order 4096)"
proof -
  have sz: "(0::nat) < 4096" "4096 \<le> MAX_ALLOC_SIZE" by simp_all
  note page_alloc_spec [OF mm_init_ok sz conjunct1 [OF one_page], THEN conjunct2, THEN conjunct2]
  then obtain b fl' where "237568 * PAGE_SIZE = b * PAGE_SIZE" "mm_ok one_page_mm fl' {(b, alloc_order 4096)}"
    "free_pages fl' = {..<PAGE_NUM} - rng (b, alloc_order 4096)"
    unfolding free_pages_init
  proof (elim disjE)
    assume "237568 * PAGE_SIZE = NULL \<and> one_page_mm = mm_init blank_mm \<and>
      (\<forall>k \<ge> alloc_order 4096. k < MAX_ORDER \<longrightarrow> init_fl 30 k = [])"
    then have "237568 * PAGE_SIZE = NULL" by (rule conjunct1)
    then show ?thesis by simp
  qed blast
  moreover have "fst (mm_alloc 4096 (mm_init blank_mm)) = 237568 * PAGE_SIZE" using one_page by simp
  ultimately show ?thesis by metis
qed

text \<open>C10: \<open>_free\<close> of a block that is handed out returns and implements the buddy system's \<open>bfree\<close>. When the
  merging stops below the highest order, exactly the block's pages become free. When it reaches the
  highest order, the code has a defect: the whole merged block of \<open>MAX_BLOCK_SIZE\<close> pages goes on no
  free list and is lost.\<close>

theorem page_free_spec:
  assumes "mm_ok s fl A" "(b, k) \<in> A" "b \<noteq> 0" "bmerge b k fl = (c, m, fl')"
  shows "\<exists>s'. mm_free (b * PAGE_SIZE) s = Some s' \<and> mm_ok s' (bfree b k fl) (A - {(b, k)}) \<and>
     free_pages (bfree b k fl) =
       (if m < MAX_ORDER - 1 then free_pages fl \<union> rng (b, k)
        else free_pages fl \<union> rng (b, k) - rng (c, m))"
proof -
  have "insert (b, k) (A - {(b, k)}) = A" using assms(2) by blast
  then have ok: "buddy_ok fl (insert (b, k) (A - {(b, k)}))" using assms(1) by (simp add: mm_ok_def)
  have nin: "(b, k) \<notin> A - {(b, k)}" by blast
  have "m < MAX_ORDER" using bmerge_ok [OF ok nin assms(4)] by blast
  then consider "m < MAX_ORDER - 1" | "\<not> m < MAX_ORDER - 1" "m = MAX_ORDER - 1" by fastforce
  then have "free_pages (bfree b k fl) =
       (if m < MAX_ORDER - 1 then free_pages fl \<union> rng (b, k)
        else free_pages fl \<union> rng (b, k) - rng (c, m))"
  proof cases
    case 1
    show ?thesis unfolding if_P [OF 1] by (rule bfree_ok(2) [OF ok nin assms(4) 1])
  next
    case 2
    show ?thesis unfolding if_not_P [OF 2(1)] by (rule bfree_ok(3) [OF ok nin assms(4) 2(2)])
  qed
  then show ?thesis using mm_free_refines [OF assms(1-3)] by blast
qed

theorem page_free_spec_witness:
  "\<exists>s'. mm_free (237568 * PAGE_SIZE) one_page_mm = Some s' \<and> mm_ok s' (bfree 237568 0 fresh_fl) {} \<and>
     free_pages (bfree 237568 0 fresh_fl) = free_pages fresh_fl \<union> rng (237568, 0) - rng (237568, 13)"
proof -
  obtain fl' where "bmerge 237568 0 fresh_fl = (237568, 13, fl')"
    by (simp add: bmerge.simps fresh_fl_def min_def)
  from page_free_spec [OF _ _ _ this] one_page show ?thesis by fastforce
qed

text \<open>After \<open>mm_init\<close> the free lists hold all pages of memory, in 30 blocks of the highest order.\<close>

theorem mm_init_spec:
  "mm_ok (mm_init s) (init_fl 30) {} \<and> free_pages (init_fl 30) = {..<PAGE_NUM} \<and>
   free_blocks (init_fl 30) = {(MAX_BLOCK_SIZE * i, MAX_ORDER - 1) |i. i < 30}"
  using mm_init_ok free_pages_init free_blocks_init by blast

text \<open>C17: \<open>reserve\<close> of a range whose pages are all free takes exactly those pages off the free lists,
  whatever the alignment of its ends, and keeps the allocator in order.\<close>

theorem reserve_spec:
  assumes "mm_ok s fl A" "strict s fl A" "a < b" "b \<le> MEMORY_SIZE" "pages a b \<subseteq> free_pages fl"
  shows "\<exists>fl' B. mm_ok (reserve a b s) fl' (A \<union> B) \<and> strict (reserve a b s) fl' (A \<union> B) \<and>
     free_pages fl' = free_pages fl - pages a b \<and> (\<Union>x \<in> B. rng x) = pages a b"
  using assms by (rule reserve_ok)

theorem reserve_spec_witness:
  "\<exists>fl' B. mm_ok (reserve 0x80000 0xA8000 (mm_init blank_mm)) fl' B \<and>
     free_pages fl' = {..<PAGE_NUM} - {128..167} \<and> (\<Union>x \<in> B. rng x) = {128..167}"
proof -
  have p: "pages 0x80000 0xA8000 = {128..167}" by (simp add: pages_def)
  have "pages 0x80000 0xA8000 \<subseteq> free_pages (init_fl 30)" unfolding p free_pages_init PAGE_NUM_eq by auto
  from reserve_spec [OF mm_init_ok [of blank_mm] strict_mm_init _ _ this] show ?thesis
    unfolding p free_pages_init MEMORY_SIZE_def Un_empty_left by fastforce
qed

text \<open>The boot sequence of \<open>main\<close> establishes the heap invariant: with the spin tables, the kernel,
  the initramfs and the device tree in memory and on different pages, no page of any of them is
  under the allocator's control.\<close>

theorem boot_establishes_heap:
  assumes "boot_layout_ok L c e d n"
  shows "heap_inv L (free_at_boot L c e d n) (kernel_memory_init L c e d n s) []"
  using assms by (rule kernel_memory_init_ok)

theorem boot_establishes_heap_witness: "heap_inv board board_pages board_heap []"
  unfolding board_pages_def board_heap_def
  by (rule boot_establishes_heap) (simp add: boot_layout_ok_def boot_ranges_def board_def)

text \<open>The start-up allocator: any sequence of \<open>simple_alloc\<close> requests gives pairwise disjoint blocks
  between \<open>__bss_end\<close> and \<open>__stack_top\<close>.\<close>

theorem simple_alloc_disjoint:
  assumes "0 < bss_end L" "heap_ptr s = NULL"
  shows "\<exists>s' H. serve (\<lambda>n s. Some (simple_alloc L n s)) put (map Get ns) s [] = Some (s', H) \<and>
     sorted_wrt (\<lambda>(p, n) (q, m). apart (p, unat n) (q, unat m)) H \<and>
     (\<forall>(p, k) \<in> set H. bytes (p, unat k) \<subseteq> {bss_end L ..< stack_top L})"
  by (rule simple_alloc.gets_disjoint) (simp add: simple_inv_def assms)

theorem simple_alloc_disjoint_witness:
  "\<exists>s' H. serve (\<lambda>n s. Some (simple_alloc board n s)) (\<lambda>_. Some) (map Get [16, 0x20000, 32]) blank_heap [] =
       Some (s', H) \<and>
     sorted_wrt (\<lambda>(p, n) (q, m). apart (p, unat n) (q, unat m)) H \<and>
     (\<forall>(p, k) \<in> set H. bytes (p, unat k) \<subseteq> {0x98000 ..< 0xA8000})"
  using simple_alloc_disjoint [of board blank_heap "\<lambda>_. Some" "[16, 0x20000, 32]"]
  by (simp add: board_def blank_heap_def)

section \<open>Strings and numbers\<close>

text \<open>\<open>strcmp\<close> of two terminated strings returns, and returns 0 exactly when they are equal.\<close>

theorem strcmp_spec:
  assumes "cstr m p s" "cstr m q t"
  shows "\<exists>r. strcmp m p q = Some r \<and> (r = 0 \<longleftrightarrow> s = t)"
  using strcmp_eq [OF assms] strcmp_zero [OF assms] by auto

theorem strcmp_spec_witness:
  "\<exists>r. strcmp (\<lambda>a. if a = 5 then 65 else 0) 5 9 = Some r \<and> r \<noteq> 0"
  using strcmp_spec [of "\<lambda>a. if a = 5 then 65 else 0" 5 "[65]" 9 "[]"] by auto

text \<open>C38: \<open>strtok\<close> on a non-empty string returns its start, cuts it after the longest prefix without the
  delimiter, writes nowhere else, and leaves its static pointer at the string of what follows.\<close>

theorem strtok_spec:
  assumes "cstr m p s" "s \<noteq> []" "p \<noteq> NULL" "delim \<noteq> 0"
  shows "\<exists>s'. strtok p delim \<lparr>st_mem = m, st_p = q\<rparr> = Some (p, s') \<and>
     cstr (st_mem s') p (takeWhile (\<lambda>c. c \<noteq> delim) s) \<and>
     cstr (st_mem s') (st_p s') (drop (Suc (length (takeWhile (\<lambda>c. c \<noteq> delim) s))) s) \<and>
     (\<forall>a. a < p \<or> p + length s < a \<longrightarrow> st_mem s' a = m a)"
  using assms by (rule strtok_first)

theorem strtok_spec_witness:
  "\<exists>s'. strtok 100 0x20 \<lparr>st_mem = (\<lambda>a. if a = 100 then 0x6C else if a = 101 then 0x20 else if a = 102 then 0x61 else 0),
       st_p = 0\<rparr> = Some (100, s') \<and> cstr (st_mem s') 100 [0x6C] \<and> cstr (st_mem s') (st_p s') [0x61]"
  using strtok_spec [of "\<lambda>a. if a = 100 then 0x6C else if a = 101 then 0x20 else if a = 102 then 0x61 else 0"
      100 "[0x6C, 0x20, 0x61]" "0x20" 0] by auto

text \<open>\<open>strdup\<close>: when the allocation succeeds with a block away from the original, the result is
  that block, it holds a copy of the string, and no byte outside it has changed.\<close>

theorem strdup_spec:
  assumes "cstr m p cs" "length cs < 2 ^ 32 - 1"
    and "alloc (of_nat (length cs) + 1) h = Some (d, h')" "d \<noteq> NULL"
    and "d + length cs < p \<or> p + length cs < d"
  shows "\<exists>m'. strdup p (h, m) = Some (d, h', m') \<and> cstr m' d cs \<and> cstr m' p cs \<and>
     (\<forall>x. x < d \<or> d + length cs < x \<longrightarrow> m' x = m x)"
  using assms by (rule strdup_eq)

theorem strdup_spec_witness:
  "\<exists>d h'. alloc 1 board_heap = Some (d, h') \<and>
     (d \<noteq> NULL \<longrightarrow> (\<exists>m'. strdup 0 (board_heap, \<lambda>_. 0) = Some (d, h', m') \<and> cstr m' d []))"
proof -
  obtain d h' where a: "alloc 1 board_heap = Some (d, h')"
    using heap_inv_alloc [OF board_heap_inv] by blast
  then show ?thesis using strdup_spec [of "\<lambda>_. 0" 0 "[]" board_heap d h'] by auto
qed

text \<open>\<open>hex_to_uint\<close> reads up to 8 hexadecimal digits as the number they denote.\<close>

theorem hex_to_uint_spec:
  assumes "\<forall>i < length s. m (p + i) = s ! i" "length s \<le> 8"
  shows "unat (hex_to_uint m p (of_nat (length s))) = hex_value s"
proof -
  have "hex_value s < 16 ^ length s" by (rule hex_value_bound)
  also have "(16::nat) ^ length s \<le> 16 ^ 8" using assms(2) by (intro power_increasing) auto
  finally have "hex_value s < 2 ^ 32" by simp
  moreover have "length s < 2 ^ 32" using assms(2) by simp
  ultimately show ?thesis using hex_to_uint_eq [OF assms(1)] by (simp add: unat_of_nat)
qed

theorem hex_to_uint_spec_witness:
  "unat (hex_to_uint (\<lambda>a. if a = 7 then 0x31 else if a = 8 then 0x41 else 0x33) 7 3) = 419"
  using hex_to_uint_spec [of "[0x31, 0x41, 0x33]" "\<lambda>a. if a = 7 then 0x31 else if a = 8 then 0x41 else 0x33" 7]
  by (simp add: hex_value_def hex_digit_def nth_Cons split: nat.split)

text \<open>C39: \<open>itoa\<close> of every \<open>int\<close> but the least one writes its decimal representation and a NUL at the start
  of its 12-byte buffer.\<close>

theorem itoa_spec:
  assumes "- (2 ^ 31) < n" "n < 2 ^ 31" "length buf = 12"
  shows "length (int_string n) < 12 \<and>
     itoa n buf = Some (int_string n @ 0 # drop (Suc (length (int_string n))) buf)"
  using itoa_eq [OF assms] by simp

theorem itoa_spec_witness: "itoa (-42) (replicate 12 7) = Some [0x2D, 0x34, 0x32, 0, 7, 7, 7, 7, 7, 7, 7, 7]"
proof -
  have "int_string (-42) = [0x2D, 0x34, 0x32]" by (simp add: int_string_def decimal.simps)
  moreover have "replicate 8 (7 :: byte) = [7, 7, 7, 7, 7, 7, 7, 7]" by (simp add: eval_nat_numeral)
  ultimately show ?thesis using itoa_spec [of "-42" "replicate 12 7"] by simp
qed

text \<open>C40: \<open>atoi\<close> reads back the decimal representation of every number whose last step cannot overflow.\<close>

theorem atoi_itoa:
  assumes "0 \<le> n" "n < 2 ^ 31 - 48" "length buf = 12" "itoa n buf = Some buf'"
    and "\<forall>i < 12. m (p + i) = buf' ! i"
  shows "atoi m p = Some n"
proof -
  have e: "length (int_string n) < 12" "buf' = int_string n @ 0 # drop (Suc (length (int_string n))) buf"
    using itoa_eq [of n buf] assms(1-4) by auto
  have d: "int_string n = decimal (nat n)" using assms(1) by (simp add: int_string_def)
  have "0 \<notin> set (decimal k)" for k
  proof (induction k rule: less_induct)
    case (less k)
    have "(of_nat (j + 0x30) :: byte) \<noteq> 0" if "j < 10" for j
    proof -
      have "unat (of_nat (j + 0x30) :: byte) \<noteq> 0" using that by (simp add: unat_of_nat del: of_nat_add)
      then show ?thesis by (metis unat_0)
    qed
    then show ?case using less by (subst decimal.simps) (auto simp del: of_nat_add)
  qed
  then have "cstr m p (decimal (nat n))"
    using assms(5) e unfolding d cstr_def by (auto simp: nth_append)
  then have "atoi m p = Some (int (nat n))" using assms(2) by (intro atoi_eq) simp_all
  then show ?thesis using assms(1) by simp
qed

theorem atoi_itoa_witness:
  "\<exists>buf'. itoa 7 (replicate 12 0) = Some buf' \<and> atoi (\<lambda>a. if a < 12 then buf' ! a else 0) 0 = Some 7"
proof -
  have i: "int_string 7 = [0x37]" by (simp add: int_string_def decimal.simps)
  have "itoa 7 (replicate 12 0) = Some (int_string 7 @ 0 # drop (Suc (length (int_string 7))) (replicate 12 0))"
    by (rule itoa_eq(2)) simp_all
  then obtain buf' where b: "itoa 7 (replicate 12 0) = Some buf'" by blast
  have "atoi (\<lambda>a. if a < 12 then buf' ! a else 0) 0 = Some 7"
  proof (rule atoi_itoa [OF _ _ _ b])
    show "(0::int) \<le> 7" by simp
    show "(7::int) < 2 ^ 31 - 48" by simp
    show "length (replicate 12 (0::byte)) = 12" by (rule length_replicate)
    show "\<forall>i < 12. (if 0 + i < 12 then buf' ! (0 + i) else 0) = buf' ! i" unfolding add_0 by auto
  qed
  then show ?thesis using b by blast
qed

text \<open>\<open>be2le_u32\<close> reverses the four bytes of a word; doing it twice changes nothing.\<close>

theorem be2le_reverses:
  "be2le_u32 (be2le_u32 x) = x \<and>
   (\<forall>n. n < 32 \<longrightarrow> bit (be2le_u32 x) n = bit x (8 * (3 - n div 8) + n mod 8))"
  using be2le_involution be2le_bit by blast

theorem be2le_reverses_witness: "bit (be2le_u32 0x80000000) 7 = bit (0x80000000 :: u32) 31"
  using be2le_reverses [of "0x80000000"] by fastforce

text \<open>\<open>align\<close> to a power of two gives its least multiple not below \<open>n\<close>, unless that is beyond 32 bits.\<close>

theorem align_spec:
  assumes "k < 32" "unat n + 2 ^ k \<le> 2 ^ 32"
  shows "2 ^ k dvd unat (align n (2 ^ k)) \<and> unat n \<le> unat (align n (2 ^ k)) \<and>
     unat (align n (2 ^ k)) < unat n + 2 ^ k"
  using align_least [OF assms] by blast

theorem align_spec_witness: "unat (align 110 4) = 112"
  using align_spec [of 2 110] by (simp add: dvd_def) presburger

section \<open>Tasks and timers\<close>

text \<open>C32: \<open>add_task\<close>, with the queue and the heap in order, returns. The queue is as before if, and only if, the allocation gives \<open>NULL\<close>;
  otherwise the allocated task, with its callback and its priority, stands in the queue before the first task whose priority number is not
  smaller. Every other task keeps its place and its callback, the queue is sorted, and the heap is the one \<open>alloc\<close> left.\<close>

theorem add_task_spec:
  assumes "tasks_ok L M s R xs"
  shows "\<exists>s'. add_task cb prio s = Some s' \<and> tk_heap s' = snd (the (alloc TASK_SIZE (tk_heap s))) \<and>
     (\<forall>x \<in> set xs. t_callback (tk_node s' x) = t_callback (tk_node s x)) \<and>
     (fst (the (alloc TASK_SIZE (tk_heap s))) = NULL \<and> tasks_ok L M s' R xs \<and> task_prio s' = task_prio s \<or>
      (\<exists>n l. n = fst (the (alloc TASK_SIZE (tk_heap s))) \<and> n \<noteq> NULL \<and>
         n \<notin> set xs \<and> tasks_ok L M s' ((n, l) # R) (insert_before (task_prio s') n xs) \<and>
         task_prio s' = (task_prio s)(n := prio) \<and> t_callback (tk_node s' n) = cb))"
  using add_task_ok [OF assms] by blast

theorem add_task_spec_witness:
  "\<exists>s' n l. add_task 3 0 board_tasks = Some s' \<and> tasks_ok board board_pages s' [(n, l)] [n] \<and> t_callback (tk_node s' n) = 3"
proof -
  have "fst (the (alloc TASK_SIZE (tk_heap board_tasks))) \<noteq> NULL"
    using board_alloc_some [of TASK_SIZE] by (simp add: board_tasks_def)
  then show ?thesis using add_task_spec [OF board_tasks_ok, of 3 0] by (fastforce simp: insert_before_def)
qed

text \<open>Tasks that are queued one after the other and then taken one after the other come out in the
  order of their priorities, each exactly once.\<close>

theorem tasks_drain_sorted:
  assumes "task_head s = None" "distinct ns"
  shows "\<exists>s1 s2 ys. put_all task_insert ns s = Some s1 \<and> take_all task_take (length ns) s1 = Some (ys, s2) \<and>
     set ys = set ns \<and> distinct ys \<and> sorted (map (task_prio s) ys) \<and> task_head s2 = None"
proof -
  have "task_list s []" using assms(1) by (simp add: task_list_def)
  from task_queue.drain_sorted [OF this assms(2)] show ?thesis by (simp add: task_list_def)
qed

theorem tasks_drain_sorted_witness:
  "\<exists>s1 s2 ys. put_all task_insert [8, 16, 24] board_tasks = Some s1 \<and>
     take_all task_take 3 s1 = Some (ys, s2) \<and> set ys = {8, 16, 24}"
  using tasks_drain_sorted [of board_tasks "[8, 16, 24]"] by (auto simp: board_tasks_def numeral_eq_Suc)

text \<open>\<open>execute_task\<close> takes the first task off the queue, runs its callback on the rest and frees the
  task; if the callback keeps queue and heap in order, so does \<open>execute_task\<close>, and what else the callback
  establishes of the kernel's state (\<open>P\<close>) still holds.\<close>

theorem execute_task_spec:
  assumes "tasks_ok L M s ((x, l) # R) (x # xs)" "0 < l"
    and "\<And>s1. tasks_ok L M s1 ((x, l) # R) xs \<Longrightarrow>
       \<exists>s2 w2 R' ys. run (t_callback (tk_node s x)) (s1, w) = Some (s2, w2) \<and>
         tasks_ok L M s2 ((x, l) # R' @ R) ys \<and> x \<notin> set ys \<and> P w2 R' ys"
  shows "\<exists>s' w2 R' ys. execute_task L run (s, w) = Some (s', w2) \<and> tasks_ok L M s' (R' @ R) ys \<and> P w2 R' ys"
  using assms by (rule execute_task_ok)

theorem execute_task_spec_witness:
  "\<exists>s. add_task 3 0 board_tasks = Some s \<and>
     (\<forall>n. task_head s = Some n \<longrightarrow>
        (\<exists>s' R ys. execute_task board (\<lambda>c (s, w). Some (s, w + c)) (s, 1) = Some (s', 4) \<and>
           tasks_ok board board_pages s' R ys))"
proof -
  obtain s where s: "add_task 3 0 board_tasks = Some s"
    "tasks_ok board board_pages s [] [] \<or>
       (\<exists>n l. tasks_ok board board_pages s [(n, l)] [n] \<and> t_callback (tk_node s n) = 3)"
    using add_task_ok [OF board_tasks_ok, of 3 0] by fastforce
  have "\<exists>s' R ys. execute_task board (\<lambda>c (s, w). Some (s, w + c)) (s, 1) = Some (s', 4) \<and>
      tasks_ok board board_pages s' R ys"
    if h: "task_head s = Some n" for n
  proof -
    have "\<not> tasks_ok board board_pages s [] []" using h by (auto simp: tasks_ok_def task_list_def)
    then obtain m l where m: "tasks_ok board board_pages s [(m, l)] [m]" "t_callback (tk_node s m) = 3"
      using s(2) by blast
    then have "0 < l" by (auto simp: tasks_ok_def)
    then show ?thesis
      using execute_task_spec [OF m(1), of "\<lambda>c (s, w). Some (s, w + c)" 1 "\<lambda>w R ys. w = 4"] m(2) by fastforce
  qed
  then show ?thesis using s(1) by blast
qed

text \<open>C33: \<open>add_timer\<close> of a message that fits returns. It does nothing more if, and only if, the allocation gives \<open>NULL\<close>; otherwise
  the allocated timer expires \<open>tick\<close>
  ticks after now, stands in the list in the order of expiration, holds a copy of the message, the
  timer interrupt is enabled, and the hardware is set to \<open>tick\<close> if the new timer is the first. In both cases the heap is the one \<open>alloc\<close> left.\<close>

theorem add_timer_spec:
  assumes "timers_ok L M s R xs" "short_string M (tm_mem s) msg z"
  shows "\<exists>s'. add_timer clk cb msg tick s = Some s' \<and> tm_heap s' = snd (the (alloc TIMER_SIZE (tm_heap s))) \<and>
     (fst (the (alloc TIMER_SIZE (tm_heap s))) = NULL \<and> timers_ok L M s' R xs \<and> timer_key s' = timer_key s \<or>
      (\<exists>n l. n = fst (the (alloc TIMER_SIZE (tm_heap s))) \<and> n \<noteq> NULL \<and>
         n \<notin> set xs \<and> timers_ok L M s' ((n, l) # R) (insert_before (timer_key s') n xs) \<and>
         timer_key s' = (timer_key s)(n := clk (tm_reads s) + tick) \<and>
         tm_callback (tm_node s' n) = cb \<and> cstr (tm_mem s') (n + MSG_OFFSET) z \<and>
         tm_irq s' \<and> (timer_head s' = Some n \<longrightarrow> tm_tval s' = tick)))"
  using add_timer_ok [OF assms, of clk cb tick] by blast

theorem add_timer_spec_witness:
  "\<exists>s' n l. add_timer (\<lambda>i. of_nat i) Print_msg 0 500 board_timers = Some s' \<and>
     timers_ok board board_pages s' [(n, l)] [n] \<and> tm_irq s' \<and> tm_tval s' = 500"
proof -
  have z: "short_string board_pages (tm_mem board_timers) 0 []"
    using board_page_0 by (simp add: short_string_def board_timers_def)
  have "fst (the (alloc TIMER_SIZE (tm_heap board_timers))) \<noteq> NULL"
    using board_alloc_some [of TIMER_SIZE] by (simp add: board_timers_def)
  then obtain s' n l where "add_timer (\<lambda>i. of_nat i) Print_msg 0 500 board_timers = Some s'"
    "timers_ok board board_pages s' [(n, l)] (insert_before (timer_key s') n [])" "tm_irq s'" "timer_head s' = Some n \<longrightarrow> tm_tval s' = 500"
    using add_timer_spec [OF board_timers_ok z, of "\<lambda>i. of_nat i" Print_msg 500] by fastforce
  moreover from this have "timer_head s' = Some n" by (simp add: insert_before_def timers_ok_def timer_list_def)
  ultimately show ?thesis by (auto simp: insert_before_def)
qed



text \<open>C37: A defect: when the handler runs, no timer has expired and \<open>need_schedule\<close> is not set, it returns with the timer interrupt
  disabled, although timers may be waiting: it has run no callback, does not go on to \<open>schedule\<close>, and the timers are as before. Of the code
  that runs later, only \<open>add_timer\<close> and \<open>schedule\<close> enable the interrupt again.\<close>

theorem timer_handler_spurious:
  assumes "timers_ok L M s R xs" "\<forall>x \<in> set xs. clk (tm_reads s) < timer_key s x" "\<not> need_schedule s"
  shows "\<exists>s'. core_timer_handler L clk freq s = Some (False, s') \<and> \<not> tm_irq s' \<and> timers_ok L M s' R xs \<and> tm_calls s' = tm_calls s"
  using assms by (rule handler_spurious)

theorem timer_handler_spurious_witness:
  "\<exists>s'. core_timer_handler board (\<lambda>_. 1000) 256 board_timers = Some (False, s') \<and> \<not> tm_irq s'"
  using timer_handler_spurious [OF board_timers_ok, of "\<lambda>_. 1000" 256] by (auto simp: board_timers_def)

end
